(* ===== verification/Prelude.thy ===== *)
theory Prelude
  imports Main
begin

text \<open>
  Shared vocabulary of the development: bytes and fallible results, the \<open>size_t\<close> and
  \<open>int\<close> arithmetic of the target (LP64, two's complement), the C and C++ library
  routines the sources call (\<open>std::find\<close>, \<open>std::search\<close>, block copies, \<open>snprintf\<close>
  conversions, \<open>isspace\<close>), and the generic list lemmas the components share.
\<close>

named_theorems size_simps \<open>size_t arithmetic that does not wrap\<close>
named_theorems copy_simps \<open>block copies into a byte array\<close>

section \<open>Bytes and results\<close>

type_synonym bytes = "char list"

text \<open>What stops a C++ run: an access outside an object, an exception of the library, the use
  of a null or dangling pointer or of an empty \<open>std::function\<close>, a signed overflow, a function left
  without its return value, or \<open>abort\<close> after \<open>LOG_FATAL\<close>.\<close>

datatype cpp_error =
    OutOfBounds
  | LengthError
  | NullDeref
  | UseAfterFree
  | BadFunctionCall
  | IntOverflow
  | NoReturn
  | Abort

type_synonym 'a res = "cpp_error + 'a"

fun bindR :: "'e + 'a \<Rightarrow> ('a \<Rightarrow> 'e + 'b) \<Rightarrow> 'e + 'b" where
  "bindR (Inl e) f = Inl e"
| "bindR (Inr a) f = f a"

lemma bindR_Inr_iff: "bindR m f = Inr y \<longleftrightarrow> (\<exists>x. m = Inr x \<and> f x = Inr y)"
  by (cases m) auto

section \<open>Machine arithmetic\<close>

text \<open>\<open>size_t\<close> is a \<open>nat\<close> below \<open>2 ^ 64\<close>; its sums and differences wrap.\<close>

definition size_add :: "nat \<Rightarrow> nat \<Rightarrow> nat" where
  "size_add a b = (a + b) mod 2 ^ 64"

definition size_sub :: "nat \<Rightarrow> nat \<Rightarrow> nat" where
  "size_sub a b = (a + 2 ^ 64 - b mod 2 ^ 64) mod 2 ^ 64"

text \<open>Conversions between \<open>size_t\<close> and \<open>int\<close>: narrowing keeps the low 32 bits and reads
  them as two's complement, widening sign-extends to 64 bits.\<close>

definition int_of_size :: "nat \<Rightarrow> int" where
  "int_of_size n = (let m = n mod 2 ^ 32 in if m < 2 ^ 31 then int m else int m - 2 ^ 32)"

definition size_of_int :: "int \<Rightarrow> nat" where
  "size_of_int i = nat (i mod 2 ^ 64)"

lemma size_add_exact [size_simps]: "a + b < 2 ^ 64 \<Longrightarrow> size_add a b = a + b"
  by (simp add: size_add_def)

lemma size_sub_exact [size_simps]: "b \<le> a \<Longrightarrow> a < 2 ^ 64 \<Longrightarrow> size_sub a b = a - b"
proof -
  assume "b \<le> a" and "a < 2 ^ 64"
  then have "a + 2 ^ 64 - b mod 2 ^ 64 = (a - b) + 2 ^ 64" and "a - b < 2 ^ 64"
    by simp_all
  then show ?thesis by (simp add: size_sub_def)
qed

text \<open>\<open>int64_t\<close> in two's complement. Signed overflow is undefined in the language; the wrap-around written
  here is what compilers produce for a single addition or subtraction.\<close>

definition int64 :: "int \<Rightarrow> int" where
  "int64 i = (i + 2 ^ 63) mod 2 ^ 64 - 2 ^ 63"

lemma int64_exact [simp]: "- (2 ^ 63) \<le> i \<Longrightarrow> i < 2 ^ 63 \<Longrightarrow> int64 i = i"
  by (simp add: int64_def)

lemma int64_range: "- (2 ^ 63) \<le> int64 i \<and> int64 i < 2 ^ 63"
  using pos_mod_bound [of "2 ^ 64" "i + 2 ^ 63"] by (simp add: int64_def)

lemma int_of_size_exact [size_simps]: "n < 2 ^ 31 \<Longrightarrow> int_of_size n = int n"
  by (simp add: int_of_size_def Let_def)

lemma size_of_int_exact [size_simps]: "n < 2 ^ 64 \<Longrightarrow> size_of_int (int n) = n"
  by (simp add: size_of_int_def mod_pos_pos_trivial)

section \<open>Block copies\<close>

text \<open>\<open>std::copy\<close> and \<open>memcpy\<close> of \<open>src\<close> to offset \<open>at\<close> of an array.\<close>

definition overwrite :: "'a list \<Rightarrow> nat \<Rightarrow> 'a list \<Rightarrow> 'a list" where
  "overwrite xs at src = take at xs @ src @ drop (at + length src) xs"

lemma length_overwrite [copy_simps]:
  "at + length src \<le> length xs \<Longrightarrow> length (overwrite xs at src) = length xs"
  by (simp add: overwrite_def)

lemma take_overwrite [copy_simps]:
  "at \<le> length xs \<Longrightarrow> n \<le> at \<Longrightarrow> take n (overwrite xs at src) = take n xs"
  by (simp add: overwrite_def min_def)

lemma overwrite_slice [copy_simps]:
  "at \<le> length xs \<Longrightarrow> take (length src) (drop at (overwrite xs at src)) = src"
  by (simp add: overwrite_def)

lemma overwrite_extend:
  assumes "r \<le> at" "at \<le> length xs"
  shows "take (at + length src - r) (drop r (overwrite xs at src))
    = take (at - r) (drop r xs) @ src"
proof -
  have "drop r (overwrite xs at src)
      = drop r (take at xs) @ src @ drop (at + length src) xs"
    using assms by (simp add: overwrite_def)
  moreover have "length (drop r (take at xs)) = at - r"
    using assms by simp
  ultimately show ?thesis
    using assms by (simp add: drop_take)
qed

section \<open>Searching\<close>

text \<open>\<open>std::find(first, last, c)\<close> and \<open>std::search(first, last, pat, pat_end)\<close> on a range,
  as the offset of the result from \<open>first\<close>; not found is the length of the range.\<close>

fun std_find :: "'a \<Rightarrow> 'a list \<Rightarrow> nat" where
  "std_find c [] = 0"
| "std_find c (x # xs) = (if x = c then 0 else Suc (std_find c xs))"

fun is_prefix :: "'a list \<Rightarrow> 'a list \<Rightarrow> bool" where
  "is_prefix [] ys = True"
| "is_prefix (x # xs) [] = False"
| "is_prefix (x # xs) (y # ys) = (x = y \<and> is_prefix xs ys)"

fun std_search :: "'a list \<Rightarrow> 'a list \<Rightarrow> nat" where
  "std_search pat [] = 0"
| "std_search pat (x # xs) =
     (if is_prefix pat (x # xs) then 0 else Suc (std_search pat xs))"

lemma std_find_append:
  "std_find c (xs @ ys)
    = (if c \<in> set xs then std_find c xs else length xs + std_find c ys)"
  by (induction xs) auto

lemma std_find_length_iff: "std_find c xs = length xs \<longleftrightarrow> c \<notin> set xs"
  by (induction xs) auto

lemma std_find_notin [simp]: "c \<notin> set xs \<Longrightarrow> std_find c xs = length xs"
  by (simp add: std_find_length_iff)

lemma is_prefix_iff: "is_prefix xs ys \<longleftrightarrow> (\<exists>zs. ys = xs @ zs)"
  by (induction xs ys rule: is_prefix.induct) auto

lemma is_prefix_length: "is_prefix xs ys \<Longrightarrow> length xs \<le> length ys"
  by (auto simp: is_prefix_iff)

lemma std_search_le: "std_search pat xs \<le> length xs"
  by (induction xs) auto

lemma std_search_found:
  "std_search pat xs < length xs \<Longrightarrow>
   std_search pat xs + length pat \<le> length xs"
proof (induction xs)
  case Nil
  then show ?case by simp
next
  case (Cons x xs)
  then show ?case
    by (auto dest: is_prefix_length split: if_splits)
qed

section \<open>Library conversions\<close>

text \<open>\<open>isspace\<close> in the C locale.\<close>

definition is_space :: "char \<Rightarrow> bool" where
  "is_space c \<longleftrightarrow> c = CHR '' '' \<or> c = CHR 0x09 \<or> c = CHR 0x0A \<or> c = CHR 0x0B
     \<or> c = CHR 0x0C \<or> c = CHR 0x0D"

text \<open>The bytes of a \<open>char*\<close> up to its terminator.\<close>

definition c_str :: "bytes \<Rightarrow> bytes" where
  "c_str s = takeWhile (\<lambda>c. c \<noteq> CHR 0x00) s"

lemma c_str_prefix: "CHR 0x00 \<notin> set s \<Longrightarrow> c_str (s @ CHR 0x00 # t) = s"
  by (induction s) (auto simp: c_str_def)

lemma c_str_no_nul: "CHR 0x00 \<notin> set (c_str s)"
  by (auto simp: c_str_def dest: set_takeWhileD)

lemma c_str_id: "CHR 0x00 \<notin> set s \<Longrightarrow> c_str s = s"
  unfolding c_str_def by (rule takeWhile_eq_all_conv [THEN iffD2]) auto

text \<open>\<open>snprintf\<close> into an array of \<open>n\<close> bytes keeps \<open>n - 1\<close> characters of the output.\<close>

definition snprintf_buf :: "nat \<Rightarrow> bytes \<Rightarrow> bytes" where
  "snprintf_buf n s = take (n - 1) s"

definition digit_char :: "nat \<Rightarrow> char" where
  "digit_char d = char_of (48 + d)"

text \<open>The conversions \<open>%d\<close>, \<open>%u\<close> and \<open>%0wd\<close>.\<close>

fun fmt_nat :: "nat \<Rightarrow> bytes" where
  "fmt_nat n = (if n < 10 then [digit_char n] else fmt_nat (n div 10) @ [digit_char (n mod 10)])"

declare fmt_nat.simps [simp del]

definition fmt_int :: "int \<Rightarrow> bytes" where
  "fmt_int i = (if i < 0 then CHR ''-'' # fmt_nat (nat (- i)) else fmt_nat (nat i))"

definition fmt_pad :: "nat \<Rightarrow> bytes \<Rightarrow> bytes" where
  "fmt_pad w s = replicate (w - length s) (CHR ''0'') @ s"

text \<open>Reading decimal digits back, the inverse used in round trips.\<close>

definition read_digits :: "bytes \<Rightarrow> nat" where
  "read_digits s = foldl (\<lambda>a c. 10 * a + (of_char c - 48)) 0 s"

lemma of_char_digit [simp]: "d < 10 \<Longrightarrow> of_char (digit_char d) = (48 + d :: nat)"
  by (simp add: digit_char_def of_char_of)

lemma digit_char_simps [simp]:
  "digit_char 0 = CHR ''0''" "digit_char (Suc 0) = CHR ''1''" "digit_char 1 = CHR ''1''"
  "digit_char 2 = CHR ''2''" "digit_char 3 = CHR ''3''" "digit_char 4 = CHR ''4''"
  "digit_char 5 = CHR ''5''" "digit_char 6 = CHR ''6''" "digit_char 7 = CHR ''7''"
  "digit_char 8 = CHR ''8''" "digit_char 9 = CHR ''9''"
  by (simp_all add: digit_char_def char_of_def bit_0)

lemma fmt_nat_nonempty [simp]: "fmt_nat n \<noteq> []"
  by (subst fmt_nat.simps) simp

lemma read_digits_fmt_nat: "read_digits (fmt_nat n) = n"
proof (induction n rule: fmt_nat.induct)
  case (1 n)
  show ?case
  proof (cases "n < 10")
    case True
    then show ?thesis by (simp add: fmt_nat.simps [of n] read_digits_def)
  next
    case False
    with "1.IH" have "read_digits (fmt_nat (n div 10)) = n div 10" by simp
    with False show ?thesis by (simp add: fmt_nat.simps [of n] read_digits_def)
  qed
qed

lemma fmt_nat_inj: "fmt_nat m = fmt_nat n \<longleftrightarrow> m = n"
  by (metis read_digits_fmt_nat)

lemma set_fmt_nat: "set (fmt_nat n) \<subseteq> digit_char ` {0..<10}"
proof (induction n rule: fmt_nat.induct)
  case (1 n)
  show ?case
  proof (cases "n < 10")
    case True
    then show ?thesis by (subst fmt_nat.simps) auto
  next
    case False
    with "1.IH" have "set (fmt_nat (n div 10)) \<subseteq> digit_char ` {0..<10}" by simp
    with False show ?thesis by (subst fmt_nat.simps) auto
  qed
qed

lemma fmt_nat_range: "c \<in> set (fmt_nat n) \<Longrightarrow> 48 \<le> (of_char c :: nat) \<and> of_char c < (58 :: nat)"
  using set_fmt_nat [of n] by auto

lemma length_fmt_nat_le: "n < 10 ^ k \<Longrightarrow> 0 < k \<Longrightarrow> length (fmt_nat n) \<le> k"
proof (induction n arbitrary: k rule: fmt_nat.induct)
  case (1 n)
  show ?case
  proof (cases "n < 10")
    case True
    with "1.prems" show ?thesis by (subst fmt_nat.simps) simp
  next
    case False
    with "1.prems" obtain j where k: "k = Suc j" and "0 < j"
      by (cases k; cases "k - 1") auto
    with "1.prems" have "n div 10 < 10 ^ j"
      by (simp add: less_mult_imp_div_less mult.commute)
    with "1.IH" False \<open>0 < j\<close> have "length (fmt_nat (n div 10)) \<le> j" by simp
    with False k show ?thesis by (subst fmt_nat.simps) simp
  qed
qed

lemma nth_update: "xs[i := x] ! j = (if j = i \<and> i < length xs then x else xs ! j)"
  by (cases "i < length xs") (auto simp: nth_list_update list_update_beyond)

end
