(* ===== verification/Poller.thy ===== *)
theory Poller
  imports Prelude "HOL-Library.Word"
begin

unbundle bit_operations_syntax

text \<open>
  Channels and the epoll poller (\<open>src/src/net/Channel.h\<close>, \<open>Channel.cc\<close>, \<open>src/src/net/poller/\<close>).
  Channel objects live in a heap indexed by their addresses; the poller keeps the map from
  descriptors to channels and the capacity of its event array. \<open>epoll_ctl\<close> and \<open>epoll_wait\<close> are
  arguments; the kernel's interest list is seen through a view, and the locale \<open>epoll_kernel\<close>
  states what \<open>epoll_ctl(2)\<close> documents. \<open>LOG_FATAL\<close> aborts.
\<close>

section \<open>Channels\<close>

definition EPOLLIN :: "32 word" where "EPOLLIN = 0x001"
definition EPOLLPRI :: "32 word" where "EPOLLPRI = 0x002"
definition EPOLLOUT :: "32 word" where "EPOLLOUT = 0x004"
definition EPOLLERR :: "32 word" where "EPOLLERR = 0x008"
definition EPOLLHUP :: "32 word" where "EPOLLHUP = 0x010"

lemmas epoll_flags = EPOLLIN_def EPOLLPRI_def EPOLLOUT_def EPOLLERR_def EPOLLHUP_def

definition kNoneEvent :: "32 word" where
  "kNoneEvent = 0"

definition kReadEvent :: "32 word" where
  "kReadEvent = EPOLLIN OR EPOLLPRI"

definition kWriteEvent :: "32 word" where
  "kWriteEvent = EPOLLOUT"

text \<open>The callbacks are represented by whether each \<open>std::function\<close> is set.\<close>

record channel =
  ch_fd :: int
  ch_events :: "32 word"
  ch_revents :: "32 word"
  ch_index :: int
  ch_tied :: bool
  ch_readCallback :: bool
  ch_writeCallback :: bool
  ch_closeCallback :: bool
  ch_errorCallback :: bool

definition Channel_new :: "int \<Rightarrow> channel" where
  "Channel_new fd = \<lparr>ch_fd = fd, ch_events = 0, ch_revents = 0, ch_index = -1, ch_tied = False,
     ch_readCallback = False, ch_writeCallback = False, ch_closeCallback = False,
     ch_errorCallback = False\<rparr>"

definition Channel_tie :: "channel \<Rightarrow> channel" where
  "Channel_tie c = c\<lparr>ch_tied := True\<rparr>"

definition isNoneEvent :: "channel \<Rightarrow> bool" where
  "isNoneEvent c \<longleftrightarrow> ch_events c = kNoneEvent"

definition isWriting :: "channel \<Rightarrow> bool" where
  "isWriting c \<longleftrightarrow> ch_events c AND kWriteEvent \<noteq> 0"

definition isReading :: "channel \<Rightarrow> bool" where
  "isReading c \<longleftrightarrow> ch_events c AND kReadEvent \<noteq> 0"

text \<open>What the five mode functions do to \<open>events_\<close> before they call \<open>update\<close>.\<close>

datatype mode = EnableReading | DisableReading | EnableWriting | DisableWriting | DisableAll

fun mode_events :: "mode \<Rightarrow> 32 word \<Rightarrow> 32 word" where
  "mode_events EnableReading e = e OR kReadEvent"
| "mode_events DisableReading e = e AND NOT kReadEvent"
| "mode_events EnableWriting e = e OR kWriteEvent"
| "mode_events DisableWriting e = e AND NOT kWriteEvent"
| "mode_events DisableAll e = e AND kNoneEvent"

datatype callback = ReadCallback | WriteCallback | CloseCallback | ErrorCallback

text \<open>The callbacks \<open>handleEventWithGuard\<close> invokes, in order.\<close>

definition handleEventWithGuard :: "channel \<Rightarrow> callback list" where
  "handleEventWithGuard c =
     (if ch_revents c AND EPOLLHUP \<noteq> 0 \<and> ch_revents c AND EPOLLIN = 0 \<and> ch_closeCallback c
      then [CloseCallback] else [])
     @ (if ch_revents c AND EPOLLERR \<noteq> 0 \<and> ch_errorCallback c then [ErrorCallback] else [])
     @ (if ch_revents c AND (EPOLLIN OR EPOLLPRI) \<noteq> 0 \<and> ch_readCallback c then [ReadCallback] else [])
     @ (if ch_revents c AND EPOLLOUT \<noteq> 0 \<and> ch_writeCallback c then [WriteCallback] else [])"

text \<open>\<open>alive\<close>: whether \<open>tie_.lock()\<close> still yields the owner.\<close>

definition Channel_handleEvent :: "bool \<Rightarrow> channel \<Rightarrow> callback list" where
  "Channel_handleEvent alive c =
     (if ch_tied c then (if alive then handleEventWithGuard c else []) else handleEventWithGuard c)"

section \<open>The poller\<close>

definition kNew :: int where "kNew = -1"
definition kAdded :: int where "kAdded = 1"
definition kDeleted :: int where "kDeleted = 2"

lemmas index_defs = kNew_def kAdded_def kDeleted_def

definition kInitEventListSize :: nat where
  "kInitEventListSize = 16"

datatype epoll_op = EPOLL_CTL_ADD | EPOLL_CTL_MOD | EPOLL_CTL_DEL

text \<open>An \<open>epoll_event\<close>: the mask and \<open>data.ptr\<close>.\<close>

type_synonym epoll_event = "32 word \<times> nat"

text \<open>\<open>epoll_ctl\<close>: whether the call succeeded, and the kernel's state after it.\<close>

type_synonym 'k epoll_ctl = "'k \<Rightarrow> epoll_op \<Rightarrow> int \<Rightarrow> epoll_event \<Rightarrow> bool \<times> 'k"

record 'k poller =
  pl_heap :: "nat \<Rightarrow> channel"
  pl_channels :: "int \<rightharpoonup> nat"
  pl_events_size :: nat
  pl_kernel :: 'k

definition EPollPoller_new :: "(nat \<Rightarrow> channel) \<Rightarrow> 'k \<Rightarrow> 'k poller" where
  "EPollPoller_new heap k = \<lparr>pl_heap = heap, pl_channels = Map.empty,
     pl_events_size = kInitEventListSize, pl_kernel = k\<rparr>"

text \<open>\<open>Poller::newDefaultPoller\<close>: with \<open>MUDUO_USE_POLL\<close> in the environment it returns a null pointer.\<close>

definition newDefaultPoller :: "bool \<Rightarrow> (nat \<Rightarrow> channel) \<Rightarrow> 'k \<Rightarrow> 'k poller option" where
  "newDefaultPoller usePoll heap k = (if usePoll then None else Some (EPollPoller_new heap k))"

definition set_index :: "nat \<Rightarrow> int \<Rightarrow> 'k poller \<Rightarrow> 'k poller" where
  "set_index p i s = s\<lparr>pl_heap := (pl_heap s)(p := (pl_heap s p)\<lparr>ch_index := i\<rparr>)\<rparr>"

definition hasChannel :: "nat \<Rightarrow> 'k poller \<Rightarrow> bool" where
  "hasChannel p s \<longleftrightarrow> pl_channels s (ch_fd (pl_heap s p)) = Some p"

definition EPollPoller_update ::
  "'k epoll_ctl \<Rightarrow> epoll_op \<Rightarrow> nat \<Rightarrow> 'k poller \<Rightarrow> 'k poller res"
where
  "EPollPoller_update ctl operation p s =
     (let c = pl_heap s p;
          (success, k') = ctl (pl_kernel s) operation (ch_fd c) (ch_events c, p);
          s' = s\<lparr>pl_kernel := k'\<rparr>
      in if \<not> success \<and> operation \<noteq> EPOLL_CTL_DEL then Inl Abort else Inr s')"

definition EPollPoller_updateChannel :: "'k epoll_ctl \<Rightarrow> nat \<Rightarrow> 'k poller \<Rightarrow> 'k poller res" where
  "EPollPoller_updateChannel ctl p s =
     (let index = ch_index (pl_heap s p)
      in if index = kNew \<or> index = kDeleted
         then let s1 = (if index = kNew
                        then s\<lparr>pl_channels := (pl_channels s)(ch_fd (pl_heap s p) \<mapsto> p)\<rparr>
                        else s)
              in EPollPoller_update ctl EPOLL_CTL_ADD p (set_index p kAdded s1)
         else if isNoneEvent (pl_heap s p)
              then bindR (EPollPoller_update ctl EPOLL_CTL_DEL p s) (\<lambda>s'. Inr (set_index p kDeleted s'))
              else EPollPoller_update ctl EPOLL_CTL_MOD p s)"

definition EPollPoller_removeChannel :: "'k epoll_ctl \<Rightarrow> nat \<Rightarrow> 'k poller \<Rightarrow> 'k poller res" where
  "EPollPoller_removeChannel ctl p s =
     (let s1 = s\<lparr>pl_channels := (pl_channels s)(ch_fd (pl_heap s p) := None)\<rparr>;
          index = ch_index (pl_heap s p)
      in bindR (if index = kAdded then EPollPoller_update ctl EPOLL_CTL_DEL p s1 else Inr s1)
           (\<lambda>s'. Inr (set_index p kNew s')))"

text \<open>\<open>enableReading\<close> and its siblings: change the mask, then \<open>Channel::update\<close>, which reaches
  \<open>EPollPoller::updateChannel\<close> through the loop.\<close>

definition Channel_set_mode :: "'k epoll_ctl \<Rightarrow> mode \<Rightarrow> nat \<Rightarrow> 'k poller \<Rightarrow> 'k poller res" where
  "Channel_set_mode ctl m p s =
     EPollPoller_updateChannel ctl p
       (s\<lparr>pl_heap := (pl_heap s)(p := (pl_heap s p)\<lparr>ch_events := mode_events m (ch_events (pl_heap s p))\<rparr>)\<rparr>)"

text \<open>The loop of \<open>fillActiveChannels\<close> over the first \<open>n\<close> entries of the event array.\<close>

fun fill_loop :: "epoll_event list \<Rightarrow> 'k poller \<Rightarrow> nat list \<times> 'k poller" where
  "fill_loop [] s = ([], s)"
| "fill_loop ((ev, p) # es) s =
     (let s1 = s\<lparr>pl_heap := (pl_heap s)(p := (pl_heap s p)\<lparr>ch_revents := ev\<rparr>)\<rparr>;
          (active, s') = fill_loop es s1
      in (p # active, s'))"

definition fillActiveChannels :: "int \<Rightarrow> epoll_event list \<Rightarrow> 'k poller \<Rightarrow> nat list \<times> 'k poller" where
  "fillActiveChannels numEvents events s = fill_loop (take (nat numEvents) events) s"

datatype poll_log = NoLog | LogTimeout | LogError

text \<open>\<open>poll\<close>: \<open>epoll_wait\<close> gets the capacity of the event array and returns a count (\<open>-1\<close> on an
  error) and the entries it stored. The count is held in a \<open>size_t\<close>, and passed on as \<open>int\<close>.\<close>

definition EPollPoller_poll ::
  "(nat \<Rightarrow> int \<times> epoll_event list) \<Rightarrow> bool \<Rightarrow> 'k poller \<Rightarrow> poll_log \<times> nat list \<times> 'k poller"
where
  "EPollPoller_poll epoll_wait eintr s =
     (let (n, events) = epoll_wait (pl_events_size s);
          numEvents = size_of_int n
      in if 0 < numEvents
         then let (active, s1) = fillActiveChannels (int_of_size numEvents) events s
              in (NoLog, active,
                  if numEvents = pl_events_size s1
                  then s1\<lparr>pl_events_size := pl_events_size s1 * 2\<rparr> else s1)
         else if numEvents = 0 then (LogTimeout, [], s)
         else (if eintr then NoLog else LogError, [], s))"

section \<open>Masks\<close>

lemma bit_nonzero: "bit (w :: 32 word) n \<Longrightarrow> w \<noteq> 0"
  by auto

lemma mode_events_bits:
  "mode_events EnableReading e AND kReadEvent \<noteq> 0"
  "mode_events DisableReading e AND kReadEvent = 0"
  "mode_events EnableWriting e AND kWriteEvent \<noteq> 0"
  "mode_events DisableWriting e AND kWriteEvent = 0"
  "mode_events DisableAll e = kNoneEvent"
proof -
  have bits: "bit kReadEvent 0" "bit kWriteEvent 2"
    by (simp_all add: kReadEvent_def kWriteEvent_def epoll_flags bit_simps)
  have "bit (mode_events EnableReading e AND kReadEvent) 0"
    "bit (mode_events EnableWriting e AND kWriteEvent) 2"
    using bits by (simp_all add: bit_simps)
  then show "mode_events EnableReading e AND kReadEvent \<noteq> 0"
    "mode_events EnableWriting e AND kWriteEvent \<noteq> 0"
    by (auto dest: bit_nonzero)
  show "mode_events DisableReading e AND kReadEvent = 0"
    "mode_events DisableWriting e AND kWriteEvent = 0"
    by (simp_all add: and.assoc)
  show "mode_events DisableAll e = kNoneEvent"
    by (simp add: kNoneEvent_def)
qed

text \<open>Changing the mode of a channel changes no callback.\<close>

definition same_callbacks :: "channel \<Rightarrow> channel \<Rightarrow> bool" where
  "same_callbacks ch ch' \<longleftrightarrow> ch_tied ch' = ch_tied ch \<and> ch_readCallback ch' = ch_readCallback ch
     \<and> ch_writeCallback ch' = ch_writeCallback ch \<and> ch_closeCallback ch' = ch_closeCallback ch
     \<and> ch_errorCallback ch' = ch_errorCallback ch"

lemma set_mode_callbacks: "Channel_set_mode ctl m p s = Inr s' \<Longrightarrow> same_callbacks (pl_heap s q) (pl_heap s' q)"
  by (auto simp: Channel_set_mode_def EPollPoller_updateChannel_def EPollPoller_update_def set_index_def bindR_Inr_iff Let_def
      same_callbacks_def split: if_splits prod.splits)

lemma set_mode_callback:
  "Channel_set_mode ctl m p s = Inr s' \<Longrightarrow> ch_readCallback (pl_heap s' q) = ch_readCallback (pl_heap s q)"
  by (drule set_mode_callbacks [of _ _ _ _ _ q]) (simp add: same_callbacks_def)

section \<open>Agreement between channels, poller and kernel\<close>

text \<open>
  A channel is new (unknown to both), added (mapped, and in the kernel with its current mask) or
  deleted (still mapped, not in the kernel). \<open>live\<close> is the set of channel objects in use, each
  with a descriptor of its own.
\<close>

definition chan_ok :: "('k \<Rightarrow> int \<rightharpoonup> epoll_event) \<Rightarrow> 'k poller \<Rightarrow> nat \<Rightarrow> bool" where
  "chan_ok interest s p \<longleftrightarrow>
     (let c = pl_heap s p; k = interest (pl_kernel s) (ch_fd c); m = pl_channels s (ch_fd c)
      in ch_index c = kAdded \<and> m = Some p \<and> k = Some (ch_events c, p)
       \<or> ch_index c = kDeleted \<and> m = Some p \<and> k = None
       \<or> ch_index c = kNew \<and> m = None \<and> k = None)"

definition poller_inv :: "('k \<Rightarrow> int \<rightharpoonup> epoll_event) \<Rightarrow> nat set \<Rightarrow> 'k poller \<Rightarrow> bool" where
  "poller_inv interest live s \<longleftrightarrow>
     inj_on (\<lambda>p. ch_fd (pl_heap s p)) live \<and> (\<forall>p \<in> live. chan_ok interest s p)"

text \<open>What an operation on \<open>p\<close> may touch: the object \<open>p\<close> (not its descriptor) and the entries of
  its descriptor.\<close>

definition only_touches :: "('k \<Rightarrow> int \<rightharpoonup> epoll_event) \<Rightarrow> nat \<Rightarrow> 'k poller \<Rightarrow> 'k poller \<Rightarrow> bool" where
  "only_touches interest p s s' \<longleftrightarrow>
     ch_fd (pl_heap s' p) = ch_fd (pl_heap s p)
     \<and> (\<forall>q. q \<noteq> p \<longrightarrow> pl_heap s' q = pl_heap s q)
     \<and> (\<forall>fd. fd \<noteq> ch_fd (pl_heap s p) \<longrightarrow> pl_channels s' fd = pl_channels s fd
          \<and> interest (pl_kernel s') fd = interest (pl_kernel s) fd)"

lemma poller_inv_step:
  assumes inv: "poller_inv interest live s" and p: "p \<in> live"
    and touch: "only_touches interest p s s'" and ok: "chan_ok interest s' p"
  shows "poller_inv interest live s'"
proof -
  have fd: "ch_fd (pl_heap s' q) = ch_fd (pl_heap s q)" for q
    using touch by (cases "q = p") (auto simp: only_touches_def)
  have "chan_ok interest s' q" if "q \<in> live" for q
  proof (cases "q = p")
    case True
    then show ?thesis using ok by simp
  next
    case False
    then have "ch_fd (pl_heap s q) \<noteq> ch_fd (pl_heap s p)"
      using inv p that by (auto simp: poller_inv_def inj_on_def)
    with False touch have "chan_ok interest s' q = chan_ok interest s q"
      by (simp add: chan_ok_def only_touches_def Let_def)
    then show ?thesis using inv that by (simp add: poller_inv_def)
  qed
  then show ?thesis using inv by (simp add: poller_inv_def fd)
qed

text \<open>What \<open>epoll_ctl(2)\<close> documents for the calls the poller makes: adding a descriptor that is
  not in the interest list, and changing or deleting one that is, succeed and do just that.\<close>

locale epoll_kernel =
  fixes ctl :: "'k epoll_ctl"
    and interest :: "'k \<Rightarrow> int \<rightharpoonup> epoll_event"
  assumes add_new: "interest k fd = None \<Longrightarrow>
      \<exists>k'. ctl k EPOLL_CTL_ADD fd ev = (True, k') \<and> interest k' = (interest k)(fd \<mapsto> ev)"
    and mod_present: "interest k fd = Some old \<Longrightarrow>
      \<exists>k'. ctl k EPOLL_CTL_MOD fd ev = (True, k') \<and> interest k' = (interest k)(fd \<mapsto> ev)"
    and del_present: "interest k fd = Some old \<Longrightarrow>
      \<exists>k'. ctl k EPOLL_CTL_DEL fd ev = (True, k') \<and> interest k' = (interest k)(fd := None)"
begin

lemma set_mode_step:
  assumes "chan_ok interest s p"
  shows "\<exists>s'. Channel_set_mode ctl m p s = Inr s' \<and> only_touches interest p s s' \<and> chan_ok interest s' p
    \<and> ch_events (pl_heap s' p) = mode_events m (ch_events (pl_heap s p))
    \<and> (ch_index (pl_heap s' p) = kAdded \<or>
       ch_index (pl_heap s' p) = kDeleted \<and> mode_events m (ch_events (pl_heap s p)) = kNoneEvent)"
proof -
  let ?c = "pl_heap s p" and ?k = "pl_kernel s"
  let ?fd = "ch_fd ?c" and ?ev = "mode_events m (ch_events ?c)"
  note defs = Channel_set_mode_def EPollPoller_updateChannel_def EPollPoller_update_def set_index_def
    isNoneEvent_def chan_ok_def only_touches_def index_defs Let_def
  consider (new) "ch_index ?c = kNew \<or> ch_index ?c = kDeleted" "interest ?k ?fd = None"
      "ch_index ?c = kDeleted \<longrightarrow> pl_channels s ?fd = Some p"
    | (added) "ch_index ?c = kAdded" "interest ?k ?fd = Some (ch_events ?c, p)"
      "pl_channels s ?fd = Some p"
    using assms by (auto simp: chan_ok_def index_defs Let_def)
  then show ?thesis
  proof cases
    case new
    from add_new [OF new(2), of "(?ev, p)"] obtain k' where
      "ctl ?k EPOLL_CTL_ADD ?fd (?ev, p) = (True, k')" "interest k' = (interest ?k)(?fd \<mapsto> (?ev, p))" by blast
    with new(1,3) show ?thesis by (auto simp: defs)
  next
    case added
    show ?thesis
    proof (cases "?ev = kNoneEvent")
      case True
      from del_present [OF added(2), of "(?ev, p)"] obtain k' where
        "ctl ?k EPOLL_CTL_DEL ?fd (?ev, p) = (True, k')" "interest k' = (interest ?k)(?fd := None)" by blast
      with added True show ?thesis by (auto simp: defs)
    next
      case False
      from mod_present [OF added(2), of "(?ev, p)"] obtain k' where
        "ctl ?k EPOLL_CTL_MOD ?fd (?ev, p) = (True, k')" "interest k' = (interest ?k)(?fd \<mapsto> (?ev, p))" by blast
      with added False show ?thesis by (auto simp: defs)
    qed
  qed
qed

lemma remove_step:
  assumes "chan_ok interest s p"
  shows "\<exists>s'. EPollPoller_removeChannel ctl p s = Inr s' \<and> only_touches interest p s s'
    \<and> chan_ok interest s' p \<and> ch_index (pl_heap s' p) = kNew
    \<and> ch_events (pl_heap s' p) = ch_events (pl_heap s p)"
proof -
  let ?c = "pl_heap s p" and ?k = "pl_kernel s"
  let ?fd = "ch_fd ?c"
  note defs = EPollPoller_removeChannel_def EPollPoller_update_def set_index_def chan_ok_def
    only_touches_def index_defs Let_def
  show ?thesis
  proof (cases "ch_index ?c = kAdded")
    case True
    with assms have "interest ?k ?fd = Some (ch_events ?c, p)"
      by (auto simp: chan_ok_def index_defs Let_def)
    from del_present [OF this, of "(ch_events ?c, p)"] obtain k' where
      "ctl ?k EPOLL_CTL_DEL ?fd (ch_events ?c, p) = (True, k')"
      "interest k' = (interest ?k)(?fd := None)" by blast
    with True show ?thesis by (auto simp: defs)
  next
    case False
    with assms show ?thesis by (auto simp: defs)
  qed
qed

lemma set_mode_inv:
  assumes "poller_inv interest live s" "p \<in> live"
  shows "\<exists>s'. Channel_set_mode ctl m p s = Inr s' \<and> poller_inv interest live s'
    \<and> ch_events (pl_heap s' p) = mode_events m (ch_events (pl_heap s p))"
  using assms set_mode_step [of s p m] poller_inv_step [OF assms] by (fastforce simp: poller_inv_def)

lemma remove_inv:
  assumes "poller_inv interest live s" "p \<in> live"
  shows "\<exists>s'. EPollPoller_removeChannel ctl p s = Inr s' \<and> poller_inv interest live s'
    \<and> ch_index (pl_heap s' p) = kNew"
  using assms remove_step [of s p] poller_inv_step [OF assms] by (fastforce simp: poller_inv_def)

end

text \<open>The interest list as \<open>epoll_ctl(2)\<close> describes it, failures included.\<close>

fun epoll_table_ctl :: "(int \<rightharpoonup> epoll_event) epoll_ctl" where
  "epoll_table_ctl k EPOLL_CTL_ADD fd ev =
     (if k fd = None then (True, k(fd \<mapsto> ev)) else (False, k))"
| "epoll_table_ctl k EPOLL_CTL_MOD fd ev =
     (if k fd = None then (False, k) else (True, k(fd \<mapsto> ev)))"
| "epoll_table_ctl k EPOLL_CTL_DEL fd ev =
     (if k fd = None then (False, k) else (True, k(fd := None)))"

interpretation tbl: epoll_kernel epoll_table_ctl "\<lambda>k. k"
  by unfold_locales auto

section \<open>Sequences of registrations\<close>

datatype poller_cmd = SetMode mode nat | Remove nat

fun cmd_channel :: "poller_cmd \<Rightarrow> nat" where
  "cmd_channel (SetMode m p) = p"
| "cmd_channel (Remove p) = p"

fun run_cmds :: "'k epoll_ctl \<Rightarrow> poller_cmd list \<Rightarrow> 'k poller \<Rightarrow> 'k poller res" where
  "run_cmds ctl [] s = Inr s"
| "run_cmds ctl (SetMode m p # cs) s = bindR (Channel_set_mode ctl m p s) (run_cmds ctl cs)"
| "run_cmds ctl (Remove p # cs) s = bindR (EPollPoller_removeChannel ctl p s) (run_cmds ctl cs)"

context epoll_kernel
begin

lemma run_cmds_inv:
  "poller_inv interest live s \<Longrightarrow> cmd_channel ` set cs \<subseteq> live \<Longrightarrow>
   \<exists>s'. run_cmds ctl cs s = Inr s' \<and> poller_inv interest live s'"
proof (induction cs arbitrary: s)
  case Nil
  then show ?case by simp
next
  case (Cons c cs)
  then have sub: "cmd_channel ` set cs \<subseteq> live" and c: "cmd_channel c \<in> live" by auto
  show ?case
  proof (cases c)
    case (SetMode m p)
    with set_mode_inv [OF Cons.prems(1), of p m] c obtain s1 where
      "Channel_set_mode ctl m p s = Inr s1" "poller_inv interest live s1" by auto
    with Cons.IH [OF _ sub] SetMode show ?thesis by simp
  next
    case (Remove p)
    with remove_inv [OF Cons.prems(1), of p] c obtain s1 where
      "EPollPoller_removeChannel ctl p s = Inr s1" "poller_inv interest live s1" by auto
    with Cons.IH [OF _ sub] Remove show ?thesis by simp
  qed
qed

end

lemma poller_inv_new:
  assumes "inj_on (\<lambda>p. ch_fd (heap p)) live" and "\<And>p. p \<in> live \<Longrightarrow> ch_index (heap p) = kNew"
    and "interest k = Map.empty"
  shows "poller_inv interest live (EPollPoller_new heap k)"
  using assms by (auto simp: poller_inv_def EPollPoller_new_def chan_ok_def Let_def)

lemma fill_loop_active: "fst (fill_loop es s) = map snd es"
  by (induction es s rule: fill_loop.induct) (auto simp: Let_def split: prod.splits)

lemma fill_loop_frame:
  "pl_channels (snd (fill_loop es s)) = pl_channels s
   \<and> pl_events_size (snd (fill_loop es s)) = pl_events_size s
   \<and> pl_kernel (snd (fill_loop es s)) = pl_kernel s
   \<and> ch_fd (pl_heap (snd (fill_loop es s)) q) = ch_fd (pl_heap s q)
   \<and> ch_events (pl_heap (snd (fill_loop es s)) q) = ch_events (pl_heap s q)
   \<and> ch_index (pl_heap (snd (fill_loop es s)) q) = ch_index (pl_heap s q)"
  by (induction es s rule: fill_loop.induct) (auto simp: Let_def split: prod.splits)

lemma poll_keeps:
  assumes "EPollPoller_poll epoll_wait eintr pl = (lg, active, pl')"
  shows "\<exists>es n. pl' = (snd (fill_loop es pl))\<lparr>pl_events_size := n\<rparr>"
proof -
  obtain n events where w: "epoll_wait (pl_events_size pl) = (n, events)" by (cases "epoll_wait (pl_events_size pl)")
  show ?thesis
  proof (cases "0 < size_of_int n")
    case True
    obtain act s1 where f: "fill_loop (take (nat (int_of_size (size_of_int n))) events) pl = (act, s1)" by fastforce
    then have "pl' = (if size_of_int n = pl_events_size s1 then s1\<lparr>pl_events_size := pl_events_size s1 * 2\<rparr> else s1)"
      using assms w True by (auto simp: EPollPoller_poll_def fillActiveChannels_def Let_def split: if_splits)
    then have "pl' = s1\<lparr>pl_events_size := pl_events_size pl'\<rparr>" by simp
    then show ?thesis using f by (metis snd_conv)
  next
    case False
    then have "pl' = (snd (fill_loop [] pl))\<lparr>pl_events_size := pl_events_size pl\<rparr>"
      using assms w by (auto simp: EPollPoller_poll_def Let_def split: if_splits)
    then show ?thesis by blast
  qed
qed

text \<open>Whatever \<open>epoll_wait\<close> returns, a poll changes no registration.\<close>

lemma poll_frame:
  assumes "EPollPoller_poll epoll_wait eintr s = (lg, active, s')"
  shows "pl_channels s' = pl_channels s" "pl_kernel s' = pl_kernel s" "ch_fd (pl_heap s' q) = ch_fd (pl_heap s q)"
    "ch_events (pl_heap s' q) = ch_events (pl_heap s q)" "ch_index (pl_heap s' q) = ch_index (pl_heap s q)"
proof -
  obtain es n where s': "s' = (snd (fill_loop es s))\<lparr>pl_events_size := n\<rparr>" using poll_keeps [OF assms] by blast
  show "pl_channels s' = pl_channels s" "pl_kernel s' = pl_kernel s" "ch_fd (pl_heap s' q) = ch_fd (pl_heap s q)"
    "ch_events (pl_heap s' q) = ch_events (pl_heap s q)" "ch_index (pl_heap s' q) = ch_index (pl_heap s q)"
    using fill_loop_frame [of es s q] by (simp_all add: s')
qed

text \<open>A channel that is in the kernel's interest list for reading, with its callback.\<close>

definition watching :: "('k \<Rightarrow> int \<rightharpoonup> epoll_event) \<Rightarrow> nat \<Rightarrow> int \<Rightarrow> 'k poller \<Rightarrow> bool" where
  "watching interest p fd pl \<longleftrightarrow> chan_ok interest pl p \<and> ch_fd (pl_heap pl p) = fd \<and> ch_index (pl_heap pl p) = kAdded
     \<and> ch_events (pl_heap pl p) = kReadEvent \<and> ch_readCallback (pl_heap pl p)"

lemma watching_interest: "watching interest p fd pl \<Longrightarrow> interest (pl_kernel pl) fd = Some (kReadEvent, p)"
  by (auto simp: watching_def chan_ok_def Let_def index_defs)

lemma fill_loop_callbacks: "same_callbacks (pl_heap s q) (pl_heap (snd (fill_loop es s)) q)"
  by (induction es s rule: fill_loop.induct) (auto simp: same_callbacks_def Let_def split: prod.splits if_splits)

lemma poll_callbacks:
  assumes "EPollPoller_poll epoll_wait eintr pl = (lg, active, pl')"
  shows "same_callbacks (pl_heap pl q) (pl_heap pl' q)"
proof -
  obtain es n where pl': "pl' = (snd (fill_loop es pl))\<lparr>pl_events_size := n\<rparr>" using poll_keeps [OF assms] by blast
  then show ?thesis using fill_loop_callbacks [of pl q es] by simp
qed

lemma poll_watching:
  assumes "EPollPoller_poll epoll_wait eintr pl = (lg, active, pl')" "watching interest p fd pl"
  shows "watching interest p fd pl'"
  using assms(2) poll_frame [OF assms(1)] poll_callbacks [OF assms(1), of p]
  by (auto simp: watching_def chan_ok_def same_callbacks_def Let_def)

lemma watching_other:
  assumes "watching interest p fd pl" "only_touches interest q pl pl'" "p \<noteq> q" "ch_fd (pl_heap pl q) \<noteq> fd"
  shows "watching interest p fd pl'"
proof -
  have "pl_heap pl' p = pl_heap pl p" using assms(2,3) by (simp add: only_touches_def)
  moreover have "pl_channels pl' fd = pl_channels pl fd" "interest (pl_kernel pl') fd = interest (pl_kernel pl) fd"
    using assms(2,4) by (auto simp: only_touches_def)
  ultimately show ?thesis using assms(1) by (auto simp: watching_def chan_ok_def Let_def)
qed

lemma poller_inv_frame:
  assumes "pl_channels s' = pl_channels s" "pl_kernel s' = pl_kernel s"
    "\<And>q. ch_fd (pl_heap s' q) = ch_fd (pl_heap s q)"
    "\<And>q. ch_events (pl_heap s' q) = ch_events (pl_heap s q)"
    "\<And>q. ch_index (pl_heap s' q) = ch_index (pl_heap s q)"
  shows "poller_inv interest live s' = poller_inv interest live s"
  using assms by (simp add: poller_inv_def chan_ok_def Let_def)

lemma size_of_int_neg1: "size_of_int (-1) = 2 ^ 64 - 1"
  by (simp add: size_of_int_def)

lemma int_of_size_max: "int_of_size (2 ^ 64 - 1) = -1"
  by (simp add: int_of_size_def)

section \<open>Properties\<close>

text \<open>Claim C23. Starting from an empty poller, any sequence of mode changes and removals on
  channels with distinct descriptors completes without \<open>LOG_FATAL\<close> and keeps channels, poller
  map and kernel in agreement: a channel is in the kernel's interest list exactly when its index
  is \<open>kAdded\<close>, and then with its current event mask.\<close>

theorem registrations_agree:
  assumes "epoll_kernel ctl interest" and "interest k = Map.empty"
    and "inj_on (\<lambda>p. ch_fd (heap p)) live" and "\<forall>p \<in> live. ch_index (heap p) = kNew"
    and "cmd_channel ` set cs \<subseteq> live"
  shows "\<exists>s. run_cmds ctl cs (EPollPoller_new heap k) = Inr s \<and> poller_inv interest live s
    \<and> (\<forall>p \<in> live. interest (pl_kernel s) (ch_fd (pl_heap s p))
         = (if ch_index (pl_heap s p) = kAdded then Some (ch_events (pl_heap s p), p) else None))"
proof -
  have "poller_inv interest live (EPollPoller_new heap k)"
    using assms(2-4) by (intro poller_inv_new) auto
  from epoll_kernel.run_cmds_inv [OF assms(1) this assms(5)] obtain s where
    s: "run_cmds ctl cs (EPollPoller_new heap k) = Inr s" "poller_inv interest live s" by blast
  then show ?thesis by (auto simp: poller_inv_def chan_ok_def index_defs Let_def)
qed

theorem registrations_agree_witness:
  "\<exists>s. run_cmds epoll_table_ctl
        [SetMode EnableReading 5, SetMode EnableWriting 5, SetMode DisableAll 5, Remove 5]
        (EPollPoller_new (\<lambda>p. Channel_new (int p)) Map.empty) = Inr s
     \<and> poller_inv (\<lambda>k. k) {5, 6} s
     \<and> (\<forall>p \<in> {5, 6}. pl_kernel s (ch_fd (pl_heap s p))
         = (if ch_index (pl_heap s p) = kAdded then Some (ch_events (pl_heap s p), p) else None))"
  by (rule registrations_agree [where ctl = epoll_table_ctl and interest = "\<lambda>k. k", OF tbl.epoll_kernel_axioms])
     (auto simp: inj_on_def Channel_new_def kNew_def)

text \<open>When \<open>epoll_wait\<close> fails, its \<open>-1\<close> is read as a huge \<open>size_t\<close>: \<open>poll\<close> takes the branch
  for events, reports none, and never logs the error, whatever \<open>errno\<close> is.\<close>

lemma poll_error_unreported:
  assumes "epoll_wait (pl_events_size s) = (-1, events)" and "pl_events_size s < 2 ^ 31"
  shows "EPollPoller_poll epoll_wait eintr s = (NoLog, [], s)"
  using assms by (simp add: EPollPoller_poll_def size_of_int_neg1 int_of_size_max [simplified]
      fillActiveChannels_def Let_def)

text \<open>A successful \<open>poll\<close> reports exactly the channels the kernel returned, in its order,
  keeps the registrations in agreement, and doubles the event array when it was filled.\<close>

lemma poll_reports_events:
  assumes "epoll_wait (pl_events_size s) = (int (length es), es)"
    and "0 < length es" and "length es \<le> pl_events_size s" and "pl_events_size s < 2 ^ 31"
  shows "\<exists>s'. EPollPoller_poll epoll_wait eintr s = (NoLog, map snd es, s')
    \<and> poller_inv interest live s' = poller_inv interest live s
    \<and> pl_events_size s' = (if length es = pl_events_size s then 2 * pl_events_size s else pl_events_size s)"
proof -
  obtain active s1 where f: "fill_loop es s = (active, s1)" by (cases "fill_loop es s")
  then have active: "active = map snd es" and sz: "pl_events_size s1 = pl_events_size s"
    using fill_loop_active [of es s] fill_loop_frame [of es s] by auto
  have "poller_inv interest live s1 = poller_inv interest live s"
    using fill_loop_frame [of es s] f by (intro poller_inv_frame) auto
  moreover have "poller_inv interest live (s1\<lparr>pl_events_size := n\<rparr>) = poller_inv interest live s1" for n
    by (rule poller_inv_frame) auto
  moreover have "size_of_int (int (length es)) = length es" "int_of_size (length es) = int (length es)"
    using assms by (simp_all add: size_simps)
  ultimately show ?thesis
    using assms f active sz
    by (auto simp: EPollPoller_poll_def fillActiveChannels_def Let_def)
qed

end
