(* ===== verification/InetAddress.thy ===== *)
theory InetAddress
  imports Prelude "HOL-Library.Word"
begin

unbundle bit_operations_syntax

text \<open>
  Socket addresses (\<open>src/src/net/InetAddress.h\<close>, \<open>InetAddress.cc\<close>): a \<open>sockaddr_in\<close> whose port
  and address are kept in network byte order, and its textual forms. The target is little-endian,
  so \<open>htons\<close> swaps bytes and the first byte of \<open>s_addr\<close> in memory is its lowest.
\<close>

section \<open>Addresses\<close>

record sockaddr_in =
  sin_family :: nat
  sin_port :: "16 word"
  s_addr :: "32 word"

definition AF_INET :: nat where "AF_INET = 2"

definition INADDR_ANY :: "32 word" where "INADDR_ANY = 0"

definition htons :: "16 word \<Rightarrow> 16 word" where
  "htons w = push_bit 8 w OR drop_bit 8 w"

definition ntohs :: "16 word \<Rightarrow> 16 word" where
  "ntohs w = push_bit 8 w OR drop_bit 8 w"

definition htonl :: "32 word \<Rightarrow> 32 word" where
  "htonl w = push_bit 24 w OR push_bit 8 (w AND 0xFF00) OR (drop_bit 8 w AND 0xFF00) OR drop_bit 24 w"

text \<open>The constructor from a port and an address text.\<close>

definition InetAddress_new :: "16 word \<Rightarrow> bytes \<Rightarrow> sockaddr_in" where
  "InetAddress_new port ip = \<lparr>sin_family = AF_INET, sin_port = htons port, s_addr = htonl INADDR_ANY\<rparr>"

text \<open>The \<open>k\<close>-th byte of \<open>s_addr\<close> in memory, and \<open>inet_ntop\<close> for \<open>AF_INET\<close>.\<close>

definition addr_byte :: "nat \<Rightarrow> 32 word \<Rightarrow> nat" where
  "addr_byte k w = unat w div 256 ^ k mod 256"

definition inet_ntop :: "32 word \<Rightarrow> bytes" where
  "inet_ntop w = fmt_nat (addr_byte 0 w) @ CHR ''.'' # fmt_nat (addr_byte 1 w) @ CHR ''.'' #
     fmt_nat (addr_byte 2 w) @ CHR ''.'' # fmt_nat (addr_byte 3 w)"

definition toIp :: "sockaddr_in \<Rightarrow> bytes" where
  "toIp a = inet_ntop (s_addr a)"

text \<open>\<open>toIpPort\<close> prints the port behind the address in the same 64 byte array, with \<open>sprintf\<close>: an
  output that does not fit is a write outside the array.\<close>

definition toIpPort :: "sockaddr_in \<Rightarrow> bytes res" where
  "toIpPort a =
     (let buf = inet_ntop (s_addr a);
          port = ntohs (sin_port a);
          out = buf @ CHR '':'' # fmt_nat (unat port)
      in if length out + 1 \<le> 64 then Inr out else Inl OutOfBounds)"

definition toPort :: "sockaddr_in \<Rightarrow> 16 word" where
  "toPort a = ntohs (sin_port a)"

definition setSockAddr :: "sockaddr_in \<Rightarrow> sockaddr_in \<Rightarrow> sockaddr_in" where
  "setSockAddr addr a = addr"

section \<open>Byte order\<close>

lemma ntohs_htons [simp]: "ntohs (htons w) = w"
  by (rule bit_eqI) (auto simp: ntohs_def htons_def bit_simps)

lemma htons_ntohs [simp]: "htons (ntohs w) = w"
  by (rule bit_eqI) (auto simp: ntohs_def htons_def bit_simps)

lemma ntohs_inj: "ntohs v = ntohs w \<longleftrightarrow> v = w"
  by (metis htons_ntohs)

section \<open>Printed addresses\<close>

lemma addr_byte_less [simp]: "addr_byte k w < 256"
  by (simp add: addr_byte_def)

lemma length_addr_byte: "length (fmt_nat (addr_byte k w)) \<le> 3"
proof (rule length_fmt_nat_le)
  have "addr_byte k w < 256" by (rule addr_byte_less)
  then have "addr_byte k w < 1000" by linarith
  then show "addr_byte k w < 10 ^ 3" by simp
qed simp

lemma length_port: "length (fmt_nat (unat (w :: 16 word))) \<le> 5"
proof (rule length_fmt_nat_le)
  have "unat w < 2 ^ 16" using unsigned_less [of w] by simp
  then show "unat w < 10 ^ 5" by simp
qed simp

lemma length_inet_ntop: "length (inet_ntop w) \<le> 15"
  using length_addr_byte [of 0 w] length_addr_byte [of 1 w] length_addr_byte [of 2 w]
    length_addr_byte [of 3 w]
  by (simp add: inet_ntop_def)

lemma digit_not_sep: "CHR ''.'' \<notin> set (fmt_nat n)" "CHR '':'' \<notin> set (fmt_nat n)"
  "CHR ''#'' \<notin> set (fmt_nat n)" "CHR ''-'' \<notin> set (fmt_nat n)"
  by (auto dest!: fmt_nat_range)

text \<open>A separator that occurs in neither first part splits a text in one way only.\<close>

lemma append_sep_inj:
  assumes "c \<notin> set xs" "c \<notin> set ys" "xs @ c # us = ys @ c # vs"
  shows "xs = ys \<and> us = vs"
  using assms
proof (induction xs arbitrary: ys)
  case Nil
  then show ?case by (cases ys) auto
next
  case (Cons x xs)
  then show ?case by (cases ys) auto
qed

lemma unat_addr_bytes:
  "unat (w :: 32 word) = addr_byte 0 w + 256 * addr_byte 1 w + 256 ^ 2 * addr_byte 2 w + 256 ^ 3 * addr_byte 3 w"
proof -
  define n where "n = unat w"
  have "n < 2 ^ 32" using unsigned_less [of w] by (simp add: n_def)
  then have "n div 256 div 256 div 256 < 256" by simp
  then have "n = n mod 256 + 256 * (n div 256 mod 256 + 256 * (n div 256 div 256 mod 256
      + 256 * (n div 256 div 256 div 256 mod 256)))"
    by simp
  then show ?thesis
    using \<open>n < 2 ^ 32\<close>
    by (simp add: addr_byte_def n_def [symmetric] div_mult2_eq [symmetric] algebra_simps)
qed

lemma inet_ntop_inj: "inet_ntop v = inet_ntop w \<Longrightarrow> v = w"
proof -
  assume "inet_ntop v = inet_ntop w"
  then have "addr_byte 0 v = addr_byte 0 w \<and> addr_byte 1 v = addr_byte 1 w
      \<and> addr_byte 2 v = addr_byte 2 w \<and> addr_byte 3 v = addr_byte 3 w"
    unfolding inet_ntop_def
    by (metis append_sep_inj digit_not_sep(1) fmt_nat_inj)
  then have "unat v = unat w" by (simp add: unat_addr_bytes)
  then show "v = w" by (rule word_unat_eq_iff [THEN iffD2])
qed

lemma inet_ntop_no_colon: "CHR '':'' \<notin> set (inet_ntop w)"
  by (simp add: inet_ntop_def digit_not_sep)

lemma toIpPort_text: "toIpPort a = Inr (inet_ntop (s_addr a) @ CHR '':'' # fmt_nat (unat (ntohs (sin_port a))))"
  using length_inet_ntop [of "s_addr a"] length_port [of "ntohs (sin_port a)"]
  by (simp add: toIpPort_def Let_def)

lemma length_toIpPort: "toIpPort a = Inr s \<Longrightarrow> length s \<le> 21"
  using length_inet_ntop [of "s_addr a"] length_port [of "ntohs (sin_port a)"]
  by (auto simp: toIpPort_text)

section \<open>Properties\<close>

text \<open>\<open>toIpPort\<close> never writes outside its array, and its text determines the address and
  the port: two addresses with the same text are equal.\<close>

lemma toIpPort_faithful:
  "\<exists>s. toIpPort a = Inr s \<and> length s \<le> 21
     \<and> (toIpPort b = Inr s \<longrightarrow> s_addr b = s_addr a \<and> toPort b = toPort a)"
proof -
  let ?s = "inet_ntop (s_addr a) @ CHR '':'' # fmt_nat (unat (ntohs (sin_port a)))"
  have "s_addr b = s_addr a \<and> toPort b = toPort a" if "toIpPort b = Inr ?s"
  proof -
    from that have "inet_ntop (s_addr b) = inet_ntop (s_addr a)"
      "fmt_nat (unat (ntohs (sin_port b))) = fmt_nat (unat (ntohs (sin_port a)))"
      using append_sep_inj [OF inet_ntop_no_colon inet_ntop_no_colon] by (auto simp: toIpPort_text)
    then show ?thesis by (auto simp: fmt_nat_inj toPort_def dest: inet_ntop_inj intro: word_unat_eq_iff [THEN iffD2])
  qed
  then show ?thesis using toIpPort_text [of a] length_toIpPort [of a] by auto
qed

text \<open>The constructor keeps the port through the change of byte order, but drops its
  address argument: every such address is the wildcard address.\<close>

lemma InetAddress_ignores_ip:
  "toIp (InetAddress_new port ip) = ''0.0.0.0'' \<and> toPort (InetAddress_new port ip) = port"
  by (simp add: toIp_def toPort_def InetAddress_new_def inet_ntop_def addr_byte_def htonl_def
      INADDR_ANY_def fmt_nat.simps)

end
