(* ===== verification/Acceptor.thy ===== *)
theory Acceptor
  imports Poller InetAddress
begin

unbundle bit_operations_syntax

text \<open>
  Sockets (\<open>src/src/net/Socket.h\<close>, \<open>Socket.cc\<close>) and the acceptor of new connections
  (\<open>Acceptor.h\<close>, \<open>Acceptor.cc\<close>). A socket is its descriptor with the options, the bound address and
  the half-close set on it; the return values of the system calls are arguments, and a failing
  \<open>socket\<close>, \<open>bind\<close> or \<open>listen\<close> is fatal.
\<close>

section \<open>Sockets\<close>

record socket =
  sk_fd :: int
  sk_bound :: "sockaddr_in option"
  sk_listening :: bool
  sk_shutWrite :: bool
  sk_tcpNoDelay :: int
  sk_reuseAddr :: int
  sk_reusePort :: int
  sk_keepAlive :: int
  sk_open :: bool

definition Socket_new :: "int \<Rightarrow> socket" where
  "Socket_new sockfd = \<lparr>sk_fd = sockfd, sk_bound = None, sk_listening = False, sk_shutWrite = False,
     sk_tcpNoDelay = 0, sk_reuseAddr = 0, sk_reusePort = 0, sk_keepAlive = 0, sk_open = True\<rparr>"

definition Socket_destroy :: "socket \<Rightarrow> socket" where
  "Socket_destroy s = s\<lparr>sk_open := False\<rparr>"

definition bindAddress :: "int \<Rightarrow> sockaddr_in \<Rightarrow> socket \<Rightarrow> socket res" where
  "bindAddress ret localaddr s = (if 0 \<noteq> ret then Inl Abort else Inr (s\<lparr>sk_bound := Some localaddr\<rparr>))"

definition Socket_listen :: "int \<Rightarrow> socket \<Rightarrow> socket res" where
  "Socket_listen ret s = (if 0 \<noteq> ret then Inl Abort else Inr (s\<lparr>sk_listening := True\<rparr>))"

text \<open>\<open>accept4\<close> returned \<open>connfd\<close> and, on success, filled in \<open>addr\<close>.\<close>

definition Socket_accept :: "int \<Rightarrow> sockaddr_in \<Rightarrow> sockaddr_in \<Rightarrow> int \<times> sockaddr_in" where
  "Socket_accept connfd addr peeraddr =
     (connfd, if 0 \<le> connfd then setSockAddr addr peeraddr else peeraddr)"

text \<open>A failing \<open>shutdown\<close> is only logged.\<close>

definition Socket_shutdownWrite :: "int \<Rightarrow> socket \<Rightarrow> socket" where
  "Socket_shutdownWrite ret s = (if ret < 0 then s else s\<lparr>sk_shutWrite := True\<rparr>)"

definition setTcpNoDelay :: "bool \<Rightarrow> socket \<Rightarrow> socket" where
  "setTcpNoDelay on s = (let optval = (if on then 1 else 0) in s\<lparr>sk_tcpNoDelay := optval\<rparr>)"

definition setReuseAddr :: "bool \<Rightarrow> socket \<Rightarrow> socket" where
  "setReuseAddr on s = (let optval = (if on then 1 else 0) in s\<lparr>sk_reuseAddr := optval\<rparr>)"

definition setReusePort :: "bool \<Rightarrow> socket \<Rightarrow> socket" where
  "setReusePort on s = (let optval = (if on then 1 else 0) in s\<lparr>sk_reusePort := optval\<rparr>)"

definition setKeepAlive :: "bool \<Rightarrow> socket \<Rightarrow> socket" where
  "setKeepAlive on s = (let optval = (if on then 1 else 0) in s\<lparr>sk_keepAlive := optval\<rparr>)"

section \<open>The acceptor\<close>

record 'k acceptor =
  ac_poller :: "'k poller"
  ac_socket :: socket
  ac_channel :: nat
  ac_newConnectionCallback :: bool
  ac_listenning :: bool

definition createNonblocking :: "int \<Rightarrow> int res" where
  "createNonblocking sockfd = (if sockfd < 0 then Inl Abort else Inr sockfd)"

text \<open>The constructor, with the channel object at address \<open>p\<close>.\<close>

definition Acceptor_new ::
  "'k poller \<Rightarrow> nat \<Rightarrow> int \<Rightarrow> int \<Rightarrow> sockaddr_in \<Rightarrow> bool \<Rightarrow> 'k acceptor res"
where
  "Acceptor_new poller p sockfd bindRet ListenAddr reuseport =
     bindR (createNonblocking sockfd) (\<lambda>fd.
     bindR (bindAddress bindRet ListenAddr (setReusePort True (setReuseAddr reuseport (Socket_new fd)))) (\<lambda>s.
       Inr \<lparr>ac_poller = poller\<lparr>pl_heap := (pl_heap poller)(p := (Channel_new fd)\<lparr>ch_readCallback := True\<rparr>)\<rparr>,
            ac_socket = s, ac_channel = p, ac_newConnectionCallback = False, ac_listenning = False\<rparr>))"

definition setNewConnectionCallback :: "'k acceptor \<Rightarrow> 'k acceptor" where
  "setNewConnectionCallback a = a\<lparr>ac_newConnectionCallback := True\<rparr>"

definition Acceptor_listen :: "'k epoll_ctl \<Rightarrow> int \<Rightarrow> 'k acceptor \<Rightarrow> 'k acceptor res" where
  "Acceptor_listen ctl ret a =
     bindR (Socket_listen ret (ac_socket a)) (\<lambda>s.
     bindR (Channel_set_mode ctl EnableReading (ac_channel a) (ac_poller a)) (\<lambda>pl.
       Inr (a\<lparr>ac_listenning := True, ac_socket := s, ac_poller := pl\<rparr>)))"

definition Acceptor_destroy :: "'k epoll_ctl \<Rightarrow> 'k acceptor \<Rightarrow> 'k acceptor res" where
  "Acceptor_destroy ctl a =
     bindR (Channel_set_mode ctl DisableAll (ac_channel a) (ac_poller a)) (\<lambda>pl.
     bindR (EPollPoller_removeChannel ctl (ac_channel a) pl) (\<lambda>pl'.
       Inr (a\<lparr>ac_poller := pl', ac_socket := Socket_destroy (ac_socket a)\<rparr>)))"

text \<open>The acceptor as \<open>TcpServer\<close> brings it up: constructed, given \<open>newConnection\<close> as its callback, and listening.\<close>

definition listening_acceptor ::
  "'k epoll_ctl \<Rightarrow> 'k poller \<Rightarrow> nat \<Rightarrow> int \<Rightarrow> sockaddr_in \<Rightarrow> bool \<Rightarrow> 'k acceptor res"
where
  "listening_acceptor ctl poller p sockfd ListenAddr reuseport =
     bindR (Acceptor_new poller p sockfd 0 ListenAddr reuseport) (\<lambda>a. Acceptor_listen ctl 0 (setNewConnectionCallback a))"

text \<open>What \<open>handleRead\<close> does with the descriptor it accepted.\<close>

datatype accepted =
    NewConnection int sockaddr_in
  | CloseFd int
  | AcceptFailed bool

definition EMFILE :: int where "EMFILE = 24"

definition Acceptor_handleRead :: "int \<Rightarrow> sockaddr_in \<Rightarrow> int \<Rightarrow> 'k acceptor \<Rightarrow> accepted" where
  "Acceptor_handleRead connfd addr errno a =
     (let (fd, peerAddr) = Socket_accept connfd addr (InetAddress_new 0 ''127.0.0.1'')
      in if 0 \<le> fd
         then if ac_newConnectionCallback a then NewConnection fd peerAddr else CloseFd fd
         else AcceptFailed (errno = EMFILE))"

section \<open>Lemmas\<close>

text \<open>A channel object of its own, with a descriptor nobody has registered.\<close>

definition fresh_fd :: "('k \<Rightarrow> int \<rightharpoonup> epoll_event) \<Rightarrow> int \<Rightarrow> 'k poller \<Rightarrow> bool" where
  "fresh_fd interest fd s \<longleftrightarrow> pl_channels s fd = None \<and> interest (pl_kernel s) fd = None"

text \<open>A channel with a read callback alone; its events call that callback or nothing.\<close>

definition reads_only :: "channel \<Rightarrow> bool" where
  "reads_only ch \<longleftrightarrow> same_callbacks ((Channel_new 0)\<lparr>ch_readCallback := True\<rparr>) ch"

lemma reads_only_calls:
  assumes "reads_only ch"
  shows "Channel_handleEvent alive ch = (if ch_revents ch AND (EPOLLIN OR EPOLLPRI) \<noteq> 0 then [ReadCallback] else [])"
  using assms by (simp add: reads_only_def same_callbacks_def Channel_new_def Channel_handleEvent_def handleEventWithGuard_def)

context epoll_kernel
begin

lemma listening_watches:
  assumes "listening_acceptor ctl poller p sockfd addr reuse = Inr a" and fresh: "fresh_fd interest sockfd poller"
  shows "ac_channel a = p" "ac_newConnectionCallback a" "sk_fd (ac_socket a) = sockfd"
    "watching interest p sockfd (ac_poller a)" "reads_only (pl_heap (ac_poller a) p)"
    "fd \<noteq> sockfd \<Longrightarrow> pl_channels (ac_poller a) fd = pl_channels poller fd
       \<and> interest (pl_kernel (ac_poller a)) fd = interest (pl_kernel poller) fd"
proof -
  let ?pl = "poller\<lparr>pl_heap := (pl_heap poller)(p := (Channel_new sockfd)\<lparr>ch_readCallback := True\<rparr>)\<rparr>"
  from assms(1) have a: "ac_channel a = p" "ac_newConnectionCallback a" "sk_fd (ac_socket a) = sockfd"
    "Channel_set_mode ctl EnableReading p ?pl = Inr (ac_poller a)"
    by (auto simp: listening_acceptor_def Acceptor_new_def createNonblocking_def bindAddress_def Acceptor_listen_def
        Socket_listen_def setNewConnectionCallback_def setReusePort_def setReuseAddr_def Socket_new_def bindR_Inr_iff split: if_splits)
  then show "ac_channel a = p" "ac_newConnectionCallback a" "sk_fd (ac_socket a) = sockfd" by simp_all
  have "chan_ok interest ?pl p" using fresh by (simp add: chan_ok_def Channel_new_def index_defs fresh_fd_def)
  from set_mode_step [OF this, of EnableReading] a(4) have
    s: "only_touches interest p ?pl (ac_poller a)" "chan_ok interest (ac_poller a) p"
      "ch_events (pl_heap (ac_poller a) p) = mode_events EnableReading 0"
      "ch_index (pl_heap (ac_poller a) p) = kAdded \<or> mode_events EnableReading 0 = kNoneEvent"
    by (auto simp: Channel_new_def)
  have "mode_events EnableReading 0 = kReadEvent" "kReadEvent \<noteq> kNoneEvent"
    by (simp_all add: kReadEvent_def kNoneEvent_def epoll_flags)
  moreover have cb: "same_callbacks (pl_heap ?pl p) (pl_heap (ac_poller a) p)" by (rule set_mode_callbacks [OF a(4)])
  ultimately show "watching interest p sockfd (ac_poller a)"
    using s by (simp add: watching_def only_touches_def Channel_new_def same_callbacks_def)
  show "reads_only (pl_heap (ac_poller a) p)" using cb by (simp add: reads_only_def same_callbacks_def Channel_new_def)
  show "fd \<noteq> sockfd \<Longrightarrow> pl_channels (ac_poller a) fd = pl_channels poller fd
       \<and> interest (pl_kernel (ac_poller a)) fd = interest (pl_kernel poller) fd"
    using s(1) by (simp add: only_touches_def Channel_new_def)
qed

lemma accept_lifecycle:
  assumes "Acceptor_new poller p sockfd 0 addr reuse = Inr a" "fresh_fd interest sockfd poller"
  shows "\<exists>a1 a2. Acceptor_listen ctl 0 (setNewConnectionCallback a) = Inr a1
    \<and> interest (pl_kernel (ac_poller a1)) sockfd = Some (kReadEvent, p)
    \<and> ac_listenning a1 \<and> sk_listening (ac_socket a1) \<and> sk_bound (ac_socket a1) = Some addr
    \<and> Acceptor_destroy ctl a1 = Inr a2
    \<and> interest (pl_kernel (ac_poller a2)) sockfd = None \<and> pl_channels (ac_poller a2) sockfd = None
    \<and> \<not> sk_open (ac_socket a2)"
proof -
  from assms(1) have a: "ac_poller a = poller\<lparr>pl_heap := (pl_heap poller)(p := (Channel_new sockfd)\<lparr>ch_readCallback := True\<rparr>)\<rparr>"
    "ac_channel a = p" "sk_bound (ac_socket a) = Some addr"
    by (auto simp: Acceptor_new_def createNonblocking_def bindAddress_def split: if_splits)
  then have "chan_ok interest (ac_poller a) p"
    using assms(2) by (simp add: chan_ok_def Channel_new_def index_defs fresh_fd_def)
  from set_mode_step [OF this, of EnableReading] obtain s1 where
    s1: "Channel_set_mode ctl EnableReading p (ac_poller a) = Inr s1"
      "only_touches interest p (ac_poller a) s1" "chan_ok interest s1 p"
      "ch_events (pl_heap s1 p) = mode_events EnableReading 0"
      "ch_index (pl_heap s1 p) = kAdded \<or> mode_events EnableReading 0 = kNoneEvent"
    using a by (auto simp: Channel_new_def)
  have fd1: "ch_fd (pl_heap s1 p) = sockfd"
    using s1(2) a by (simp add: only_touches_def Channel_new_def)
  have "kReadEvent \<noteq> kNoneEvent" by (simp add: kReadEvent_def kNoneEvent_def epoll_flags)
  then have k1: "interest (pl_kernel s1) sockfd = Some (kReadEvent, p)"
    using s1(3-5) fd1 by (auto simp: chan_ok_def index_defs Let_def)
  from set_mode_step [OF s1(3), of DisableAll] obtain s2 where
    s2: "Channel_set_mode ctl DisableAll p s1 = Inr s2" "chan_ok interest s2 p" "only_touches interest p s1 s2" by blast
  from remove_step [OF s2(2)] obtain s3 where
    s3: "EPollPoller_removeChannel ctl p s2 = Inr s3" "chan_ok interest s3 p" "ch_index (pl_heap s3 p) = kNew"
      "only_touches interest p s2 s3" by blast
  have "ch_fd (pl_heap s3 p) = sockfd" using s3(4) s2(3) fd1 by (simp add: only_touches_def)
  then have "interest (pl_kernel s3) sockfd = None" "pl_channels s3 sockfd = None"
    using s3(2,3) by (auto simp: chan_ok_def index_defs Let_def)
  then show ?thesis
    using a s1(1) k1 s2(1) s3(1)
    by (simp add: Acceptor_listen_def Socket_listen_def setNewConnectionCallback_def Acceptor_destroy_def
        Socket_destroy_def)
qed

end

section \<open>Properties\<close>

text \<open>A listening acceptor has its socket bound and listening and its channel registered for
  reading; destroying it removes the registration from the kernel and the poller and closes the
  socket.\<close>

lemma acceptor_lifecycle:
  assumes "epoll_kernel ctl interest" and "Acceptor_new poller p sockfd 0 addr reuse = Inr a"
    and "fresh_fd interest sockfd poller"
  shows "\<exists>a1 a2. Acceptor_listen ctl 0 (setNewConnectionCallback a) = Inr a1
    \<and> interest (pl_kernel (ac_poller a1)) sockfd = Some (kReadEvent, p)
    \<and> ac_listenning a1 \<and> sk_listening (ac_socket a1) \<and> sk_bound (ac_socket a1) = Some addr
    \<and> Acceptor_destroy ctl a1 = Inr a2
    \<and> interest (pl_kernel (ac_poller a2)) sockfd = None \<and> pl_channels (ac_poller a2) sockfd = None
    \<and> \<not> sk_open (ac_socket a2)"
  by (rule epoll_kernel.accept_lifecycle [OF assms])

text \<open>The acceptor's \<open>reuseport\<close> argument reaches \<open>SO_REUSEADDR\<close>, and \<open>SO_REUSEPORT\<close> is on
  whatever the option: a server built with \<open>kNoReusePort\<close> shares its port and refuses addresses in
  \<open>TIME_WAIT\<close>.\<close>

lemma reuseport_option_ignored:
  assumes "Acceptor_new poller p sockfd bindRet addr reuseport = Inr a"
  shows "sk_reusePort (ac_socket a) = 1 \<and> sk_reuseAddr (ac_socket a) = (if reuseport then 1 else 0)"
  using assms
  by (auto simp: Acceptor_new_def createNonblocking_def bindAddress_def setReusePort_def setReuseAddr_def
      split: if_splits)

end
