(* ===== verification/Transitions.thy ===== *)
theory Transitions
  imports Main
begin

text \<open>
  Transition systems: reachable states, invariants and simulations, shared by the components whose
  threads interleave, and the abstract executor that the event loop and the thread pool both
  implement.
\<close>

section \<open>Reachable states\<close>

inductive reachable :: "('s \<Rightarrow> bool) \<Rightarrow> ('s \<Rightarrow> 's \<Rightarrow> bool) \<Rightarrow> 's \<Rightarrow> bool" for start step where
  reachable_start: "start s \<Longrightarrow> reachable start step s"
| reachable_step: "reachable start step s \<Longrightarrow> step s s' \<Longrightarrow> reachable start step s'"

lemma reachable_refl: "reachable (\<lambda>s. s = s0) step s0"
  by (rule reachable_start) simp

lemma reachable_from:
  "reachable start step s \<Longrightarrow> (\<And>s. start s \<Longrightarrow> start' s) \<Longrightarrow> reachable start' step s"
  by (induction rule: reachable.induct) (auto intro: reachable_start reachable_step)

text \<open>A predicate that holds at the start and that steps between reachable states keep.\<close>

locale transition_invariant =
  fixes start :: "'s \<Rightarrow> bool" and step :: "'s \<Rightarrow> 's \<Rightarrow> bool" and inv :: "'s \<Rightarrow> bool"
  assumes inv_start: "start s \<Longrightarrow> inv s"
    and inv_step: "step s s' \<Longrightarrow> inv s \<Longrightarrow> inv s'"
begin

lemma reachable_inv: "reachable start step s \<Longrightarrow> inv s"
  by (induction rule: reachable.induct) (blast intro: inv_start inv_step)+

end

text \<open>A simulation under an invariant: every step of the concrete system is a step of the abstract one
  or leaves the abstract state alone.\<close>

locale refinement = transition_invariant start step inv
  for start :: "'s \<Rightarrow> bool" and step :: "'s \<Rightarrow> 's \<Rightarrow> bool" and inv :: "'s \<Rightarrow> bool" +
  fixes astart :: "'a \<Rightarrow> bool" and astep :: "'a \<Rightarrow> 'a \<Rightarrow> bool" and abs :: "'s \<Rightarrow> 'a"
  assumes abs_start: "start s \<Longrightarrow> astart (abs s)"
    and abs_step: "step s s' \<Longrightarrow> inv s \<Longrightarrow> abs s' = abs s \<or> astep (abs s) (abs s')"
begin

lemma reachable_abs: "reachable start step s \<Longrightarrow> reachable astart astep (abs s)"
proof (induction rule: reachable.induct)
  case (reachable_start s)
  then show ?case by (blast intro: reachable.reachable_start abs_start)
next
  case (reachable_step s s')
  then show ?case using abs_step reachable_inv by (metis reachable.reachable_step)
qed

end

section \<open>Executors\<close>

text \<open>What a queue of work promises: tasks are submitted and started one by one.\<close>

record 'f executor =
  ex_submitted :: "'f list"
  ex_waiting :: "'f list"
  ex_started :: "'f list"

definition executor_start :: "'f executor \<Rightarrow> bool" where
  "executor_start e \<longleftrightarrow> e = \<lparr>ex_submitted = [], ex_waiting = [], ex_started = []\<rparr>"

inductive executor_step :: "'f executor \<Rightarrow> 'f executor \<Rightarrow> bool" where
  submit: "executor_step e (e\<lparr>ex_submitted := ex_submitted e @ [f], ex_waiting := ex_waiting e @ [f]\<rparr>)"
| begin_task: "ex_waiting e = f # fs \<Longrightarrow>
    executor_step e (e\<lparr>ex_waiting := fs, ex_started := ex_started e @ [f]\<rparr>)"

text \<open>Every task is started at most once, in the order of submission, and none is lost.\<close>

definition executor_fifo :: "'f executor \<Rightarrow> bool" where
  "executor_fifo e \<longleftrightarrow> ex_submitted e = ex_started e @ ex_waiting e"

interpretation executor: transition_invariant executor_start executor_step executor_fifo
  by unfold_locales (auto simp: executor_start_def executor_fifo_def elim!: executor_step.cases)

end
