(* ===== verification/LoopPool.thy ===== *)
theory LoopPool
  imports Prelude Transitions
begin

text \<open>
  Threads that own an event loop (\<open>src/src/net/EventLoopThread.cc\<close>) and the pool that hands them out
  in turn (\<open>EventLoopThreadPool.h\<close>, \<open>EventLoopThreadPool.cc\<close>). The life of an \<open>EventLoopThread\<close>, from
  the hand-over of the new loop through the mutex and the condition variable to the destructor, is a
  step relation.
\<close>

section \<open>The life of a loop thread\<close>

text \<open>The parent is before \<open>thread_.start()\<close>, at the test of the \<open>while\<close>, blocked in \<open>cond_.wait\<close>, or
  has returned a loop; then it is in the destructor after the test of \<open>loop_\<close>, in \<open>join\<close>, done, or
  has dereferenced a null pointer. The child has not started, runs the initial callback, has published
  its loop, is inside \<open>loop()\<close>, has cleared \<open>loop_\<close> and still holds the mutex, or has ended.\<close>

datatype parent_pc = PBegin | PTest | PWait | PReturned nat | PQuit | PJoin | PGone | PFault

datatype child_pc = CNone | CInit | CPublished | CLooping | CLeaving | CExited

record loop_thread =
  lt_loop :: "nat option"
  lt_exiting :: bool
  lt_callback :: bool
  lt_quit :: bool
  lt_parent :: parent_pc
  lt_child :: child_pc
  lt_initialised :: "nat list"

definition EventLoopThread_new :: "bool \<Rightarrow> loop_thread" where
  "EventLoopThread_new cb = \<lparr>lt_loop = None, lt_exiting = False, lt_callback = cb, lt_quit = False,
     lt_parent = PBegin, lt_child = CNone, lt_initialised = []\<rparr>"

text \<open>The part of \<open>threadFunc\<close> up to the published pointer: \<open>loop\<close> is the address of its stack
  variable. \<open>notify_one\<close> lets a blocked parent test again.\<close>

definition threadFunc_publish :: "nat \<Rightarrow> loop_thread \<Rightarrow> loop_thread" where
  "threadFunc_publish loop s =
     s\<lparr>lt_initialised := (if lt_callback s then lt_initialised s @ [loop] else lt_initialised s),
       lt_loop := Some loop, lt_child := CPublished,
       lt_parent := (if lt_parent s = PWait then PTest else lt_parent s)\<rparr>"

text \<open>\<open>loop()\<close> clears \<open>quit_\<close> when it is entered and returns once it finds it set.\<close>

definition threadFunc_loop :: "loop_thread \<Rightarrow> loop_thread" where
  "threadFunc_loop s = s\<lparr>lt_quit := False, lt_child := CLooping\<rparr>"

definition threadFunc_leave :: "loop_thread \<Rightarrow> loop_thread" where
  "threadFunc_leave s = s\<lparr>lt_loop := None, lt_child := CLeaving\<rparr>"

text \<open>One evaluation of the condition in \<open>startLoop\<close>, under the mutex.\<close>

definition startLoop_test :: "loop_thread \<Rightarrow> loop_thread" where
  "startLoop_test s =
     (case lt_loop s of None \<Rightarrow> s\<lparr>lt_parent := PWait\<rparr> | Some l \<Rightarrow> s\<lparr>lt_parent := PReturned l\<rparr>)"

text \<open>The destructor reads \<open>loop_\<close> twice, without the mutex; a thread that was started and not joined is
  detached.\<close>

definition dtor_test :: "loop_thread \<Rightarrow> loop_thread" where
  "dtor_test s = s\<lparr>lt_exiting := True, lt_parent := (if lt_loop s \<noteq> None then PQuit else PGone)\<rparr>"

definition dtor_quit :: "loop_thread \<Rightarrow> loop_thread" where
  "dtor_quit s =
     (case lt_loop s of None \<Rightarrow> s\<lparr>lt_parent := PFault\<rparr> | Some l \<Rightarrow> s\<lparr>lt_quit := True, lt_parent := PJoin\<rparr>)"

text \<open>The steps of both threads. The initial callback, the functors of the loop and other threads may call
  \<open>quit\<close> on the loop while it exists (\<open>quit_other\<close>).\<close>

inductive handover_step :: "nat \<Rightarrow> loop_thread \<Rightarrow> loop_thread \<Rightarrow> bool" for loop where
  start: "lt_parent s = PBegin \<Longrightarrow> handover_step loop s (s\<lparr>lt_parent := PTest, lt_child := CInit\<rparr>)"
| test: "lt_parent s = PTest \<Longrightarrow> lt_child s \<noteq> CLeaving \<Longrightarrow> handover_step loop s (startLoop_test s)"
| spurious: "lt_parent s = PWait \<Longrightarrow> lt_child s \<noteq> CLeaving \<Longrightarrow> handover_step loop s (s\<lparr>lt_parent := PTest\<rparr>)"
| publish: "lt_child s = CInit \<Longrightarrow> handover_step loop s (threadFunc_publish loop s)"
| enter: "lt_child s = CPublished \<Longrightarrow> handover_step loop s (threadFunc_loop s)"
| leave: "lt_child s = CLooping \<Longrightarrow> lt_quit s \<Longrightarrow> handover_step loop s (threadFunc_leave s)"
| exit: "lt_child s = CLeaving \<Longrightarrow> handover_step loop s (s\<lparr>lt_child := CExited\<rparr>)"
| quit_other: "lt_child s \<in> {CInit, CPublished, CLooping} \<Longrightarrow> handover_step loop s (s\<lparr>lt_quit := True\<rparr>)"
| destroy: "lt_parent s = PBegin \<or> lt_parent s = PReturned l \<Longrightarrow> handover_step loop s (dtor_test s)"
| destroy_quit: "lt_parent s = PQuit \<Longrightarrow> handover_step loop s (dtor_quit s)"
| destroy_join: "lt_parent s = PJoin \<Longrightarrow> lt_child s = CExited \<Longrightarrow> handover_step loop s (s\<lparr>lt_parent := PGone\<rparr>)"

inductive_cases handover_stepE: "handover_step loop s s'"

abbreviation handover_reachable :: "bool \<Rightarrow> nat \<Rightarrow> loop_thread \<Rightarrow> bool" where
  "handover_reachable cb loop \<equiv> reachable (\<lambda>s. s = EventLoopThread_new cb) (handover_step loop)"

text \<open>The child is past the publication of its loop.\<close>

definition published :: "loop_thread \<Rightarrow> bool" where
  "published s \<longleftrightarrow> lt_child s \<notin> {CNone, CInit}"

definition handover_inv :: "nat \<Rightarrow> loop_thread \<Rightarrow> bool" where
  "handover_inv loop s \<longleftrightarrow>
     (lt_loop s = (if lt_child s \<in> {CPublished, CLooping} then Some loop else None))
     \<and> (\<forall>l. lt_parent s = PReturned l \<longrightarrow> l = loop \<and> published s)
     \<and> (lt_parent s = PBegin \<longrightarrow> lt_child s = CNone)
     \<and> (lt_child s = CNone \<longrightarrow> lt_parent s \<in> {PBegin, PGone})
     \<and> (lt_parent s = PWait \<longrightarrow> lt_child s \<notin> {CPublished, CLooping})
     \<and> (lt_parent s \<in> {PQuit, PJoin, PFault} \<longrightarrow> published s)
     \<and> (lt_parent s = PGone \<longrightarrow> lt_child s \<in> {CNone, CLeaving, CExited})
     \<and> (lt_initialised s = (if lt_callback s \<and> published s then [loop] else []))"

lemma handover_step_inv: "handover_step loop s s' \<Longrightarrow> handover_inv loop s \<Longrightarrow> handover_inv loop s'"
  by (erule handover_stepE; clarsimp simp: handover_inv_def published_def threadFunc_publish_def
        threadFunc_loop_def threadFunc_leave_def startLoop_test_def dtor_test_def dtor_quit_def)
     (auto split: if_splits intro: child_pc.exhaust [of "lt_child s"])

lemma handover_inv_new: "handover_inv loop (EventLoopThread_new cb)"
  by (simp add: handover_inv_def published_def EventLoopThread_new_def)

interpretation loop_thread: transition_invariant "\<lambda>s. s = EventLoopThread_new cb" "handover_step loop" "handover_inv loop"
  for cb loop
  by unfold_locales (blast intro: handover_inv_new handover_step_inv)+

section \<open>The pool\<close>

record 'l loop_pool =
  lp_baseLoop :: 'l
  lp_name :: bytes
  lp_started :: bool
  lp_numThreads :: int
  lp_next :: nat
  lp_threads :: "bytes list"
  lp_loops :: "'l list"

definition EventLoopThreadPool_new :: "'l \<Rightarrow> bytes \<Rightarrow> 'l loop_pool" where
  "EventLoopThreadPool_new baseLoop nameArg = \<lparr>lp_baseLoop = baseLoop, lp_name = nameArg, lp_started = False,
     lp_numThreads = 0, lp_next = 0, lp_threads = [], lp_loops = []\<rparr>"

definition setThreadNum :: "int \<Rightarrow> 'l loop_pool \<Rightarrow> 'l loop_pool" where
  "setThreadNum n p = p\<lparr>lp_numThreads := n\<rparr>"

text \<open>One round of the loop in \<open>start\<close>; \<open>startLoop i\<close> is the loop of the \<open>i\<close>-th new thread.\<close>

definition start_thread :: "(nat \<Rightarrow> 'l) \<Rightarrow> nat \<Rightarrow> 'l loop_pool \<Rightarrow> 'l loop_pool" where
  "start_thread startLoop i p =
     (let buf = snprintf_buf (length (lp_name p) + 32) (c_str (lp_name p) @ fmt_nat i)
      in p\<lparr>lp_threads := lp_threads p @ [buf], lp_loops := lp_loops p @ [startLoop i]\<rparr>)"

text \<open>\<open>start\<close> returns the loops on which the initial callback ran as well.\<close>

definition pool_start :: "bool \<Rightarrow> (nat \<Rightarrow> 'l) \<Rightarrow> 'l loop_pool \<Rightarrow> 'l list \<times> 'l loop_pool" where
  "pool_start cb startLoop p =
     (let p1 = p\<lparr>lp_started := True\<rparr>;
          n = nat (lp_numThreads p1);
          p2 = fold (start_thread startLoop) [0..<n] p1
      in (if \<not> cb then []
          else if lp_numThreads p1 = 0 then [lp_baseLoop p1]
          else map startLoop [0..<n], p2))"

definition getNextLoop :: "'l loop_pool \<Rightarrow> ('l \<times> 'l loop_pool) res" where
  "getNextLoop p =
     (if lp_loops p \<noteq> []
      then if lp_next p < length (lp_loops p)
           then let loop = lp_loops p ! lp_next p;
                    n = size_add (lp_next p) 1
                in Inr (loop, p\<lparr>lp_next := if length (lp_loops p) \<le> n then 0 else n\<rparr>)
           else Inl OutOfBounds
      else Inr (lp_baseLoop p, p))"

definition getAllLoops :: "'l loop_pool \<Rightarrow> 'l list" where
  "getAllLoops p = (if lp_loops p = [] then [lp_baseLoop p] else lp_loops p)"

fun take_loops :: "nat \<Rightarrow> 'l loop_pool \<Rightarrow> ('l list \<times> 'l loop_pool) res" where
  "take_loops 0 p = Inr ([], p)"
| "take_loops (Suc k) p =
     bindR (getNextLoop p) (\<lambda>(l, p1). bindR (take_loops k p1) (\<lambda>(ls, p2). Inr (l # ls, p2)))"

definition pool_ok :: "'l loop_pool \<Rightarrow> bool" where
  "pool_ok p \<longleftrightarrow> length (lp_loops p) < 2 ^ 63 \<and> lp_next p < max 1 (length (lp_loops p))"

lemma getNextLoop_ok:
  assumes "pool_ok p"
  shows "\<exists>p'. getNextLoop p = Inr (getAllLoops p ! lp_next p, p') \<and> pool_ok p'
    \<and> lp_loops p' = lp_loops p \<and> lp_baseLoop p' = lp_baseLoop p
    \<and> lp_next p' = Suc (lp_next p) mod length (getAllLoops p)"
proof (cases "lp_loops p = []")
  case True
  then show ?thesis using assms by (simp add: getNextLoop_def getAllLoops_def pool_ok_def)
next
  case False
  then have n: "lp_next p < length (lp_loops p)" and "size_add (lp_next p) 1 = Suc (lp_next p)"
    using assms by (auto simp: pool_ok_def size_simps max_def split: if_splits)
  moreover have "Suc (lp_next p) mod length (lp_loops p)
      = (if length (lp_loops p) \<le> Suc (lp_next p) then 0 else Suc (lp_next p))"
    using n by (auto simp: not_le le_Suc_eq)
  ultimately show ?thesis
    using False assms by (auto simp: getNextLoop_def getAllLoops_def pool_ok_def Let_def)
qed

lemma take_loops_ok:
  "pool_ok p \<Longrightarrow> \<exists>p'. take_loops k p =
     Inr (map (\<lambda>i. getAllLoops p ! ((lp_next p + i) mod length (getAllLoops p))) [0..<k], p')
   \<and> pool_ok p' \<and> getAllLoops p' = getAllLoops p \<and> lp_next p' = (lp_next p + k) mod length (getAllLoops p)"
proof (induction k arbitrary: p)
  case 0
  then show ?case by (auto simp: pool_ok_def getAllLoops_def max_def split: if_splits)
next
  case (Suc k)
  from getNextLoop_ok [OF Suc.prems] obtain p1 where p1: "getNextLoop p = Inr (getAllLoops p ! lp_next p, p1)"
    "pool_ok p1" "lp_loops p1 = lp_loops p" "lp_baseLoop p1 = lp_baseLoop p"
    "lp_next p1 = Suc (lp_next p) mod length (getAllLoops p)" by blast
  then have all: "getAllLoops p1 = getAllLoops p" by (simp add: getAllLoops_def)
  from Suc.IH [OF p1(2)] obtain p2 where p2: "take_loops k p1 =
     Inr (map (\<lambda>i. getAllLoops p ! ((lp_next p1 + i) mod length (getAllLoops p))) [0..<k], p2)"
    "pool_ok p2" "getAllLoops p2 = getAllLoops p" "lp_next p2 = (lp_next p1 + k) mod length (getAllLoops p)"
    unfolding all by blast
  have "lp_next p < length (getAllLoops p)"
    using Suc.prems by (auto simp: pool_ok_def getAllLoops_def max_def split: if_splits)
  moreover have "map (\<lambda>i. getAllLoops p ! ((lp_next p + i) mod length (getAllLoops p))) [0..<Suc k]
    = getAllLoops p ! (lp_next p mod length (getAllLoops p))
      # map (\<lambda>i. getAllLoops p ! ((Suc (lp_next p) + i) mod length (getAllLoops p))) [0..<k]"
    by (simp add: upt_conv_Cons map_Suc_upt [symmetric] del: upt_Suc)
  ultimately show ?case
    using p1(1) p2 p1(5) by (simp add: mod_add_left_eq del: upt_Suc)
qed

lemma fold_start_thread:
  "lp_loops (fold (start_thread f) is p) = lp_loops p @ map f is
   \<and> lp_baseLoop (fold (start_thread f) is p) = lp_baseLoop p
   \<and> lp_next (fold (start_thread f) is p) = lp_next p
   \<and> length (lp_threads (fold (start_thread f) is p)) = length (lp_threads p) + length is
   \<and> lp_started (fold (start_thread f) is p) = lp_started p"
  by (induction "is" arbitrary: p) (simp_all add: start_thread_def Let_def)

section \<open>Properties\<close>

text \<open>\<open>startLoop\<close> returns the loop its new thread published, after the initial callback ran
  on it, and is never left waiting while that loop is published. The destructor never returns while the
  child's loop exists: the child was not started or has cleared \<open>loop_\<close>.\<close>

lemma startLoop_handover:
  assumes "handover_reachable cb loop s"
  shows "(\<forall>l. lt_parent s = PReturned l \<longrightarrow> l = loop \<and> lt_initialised s = (if lt_callback s then [loop] else []))
    \<and> (lt_child s \<in> {CPublished, CLooping} \<longrightarrow> lt_parent s \<noteq> PWait)
    \<and> (lt_parent s = PGone \<longrightarrow> lt_child s \<in> {CNone, CLeaving, CExited})"
  using loop_thread.reachable_inv [OF assms] by (auto simp: handover_inv_def)

text \<open>A thread whose loop has just been returned.\<close>

definition handed_over :: "bool \<Rightarrow> nat \<Rightarrow> loop_thread" where
  "handed_over cb loop = \<lparr>lt_loop = Some loop, lt_exiting = False, lt_callback = cb, lt_quit = False,
     lt_parent = PReturned loop, lt_child = CPublished, lt_initialised = (if cb then [loop] else [])\<rparr>"

lemma handed_over_reachable: "handover_reachable cb loop (handed_over cb loop)"
proof -
  let ?s0 = "EventLoopThread_new cb"
  let ?s1 = "?s0\<lparr>lt_parent := PTest, lt_child := CInit\<rparr>"
  have "handover_reachable cb loop ?s0" by (rule reachable_refl)
  moreover have "handover_step loop ?s0 ?s1"
    by (rule handover_step.start) (simp add: EventLoopThread_new_def)
  moreover have "handover_step loop ?s1 (threadFunc_publish loop ?s1)"
    by (rule handover_step.publish) simp
  moreover have "handover_step loop (threadFunc_publish loop ?s1) (startLoop_test (threadFunc_publish loop ?s1))"
    by (rule handover_step.test) (simp_all add: threadFunc_publish_def)
  moreover have "startLoop_test (threadFunc_publish loop ?s1) = handed_over cb loop"
    by (simp add: startLoop_test_def threadFunc_publish_def EventLoopThread_new_def handed_over_def)
  ultimately show ?thesis by (metis reachable_step)
qed

lemma only_quit:
  "handover_step loop s s' \<Longrightarrow> lt_parent s = PJoin \<Longrightarrow> lt_child s = CLooping \<Longrightarrow> \<not> lt_quit s
    \<Longrightarrow> s' = s\<lparr>lt_quit := True\<rparr>"
  by (erule handover_stepE) simp_all

text \<open>\<open>loop()\<close> clears \<open>quit_\<close> when it is entered. A destructor that runs between the
  publication of the loop and that store loses its \<open>quit()\<close>: it waits in \<open>join\<close> for a loop that no
  step of the two threads ends, until something else calls \<open>quit\<close>.\<close>

lemma destructor_quit_lost:
  "\<exists>s. handover_reachable cb loop s \<and> lt_parent s = PJoin \<and> lt_child s = CLooping \<and> \<not> lt_quit s
     \<and> (\<forall>s'. handover_step loop s s' \<longrightarrow> s' = s\<lparr>lt_quit := True\<rparr>)"
proof -
  let ?s1 = "dtor_test (handed_over cb loop)"
  let ?s2 = "dtor_quit ?s1"
  let ?s3 = "threadFunc_loop ?s2"
  note defs = handed_over_def dtor_test_def dtor_quit_def threadFunc_loop_def
  have "handover_step loop (handed_over cb loop) ?s1"
    by (rule handover_step.destroy) (simp add: handed_over_def)
  moreover have "handover_step loop ?s1 ?s2" by (rule handover_step.destroy_quit) (simp add: defs)
  moreover have "handover_step loop ?s2 ?s3" by (rule handover_step.enter) (simp add: defs)
  ultimately have "handover_reachable cb loop ?s3"
    by (metis handed_over_reachable reachable_step)
  moreover have "lt_parent ?s3 = PJoin" "lt_child ?s3 = CLooping" "\<not> lt_quit ?s3" by (simp_all add: defs)
  ultimately show ?thesis using only_quit by blast
qed

text \<open>A started pool deals its loops in turn: any run of as many calls of \<open>getNextLoop\<close> as
  there are loops returns every loop once, in rotated order, and comes back to the same position;
  without threads every call returns the base loop.\<close>

lemma getNextLoop_fair:
  assumes "pool_ok p"
  shows "\<exists>p'. take_loops (length (getAllLoops p)) p = Inr (rotate (lp_next p) (getAllLoops p), p')
     \<and> pool_ok p' \<and> lp_next p' = lp_next p \<and> getAllLoops p' = getAllLoops p"
proof -
  let ?ls = "getAllLoops p"
  have "map (\<lambda>i. ?ls ! ((lp_next p + i) mod length ?ls)) [0..<length ?ls] = rotate (lp_next p) ?ls"
    by (rule nth_equalityI) (simp_all add: nth_rotate)
  moreover have "lp_next p < length ?ls"
    using assms by (auto simp: pool_ok_def getAllLoops_def max_def split: if_splits)
  ultimately show ?thesis using take_loops_ok [OF assms, of "length ?ls"] by auto
qed

end
