(* ===== verification/TcpServer.thy ===== *)
theory TcpServer
  imports LoopPool InetAddress
begin

text \<open>
  The server (\<open>src/src/net/TcpServer.h\<close>, \<open>TcpServer.cc\<close>): the choice of a loop and of a name for each
  new connection, the table of connections, and the protocol by which a connection is established,
  removed and destroyed through functors of the main loop and of its own loop. Loops are numbered,
  \<open>0\<close> being the main one; each has a first-in first-out queue of functors. The life of a connection
  object is its phase. The second half is a step relation over all loops.
\<close>

section \<open>Server state\<close>

type_synonym conn_id = nat

datatype server_functor =
    AcceptorListen
  | ConnectEstablished conn_id
  | RemoveConnectionInLoop conn_id
  | ConnectDestroyed conn_id

datatype conn_phase = Connecting | Established | Closed | Destroyed

record conn_object =
  co_name :: bytes
  co_fd :: int
  co_loop :: nat
  co_local :: sockaddr_in
  co_peer :: sockaddr_in
  co_phase :: conn_phase

text \<open>\<open>connections_\<close> maps names to connection objects, which live in a heap.\<close>

record tcp_server =
  sv_ipPort :: bytes
  sv_name :: bytes
  sv_pool :: "nat loop_pool"
  sv_started :: int
  sv_nextConnId :: int
  sv_connections :: "bytes \<rightharpoonup> conn_id"
  sv_heap :: "conn_object list"
  sv_queues :: "nat \<Rightarrow> server_functor list"
  sv_listening :: bool

definition TcpServer_new :: "sockaddr_in \<Rightarrow> bytes \<Rightarrow> tcp_server res" where
  "TcpServer_new listenAddr nameArg =
     bindR (toIpPort listenAddr) (\<lambda>ipPort. Inr
       \<lparr>sv_ipPort = ipPort, sv_name = nameArg, sv_pool = EventLoopThreadPool_new 0 nameArg,
        sv_started = 0, sv_nextConnId = 1, sv_connections = Map.empty, sv_heap = [],
        sv_queues = (\<lambda>_. []), sv_listening = False\<rparr>)"

definition TcpServer_setThreadNum :: "int \<Rightarrow> tcp_server \<Rightarrow> tcp_server" where
  "TcpServer_setThreadNum n s = s\<lparr>sv_pool := setThreadNum n (sv_pool s)\<rparr>"

section \<open>Operations\<close>

definition set_phase :: "conn_id \<Rightarrow> conn_phase \<Rightarrow> tcp_server \<Rightarrow> tcp_server" where
  "set_phase c ph s = s\<lparr>sv_heap := (sv_heap s)[c := (sv_heap s ! c)\<lparr>co_phase := ph\<rparr>]\<rparr>"

definition server_queue :: "nat \<Rightarrow> server_functor \<Rightarrow> tcp_server \<Rightarrow> tcp_server" where
  "server_queue l f s = s\<lparr>sv_queues := (sv_queues s)(l := sv_queues s l @ [f])\<rparr>"

definition removeConnectionInLoop :: "conn_id \<Rightarrow> tcp_server \<Rightarrow> tcp_server" where
  "removeConnectionInLoop c s =
     (let s1 = s\<lparr>sv_connections := (sv_connections s)(co_name (sv_heap s ! c) := None)\<rparr>;
          ioLoop = co_loop (sv_heap s1 ! c)
      in server_queue ioLoop (ConnectDestroyed c) s1)"

text \<open>Running a functor. \<open>connectEstablished\<close> and \<open>connectDestroyed\<close> change the phase of their object.\<close>

fun server_exec :: "server_functor \<Rightarrow> tcp_server \<Rightarrow> tcp_server" where
  "server_exec AcceptorListen s = s\<lparr>sv_listening := True\<rparr>"
| "server_exec (ConnectEstablished c) s = set_phase c Established s"
| "server_exec (RemoveConnectionInLoop c) s = removeConnectionInLoop c s"
| "server_exec (ConnectDestroyed c) s = set_phase c Destroyed s"

text \<open>\<open>loop->runInLoop(f)\<close> called in the thread of loop \<open>t\<close>.\<close>

definition server_runInLoop :: "nat \<Rightarrow> nat \<Rightarrow> server_functor \<Rightarrow> tcp_server \<Rightarrow> tcp_server" where
  "server_runInLoop t l f s = (if t = l then server_exec f s else server_queue l f s)"

definition TcpServer_start :: "bool \<Rightarrow> (nat \<Rightarrow> nat) \<Rightarrow> nat \<Rightarrow> tcp_server \<Rightarrow> tcp_server" where
  "TcpServer_start cb startLoop t s =
     (let s1 = s\<lparr>sv_started := sv_started s + 1\<rparr>
      in if sv_started s = 0
         then let (inits, pool) = pool_start cb startLoop (sv_pool s1)
              in server_runInLoop t 0 AcceptorListen (s1\<lparr>sv_pool := pool\<rparr>)
         else s1)"

text \<open>The name of the next connection: the text is printed into 64 bytes.\<close>

definition connName :: "tcp_server \<Rightarrow> bytes" where
  "connName s = sv_name s @ snprintf_buf 64
     (CHR ''-'' # c_str (sv_ipPort s) @ CHR ''#'' # fmt_int (sv_nextConnId s))"

text \<open>\<open>newConnection\<close> runs in the main thread; \<open>localAddr\<close> is what \<open>getsockname\<close> filled in.\<close>

definition newConnection :: "int \<Rightarrow> sockaddr_in \<Rightarrow> sockaddr_in \<Rightarrow> tcp_server \<Rightarrow> tcp_server res" where
  "newConnection sockfd peerAddr localAddr s =
     bindR (getNextLoop (sv_pool s)) (\<lambda>(ioLoop, pool).
       let name = connName s
       in if sv_nextConnId s = 2 ^ 31 - 1 then Inl IntOverflow
          else let conn = length (sv_heap s);
                   s1 = s\<lparr>sv_pool := pool, sv_nextConnId := sv_nextConnId s + 1,
                          sv_heap := sv_heap s @ [\<lparr>co_name = name, co_fd = sockfd, co_loop = ioLoop,
                            co_local = localAddr, co_peer = peerAddr, co_phase = Connecting\<rparr>],
                          sv_connections := (sv_connections s)(name \<mapsto> conn)\<rparr>
               in Inr (server_runInLoop 0 ioLoop (ConnectEstablished conn) s1))"

text \<open>\<open>closeCallback_\<close> of a connection: \<open>removeConnection\<close>, called in thread \<open>t\<close>.\<close>

definition removeConnection :: "nat \<Rightarrow> conn_id \<Rightarrow> tcp_server \<Rightarrow> tcp_server" where
  "removeConnection t c s = server_runInLoop t 0 (RemoveConnectionInLoop c) s"

text \<open>The destructor visits the connections in the order \<open>items\<close> of the hash table.\<close>

definition TcpServer_destroy :: "nat \<Rightarrow> conn_id list \<Rightarrow> tcp_server \<Rightarrow> tcp_server" where
  "TcpServer_destroy t items s =
     fold (\<lambda>c s. server_runInLoop t (co_loop (sv_heap s ! c)) (ConnectDestroyed c) s) items s"

section \<open>All loops together\<close>

text \<open>
  A step accepts a connection in the main thread, runs the oldest functor of a loop in its thread,
  or lets the loop of an established connection see the end of its stream (\<open>handleClose\<close>: the
  connection is disconnected and its close callback runs).
\<close>

inductive server_step :: "tcp_server \<Rightarrow> tcp_server \<Rightarrow> bool" where
  accept: "newConnection fd peer loc s = Inr s' \<Longrightarrow> server_step s s'"
| run: "sv_queues s l = f # fs \<Longrightarrow>
    server_step s (server_exec f (s\<lparr>sv_queues := (sv_queues s)(l := fs)\<rparr>))"
| close: "c < length (sv_heap s) \<Longrightarrow> co_phase (sv_heap s ! c) = Established \<Longrightarrow>
    server_step s (removeConnection (co_loop (sv_heap s ! c)) c (set_phase c Closed s))"

inductive_cases server_stepE: "server_step s s'"

abbreviation server_reachable :: "tcp_server \<Rightarrow> tcp_server \<Rightarrow> bool" where
  "server_reachable s0 \<equiv> reachable (\<lambda>s. s = s0) server_step"

section \<open>Invariant\<close>

definition functor_of :: "conn_id \<Rightarrow> server_functor \<Rightarrow> bool" where
  "functor_of c f \<longleftrightarrow> f \<in> {ConnectEstablished c, RemoveConnectionInLoop c, ConnectDestroyed c}"

text \<open>The functors of a connection that wait in a loop, where \<open>hand\<close> may hold one that has just been
  taken from a queue or is about to be run or queued.\<close>

definition in_hand :: "(nat \<times> server_functor) option \<Rightarrow> conn_id \<Rightarrow> nat \<Rightarrow> server_functor list" where
  "in_hand hand c l =
     (case hand of Some (l', f) \<Rightarrow> if l' = l \<and> functor_of c f then [f] else [] | None \<Rightarrow> [])"

definition waiting ::
  "(nat \<times> server_functor) option \<Rightarrow> tcp_server \<Rightarrow> conn_id \<Rightarrow> nat \<Rightarrow> server_functor list"
where
  "waiting hand s c l = in_hand hand c l @ filter (functor_of c) (sv_queues s l)"

text \<open>What should wait for a connection, by its phase and whether the table still holds it.\<close>

definition expected :: "conn_object \<Rightarrow> conn_id \<Rightarrow> bool \<Rightarrow> nat \<Rightarrow> server_functor list" where
  "expected ob c listed l =
     (case co_phase ob of
        Connecting \<Rightarrow> if l = co_loop ob then [ConnectEstablished c] else []
      | Established \<Rightarrow> []
      | Closed \<Rightarrow> if listed then (if l = 0 then [RemoveConnectionInLoop c] else [])
                  else (if l = co_loop ob then [ConnectDestroyed c] else [])
      | Destroyed \<Rightarrow> [])"

definition conn_ok :: "(nat \<times> server_functor) option \<Rightarrow> tcp_server \<Rightarrow> conn_id \<Rightarrow> bool" where
  "conn_ok hand s c \<longleftrightarrow>
     (let ob = sv_heap s ! c; listed = (sv_connections s (co_name ob) = Some c)
      in (\<forall>l. waiting hand s c l = expected ob c listed l)
       \<and> (co_phase ob \<in> {Connecting, Established} \<longrightarrow> listed)
       \<and> (co_phase ob = Destroyed \<longrightarrow> \<not> listed))"

text \<open>The name given to the connection at position \<open>c\<close> of the heap.\<close>

definition conn_name :: "tcp_server \<Rightarrow> conn_id \<Rightarrow> bytes" where
  "conn_name s c = sv_name s @ CHR ''-'' # c_str (sv_ipPort s) @ CHR ''#'' # fmt_nat (c + 1)"

definition server_inv :: "(nat \<times> server_functor) option \<Rightarrow> tcp_server \<Rightarrow> bool" where
  "server_inv hand s \<longleftrightarrow>
     pool_ok (sv_pool s) \<and> sv_nextConnId s = int (length (sv_heap s)) + 1 \<and> length (sv_heap s) < 2 ^ 31 - 1
     \<and> length (sv_ipPort s) \<le> 21
     \<and> (\<forall>c < length (sv_heap s). co_name (sv_heap s ! c) = conn_name s c \<and> conn_ok hand s c)
     \<and> (\<forall>c \<ge> length (sv_heap s). \<forall>l. waiting hand s c l = [])
     \<and> (\<forall>n c. sv_connections s n = Some c \<longrightarrow> c < length (sv_heap s) \<and> co_name (sv_heap s ! c) = n)"

lemma functor_of_inj: "functor_of c f \<Longrightarrow> functor_of d f \<Longrightarrow> c = d"
  by (auto simp: functor_of_def)

lemma conn_name_inj: "conn_name s c = conn_name s d \<longleftrightarrow> c = d"
  by (simp add: conn_name_def fmt_nat_inj)

lemma connName_eq:
  assumes "length (sv_ipPort s) \<le> 21" "sv_nextConnId s = int c + 1" "c < 2 ^ 31"
  shows "connName s = conn_name s c"
proof -
  have "length (c_str (sv_ipPort s)) \<le> 21"
    using assms(1) length_takeWhile_le [of _ "sv_ipPort s"] by (simp add: c_str_def) (meson order_trans)
  moreover have "length (fmt_nat (c + 1)) \<le> 10"
    by (rule length_fmt_nat_le) (use assms(3) in simp_all)
  ultimately have "snprintf_buf 64 (CHR ''-'' # c_str (sv_ipPort s) @ CHR ''#'' # fmt_nat (c + 1))
      = CHR ''-'' # c_str (sv_ipPort s) @ CHR ''#'' # fmt_nat (c + 1)"
    by (simp add: snprintf_buf_def)
  moreover have "fmt_int (sv_nextConnId s) = fmt_nat (c + 1)"
    using assms(2) by (simp add: fmt_int_def nat_add_distrib)
  ultimately show ?thesis by (simp add: connName_def conn_name_def)
qed

lemma server_inv_ok: "server_inv hand s \<Longrightarrow> c < length (sv_heap s) \<Longrightarrow> conn_ok hand s c"
  by (simp add: server_inv_def)

lemma server_inv_frame:
  assumes "server_inv hand s" and "waiting hand' s' = waiting hand s" and "sv_pool s' = sv_pool s"
    and "sv_nextConnId s' = sv_nextConnId s" and "sv_heap s' = sv_heap s" and "sv_ipPort s' = sv_ipPort s"
    and "sv_name s' = sv_name s" and "sv_connections s' = sv_connections s"
  shows "server_inv hand' s'"
  using assms(1) unfolding server_inv_def conn_ok_def conn_name_def assms(2-8) .

text \<open>Taking a functor from a queue, and putting it into one.\<close>

lemma server_inv_pop:
  assumes "server_inv None s" "sv_queues s l = f # fs"
  shows "server_inv (Some (l, f)) (s\<lparr>sv_queues := (sv_queues s)(l := fs)\<rparr>)"
proof -
  have "waiting (Some (l, f)) (s\<lparr>sv_queues := (sv_queues s)(l := fs)\<rparr>) = waiting None s"
    using assms(2) by (auto simp: waiting_def in_hand_def fun_eq_iff)
  then show ?thesis by (rule server_inv_frame [OF assms(1)]) simp_all
qed

lemma expected_length: "length (expected ob c b l) \<le> 1"
  by (auto simp: expected_def split: conn_phase.splits)

lemma waiting_length: "server_inv hand s \<Longrightarrow> length (waiting hand s c l) \<le> 1"
  using expected_length
  by (cases "c < length (sv_heap s)") (auto simp: server_inv_def conn_ok_def Let_def not_less)

lemma server_inv_queue:
  assumes "server_inv (Some (l, f)) s"
  shows "server_inv None (server_queue l f s)"
proof -
  have "waiting None (server_queue l f s) c l' = waiting (Some (l, f)) s c l'" for c l'
    using waiting_length [OF assms, of c l']
    by (cases "filter (functor_of c) (sv_queues s l')") (auto simp: waiting_def in_hand_def server_queue_def)
  then have "waiting None (server_queue l f s) = waiting (Some (l, f)) s" by (simp add: fun_eq_iff)
  then show ?thesis by (rule server_inv_frame [OF assms]) (simp_all add: server_queue_def)
qed

text \<open>One connection changes its phase, its entry in the table, and the functor in hand.\<close>

lemma server_inv_conn:
  assumes inv: "server_inv hand s" and c: "c < length (sv_heap s)"
    and queues: "sv_queues s' = sv_queues s"
    and heap: "sv_heap s' = (sv_heap s)[c := (sv_heap s ! c)\<lparr>co_phase := ph\<rparr>]"
    and table: "sv_connections s' = (if listed then sv_connections s else (sv_connections s)(co_name (sv_heap s ! c) := None))"
    and same: "sv_pool s' = sv_pool s" "sv_nextConnId s' = sv_nextConnId s" "sv_ipPort s' = sv_ipPort s" "sv_name s' = sv_name s"
    and hand: "\<And>d l. d \<noteq> c \<Longrightarrow> in_hand hand' d l = in_hand hand d l"
    and ok: "conn_ok hand' s' c"
  shows "server_inv hand' s'"
proof -
  have name: "conn_name s' d = conn_name s d" for d using same by (simp add: conn_name_def)
  have other: "conn_ok hand' s' d" if "d < length (sv_heap s)" "d \<noteq> c" for d
  proof -
    have "co_name (sv_heap s ! d) \<noteq> co_name (sv_heap s ! c)"
      using inv c that by (simp add: server_inv_def conn_name_inj)
    then have "sv_connections s' (co_name (sv_heap s' ! d)) = sv_connections s (co_name (sv_heap s ! d))"
      "sv_heap s' ! d = sv_heap s ! d"
      using that table heap by simp_all
    moreover have "waiting hand' s' d l = waiting hand s d l" for l
      using that hand queues by (simp add: waiting_def)
    moreover have "conn_ok hand s d" using inv that by (simp add: server_inv_def)
    ultimately show ?thesis by (simp add: conn_ok_def)
  qed
  have len: "length (sv_heap s') = length (sv_heap s)" using heap by simp
  have rest: "\<forall>d \<ge> length (sv_heap s). \<forall>l. waiting hand' s' d l = []"
    using inv c hand queues heap by (auto simp: server_inv_def waiting_def)
  have nm: "co_name (sv_heap s' ! d) = co_name (sv_heap s ! d)" if "d < length (sv_heap s)" for d
    using heap that by (cases "d = c") simp_all
  have all: "\<forall>d < length (sv_heap s). co_name (sv_heap s' ! d) = conn_name s' d \<and> conn_ok hand' s' d"
    using other ok nm name inv by (metis server_inv_def)
  have tab: "\<forall>n d. sv_connections s' n = Some d \<longrightarrow> d < length (sv_heap s) \<and> co_name (sv_heap s' ! d) = n"
    using inv nm table by (metis fun_upd_apply option.distinct(1) server_inv_def)
  have "pool_ok (sv_pool s') \<and> sv_nextConnId s' = int (length (sv_heap s)) + 1
      \<and> length (sv_heap s) < 2 ^ 31 - 1 \<and> length (sv_ipPort s') \<le> 21"
    using inv same by (simp add: server_inv_def)
  then show ?thesis using all rest tab unfolding server_inv_def len by blast
qed

text \<open>The transitions of the protocol.\<close>

lemma hand_phase:
  assumes inv: "server_inv (Some (l, f)) s" and f: "functor_of c f"
  shows "c < length (sv_heap s)"
    "[f] = expected (sv_heap s ! c) c (sv_connections s (co_name (sv_heap s ! c)) = Some c) l"
    "filter (functor_of c) (sv_queues s l') = []"
proof -
  have w: "waiting (Some (l, f)) s c l = f # filter (functor_of c) (sv_queues s l)"
    using f by (simp add: waiting_def in_hand_def)
  then show c: "c < length (sv_heap s)" using inv by (metis list.distinct(1) not_less server_inv_def)
  have e: "waiting (Some (l, f)) s c l'
      = expected (sv_heap s ! c) c (sv_connections s (co_name (sv_heap s ! c)) = Some c) l'" for l'
    using inv c by (simp add: server_inv_def conn_ok_def Let_def)
  have "length (f # filter (functor_of c) (sv_queues s l)) \<le> 1"
    using waiting_length [OF inv, of c l] unfolding w .
  then have none: "filter (functor_of c) (sv_queues s l) = []" by simp
  show ex: "[f] = expected (sv_heap s ! c) c (sv_connections s (co_name (sv_heap s ! c)) = Some c) l"
    using e [of l] w none by simp
  show "filter (functor_of c) (sv_queues s l') = []"
  proof (cases "l' = l")
    case True
    then show ?thesis using none by simp
  next
    case False
    then have "expected (sv_heap s ! c) c (sv_connections s (co_name (sv_heap s ! c)) = Some c) l' = []"
      using ex by (auto simp: expected_def split: conn_phase.splits if_splits)
    then show ?thesis using e [of l'] by (simp add: waiting_def)
  qed
qed

lemma hand_functors:
  assumes "server_inv (Some (l, f)) s" "functor_of c f"
  shows "f = ConnectEstablished c \<Longrightarrow> co_phase (sv_heap s ! c) = Connecting \<and> l = co_loop (sv_heap s ! c)"
    "f = RemoveConnectionInLoop c \<Longrightarrow> co_phase (sv_heap s ! c) = Closed \<and> l = 0
       \<and> sv_connections s (co_name (sv_heap s ! c)) = Some c"
    "f = ConnectDestroyed c \<Longrightarrow> co_phase (sv_heap s ! c) = Closed \<and> l = co_loop (sv_heap s ! c)
       \<and> sv_connections s (co_name (sv_heap s ! c)) \<noteq> Some c"
  using hand_phase(2) [OF assms] by (auto simp: expected_def split: conn_phase.splits if_splits)

lemma server_inv_exec_remove:
  assumes inv: "server_inv (Some (l, RemoveConnectionInLoop c)) s"
  shows "server_inv None (removeConnectionInLoop c s)"
proof -
  have f: "functor_of c (RemoveConnectionInLoop c)" by (simp add: functor_of_def)
  note h = hand_phase [OF inv f] and p = hand_functors(2) [OF inv f refl]
  let ?s = "s\<lparr>sv_connections := (sv_connections s)(co_name (sv_heap s ! c) := None)\<rparr>"
  have "server_inv (Some (co_loop (sv_heap s ! c), ConnectDestroyed c)) ?s"
  proof (rule server_inv_conn [OF inv h(1), where ph = Closed and listed = False])
    show "sv_heap ?s = (sv_heap s)[c := (sv_heap s ! c)\<lparr>co_phase := Closed\<rparr>]"
      using p h(1) by (metis (no_types, lifting) conn_object.surjective conn_object.update_convs(6)
          list_update_id tcp_server.select_convs(7) tcp_server.surjective tcp_server.update_convs(6))
    show "conn_ok (Some (co_loop (sv_heap s ! c), ConnectDestroyed c)) ?s c"
      using p h(3) by (simp add: conn_ok_def waiting_def in_hand_def functor_of_def expected_def)
  qed (auto simp: in_hand_def functor_of_def)
  then show ?thesis by (simp add: removeConnectionInLoop_def Let_def server_inv_queue)
qed

lemma server_inv_exec_phase:
  assumes inv: "server_inv (Some (l, f)) s" and f: "functor_of c f"
    and ph: "ph = Established \<and> f = ConnectEstablished c \<or> ph = Destroyed \<and> f = ConnectDestroyed c"
  shows "server_inv None (set_phase c ph s)"
proof (rule server_inv_conn [OF inv hand_phase(1) [OF inv f], where ph = ph and listed = True])
  have "co_phase (sv_heap s ! c) = Connecting \<longrightarrow> sv_connections s (co_name (sv_heap s ! c)) = Some c"
    using server_inv_ok [OF inv hand_phase(1) [OF inv f]] by (simp add: conn_ok_def Let_def)
  then show "conn_ok None (set_phase c ph s) c"
    using ph hand_phase(1,3) [OF inv f] hand_functors [OF inv f]
    by (auto simp: conn_ok_def set_phase_def waiting_def in_hand_def expected_def)
  show "in_hand None d l' = in_hand (Some (l, f)) d l'" if "d \<noteq> c" for d l'
    using functor_of_inj [OF f] that by (auto simp: in_hand_def)
qed (simp_all add: set_phase_def)

lemma server_inv_exec:
  assumes "server_inv (Some (l, f)) s"
  shows "server_inv None (server_exec f s)"
proof (cases f)
  case AcceptorListen
  have "waiting None (s\<lparr>sv_listening := True\<rparr>) = waiting (Some (l, f)) s"
    using AcceptorListen by (simp add: waiting_def in_hand_def functor_of_def fun_eq_iff)
  then show ?thesis using AcceptorListen by (auto intro: server_inv_frame [OF assms])
next
  case (RemoveConnectionInLoop c)
  then show ?thesis using server_inv_exec_remove assms by simp
next
  case (ConnectEstablished c)
  then show ?thesis using server_inv_exec_phase [OF assms, of c] by (simp add: functor_of_def)
next
  case (ConnectDestroyed c)
  then show ?thesis using server_inv_exec_phase [OF assms, of c] by (simp add: functor_of_def)
qed

lemma server_inv_run: "server_inv (Some (l, f)) s \<Longrightarrow> server_inv None (server_runInLoop t l f s)"
  by (simp add: server_runInLoop_def server_inv_exec server_inv_queue)

lemma server_inv_accept:
  assumes inv: "server_inv None s" and pool: "pool_ok pool" and bound: "length (sv_heap s) + 1 < 2 ^ 31 - 1"
    and s1: "s1 = s\<lparr>sv_pool := pool, sv_nextConnId := sv_nextConnId s + 1,
        sv_heap := sv_heap s @ [\<lparr>co_name = connName s, co_fd = sockfd, co_loop = ioLoop,
          co_local = localAddr, co_peer = peerAddr, co_phase = Connecting\<rparr>],
        sv_connections := (sv_connections s)(connName s \<mapsto> length (sv_heap s))\<rparr>"
  shows "server_inv (Some (ioLoop, ConnectEstablished (length (sv_heap s)))) s1"
proof -
  let ?n = "length (sv_heap s)" and ?h = "Some (ioLoop, ConnectEstablished (length (sv_heap s)))"
  have nx: "sv_nextConnId s = int ?n + 1" and ip: "length (sv_ipPort s) \<le> 21"
    and tab: "\<And>n c. sv_connections s n = Some c \<Longrightarrow> c < ?n \<and> co_name (sv_heap s ! c) = n"
    and nm: "\<And>c. c < ?n \<Longrightarrow> co_name (sv_heap s ! c) = conn_name s c"
    and rest: "\<And>c l. ?n \<le> c \<Longrightarrow> waiting None s c l = []"
    using inv unfolding server_inv_def by blast+
  have name: "connName s = conn_name s ?n" using connName_eq [OF ip nx] bound by simp
  have cn: "conn_name s1 c = conn_name s c" for c by (simp add: s1 conn_name_def)
  have w: "waiting ?h s1 c l = (if c = ?n \<and> l = ioLoop then [ConnectEstablished c] else waiting None s c l)" for c l
    using rest [of ?n l] by (auto simp: waiting_def in_hand_def functor_of_def s1)
  have old: "conn_ok ?h s1 c" if "c < ?n" for c
  proof -
    have "co_name (sv_heap s ! c) \<noteq> connName s" using nm [OF that] that name by (simp add: conn_name_inj)
    then show ?thesis
      using server_inv_ok [OF inv that] that w by (simp add: conn_ok_def s1 nth_append)
  qed
  have new: "conn_ok ?h s1 ?n"
    using w rest [of ?n] by (simp add: conn_ok_def s1 nth_append expected_def)
  have len: "length (sv_heap s1) = Suc ?n" by (simp add: s1)
  have all: "\<forall>c < Suc ?n. co_name (sv_heap s1 ! c) = conn_name s1 c \<and> conn_ok ?h s1 c"
    using old new nm name by (auto simp: less_Suc_eq cn) (simp_all add: s1 nth_append)
  have rest1: "\<forall>c \<ge> Suc ?n. \<forall>l. waiting ?h s1 c l = []" using w rest by auto
  have tab1: "\<forall>n c. sv_connections s1 n = Some c \<longrightarrow> c < Suc ?n \<and> co_name (sv_heap s1 ! c) = n"
    using tab by (auto simp: s1 nth_append less_Suc_eq split: if_splits)
  have "pool_ok (sv_pool s1) \<and> sv_nextConnId s1 = int (Suc ?n) + 1 \<and> Suc ?n < 2 ^ 31 - 1 \<and> length (sv_ipPort s1) \<le> 21"
    using pool bound nx ip by (simp add: s1)
  then show ?thesis using all rest1 tab1 unfolding server_inv_def len by blast
qed

lemma newConnection_inv:
  assumes inv: "server_inv None s" and bound: "length (sv_heap s) + 1 < 2 ^ 31 - 1"
  shows "\<exists>s'. newConnection fd peer loc s = Inr s' \<and> server_inv None s'
    \<and> length (sv_heap s') = length (sv_heap s) + 1"
proof -
  have pool: "pool_ok (sv_pool s)" and nx: "sv_nextConnId s = int (length (sv_heap s)) + 1"
    using inv by (simp_all add: server_inv_def)
  from getNextLoop_ok [OF pool] obtain io pool' where
    g: "getNextLoop (sv_pool s) = Inr (io, pool')" "pool_ok pool'" by blast
  let ?s1 = "s\<lparr>sv_pool := pool', sv_nextConnId := sv_nextConnId s + 1,
        sv_heap := sv_heap s @ [\<lparr>co_name = connName s, co_fd = fd, co_loop = io,
          co_local = loc, co_peer = peer, co_phase = Connecting\<rparr>],
        sv_connections := (sv_connections s)(connName s \<mapsto> length (sv_heap s))\<rparr>"
  have "newConnection fd peer loc s = Inr (server_runInLoop 0 io (ConnectEstablished (length (sv_heap s))) ?s1)"
    using g(1) nx bound by (simp add: newConnection_def Let_def)
  moreover have "server_inv None (server_runInLoop 0 io (ConnectEstablished (length (sv_heap s))) ?s1)"
    by (rule server_inv_run [OF server_inv_accept [OF inv g(2) bound refl]])
  moreover have "length (sv_heap (server_runInLoop 0 io (ConnectEstablished (length (sv_heap s))) ?s1)) = length (sv_heap s) + 1"
    by (simp add: server_runInLoop_def set_phase_def server_queue_def)
  ultimately show ?thesis by blast
qed

lemma close_inv:
  assumes inv: "server_inv None s" and c: "c < length (sv_heap s)" and ph: "co_phase (sv_heap s ! c) = Established"
  shows "server_inv None (removeConnection t c (set_phase c Closed s))"
proof -
  have "server_inv (Some (0, RemoveConnectionInLoop c)) (set_phase c Closed s)"
  proof (rule server_inv_conn [OF inv c, where ph = Closed and listed = True])
    show "conn_ok (Some (0, RemoveConnectionInLoop c)) (set_phase c Closed s) c"
      using server_inv_ok [OF inv c] ph c
      by (auto simp: conn_ok_def waiting_def in_hand_def functor_of_def expected_def set_phase_def)
  qed (auto simp: set_phase_def in_hand_def functor_of_def)
  then show ?thesis by (simp add: removeConnection_def server_inv_run)
qed

lemma server_step_inv: "server_inv None s \<Longrightarrow> server_step s s' \<Longrightarrow> server_inv None s'"
proof (erule server_stepE)
  fix fd peer loc
  assume inv: "server_inv None s" and new: "newConnection fd peer loc s = Inr s'"
  from inv have pool: "pool_ok (sv_pool s)" and nx: "sv_nextConnId s = int (length (sv_heap s)) + 1"
    and b: "length (sv_heap s) < 2 ^ 31 - 1"
    by (simp_all add: server_inv_def)
  have "sv_nextConnId s \<noteq> 2 ^ 31 - 1"
    using new getNextLoop_ok [OF pool] by (auto simp: newConnection_def)
  with nx b have "length (sv_heap s) + 1 < 2 ^ 31 - 1" by simp
  from newConnection_inv [OF inv this, of fd peer loc] new show "server_inv None s'" by auto
next
  fix l f fs
  assume "server_inv None s" "s' = server_exec f (s\<lparr>sv_queues := (sv_queues s)(l := fs)\<rparr>)" "sv_queues s l = f # fs"
  then show "server_inv None s'" using server_inv_exec [OF server_inv_pop] by blast
next
  fix c
  assume "server_inv None s" "s' = removeConnection (co_loop (sv_heap s ! c)) c (set_phase c Closed s)"
    "c < length (sv_heap s)" "co_phase (sv_heap s ! c) = Established"
  then show "server_inv None s'" by (simp add: close_inv)
qed

text \<open>A server that was constructed, given its threads and started in the main thread.\<close>

definition started_server :: "sockaddr_in \<Rightarrow> bytes \<Rightarrow> int \<Rightarrow> bool \<Rightarrow> (nat \<Rightarrow> nat) \<Rightarrow> tcp_server res" where
  "started_server addr name n cb startLoop =
     bindR (TcpServer_new addr name) (\<lambda>s. Inr (TcpServer_start cb startLoop 0 (TcpServer_setThreadNum n s)))"

lemma started_server_inv:
  assumes "started_server addr name n cb startLoop = Inr s" "n < 2 ^ 31"
  shows "server_inv None s"
proof -
  from assms(1) obtain ip where ip: "toIpPort addr = Inr ip"
    and s: "sv_ipPort s = ip" "sv_nextConnId s = 1" "sv_heap s = []" "sv_connections s = Map.empty"
      "sv_queues s = (\<lambda>_. [])" "sv_pool s = snd (pool_start cb startLoop (setThreadNum n (EventLoopThreadPool_new 0 name)))"
    by (auto simp: started_server_def TcpServer_new_def bindR_Inr_iff TcpServer_start_def
        TcpServer_setThreadNum_def server_runInLoop_def Let_def split: prod.splits)
  have "pool_ok (sv_pool s)"
    using assms(2) fold_start_thread [of startLoop "[0..<nat n]"]
    by (simp add: s pool_start_def pool_ok_def Let_def setThreadNum_def EventLoopThreadPool_new_def
        nat_less_iff less_max_iff_disj)
  then show ?thesis
    using length_toIpPort [OF ip] by (simp add: server_inv_def s waiting_def in_hand_def)
qed

interpretation server: transition_invariant "server_inv None" server_step "server_inv None"
  by unfold_locales (blast intro: server_step_inv)+

lemma server_reachable_inv:
  "server_reachable s0 s \<Longrightarrow> started_server addr name n cb startLoop = Inr s0 \<Longrightarrow> n < 2 ^ 31 \<Longrightarrow> server_inv None s"
  by (rule server.reachable_inv, erule reachable_from) (simp add: started_server_inv)

section \<open>Properties\<close>

text \<open>Claim C16. Every functor about a connection runs in the right loop and at the right time: a loop
  about to run \<open>connectEstablished\<close> owns a connection not yet established; the main loop about to
  remove a connection finds it closed and still in the table; a loop about to run
  \<open>connectDestroyed\<close> owns a connection that is closed, already out of the table and not yet
  destroyed. So no connection is destroyed twice or before it is established.\<close>

theorem functors_in_order:
  assumes "started_server addr name n cb startLoop = Inr s0" and "n < 2 ^ 31" and "server_reachable s0 s"
    and "sv_queues s l = f # fs"
  shows "case f of
      AcceptorListen \<Rightarrow> True
    | ConnectEstablished c \<Rightarrow> l = co_loop (sv_heap s ! c) \<and> co_phase (sv_heap s ! c) = Connecting
    | RemoveConnectionInLoop c \<Rightarrow> l = 0 \<and> co_phase (sv_heap s ! c) = Closed
        \<and> sv_connections s (co_name (sv_heap s ! c)) = Some c
    | ConnectDestroyed c \<Rightarrow> l = co_loop (sv_heap s ! c) \<and> co_phase (sv_heap s ! c) = Closed
        \<and> sv_connections s (co_name (sv_heap s ! c)) \<noteq> Some c"
proof -
  have "server_inv (Some (l, f)) (s\<lparr>sv_queues := (sv_queues s)(l := fs)\<rparr>)"
    by (rule server_inv_pop [OF server_reachable_inv [OF assms(3,1,2)] assms(4)])
  from hand_functors [OF this] show ?thesis
    by (cases f) (auto simp: functor_of_def)
qed

text \<open>All connections ever accepted have different names, and the table finds every
  connection that is being established or is established under its name, and no destroyed one.\<close>

lemma connection_table:
  assumes "started_server addr name n cb startLoop = Inr s0" and "n < 2 ^ 31" and "server_reachable s0 s"
  shows "distinct (map co_name (sv_heap s)) \<and>
    (\<forall>c < length (sv_heap s).
       (co_phase (sv_heap s ! c) \<in> {Connecting, Established} \<longrightarrow> sv_connections s (co_name (sv_heap s ! c)) = Some c)
     \<and> (co_phase (sv_heap s ! c) = Destroyed \<longrightarrow> sv_connections s (co_name (sv_heap s ! c)) = None))"
proof -
  have inv: "server_inv None s" by (rule server_reachable_inv [OF assms(3,1,2)])
  then have nm: "\<And>c. c < length (sv_heap s) \<Longrightarrow> co_name (sv_heap s ! c) = conn_name s c"
    and tab: "\<And>n c. sv_connections s n = Some c \<Longrightarrow> c < length (sv_heap s) \<and> co_name (sv_heap s ! c) = n"
    unfolding server_inv_def by blast+
  have "sv_connections s (co_name (sv_heap s ! c)) = None"
    if "c < length (sv_heap s)" "co_phase (sv_heap s ! c) = Destroyed" for c
  proof (cases "sv_connections s (co_name (sv_heap s ! c))")
    case (Some d)
    then have "conn_name s d = conn_name s c" using tab [OF Some] nm that by metis
    then have "d = c" by (simp add: conn_name_inj)
    then show ?thesis using Some server_inv_ok [OF inv that(1)] that(2) by (simp add: conn_ok_def Let_def)
  qed
  moreover have "distinct (map co_name (sv_heap s))"
    using nm by (auto simp: distinct_conv_nth conn_name_inj)
  ultimately show ?thesis using server_inv_ok [OF inv] by (auto simp: conn_ok_def Let_def)
qed

text \<open>A server with one thread beside the main one, before and after its first connection.\<close>

definition srv_start :: tcp_server where
  "srv_start = (case started_server (InetAddress_new 80 []) ''srv'' 1 False (\<lambda>i. i + 1) of Inr s \<Rightarrow> s)"

definition srv_one :: tcp_server where
  "srv_one = (case newConnection 7 (InetAddress_new 4000 []) (InetAddress_new 80 []) srv_start of Inr s \<Rightarrow> s)"

lemma srv_start_eq: "started_server (InetAddress_new 80 []) ''srv'' 1 False (\<lambda>i. i + 1) = Inr srv_start"
  by (simp add: srv_start_def started_server_def TcpServer_new_def toIpPort_text)

lemma srv_start_fields:
  "sv_heap srv_start = []" "sv_queues srv_start = (\<lambda>_. [])" "sv_nextConnId srv_start = 1"
  "lp_loops (sv_pool srv_start) = [1]" "lp_next (sv_pool srv_start) = 0"
  by (simp_all add: srv_start_def started_server_def TcpServer_new_def toIpPort_text TcpServer_start_def
      TcpServer_setThreadNum_def setThreadNum_def EventLoopThreadPool_new_def pool_start_def start_thread_def
      server_runInLoop_def Let_def)

lemma srv_one_facts:
  "newConnection 7 (InetAddress_new 4000 []) (InetAddress_new 80 []) srv_start = Inr srv_one"
  "sv_queues srv_one 1 = [ConnectEstablished 0]" "length (sv_heap srv_one) = 1"
  "co_loop (sv_heap srv_one ! 0) = 1" "co_phase (sv_heap srv_one ! 0) = Connecting"
  by (simp_all add: srv_one_def newConnection_def getNextLoop_def srv_start_fields Let_def
      server_runInLoop_def server_queue_def)

lemma srv_one_reachable: "server_reachable srv_start srv_one"
  using reachable_step [of _ server_step, OF reachable_refl] server_step.accept [OF srv_one_facts(1)] by blast

theorem functors_in_order_witness:
  "sv_queues srv_one 1 = [ConnectEstablished 0] \<and> co_phase (sv_heap srv_one ! 0) = Connecting"
  using functors_in_order [OF srv_start_eq _ srv_one_reachable srv_one_facts(2)] srv_one_facts(2) by simp

end
