(* ===== verification/Buffer.thy ===== *)
theory Buffer
  imports Prelude
begin

text \<open>
  The network buffer (\<open>src/src/net/Buffer.h\<close>, \<open>Buffer.cc\<close>): a \<open>std::vector<char>\<close> with a
  reader and a writer index. Pointers into the vector are offsets from \<open>begin()\<close>. Sums and
  differences of \<open>size_t\<close> wrap, \<open>makeSpace\<close> takes its argument as \<open>int\<close>, and a copy that
  leaves the vector is the error \<open>OutOfBounds\<close>. The system calls \<open>readv\<close> and \<open>write\<close> are
  arguments. The abstract view of a buffer is the byte string between its two indices.
\<close>

section \<open>State\<close>

record buffer =
  bufferData :: bytes
  readerIndex :: nat
  writerIndex :: nat

definition kCheapPrepend :: nat where
  "kCheapPrepend = 8"

definition kInitialSize :: nat where
  "kInitialSize = 1024"

definition kCRLF :: bytes where
  "kCRLF = [CHR 0x0D, CHR 0x0A]"

definition Buffer_new :: "nat \<Rightarrow> buffer" where
  "Buffer_new initialSize =
     \<lparr>bufferData = replicate (size_add kCheapPrepend initialSize) (CHR 0x00),
      readerIndex = kCheapPrepend, writerIndex = kCheapPrepend\<rparr>"

section \<open>Operations\<close>

definition readableBytes :: "buffer \<Rightarrow> nat" where
  "readableBytes b = size_sub (writerIndex b) (readerIndex b)"

definition writableBytes :: "buffer \<Rightarrow> nat" where
  "writableBytes b = size_sub (length (bufferData b)) (writerIndex b)"

definition prependableBytes :: "buffer \<Rightarrow> nat" where
  "prependableBytes b = readerIndex b"

definition peek :: "buffer \<Rightarrow> nat" where
  "peek b = readerIndex b"

definition beginWrite :: "buffer \<Rightarrow> nat" where
  "beginWrite b = writerIndex b"

definition retrieveAll :: "buffer \<Rightarrow> buffer" where
  "retrieveAll b = b\<lparr>readerIndex := kCheapPrepend, writerIndex := kCheapPrepend\<rparr>"

definition retrieve :: "nat \<Rightarrow> buffer \<Rightarrow> buffer" where
  "retrieve len b =
     (if len < readableBytes b
      then b\<lparr>readerIndex := size_add (readerIndex b) len\<rparr>
      else retrieveAll b)"

definition retrieveUntil :: "nat \<Rightarrow> buffer \<Rightarrow> buffer" where
  "retrieveUntil end b = retrieve (size_sub end (peek b)) b"

text \<open>\<open>std::string(peek(), len)\<close> reads \<open>len\<close> bytes of the vector.\<close>

definition string_at :: "bytes \<Rightarrow> nat \<Rightarrow> nat \<Rightarrow> bytes res" where
  "string_at xs at len =
     (if at + len \<le> length xs then Inr (take len (drop at xs)) else Inl OutOfBounds)"

definition GetBufferAllAsString :: "buffer \<Rightarrow> bytes res" where
  "GetBufferAllAsString b = string_at (bufferData b) (peek b) (readableBytes b)"

definition retrieveAsString :: "nat \<Rightarrow> buffer \<Rightarrow> (bytes \<times> buffer) res" where
  "retrieveAsString len b =
     bindR (string_at (bufferData b) (peek b) len) (\<lambda>result. Inr (result, retrieve len b))"

definition retrieveAllAsString :: "buffer \<Rightarrow> (bytes \<times> buffer) res" where
  "retrieveAllAsString b = retrieveAsString (readableBytes b) b"

text \<open>\<open>vector::resize\<close>: longer than \<open>max_size\<close> throws \<open>std::length_error\<close>; new elements
  are zero.\<close>

definition vector_resize :: "nat \<Rightarrow> bytes \<Rightarrow> bytes res" where
  "vector_resize n xs =
     (if 2 ^ 63 \<le> n then Inl LengthError
      else Inr (take n xs @ replicate (n - length xs) (CHR 0x00)))"

definition makeSpace :: "int \<Rightarrow> buffer \<Rightarrow> buffer res" where
  "makeSpace len b =
     (if size_add (writableBytes b) (prependableBytes b)
           < size_add (size_of_int len) kCheapPrepend
      then bindR (vector_resize (size_add (writerIndex b) (size_of_int len)) (bufferData b))
             (\<lambda>d. Inr (b\<lparr>bufferData := d\<rparr>))
      else let readable = readableBytes b in
        bindR (string_at (bufferData b) (readerIndex b) readable)
          (\<lambda>src. if kCheapPrepend + length src \<le> length (bufferData b)
             then Inr (b\<lparr>bufferData := overwrite (bufferData b) kCheapPrepend src,
                         readerIndex := kCheapPrepend,
                         writerIndex := size_add kCheapPrepend readable\<rparr>)
             else Inl OutOfBounds))"

definition ensureWritableBytes :: "nat \<Rightarrow> buffer \<Rightarrow> buffer res" where
  "ensureWritableBytes len b =
     (if writableBytes b < len then makeSpace (int_of_size len) b else Inr b)"

definition Buffer_append :: "bytes \<Rightarrow> buffer \<Rightarrow> buffer res" where
  "Buffer_append data b =
     bindR (ensureWritableBytes (length data) b)
       (\<lambda>b'. if beginWrite b' + length data \<le> length (bufferData b')
          then Inr (b'\<lparr>bufferData := overwrite (bufferData b') (beginWrite b') data,
                       writerIndex := size_add (writerIndex b') (length data)\<rparr>)
          else Inl OutOfBounds)"

text \<open>\<open>findCRLF\<close> returns a pointer to the first CRLF of the readable bytes, or null.\<close>

definition findCRLF :: "buffer \<Rightarrow> nat option" where
  "findCRLF b =
     (let off = std_search kCRLF
            (take (beginWrite b - peek b) (drop (peek b) (bufferData b)));
          crlf = peek b + off
      in if crlf = beginWrite b then None else Some crlf)"

text \<open>\<open>readv\<close> is given the total capacity of the two blocks and returns the bytes it stored
  (in the first block, then in the second) or an error number.\<close>

definition extrabufSize :: nat where
  "extrabufSize = 65536"

definition readFd :: "(nat \<Rightarrow> int + bytes) \<Rightarrow> buffer \<Rightarrow> ((int + nat) \<times> buffer) res" where
  "readFd readv b =
     (let writable = writableBytes b;
          cap = (if writable < extrabufSize then writable + extrabufSize else writable)
      in case readv cap of
           Inl err \<Rightarrow> Inr (Inl err, b)
         | Inr got \<Rightarrow>
             (let n = length got;
                  b1 = b\<lparr>bufferData := overwrite (bufferData b) (writerIndex b)
                           (take writable got)\<rparr>
              in if n \<le> writable
                 then Inr (Inr n, b1\<lparr>writerIndex := size_add (writerIndex b1) n\<rparr>)
                 else bindR (Buffer_append (drop writable got)
                              (b1\<lparr>writerIndex := length (bufferData b1)\<rparr>))
                        (\<lambda>b2. Inr (Inr n, b2))))"

text \<open>\<open>write\<close> is given the readable bytes and returns how many it took, or an error number.
  The buffer does not change: its caller retrieves what was written.\<close>

definition writeFd :: "(bytes \<Rightarrow> int + nat) \<Rightarrow> buffer \<Rightarrow> (int + nat) res" where
  "writeFd write b =
     bindR (string_at (bufferData b) (peek b) (readableBytes b)) (\<lambda>s. Inr (write s))"

section \<open>Invariant and abstract view\<close>

definition buf_ok :: "buffer \<Rightarrow> bool" where
  "buf_ok b \<longleftrightarrow> kCheapPrepend \<le> readerIndex b \<and> readerIndex b \<le> writerIndex b
     \<and> writerIndex b \<le> length (bufferData b) \<and> length (bufferData b) < 2 ^ 63"

definition contents :: "buffer \<Rightarrow> bytes" where
  "contents b = take (writerIndex b - readerIndex b) (drop (readerIndex b) (bufferData b))"

lemma length_contents: "buf_ok b \<Longrightarrow> length (contents b) = writerIndex b - readerIndex b"
  by (auto simp: buf_ok_def contents_def)

lemma readableBytes_ok: "buf_ok b \<Longrightarrow> readableBytes b = length (contents b)"
  by (simp add: length_contents) (simp add: readableBytes_def buf_ok_def size_simps)

lemma writableBytes_ok:
  "buf_ok b \<Longrightarrow> writableBytes b = length (bufferData b) - writerIndex b"
  by (simp add: writableBytes_def buf_ok_def size_simps)

lemma buf_ok_new [simp]: "n < 2 ^ 62 \<Longrightarrow> buf_ok (Buffer_new n)"
  by (simp add: buf_ok_def Buffer_new_def kCheapPrepend_def size_simps)

lemma contents_new [simp]: "contents (Buffer_new n) = []"
  by (simp add: contents_def Buffer_new_def)

lemma string_at_readable:
  "buf_ok b \<Longrightarrow> len \<le> readableBytes b \<Longrightarrow>
   string_at (bufferData b) (peek b) len = Inr (take len (contents b))"
  by (simp add: readableBytes_ok length_contents)
     (auto simp: string_at_def peek_def contents_def buf_ok_def min_def)

section \<open>Consuming bytes\<close>

lemma retrieveAll_ok [simp]: "buf_ok b \<Longrightarrow> buf_ok (retrieveAll b)"
  by (auto simp: buf_ok_def retrieveAll_def)

lemma contents_retrieveAll [simp]: "contents (retrieveAll b) = []"
  by (simp add: contents_def retrieveAll_def)

lemma retrieve_less:
  assumes "buf_ok b" "len < readableBytes b"
  shows "retrieve len b = b\<lparr>readerIndex := readerIndex b + len\<rparr>"
proof -
  have "readerIndex b + len < 2 ^ 64"
    using assms by (auto simp: readableBytes_ok length_contents buf_ok_def)
  then show ?thesis using assms(2) by (simp add: retrieve_def size_simps)
qed

lemma retrieve_ok: "buf_ok b \<Longrightarrow> buf_ok (retrieve len b)"
proof (cases "len < readableBytes b")
  case True
  moreover assume ok: "buf_ok b"
  ultimately have "len < writerIndex b - readerIndex b"
    by (simp add: readableBytes_ok length_contents)
  with True ok show ?thesis by (simp add: retrieve_less) (auto simp: buf_ok_def)
next
  case False
  moreover assume "buf_ok b"
  ultimately show ?thesis by (simp add: retrieve_def)
qed

lemma contents_retrieve:
  assumes ok: "buf_ok b"
  shows "contents (retrieve len b) = drop len (contents b)"
proof (cases "len < readableBytes b")
  case True
  then have "retrieve len b = b\<lparr>readerIndex := readerIndex b + len\<rparr>"
    using ok by (rule retrieve_less [rotated])
  then show ?thesis by (simp add: contents_def drop_take add.commute)
next
  case False
  then show ?thesis using ok by (simp add: retrieve_def readableBytes_ok)
qed

lemma retrieveUntil_offset:
  "buf_ok b \<Longrightarrow> k \<le> readableBytes b \<Longrightarrow> retrieveUntil (peek b + k) b = retrieve k b"
  by (simp add: retrieveUntil_def readableBytes_ok length_contents)
     (auto simp: peek_def buf_ok_def size_simps)

lemma GetBufferAllAsString_ok: "buf_ok b \<Longrightarrow> GetBufferAllAsString b = Inr (contents b)"
  by (simp add: GetBufferAllAsString_def string_at_readable) (simp add: readableBytes_ok)

lemma retrieveAsString_ok:
  "buf_ok b \<Longrightarrow> len \<le> readableBytes b \<Longrightarrow>
   retrieveAsString len b = Inr (take len (contents b), retrieve len b)"
  by (simp add: retrieveAsString_def string_at_readable)

lemma retrieveAllAsString_ok:
  "buf_ok b \<Longrightarrow> retrieveAllAsString b = Inr (contents b, retrieveAll b)"
  by (simp add: retrieveAllAsString_def retrieveAsString_ok) (simp add: readableBytes_ok retrieve_def)

lemma findCRLF_contents:
  assumes "buf_ok b"
  shows "findCRLF b =
    (if std_search kCRLF (contents b) = length (contents b) then None
     else Some (peek b + std_search kCRLF (contents b)))"
proof -
  have "peek b + length (contents b) = beginWrite b"
    using assms by (simp add: length_contents) (simp add: peek_def beginWrite_def buf_ok_def)
  then show ?thesis
    by (auto simp: findCRLF_def Let_def contents_def peek_def beginWrite_def)
qed

section \<open>Appending bytes\<close>

lemma makeSpace_grow:
  assumes ok: "buf_ok b" and len: "len < 2 ^ 31"
    and big: "writableBytes b + prependableBytes b < len + kCheapPrepend"
    and fits: "writerIndex b + len < 2 ^ 63"
  shows "\<exists>d. makeSpace (int len) b = Inr (b\<lparr>bufferData := d\<rparr>)
     \<and> length d = writerIndex b + len
     \<and> take (writerIndex b) d = take (writerIndex b) (bufferData b)"
proof -
  let ?d = "take (writerIndex b + len) (bufferData b)
    @ replicate (writerIndex b + len - length (bufferData b)) (CHR 0x00)"
  have sum: "size_add (writableBytes b) (prependableBytes b) = writableBytes b + prependableBytes b"
    "size_add (size_of_int (int len)) kCheapPrepend = len + kCheapPrepend"
    "size_add (writerIndex b) (size_of_int (int len)) = writerIndex b + len"
    using ok len fits
    by (auto simp: size_simps writableBytes_ok prependableBytes_def kCheapPrepend_def buf_ok_def)
  have "makeSpace (int len) b = Inr (b\<lparr>bufferData := ?d\<rparr>)"
    using big fits by (simp add: makeSpace_def sum vector_resize_def)
  moreover have "length ?d = writerIndex b + len"
    by (simp add: min_def)
  moreover have "take (writerIndex b) ?d = take (writerIndex b) (bufferData b)"
    using ok by (simp add: buf_ok_def min_def)
  ultimately show ?thesis by blast
qed

lemma makeSpace_move:
  assumes ok: "buf_ok b" and len: "len < 2 ^ 31"
    and room: "len + kCheapPrepend \<le> writableBytes b + prependableBytes b"
  shows "makeSpace (int len) b =
    Inr \<lparr>bufferData = overwrite (bufferData b) kCheapPrepend (contents b),
         readerIndex = kCheapPrepend, writerIndex = kCheapPrepend + length (contents b)\<rparr>"
proof -
  have sum: "size_add (writableBytes b) (prependableBytes b) = writableBytes b + prependableBytes b"
    "size_add (size_of_int (int len)) kCheapPrepend = len + kCheapPrepend"
    using ok len
    by (auto simp: size_simps writableBytes_ok prependableBytes_def kCheapPrepend_def buf_ok_def)
  have idx: "size_add kCheapPrepend (length (contents b)) = kCheapPrepend + length (contents b)"
    "kCheapPrepend + length (contents b) \<le> length (bufferData b)"
    using ok by (auto simp: length_contents size_simps buf_ok_def kCheapPrepend_def)
  have str: "string_at (bufferData b) (readerIndex b) (length (contents b)) = Inr (contents b)"
    using string_at_readable [OF ok order_refl] by (simp add: peek_def readableBytes_ok [OF ok])
  show ?thesis
    using room idx by (simp add: makeSpace_def sum str readableBytes_ok [OF ok] Let_def)
qed

lemma ensureWritableBytes_ok:
  assumes ok: "buf_ok b" and len: "len < 2 ^ 31" and fits: "length (bufferData b) + len < 2 ^ 63"
  shows "\<exists>b'. ensureWritableBytes len b = Inr b' \<and> buf_ok b' \<and> contents b' = contents b
     \<and> len \<le> length (bufferData b') - writerIndex b'
     \<and> length (bufferData b') \<le> length (bufferData b) + len"
proof (cases "writableBytes b < len")
  case False
  then show ?thesis using ok by (auto simp: ensureWritableBytes_def writableBytes_ok)
next
  case True
  then have e: "ensureWritableBytes len b = makeSpace (int len) b"
    using len by (simp add: ensureWritableBytes_def size_simps)
  show ?thesis
  proof (cases "writableBytes b + prependableBytes b < len + kCheapPrepend")
    case big: True
    have "writerIndex b + len < 2 ^ 63" using ok fits by (simp add: buf_ok_def)
    from makeSpace_grow [OF ok len big this] obtain d where
      d: "makeSpace (int len) b = Inr (b\<lparr>bufferData := d\<rparr>)" "length d = writerIndex b + len"
      "take (writerIndex b) d = take (writerIndex b) (bufferData b)" by blast
    have "contents (b\<lparr>bufferData := d\<rparr>) = contents b"
      using d(3) ok by (simp add: contents_def buf_ok_def take_drop) 
    moreover have "buf_ok (b\<lparr>bufferData := d\<rparr>)"
      using ok d(2) fits by (auto simp: buf_ok_def)
    ultimately show ?thesis using e d ok by (auto simp: buf_ok_def)
  next
    case False
    then have room: "len + kCheapPrepend \<le> writableBytes b + prependableBytes b" by simp
    have fit: "kCheapPrepend + length (contents b) \<le> length (bufferData b)"
      "len + (kCheapPrepend + length (contents b)) \<le> length (bufferData b)"
      using ok room
      by (auto simp: length_contents writableBytes_ok prependableBytes_def buf_ok_def)
    let ?b' = "\<lparr>bufferData = overwrite (bufferData b) kCheapPrepend (contents b),
         readerIndex = kCheapPrepend, writerIndex = kCheapPrepend + length (contents b)\<rparr>"
    have len': "length (bufferData ?b') = length (bufferData b)"
      using fit by (simp add: copy_simps)
    have "kCheapPrepend \<le> length (bufferData b)" using fit by simp
    then have "contents ?b' = contents b"
      by (simp add: contents_def [of ?b'] copy_simps)
    moreover have "buf_ok ?b'"
      using ok fit len' by (simp add: buf_ok_def)
    ultimately show ?thesis
      using e makeSpace_move [OF ok len room] fit len' by auto
  qed
qed

lemma Buffer_append_ok:
  assumes ok: "buf_ok b" and len: "length s < 2 ^ 31"
    and fits: "length (bufferData b) + length s < 2 ^ 63"
  shows "\<exists>b'. Buffer_append s b = Inr b' \<and> buf_ok b' \<and> contents b' = contents b @ s
     \<and> length (bufferData b') \<le> length (bufferData b) + length s"
proof -
  from ensureWritableBytes_ok [OF ok len fits] obtain b1 where
    b1: "ensureWritableBytes (length s) b = Inr b1" "buf_ok b1" "contents b1 = contents b"
      "length s \<le> length (bufferData b1) - writerIndex b1"
      "length (bufferData b1) \<le> length (bufferData b) + length s" by blast
  have fit: "writerIndex b1 + length s \<le> length (bufferData b1)"
    using b1(2,4) by (auto simp: buf_ok_def)
  let ?b2 = "b1\<lparr>bufferData := overwrite (bufferData b1) (writerIndex b1) s,
                writerIndex := writerIndex b1 + length s\<rparr>"
  have "size_add (writerIndex b1) (length s) = writerIndex b1 + length s"
    using fit b1(2) by (simp add: size_simps buf_ok_def)
  then have "Buffer_append s b = Inr ?b2"
    using b1(1) fit by (simp add: Buffer_append_def beginWrite_def)
  moreover have "buf_ok ?b2"
    using b1(2) fit by (auto simp: buf_ok_def copy_simps)
  moreover have "contents ?b2 = contents b1 @ s"
    using b1(2) by (simp add: contents_def overwrite_extend buf_ok_def)
  ultimately show ?thesis using b1(3,5) fit by (auto simp: copy_simps)
qed

section \<open>Socket transfers\<close>

text \<open>What the code relies on: \<open>readv\<close> stores at most the capacity it is given.\<close>

definition readv_bounded :: "(nat \<Rightarrow> int + bytes) \<Rightarrow> bool" where
  "readv_bounded readv \<longleftrightarrow> (\<forall>cap got. readv cap = Inr got \<longrightarrow> length got \<le> cap)"

definition readFd_capacity :: "buffer \<Rightarrow> nat" where
  "readFd_capacity b =
     (if writableBytes b < extrabufSize then writableBytes b + extrabufSize else writableBytes b)"

lemma readFd_error: "readv (readFd_capacity b) = Inl e \<Longrightarrow> readFd readv b = Inr (Inl e, b)"
  by (simp add: readFd_def readFd_capacity_def Let_def)

lemma overwrite_fill:
  assumes "buf_ok b" "length got \<le> length (bufferData b) - writerIndex b"
  shows "let b' = b\<lparr>bufferData := overwrite (bufferData b) (writerIndex b) got,
                    writerIndex := writerIndex b + length got\<rparr>
         in buf_ok b' \<and> contents b' = contents b @ got
            \<and> length (bufferData b') = length (bufferData b)"
proof -
  have "writerIndex b + length got \<le> length (bufferData b)"
    using assms by (auto simp: buf_ok_def)
  then show ?thesis
    using assms(1) by (auto simp: Let_def buf_ok_def copy_simps contents_def overwrite_extend)
qed

lemma readFd_data:
  assumes ok: "buf_ok b" and room: "length (bufferData b) < 2 ^ 62"
    and got: "readv (readFd_capacity b) = Inr got" and len: "length got \<le> readFd_capacity b"
  shows "\<exists>b'. readFd readv b = Inr (Inr (length got), b') \<and> buf_ok b' \<and> contents b' = contents b @ got
     \<and> length (bufferData b') \<le> length (bufferData b) + length got"
proof -
  define w where "w = writableBytes b"
  define b1 where "b1 = b\<lparr>bufferData := overwrite (bufferData b) (writerIndex b) (take w got),
                         writerIndex := writerIndex b + length (take w got)\<rparr>"
  have w: "w = length (bufferData b) - writerIndex b"
    using ok by (simp add: w_def writableBytes_ok)
  then have b1: "buf_ok b1" "contents b1 = contents b @ take w got"
      "length (bufferData b1) = length (bufferData b)"
    using overwrite_fill [OF ok, of "take w got"] by (auto simp: b1_def Let_def)
  show ?thesis
  proof (cases "length got \<le> w")
    case True
    have "size_add (writerIndex b) (length got) = writerIndex b + length got"
      using ok room True w by (auto simp: size_simps buf_ok_def)
    then have "readFd readv b = Inr (Inr (length got), b1)"
      using got True by (simp add: readFd_def readFd_capacity_def Let_def w_def b1_def)
    then show ?thesis using b1 True by simp
  next
    case False
    have small: "w < extrabufSize"
      using len False by (auto simp: readFd_capacity_def w_def split: if_splits)
    have rest: "length (drop w got) \<le> extrabufSize"
      using len small by (simp add: readFd_capacity_def w_def)
    have full: "writerIndex b1 = length (bufferData b1)"
      using False b1(3) w ok by (auto simp: b1_def buf_ok_def)
    have "length (drop w got) < 2 ^ 31" "length (bufferData b1) + length (drop w got) < 2 ^ 63"
      using rest room b1(3) by (simp_all add: extrabufSize_def)
    from Buffer_append_ok [OF b1(1) this] obtain b2 where
      b2: "Buffer_append (drop w got) b1 = Inr b2" "buf_ok b2" "contents b2 = contents b1 @ drop w got"
      "length (bufferData b2) \<le> length (bufferData b1) + length (drop w got)"
      by blast
    have eq: "b\<lparr>bufferData := overwrite (bufferData b) (writerIndex b) (take w got),
                writerIndex := length (overwrite (bufferData b) (writerIndex b) (take w got))\<rparr> = b1"
      using full by (simp add: b1_def)
    have "readv (w + extrabufSize) = Inr got"
      using got small by (simp add: readFd_capacity_def w_def)
    then have "readFd readv b = Inr (Inr (length got), b2)"
      using small False b2(1) by (simp add: readFd_def Let_def w_def [symmetric] eq)
    then show ?thesis using b2 b1(2,3) by simp
  qed
qed

lemma writeFd_ok: "buf_ok b \<Longrightarrow> writeFd write b = Inr (write (contents b))"
  by (simp add: writeFd_def string_at_readable) (simp add: readableBytes_ok)

section \<open>The buffer as a byte queue\<close>

text \<open>
  What a connection relies on: bytes leave in the order they were appended, none is lost, and
  appending succeeds while the storage stays below its bound.
\<close>

datatype queue_op = Push bytes | Pop nat

fun queue_run ::
  "(bytes \<Rightarrow> 'b \<Rightarrow> 'b res) \<Rightarrow> (nat \<Rightarrow> 'b \<Rightarrow> 'b) \<Rightarrow> ('b \<Rightarrow> bytes) \<Rightarrow> queue_op list \<Rightarrow> 'b \<Rightarrow> (bytes \<times> 'b) res"
where
  "queue_run push pop view [] b = Inr ([], b)"
| "queue_run push pop view (Push s # ops) b =
     bindR (push s b) (queue_run push pop view ops)"
| "queue_run push pop view (Pop n # ops) b =
     bindR (queue_run push pop view ops (pop n b)) (\<lambda>(out, b'). Inr (take n (view b) @ out, b'))"

fun pushed :: "queue_op list \<Rightarrow> bytes" where
  "pushed [] = []"
| "pushed (Push s # ops) = s @ pushed ops"
| "pushed (Pop n # ops) = pushed ops"

locale byte_queue =
  fixes invar :: "'b \<Rightarrow> bool"
    and view :: "'b \<Rightarrow> bytes"
    and used :: "'b \<Rightarrow> nat"
    and push :: "bytes \<Rightarrow> 'b \<Rightarrow> 'b res"
    and pop :: "nat \<Rightarrow> 'b \<Rightarrow> 'b"
  assumes push_ok: "\<lbrakk>invar b; length s < 2 ^ 31; used b + length s < 2 ^ 63\<rbrakk> \<Longrightarrow>
      \<exists>b'. push s b = Inr b' \<and> invar b' \<and> view b' = view b @ s \<and> used b' \<le> used b + length s"
    and pop_invar: "invar b \<Longrightarrow> invar (pop n b)"
    and pop_view: "invar b \<Longrightarrow> view (pop n b) = drop n (view b)"
    and pop_used: "used (pop n b) = used b"
begin

lemma run_fifo:
  "\<lbrakk>invar b; \<forall>s. Push s \<in> set ops \<longrightarrow> length s < 2 ^ 31; used b + length (pushed ops) < 2 ^ 63\<rbrakk> \<Longrightarrow>
   \<exists>out b'. queue_run push pop view ops b = Inr (out, b') \<and> invar b'
      \<and> view b @ pushed ops = out @ view b'"
proof (induction ops arbitrary: b)
  case Nil
  then show ?case by simp
next
  case (Cons x ops)
  show ?case
  proof (cases x)
    case (Push s)
    with Cons.prems have s: "length s < 2 ^ 31" "used b + length s < 2 ^ 63" by auto
    from push_ok [OF Cons.prems(1) s] obtain b1 where
      b1: "push s b = Inr b1" "invar b1" "view b1 = view b @ s" "used b1 \<le> used b + length s"
      by blast
    have "used b1 + length (pushed ops) < 2 ^ 63"
      using Cons.prems(3) b1(4) Push by simp
    with Cons.IH [OF b1(2)] Cons.prems(2) Push b1 show ?thesis by auto
  next
    case (Pop n)
    have "used (pop n b) + length (pushed ops) < 2 ^ 63"
      using Cons.prems(3) Pop by (simp add: pop_used)
    with Cons.IH [OF pop_invar [OF Cons.prems(1)]] Cons.prems(2) Pop obtain out b' where
      r: "queue_run push pop view ops (pop n b) = Inr (out, b')" "invar b'"
      "view (pop n b) @ pushed ops = out @ view b'" by fastforce
    have "view b @ pushed ops = take n (view b) @ view (pop n b) @ pushed ops"
      using Cons.prems(1) by (simp add: pop_view)
    then show ?thesis using r Pop by auto
  qed
qed

end

lemma length_data_retrieve: "length (bufferData (retrieve n b)) = length (bufferData b)"
  by (simp add: retrieve_def retrieveAll_def)

interpretation nb: byte_queue buf_ok contents "\<lambda>b. length (bufferData b)" Buffer_append retrieve
  by unfold_locales (simp_all add: Buffer_append_ok retrieve_ok contents_retrieve length_data_retrieve)

section \<open>Properties\<close>

text \<open>Claim C20. Appending fewer than \<open>2 ^ 31\<close> bytes to a well-formed buffer succeeds, keeps it
  well formed and adds exactly these bytes after the readable ones, whether the vector had room,
  was compacted or was resized.\<close>

theorem append_correct:
  assumes "buf_ok b" and "length s < 2 ^ 31" and "length (bufferData b) + length s < 2 ^ 63"
  shows "\<exists>b'. Buffer_append s b = Inr b' \<and> buf_ok b' \<and> contents b' = contents b @ s"
  using Buffer_append_ok [OF assms] by blast

theorem append_correct_witness:
  "\<exists>b'. Buffer_append ''hello'' (Buffer_new 16) = Inr b' \<and> buf_ok b' \<and> contents b' = ''hello''"
  using append_correct [of "Buffer_new 16" "''hello''"]
  by (simp add: Buffer_new_def kCheapPrepend_def size_simps buf_ok_def contents_def)

text \<open>\<open>makeSpace\<close> takes its length as \<open>int\<close>: appending a positive multiple of
  \<open>2 ^ 32\<close> bytes reserves no space and the copy runs past the vector.\<close>

lemma append_int_overflow:
  assumes ok: "buf_ok b" and big: "length (bufferData b) < length s" and mult: "length s mod 2 ^ 32 = 0"
  shows "Buffer_append s b = Inl OutOfBounds"
proof -
  have zero: "int_of_size (length s) = int 0"
    using mult by (simp add: int_of_size_def)
  have room: "0 + kCheapPrepend \<le> writableBytes b + prependableBytes b"
    using ok by (simp add: prependableBytes_def buf_ok_def)
  have fit: "kCheapPrepend + length (contents b) \<le> length (bufferData b)"
    using ok by (auto simp: length_contents buf_ok_def)
  have "writableBytes b < length s"
    using ok big by (simp add: writableBytes_ok)
  then show ?thesis
    using makeSpace_move [OF ok _ room] big fit
    by (simp add: Buffer_append_def ensureWritableBytes_def zero [simplified] beginWrite_def copy_simps)
qed

text \<open>Claim C33. Whatever sequence of appends and retrieves a connection performs, the bytes
  retrieved followed by the bytes still readable are the bytes appended, in order.\<close>

theorem buffer_fifo:
  assumes "buf_ok b" and "\<forall>s. Push s \<in> set ops \<longrightarrow> length s < 2 ^ 31"
    and "length (bufferData b) + length (pushed ops) < 2 ^ 63"
  shows "\<exists>out b'. queue_run Buffer_append retrieve contents ops b = Inr (out, b') \<and> buf_ok b'
     \<and> contents b @ pushed ops = out @ contents b'"
  by (rule nb.run_fifo [OF assms])

theorem buffer_fifo_witness:
  "\<exists>out b'. queue_run Buffer_append retrieve contents [Push ''abc'', Pop 2, Push ''de'', Pop 9]
      (Buffer_new 4) = Inr (out, b') \<and> buf_ok b' \<and> ''abcde'' = out @ contents b'"
  using buffer_fifo [of "Buffer_new 4" "[Push ''abc'', Pop 2, Push ''de'', Pop 9]"]
  by (simp add: Buffer_new_def kCheapPrepend_def size_simps buf_ok_def contents_def)

text \<open>\<open>readFd\<close> appends exactly the bytes \<open>readv\<close> returned, spilling into the stack
  block when the vector is short, and returns their number; on an error the buffer is unchanged.\<close>

lemma readFd_correct:
  assumes "buf_ok b" and "length (bufferData b) < 2 ^ 62" and "readv_bounded readv"
  shows "\<exists>r b'. readFd readv b = Inr (r, b') \<and> buf_ok b' \<and>
    (case readv (readFd_capacity b) of
       Inl e \<Rightarrow> r = Inl e \<and> b' = b
     | Inr got \<Rightarrow> r = Inr (length got) \<and> contents b' = contents b @ got)"
proof (cases "readv (readFd_capacity b)")
  case (Inl e)
  then show ?thesis using assms(1) by (simp add: readFd_error)
next
  case (Inr got)
  with assms(3) have "length got \<le> readFd_capacity b"
    by (simp add: readv_bounded_def)
  from readFd_data [where readv = readv, OF assms(1,2) Inr this] Inr show ?thesis by auto
qed

end
