(* ===== verification/EventLoop.thy ===== *)
theory EventLoop
  imports Prelude Transitions
begin

text \<open>
  The event loop (\<open>src/src/net/EventLoop.h\<close>, \<open>EventLoop.cc\<close>): the queue of pending functors, the
  eventfd that interrupts \<open>epoll_wait\<close>, and the loop itself. Functors are values of a type \<open>'f\<close>;
  what running one does to the loop is the argument \<open>exec\<close>. The second half is a step relation in
  which any number of threads call \<open>queueInLoop\<close> and \<open>quit\<close> while the loop's own thread runs:
  each lock region and each flag or eventfd access is a step of its own.
\<close>

section \<open>State and operations\<close>

record 'f event_loop =
  el_looping :: bool
  el_quit :: bool
  el_callingPendingFunctors :: bool
  el_threadId :: nat
  el_wakeupCount :: nat
  el_pendingFunctors :: "'f list"

definition kPollTimeMs :: int where
  "kPollTimeMs = 10000"

text \<open>\<open>eventfd\<close> failing is fatal.\<close>

definition createEventfd :: "int \<Rightarrow> int res" where
  "createEventfd evfd = (if evfd < 0 then Inl Abort else Inr evfd)"

text \<open>The constructor: a second loop in the same thread is fatal.\<close>

definition EventLoop_new :: "nat \<Rightarrow> int \<Rightarrow> bool \<Rightarrow> 'f event_loop res" where
  "EventLoop_new tid evfd loopInThisThread =
     bindR (createEventfd evfd) (\<lambda>_.
       if loopInThisThread then Inl Abort
       else Inr \<lparr>el_looping = False, el_quit = False, el_callingPendingFunctors = False,
                 el_threadId = tid, el_wakeupCount = 0, el_pendingFunctors = []\<rparr>)"

definition isInLoopThread :: "nat \<Rightarrow> 'f event_loop \<Rightarrow> bool" where
  "isInLoopThread tid l \<longleftrightarrow> el_threadId l = tid"

text \<open>Writing 1 to a non-blocking eventfd adds to its counter unless it would pass
  \<open>2 ^ 64 - 2\<close>; reading returns the counter and clears it.\<close>

definition wakeup :: "'f event_loop \<Rightarrow> 'f event_loop" where
  "wakeup l = (if el_wakeupCount l + 1 \<le> 2 ^ 64 - 2
               then l\<lparr>el_wakeupCount := el_wakeupCount l + 1\<rparr> else l)"

definition EventLoop_handleRead :: "'f event_loop \<Rightarrow> 'f event_loop" where
  "EventLoop_handleRead l = l\<lparr>el_wakeupCount := 0\<rparr>"

text \<open>The two parts of \<open>queueInLoop\<close>: the push under the mutex, and the wake-up after it.\<close>

definition queue_push :: "'f \<Rightarrow> 'f event_loop \<Rightarrow> 'f event_loop" where
  "queue_push cb l = l\<lparr>el_pendingFunctors := el_pendingFunctors l @ [cb]\<rparr>"

definition queue_wake :: "nat \<Rightarrow> 'f event_loop \<Rightarrow> 'f event_loop" where
  "queue_wake tid l =
     (if \<not> isInLoopThread tid l \<or> el_callingPendingFunctors l then wakeup l else l)"

definition queueInLoop :: "nat \<Rightarrow> 'f \<Rightarrow> 'f event_loop \<Rightarrow> 'f event_loop" where
  "queueInLoop tid cb l = queue_wake tid (queue_push cb l)"

definition runInLoop ::
  "('f \<Rightarrow> 'f event_loop \<Rightarrow> 'f event_loop) \<Rightarrow> nat \<Rightarrow> 'f \<Rightarrow> 'f event_loop \<Rightarrow> 'f event_loop"
where
  "runInLoop exec tid cb l = (if isInLoopThread tid l then exec cb l else queueInLoop tid cb l)"

definition EventLoop_quit :: "nat \<Rightarrow> 'f event_loop \<Rightarrow> 'f event_loop" where
  "EventLoop_quit tid l =
     (let l' = l\<lparr>el_quit := True\<rparr> in if isInLoopThread tid l' then wakeup l' else l')"

definition doPendingFunctors ::
  "('f \<Rightarrow> 'f event_loop \<Rightarrow> 'f event_loop) \<Rightarrow> 'f event_loop \<Rightarrow> 'f event_loop"
where
  "doPendingFunctors exec l =
     (let l1 = l\<lparr>el_callingPendingFunctors := True\<rparr>;
          functors = el_pendingFunctors l1;
          l2 = l1\<lparr>el_pendingFunctors := []\<rparr>;
          l3 = fold exec functors l2
      in l3\<lparr>el_callingPendingFunctors := False\<rparr>)"

text \<open>\<open>loop()\<close>: the \<open>n\<close>-th poll and the dispatch of its active channels is the argument
  \<open>dispatch n\<close>.\<close>

partial_function (option) loop_from ::
  "(nat \<Rightarrow> 'f event_loop \<Rightarrow> 'f event_loop) \<Rightarrow> ('f \<Rightarrow> 'f event_loop \<Rightarrow> 'f event_loop) \<Rightarrow> nat
    \<Rightarrow> 'f event_loop \<Rightarrow> 'f event_loop option"
where
  "loop_from dispatch exec n l =
     (if el_quit l then Some (l\<lparr>el_looping := False\<rparr>)
      else loop_from dispatch exec (Suc n) (doPendingFunctors exec (dispatch n l)))"

definition EventLoop_loop ::
  "(nat \<Rightarrow> 'f event_loop \<Rightarrow> 'f event_loop) \<Rightarrow> ('f \<Rightarrow> 'f event_loop \<Rightarrow> 'f event_loop)
    \<Rightarrow> 'f event_loop \<Rightarrow> 'f event_loop option"
where
  "EventLoop_loop dispatch exec l =
     loop_from dispatch exec 0 (l\<lparr>el_looping := True, el_quit := False\<rparr>)"

section \<open>Sequential lemmas\<close>

lemmas queue_defs = queueInLoop_def queue_push_def queue_wake_def

lemma wakeup_positive [simp]: "0 < el_wakeupCount (wakeup l)"
  by (auto simp: wakeup_def)

lemma wakeup_frame [simp]:
  "el_pendingFunctors (wakeup l) = el_pendingFunctors l" "el_quit (wakeup l) = el_quit l"
  "el_threadId (wakeup l) = el_threadId l" "el_looping (wakeup l) = el_looping l"
  "el_callingPendingFunctors (wakeup l) = el_callingPendingFunctors l"
  by (simp_all add: wakeup_def)

lemma queue_wake_frame [simp]:
  "el_pendingFunctors (queue_wake t l) = el_pendingFunctors l" "el_quit (queue_wake t l) = el_quit l"
  "el_threadId (queue_wake t l) = el_threadId l" "el_looping (queue_wake t l) = el_looping l"
  "el_callingPendingFunctors (queue_wake t l) = el_callingPendingFunctors l"
  by (simp_all add: queue_wake_def)

lemma queue_push_frame [simp]:
  "el_pendingFunctors (queue_push f l) = el_pendingFunctors l @ [f]" "el_quit (queue_push f l) = el_quit l"
  "el_threadId (queue_push f l) = el_threadId l" "el_wakeupCount (queue_push f l) = el_wakeupCount l"
  "el_callingPendingFunctors (queue_push f l) = el_callingPendingFunctors l"
  by (simp_all add: queue_push_def)

lemma quit_frame [simp]:
  "el_pendingFunctors (EventLoop_quit t l) = el_pendingFunctors l" "el_quit (EventLoop_quit t l)"
  "el_threadId (EventLoop_quit t l) = el_threadId l"
  "el_callingPendingFunctors (EventLoop_quit t l) = el_callingPendingFunctors l"
  by (simp_all add: EventLoop_quit_def Let_def)

lemma wakeup_mono: "el_wakeupCount l \<le> el_wakeupCount (wakeup l)"
  by (simp add: wakeup_def)

lemma queue_wake_mono: "el_wakeupCount l \<le> el_wakeupCount (queue_wake t l)"
  by (simp add: queue_wake_def wakeup_mono)

lemma quit_mono: "el_wakeupCount l \<le> el_wakeupCount (EventLoop_quit t l)"
  using wakeup_mono [of "l\<lparr>el_quit := True\<rparr>"] by (simp add: EventLoop_quit_def Let_def)

text \<open>Functors that queue further functors: \<open>spawn f\<close> lists what running \<open>f\<close> queues.\<close>

definition spawn_exec :: "nat \<Rightarrow> ('f \<Rightarrow> 'f list) \<Rightarrow> 'f \<Rightarrow> 'f event_loop \<Rightarrow> 'f event_loop" where
  "spawn_exec tid spawn f l = fold (queueInLoop tid) (spawn f) l"

lemma fold_queue:
  "el_pendingFunctors (fold (queueInLoop t) fs l) = el_pendingFunctors l @ fs
   \<and> el_callingPendingFunctors (fold (queueInLoop t) fs l) = el_callingPendingFunctors l
   \<and> el_threadId (fold (queueInLoop t) fs l) = el_threadId l
   \<and> (el_callingPendingFunctors l \<and> fs \<noteq> [] \<longrightarrow> 0 < el_wakeupCount (fold (queueInLoop t) fs l))
   \<and> el_wakeupCount l \<le> el_wakeupCount (fold (queueInLoop t) fs l)"
proof (induction fs arbitrary: l)
  case Nil
  then show ?case by simp
next
  case (Cons f fs)
  have "el_wakeupCount l \<le> el_wakeupCount (queueInLoop t f l)"
    using queue_wake_mono [of "queue_push f l" t] by (simp add: queueInLoop_def)
  moreover have "el_callingPendingFunctors l \<Longrightarrow> 0 < el_wakeupCount (queueInLoop t f l)"
    by (simp add: queueInLoop_def queue_wake_def)
  ultimately show ?case
    using Cons.IH [of "queueInLoop t f l"] by (auto simp: queueInLoop_def)
qed

lemma fold_spawn:
  "el_pendingFunctors (fold (spawn_exec t spawn) fs l) = el_pendingFunctors l @ concat (map spawn fs)
   \<and> el_callingPendingFunctors (fold (spawn_exec t spawn) fs l) = el_callingPendingFunctors l
   \<and> (el_callingPendingFunctors l \<and> concat (map spawn fs) \<noteq> []
        \<longrightarrow> 0 < el_wakeupCount (fold (spawn_exec t spawn) fs l))
   \<and> el_wakeupCount l \<le> el_wakeupCount (fold (spawn_exec t spawn) fs l)"
proof (induction fs arbitrary: l)
  case Nil
  then show ?case by simp
next
  case (Cons f fs)
  show ?case
    using Cons.IH [of "spawn_exec t spawn f l"] fold_queue [of t "spawn f" l]
    by (auto simp: spawn_exec_def)
qed

section \<open>Threads\<close>

text \<open>
  Where the loop's thread is: at the test of \<open>quit_\<close>, in \<open>epoll_wait\<close>, dispatching active
  channels, between setting \<open>callingPendingFunctors_\<close> and the swap, running the swapped
  functors, or out of the loop. \<open>ts_waking\<close> holds the threads that have pushed a functor and not
  yet finished \<open>queueInLoop\<close>. \<open>ts_queued\<close> and \<open>ts_done\<close> record history.
\<close>

datatype 'f loop_pc = AtHead | InPoll | Dispatching | BeforeSwap | Draining "'f list" | Finished

record 'f threads =
  ts_loop :: "'f event_loop"
  ts_pc :: "'f loop_pc"
  ts_waking :: "nat set"
  ts_queued :: "'f list"
  ts_done :: "'f list"

text \<open>The loop's own thread runs user code only while it dispatches or drains.\<close>

fun user_code :: "'f loop_pc \<Rightarrow> bool" where
  "user_code Dispatching = True"
| "user_code (Draining fs) = True"
| "user_code pc = False"

definition may_call :: "nat \<Rightarrow> 'f threads \<Rightarrow> bool" where
  "may_call t s \<longleftrightarrow> t \<notin> ts_waking s \<and> (isInLoopThread t (ts_loop s) \<longrightarrow> user_code (ts_pc s))"

definition loop_thread_free :: "'f threads \<Rightarrow> bool" where
  "loop_thread_free s \<longleftrightarrow> el_threadId (ts_loop s) \<notin> ts_waking s"

inductive thread_step :: "'f threads \<Rightarrow> 'f threads \<Rightarrow> bool" where
  push: "may_call t s \<Longrightarrow>
    thread_step s (s\<lparr>ts_loop := queue_push f (ts_loop s), ts_waking := insert t (ts_waking s),
      ts_queued := ts_queued s @ [f]\<rparr>)"
| wake: "t \<in> ts_waking s \<Longrightarrow>
    thread_step s (s\<lparr>ts_loop := queue_wake t (ts_loop s), ts_waking := ts_waking s - {t}\<rparr>)"
| quit: "may_call t s \<Longrightarrow> thread_step s (s\<lparr>ts_loop := EventLoop_quit t (ts_loop s)\<rparr>)"
| head_exit: "ts_pc s = AtHead \<Longrightarrow> el_quit (ts_loop s) \<Longrightarrow>
    thread_step s (s\<lparr>ts_pc := Finished, ts_loop := (ts_loop s)\<lparr>el_looping := False\<rparr>\<rparr>)"
| head_poll: "ts_pc s = AtHead \<Longrightarrow> \<not> el_quit (ts_loop s) \<Longrightarrow> thread_step s (s\<lparr>ts_pc := InPoll\<rparr>)"
| poll_return: "ts_pc s = InPoll \<Longrightarrow> thread_step s (s\<lparr>ts_pc := Dispatching\<rparr>)"
| read_wakeup: "ts_pc s = Dispatching \<Longrightarrow> loop_thread_free s \<Longrightarrow>
    thread_step s (s\<lparr>ts_loop := EventLoop_handleRead (ts_loop s)\<rparr>)"
| start_drain: "ts_pc s = Dispatching \<Longrightarrow> loop_thread_free s \<Longrightarrow>
    thread_step s (s\<lparr>ts_pc := BeforeSwap,
      ts_loop := (ts_loop s)\<lparr>el_callingPendingFunctors := True\<rparr>\<rparr>)"
| swap: "ts_pc s = BeforeSwap \<Longrightarrow>
    thread_step s (s\<lparr>ts_pc := Draining (el_pendingFunctors (ts_loop s)),
      ts_loop := (ts_loop s)\<lparr>el_pendingFunctors := []\<rparr>\<rparr>)"
| run: "ts_pc s = Draining (f # fs) \<Longrightarrow> loop_thread_free s \<Longrightarrow>
    thread_step s (s\<lparr>ts_pc := Draining fs, ts_done := ts_done s @ [f]\<rparr>)"
| drained: "ts_pc s = Draining [] \<Longrightarrow> loop_thread_free s \<Longrightarrow>
    thread_step s (s\<lparr>ts_pc := AtHead,
      ts_loop := (ts_loop s)\<lparr>el_callingPendingFunctors := False\<rparr>\<rparr>)"

text \<open>\<open>loop()\<close> entered with nothing queued.\<close>

definition threads_init :: "nat \<Rightarrow> 'f threads" where
  "threads_init tid =
     \<lparr>ts_loop = \<lparr>el_looping = True, el_quit = False, el_callingPendingFunctors = False,
                 el_threadId = tid, el_wakeupCount = 0, el_pendingFunctors = []\<rparr>,
      ts_pc = AtHead, ts_waking = {}, ts_queued = [], ts_done = []\<rparr>"

abbreviation threads_reachable :: "nat \<Rightarrow> 'f threads \<Rightarrow> bool" where
  "threads_reachable tid \<equiv> reachable (\<lambda>s. s = threads_init tid) thread_step"

fun draining :: "'f loop_pc \<Rightarrow> 'f list" where
  "draining (Draining fs) = fs"
| "draining pc = []"

text \<open>The invariant: the flag is set exactly while functors run; the loop's thread is inside
  \<open>queueInLoop\<close> only from user code; a functor that the current iteration will not take is
  announced by the eventfd or by a thread about to write it; nothing is lost or reordered.\<close>

definition calling_pc :: "'f loop_pc \<Rightarrow> bool" where
  "calling_pc pc \<longleftrightarrow> (pc = BeforeSwap \<or> (\<exists>fs. pc = Draining fs))"

definition announced :: "'f threads \<Rightarrow> bool" where
  "announced s \<longleftrightarrow> 0 < el_wakeupCount (ts_loop s) \<or> ts_waking s \<noteq> {}"

definition threads_inv :: "'f threads \<Rightarrow> bool" where
  "threads_inv s \<longleftrightarrow>
     (el_callingPendingFunctors (ts_loop s) \<longleftrightarrow> calling_pc (ts_pc s))
     \<and> (el_threadId (ts_loop s) \<in> ts_waking s \<longrightarrow> user_code (ts_pc s))
     \<and> (el_pendingFunctors (ts_loop s) \<noteq> [] \<and> ts_pc s \<noteq> Dispatching \<and> ts_pc s \<noteq> BeforeSwap
          \<longrightarrow> announced s)
     \<and> ts_done s @ draining (ts_pc s) @ el_pendingFunctors (ts_loop s) = ts_queued s"

lemma threads_inv_init: "threads_inv (threads_init tid)"
  by (simp add: threads_inv_def threads_init_def calling_pc_def)

lemma wake_announces:
  assumes "threads_inv s" "t \<in> ts_waking s" "ts_pc s \<noteq> Dispatching"
  shows "0 < el_wakeupCount (queue_wake t (ts_loop s))"
proof (cases "isInLoopThread t (ts_loop s)")
  case True
  with assms have "user_code (ts_pc s)" by (auto simp: threads_inv_def isInLoopThread_def)
  with assms(3) have "calling_pc (ts_pc s)" by (cases "ts_pc s") (auto simp: calling_pc_def)
  with assms(1) show ?thesis by (simp add: threads_inv_def queue_wake_def)
next
  case False
  then show ?thesis by (simp add: queue_wake_def)
qed

lemma threads_inv_step: "thread_step s s' \<Longrightarrow> threads_inv s \<Longrightarrow> threads_inv s'"
proof (induction rule: thread_step.induct)
  case (push t s f)
  then show ?case
    by (auto simp: threads_inv_def announced_def may_call_def isInLoopThread_def)
next
  case (wake t s)
  show ?case
  proof (cases "ts_pc s = Dispatching")
    case True
    with wake show ?thesis by (auto simp: threads_inv_def calling_pc_def)
  next
    case False
    from wake_announces [OF wake(2,1) False] wake show ?thesis
      by (auto simp: threads_inv_def announced_def)
  qed
next
  case (quit t s)
  then show ?case
    using quit_mono [of "ts_loop s" t] by (auto simp: threads_inv_def announced_def)
qed (auto simp: threads_inv_def announced_def calling_pc_def loop_thread_free_def EventLoop_handleRead_def)

text \<open>The loop and its threads implement an executor: a functor waits while it is pending or taken by
  the current drain.\<close>

definition loop_executor :: "'f threads \<Rightarrow> 'f executor" where
  "loop_executor s = \<lparr>ex_submitted = ts_queued s, ex_waiting = draining (ts_pc s) @ el_pendingFunctors (ts_loop s),
     ex_started = ts_done s\<rparr>"

lemma loop_executor_step:
  assumes "thread_step s s'"
  shows "loop_executor s' = loop_executor s \<or> executor_step (loop_executor s) (loop_executor s')"
  using assms
proof cases
  case (push t f)
  have "loop_executor s' = (loop_executor s)\<lparr>ex_submitted := ex_submitted (loop_executor s) @ [f],
      ex_waiting := ex_waiting (loop_executor s) @ [f]\<rparr>"
    using push by (simp add: loop_executor_def)
  then show ?thesis using executor_step.submit by metis
next
  case (run f fs)
  then have "loop_executor s' = (loop_executor s)\<lparr>ex_waiting := fs @ el_pendingFunctors (ts_loop s),
      ex_started := ex_started (loop_executor s) @ [f]\<rparr>" "ex_waiting (loop_executor s) = f # fs @ el_pendingFunctors (ts_loop s)"
    by (simp_all add: loop_executor_def)
  then show ?thesis using executor_step.begin_task by metis
qed (auto simp: loop_executor_def EventLoop_handleRead_def)

lemma loop_executor_init: "executor_start (loop_executor (threads_init tid))"
  by (simp add: threads_init_def loop_executor_def executor_start_def)

interpretation loop_threads: refinement "\<lambda>s. s = threads_init tid" thread_step threads_inv
    executor_start executor_step loop_executor for tid
  by unfold_locales (erule loop_executor_step | blast intro: threads_inv_init threads_inv_step loop_executor_init)+

lemmas threads_reachable_inv = loop_threads.reachable_inv

section \<open>Properties\<close>

text \<open>Claim C1. No wake-up is lost: whatever the interleaving, when the loop's thread is in
  \<open>epoll_wait\<close> with functors pending and every \<open>queueInLoop\<close> call has returned, the eventfd is
  readable, so the poll returns at once.\<close>

theorem no_lost_wakeup:
  assumes "threads_reachable tid s" and "ts_pc s = InPoll"
    and "el_pendingFunctors (ts_loop s) \<noteq> []" and "ts_waking s = {}"
  shows "0 < el_wakeupCount (ts_loop s)"
  using threads_reachable_inv [OF assms(1)] assms(2-4) by (auto simp: threads_inv_def announced_def)

definition queued_state :: "nat threads" where
  "queued_state = (threads_init 0)\<lparr>ts_pc := InPoll,
     ts_loop := queue_wake 1 (queue_push 42 (ts_loop (threads_init 0))), ts_queued := [42]\<rparr>"

lemma poll_entered: "threads_reachable tid ((threads_init tid)\<lparr>ts_pc := InPoll\<rparr>)"
proof (rule reachable_step)
  show "threads_reachable tid (threads_init tid)" by (rule reachable_refl)
  show "thread_step (threads_init tid) ((threads_init tid)\<lparr>ts_pc := InPoll\<rparr>)"
    by (rule thread_step.head_poll) (simp_all add: threads_init_def)
qed

lemma queued_state_reachable: "threads_reachable 0 queued_state"
proof -
  let ?s0 = "threads_init 0 :: nat threads"
  note s1 = poll_entered [of 0]
  let ?s1 = "?s0\<lparr>ts_pc := InPoll\<rparr>"
  have s2: "threads_reachable 0 (?s1\<lparr>ts_loop := queue_push 42 (ts_loop ?s1),
      ts_waking := insert 1 (ts_waking ?s1), ts_queued := ts_queued ?s1 @ [42]\<rparr>)"
    (is "threads_reachable 0 ?s2")
    by (rule reachable_step [OF s1 thread_step.push])
       (simp add: may_call_def threads_init_def isInLoopThread_def)
  have "threads_reachable 0 (?s2\<lparr>ts_loop := queue_wake 1 (ts_loop ?s2), ts_waking := ts_waking ?s2 - {1}\<rparr>)"
    by (rule reachable_step [OF s2 thread_step.wake]) simp
  then show ?thesis by (simp add: queued_state_def threads_init_def)
qed

theorem no_lost_wakeup_witness: "0 < el_wakeupCount (ts_loop queued_state)"
  by (rule no_lost_wakeup [OF queued_state_reachable])
     (simp_all add: queued_state_def threads_init_def)

text \<open>Claim C14. The loop with all its threads refines an executor: its history is a history of a system
  that only submits functors and starts the oldest waiting one. So functors run in the order they were
  queued, each at most once and none lost.\<close>

theorem loop_refines_executor:
  assumes "threads_reachable tid s"
  shows "reachable executor_start executor_step (loop_executor s)
    \<and> ts_done s @ draining (ts_pc s) @ el_pendingFunctors (ts_loop s) = ts_queued s"
  using loop_threads.reachable_abs [OF assms] executor.reachable_inv [OF loop_threads.reachable_abs [OF assms]]
  by (simp add: executor_fifo_def loop_executor_def)

theorem loop_refines_executor_witness:
  "reachable executor_start executor_step (loop_executor queued_state) \<and> ts_queued queued_state = [42]"
  using loop_refines_executor [OF queued_state_reachable] by (simp add: queued_state_def)

text \<open>\<open>quit\<close> tests \<open>isInLoopThread\<close> the wrong way round: after another thread calls it,
  the loop can be in \<open>epoll_wait\<close> with \<open>quit_\<close> set, the eventfd silent and no wake-up on its way.\<close>

lemma quit_leaves_loop_blocked:
  "\<exists>s :: nat threads. threads_reachable 0 s \<and> ts_pc s = InPoll \<and> el_quit (ts_loop s)
     \<and> el_wakeupCount (ts_loop s) = 0 \<and> ts_waking s = {}"
proof -
  let ?s0 = "threads_init 0 :: nat threads"
  note s1 = poll_entered [of 0]
  let ?s1 = "?s0\<lparr>ts_pc := InPoll\<rparr>"
  have "threads_reachable 0 (?s1\<lparr>ts_loop := EventLoop_quit 1 (ts_loop ?s1)\<rparr>)"
    by (rule reachable_step [OF s1 thread_step.quit])
       (simp add: may_call_def threads_init_def isInLoopThread_def)
  moreover have "el_wakeupCount (EventLoop_quit 1 (ts_loop ?s1)) = 0"
    by (simp add: EventLoop_quit_def isInLoopThread_def threads_init_def)
  ultimately show ?thesis by (intro exI conjI) (auto simp: threads_init_def)
qed

text \<open>One drain runs every functor that was pending when it started; those queued meanwhile
  by the functors themselves wait for the next iteration, and the eventfd is set so that it comes
  without waiting.\<close>

lemma doPendingFunctors_drains:
  "let l' = doPendingFunctors (spawn_exec tid spawn) l
    in el_pendingFunctors l' = concat (map spawn (el_pendingFunctors l))
      \<and> \<not> el_callingPendingFunctors l'
      \<and> (el_pendingFunctors l' \<noteq> [] \<longrightarrow> 0 < el_wakeupCount l')"
  using fold_spawn [of tid spawn "el_pendingFunctors l"
      "l\<lparr>el_callingPendingFunctors := True, el_pendingFunctors := []\<rparr>"]
  by (auto simp: doPendingFunctors_def Let_def)

end
