(* ===== verification/TcpConnection.thy ===== *)
theory TcpConnection
  imports Buffer Poller EventLoop InetAddress
begin

text \<open>
  A TCP connection (\<open>src/src/net/TcpConnection.h\<close>, \<open>TcpConnection.cc\<close>) with the parts it acts on:
  its two buffers, its channel in the poller of its loop, the loop's functor queue, and the socket.
  The bytes \<open>::write\<close> took are kept in \<open>tc_wire\<close>, the half-close in \<open>tc_shutWrite\<close>, and the
  user callbacks in the order of their calls in \<open>tc_calls\<close>; what a callback then does to the
  connection is a further operation. The answers of the socket are arguments. A string passed to
  another thread by \<open>c_str()\<close> is an address, read in the memory the functor finds when it runs.
\<close>

section \<open>State\<close>

datatype StateE = kDisconnected | kConnecting | kConnected | kDisconnecting

text \<open>What the connection queues in its loop. \<open>SendPtr\<close> is \<open>sendInLoop(const void*, size_t)\<close>
  bound to a pointer and a length, \<open>SendMsg\<close> is \<open>sendInLoop(const std::string&)\<close> bound to a copy.\<close>

datatype conn_functor =
    SendPtr nat nat
  | SendMsg bytes
  | ShutdownInLoop
  | WriteCompleteCb
  | HighWaterMarkCb nat

datatype conn_call = ConnectionCb | MessageCb | CloseCb

record 'k tcp_connection =
  tc_loop :: "conn_functor event_loop"
  tc_poller :: "'k poller"
  tc_name :: bytes
  tc_state :: StateE
  tc_reading :: bool
  tc_socket :: int
  tc_channel :: nat
  tc_localAddr :: sockaddr_in
  tc_peerAddr :: sockaddr_in
  tc_connectionCallback :: bool
  tc_messageCallback :: bool
  tc_writeCompleteCallback :: bool
  tc_closeCallback :: bool
  tc_highWaterMarkCallback :: bool
  tc_highWaterMark :: nat
  tc_inputBuffer :: buffer
  tc_outputBuffer :: buffer
  tc_wire :: bytes
  tc_shutWrite :: bool
  tc_calls :: "conn_call list"

abbreviation conn_channel :: "'k tcp_connection \<Rightarrow> channel" where
  "conn_channel c \<equiv> pl_heap (tc_poller c) (tc_channel c)"

definition EWOULDBLOCK :: int where "EWOULDBLOCK = 11"
definition EPIPE :: int where "EPIPE = 32"
definition ECONNRESET :: int where "ECONNRESET = 104"

lemmas errno_defs = EWOULDBLOCK_def EPIPE_def ECONNRESET_def

definition CheckLoopNotNull :: "'a option \<Rightarrow> 'a res" where
  "CheckLoopNotNull loop = (case loop of None \<Rightarrow> Inl Abort | Some l \<Rightarrow> Inr l)"

section \<open>Operations\<close>

text \<open>The constructor. The channel object is created at address \<open>p\<close> of the channel heap.\<close>

definition TcpConnection_new ::
  "conn_functor event_loop option \<Rightarrow> 'k poller \<Rightarrow> nat \<Rightarrow> bytes \<Rightarrow> int \<Rightarrow> sockaddr_in \<Rightarrow> sockaddr_in
    \<Rightarrow> 'k tcp_connection res"
where
  "TcpConnection_new loop poller p nameArg sockfd localAddr peerAddr =
     bindR (CheckLoopNotNull loop) (\<lambda>l. Inr
       \<lparr>tc_loop = l,
        tc_poller = poller\<lparr>pl_heap := (pl_heap poller)(p := (Channel_new sockfd)
          \<lparr>ch_readCallback := True, ch_writeCallback := True, ch_closeCallback := True,
           ch_errorCallback := True\<rparr>)\<rparr>,
        tc_name = nameArg, tc_state = kConnecting, tc_reading = True, tc_socket = sockfd,
        tc_channel = p, tc_localAddr = localAddr, tc_peerAddr = peerAddr,
        tc_connectionCallback = False, tc_messageCallback = False,
        tc_writeCompleteCallback = False, tc_closeCallback = False,
        tc_highWaterMarkCallback = False, tc_highWaterMark = 64 * 1024 * 1024,
        tc_inputBuffer = Buffer_new kInitialSize, tc_outputBuffer = Buffer_new kInitialSize,
        tc_wire = [], tc_shutWrite = False, tc_calls = []\<rparr>)"

definition connected :: "'k tcp_connection \<Rightarrow> bool" where
  "connected c \<longleftrightarrow> tc_state c = kConnected"

definition setHighWaterMarkCallback :: "nat \<Rightarrow> 'k tcp_connection \<Rightarrow> 'k tcp_connection" where
  "setHighWaterMarkCallback highWaterMark c =
     c\<lparr>tc_highWaterMarkCallback := True, tc_highWaterMark := highWaterMark\<rparr>"

definition setState :: "StateE \<Rightarrow> 'k tcp_connection \<Rightarrow> 'k tcp_connection" where
  "setState st c = c\<lparr>tc_state := st\<rparr>"

text \<open>Calls through the channel, the loop's queue and the callbacks; an empty \<open>std::function\<close>
  throws.\<close>

definition conn_set_mode :: "'k epoll_ctl \<Rightarrow> mode \<Rightarrow> 'k tcp_connection \<Rightarrow> 'k tcp_connection res" where
  "conn_set_mode ctl m c =
     bindR (Channel_set_mode ctl m (tc_channel c) (tc_poller c)) (\<lambda>pl. Inr (c\<lparr>tc_poller := pl\<rparr>))"

definition conn_remove :: "'k epoll_ctl \<Rightarrow> 'k tcp_connection \<Rightarrow> 'k tcp_connection res" where
  "conn_remove ctl c =
     bindR (EPollPoller_removeChannel ctl (tc_channel c) (tc_poller c)) (\<lambda>pl. Inr (c\<lparr>tc_poller := pl\<rparr>))"

definition conn_queue :: "nat \<Rightarrow> conn_functor \<Rightarrow> 'k tcp_connection \<Rightarrow> 'k tcp_connection" where
  "conn_queue tid f c = c\<lparr>tc_loop := queueInLoop tid f (tc_loop c)\<rparr>"

fun callback_set :: "conn_call \<Rightarrow> 'k tcp_connection \<Rightarrow> bool" where
  "callback_set ConnectionCb c = tc_connectionCallback c"
| "callback_set MessageCb c = tc_messageCallback c"
| "callback_set CloseCb c = tc_closeCallback c"

definition conn_callback :: "conn_call \<Rightarrow> 'k tcp_connection \<Rightarrow> 'k tcp_connection res" where
  "conn_callback f c =
     (if callback_set f c then Inr (c\<lparr>tc_calls := tc_calls c @ [f]\<rparr>) else Inl BadFunctionCall)"

text \<open>The direct write of \<open>sendInLoop\<close>: the bytes taken, the bytes left, whether the peer is gone.\<close>

definition send_direct ::
  "(bytes \<Rightarrow> int + nat) \<Rightarrow> bytes \<Rightarrow> 'k tcp_connection \<Rightarrow> nat \<times> nat \<times> bool \<times> 'k tcp_connection"
where
  "send_direct write data c =
     (case write data of
        Inr n \<Rightarrow>
          (let remaining = size_sub (length data) n;
               c1 = c\<lparr>tc_wire := tc_wire c @ take n data\<rparr>
           in (n, remaining, False,
               if remaining = 0 \<and> tc_writeCompleteCallback c
               then conn_queue (el_threadId (tc_loop c)) WriteCompleteCb c1 else c1))
      | Inl errno \<Rightarrow>
          (0, length data,
           if errno \<noteq> EWOULDBLOCK then errno = EPIPE \<or> errno = ECONNRESET else False, c))"

text \<open>What is left goes to the output buffer, and the channel waits for writability.\<close>

definition send_rest :: "'k epoll_ctl \<Rightarrow> bytes \<Rightarrow> 'k tcp_connection \<Rightarrow> 'k tcp_connection res" where
  "send_rest ctl rest c =
     bindR (Buffer_append rest (tc_outputBuffer c)) (\<lambda>b.
       let c1 = c\<lparr>tc_outputBuffer := b\<rparr>
       in if \<not> isWriting (conn_channel c1) then conn_set_mode ctl EnableWriting c1 else Inr c1)"

definition send_queue ::
  "'k epoll_ctl \<Rightarrow> bytes \<Rightarrow> nat \<Rightarrow> nat \<Rightarrow> 'k tcp_connection \<Rightarrow> 'k tcp_connection res"
where
  "send_queue ctl data nwrote remaining c =
     (let oldLen = readableBytes (tc_outputBuffer c);
          c1 = (if tc_highWaterMark c \<le> size_add oldLen remaining \<and> oldLen < tc_highWaterMark c
                  \<and> tc_highWaterMarkCallback c
                then conn_queue (el_threadId (tc_loop c)) (HighWaterMarkCb (size_add oldLen remaining)) c
                else c)
      in bindR (string_at data nwrote remaining) (\<lambda>rest. send_rest ctl rest c1))"

definition sendInLoop ::
  "'k epoll_ctl \<Rightarrow> (bytes \<Rightarrow> int + nat) \<Rightarrow> bytes \<Rightarrow> 'k tcp_connection \<Rightarrow> 'k tcp_connection res"
where
  "sendInLoop ctl write data c =
     (if tc_state c = kDisconnected then Inr c
      else let (nwrote, remaining, faultError, c1) =
             (if \<not> isWriting (conn_channel c) \<and> readableBytes (tc_outputBuffer c) = 0
              then send_direct write data c else (0, length data, False, c))
      in if \<not> faultError \<and> 0 < remaining then send_queue ctl data nwrote remaining c1 else Inr c1)"

text \<open>\<open>send\<close> of a string that lives at address \<open>ptr\<close>, called from thread \<open>tid\<close>.\<close>

definition send_string ::
  "'k epoll_ctl \<Rightarrow> (bytes \<Rightarrow> int + nat) \<Rightarrow> nat \<Rightarrow> nat \<Rightarrow> bytes \<Rightarrow> 'k tcp_connection \<Rightarrow> 'k tcp_connection res"
where
  "send_string ctl write tid ptr buf c =
     (if tc_state c = kConnected
      then if isInLoopThread tid (tc_loop c) then sendInLoop ctl write buf c
           else Inr (conn_queue tid (SendPtr ptr (length buf)) c)
      else Inr c)"

text \<open>\<open>send\<close> of a buffer, which it empties.\<close>

definition send_buffer ::
  "'k epoll_ctl \<Rightarrow> (bytes \<Rightarrow> int + nat) \<Rightarrow> nat \<Rightarrow> buffer \<Rightarrow> 'k tcp_connection
    \<Rightarrow> (buffer \<times> 'k tcp_connection) res"
where
  "send_buffer ctl write tid buf c =
     (if tc_state c = kConnected
      then if isInLoopThread tid (tc_loop c)
           then bindR (string_at (bufferData buf) (peek buf) (readableBytes buf)) (\<lambda>s.
                bindR (sendInLoop ctl write s c) (\<lambda>c'. Inr (retrieveAll buf, c')))
           else bindR (retrieveAllAsString buf) (\<lambda>(s, buf'). Inr (buf', conn_queue tid (SendMsg s) c))
      else Inr (buf, c))"

definition shutdownWrite :: "'k tcp_connection \<Rightarrow> 'k tcp_connection" where
  "shutdownWrite c = c\<lparr>tc_shutWrite := True\<rparr>"

definition shutdownInLoop :: "'k tcp_connection \<Rightarrow> 'k tcp_connection" where
  "shutdownInLoop c = (if \<not> isWriting (conn_channel c) then shutdownWrite c else c)"

definition shutdown :: "nat \<Rightarrow> 'k tcp_connection \<Rightarrow> 'k tcp_connection" where
  "shutdown tid c =
     (if tc_state c = kConnected
      then let c1 = setState kDisconnecting c
           in if isInLoopThread tid (tc_loop c1) then shutdownInLoop c1 else conn_queue tid ShutdownInLoop c1
      else c)"

definition connectEstablished :: "'k epoll_ctl \<Rightarrow> 'k tcp_connection \<Rightarrow> 'k tcp_connection res" where
  "connectEstablished ctl c =
     (let c1 = setState kConnected c;
          pl = tc_poller c1;
          c2 = c1\<lparr>tc_poller := pl\<lparr>pl_heap := (pl_heap pl)(tc_channel c1 := Channel_tie (conn_channel c1))\<rparr>\<rparr>
      in bindR (conn_set_mode ctl EnableReading c2) (conn_callback ConnectionCb))"

definition connectDestroyed :: "'k epoll_ctl \<Rightarrow> 'k tcp_connection \<Rightarrow> 'k tcp_connection res" where
  "connectDestroyed ctl c =
     bindR (if tc_state c = kConnected
            then bindR (conn_set_mode ctl DisableAll (setState kDisconnected c)) (conn_callback ConnectionCb)
            else Inr c)
       (conn_remove ctl)"

definition TcpConnection_handleClose :: "'k epoll_ctl \<Rightarrow> 'k tcp_connection \<Rightarrow> 'k tcp_connection res" where
  "TcpConnection_handleClose ctl c =
     bindR (conn_set_mode ctl DisableAll (setState kDisconnected c)) (\<lambda>c1.
     bindR (conn_callback ConnectionCb c1) (conn_callback CloseCb))"

text \<open>\<open>handleError\<close> only reads the pending error of the socket for the log.\<close>

definition handleError :: "int \<Rightarrow> int \<Rightarrow> int \<Rightarrow> int" where
  "handleError ret errno optval = (if ret \<noteq> 0 then errno else optval)"

definition TcpConnection_handleRead ::
  "'k epoll_ctl \<Rightarrow> (nat \<Rightarrow> int + bytes) \<Rightarrow> 'k tcp_connection \<Rightarrow> 'k tcp_connection res"
where
  "TcpConnection_handleRead ctl readv c =
     bindR (readFd readv (tc_inputBuffer c)) (\<lambda>(r, b).
       let c1 = c\<lparr>tc_inputBuffer := b\<rparr>
       in case r of
            Inr n \<Rightarrow> if 0 < n then conn_callback MessageCb c1 else TcpConnection_handleClose ctl c1
          | Inl errno \<Rightarrow> Inr c1)"

definition TcpConnection_handleWrite ::
  "'k epoll_ctl \<Rightarrow> (bytes \<Rightarrow> int + nat) \<Rightarrow> 'k tcp_connection \<Rightarrow> 'k tcp_connection res"
where
  "TcpConnection_handleWrite ctl write c =
     (if isWriting (conn_channel c)
      then bindR (writeFd write (tc_outputBuffer c)) (\<lambda>r.
        case r of
          Inr n \<Rightarrow>
            (if 0 < n
             then let out = retrieve n (tc_outputBuffer c);
                      c1 = c\<lparr>tc_wire := tc_wire c @ take n (contents (tc_outputBuffer c)),
                             tc_outputBuffer := out\<rparr>
                  in if readableBytes out = 0
                     then bindR (conn_set_mode ctl DisableWriting c1) (\<lambda>c2.
                       let c3 = (if tc_writeCompleteCallback c2
                                 then conn_queue (el_threadId (tc_loop c2)) WriteCompleteCb c2 else c2)
                       in Inr (if tc_state c3 = kDisconnecting then shutdownInLoop c3 else c3))
                     else Inr c1
             else Inr c)
        | Inl errno \<Rightarrow> Inr c)
      else Inr c)"

text \<open>The loop runs a functor of this connection. \<open>mem\<close> holds the strings still alive.\<close>

fun run_functor ::
  "'k epoll_ctl \<Rightarrow> (bytes \<Rightarrow> int + nat) \<Rightarrow> (nat \<times> bytes) list \<Rightarrow> conn_functor \<Rightarrow> 'k tcp_connection
    \<Rightarrow> 'k tcp_connection res"
where
  "run_functor ctl write mem (SendPtr ptr len) c =
     (if tc_state c = kDisconnected then Inr c
      else case map_of mem ptr of
          None \<Rightarrow> Inl UseAfterFree
        | Some s \<Rightarrow> bindR (string_at s 0 len) (\<lambda>d. sendInLoop ctl write d c))"
| "run_functor ctl write mem (SendMsg s) c = sendInLoop ctl write s c"
| "run_functor ctl write mem ShutdownInLoop c = Inr (shutdownInLoop c)"
| "run_functor ctl write mem WriteCompleteCb c = Inr c"
| "run_functor ctl write mem (HighWaterMarkCb n) c = Inr c"

section \<open>Histories of a connection\<close>

text \<open>
  One step is a call of the user, an event of the poller or a functor of the loop, with the answer
  of the socket: \<open>write\<close> takes up to a number of bytes or fails, \<open>readv\<close> has some bytes available,
  is at end of stream (none), or fails.
\<close>

datatype conn_op =
    SendString nat nat bytes "int + nat"
  | SendBuffer nat buffer "int + nat"
  | Shutdown nat
  | Readable "int + bytes"
  | Writable "int + nat"
  | HangUp
  | Consume nat
  | RunFunctor "(nat \<times> bytes) list" conn_functor "int + nat"
  | Destroy

fun kernel_write :: "int + nat \<Rightarrow> bytes \<Rightarrow> int + nat" where
  "kernel_write (Inl e) s = Inl e"
| "kernel_write (Inr n) s = Inr (min n (length s))"

fun kernel_readv :: "int + bytes \<Rightarrow> nat \<Rightarrow> int + bytes" where
  "kernel_readv (Inl e) cap = Inl e"
| "kernel_readv (Inr s) cap = Inr (take cap s)"

fun conn_step :: "'k epoll_ctl \<Rightarrow> conn_op \<Rightarrow> 'k tcp_connection \<Rightarrow> 'k tcp_connection res" where
  "conn_step ctl (SendString tid ptr s w) c = send_string ctl (kernel_write w) tid ptr s c"
| "conn_step ctl (SendBuffer tid b w) c =
     bindR (send_buffer ctl (kernel_write w) tid b c) (\<lambda>(b', c'). Inr c')"
| "conn_step ctl (Shutdown tid) c = Inr (shutdown tid c)"
| "conn_step ctl (Readable r) c = TcpConnection_handleRead ctl (kernel_readv r) c"
| "conn_step ctl (Writable w) c = TcpConnection_handleWrite ctl (kernel_write w) c"
| "conn_step ctl HangUp c = TcpConnection_handleClose ctl c"
| "conn_step ctl (Consume n) c = Inr (c\<lparr>tc_inputBuffer := retrieve n (tc_inputBuffer c)\<rparr>)"
| "conn_step ctl (RunFunctor mem f w) c = run_functor ctl (kernel_write w) mem f c"
| "conn_step ctl Destroy c = connectDestroyed ctl c"

section \<open>Invariant\<close>

text \<open>The channel's registration is consistent, the buffers are well formed, the callbacks the
  connection calls unconditionally are set, and the channel waits for writability exactly when the
  connection is not closed and bytes are left to send.\<close>

definition conn_inv :: "('k \<Rightarrow> int \<rightharpoonup> epoll_event) \<Rightarrow> 'k tcp_connection \<Rightarrow> bool" where
  "conn_inv interest c \<longleftrightarrow>
     chan_ok interest (tc_poller c) (tc_channel c) \<and> buf_ok (tc_inputBuffer c) \<and> buf_ok (tc_outputBuffer c)
     \<and> tc_connectionCallback c \<and> tc_messageCallback c \<and> tc_closeCallback c
     \<and> (isWriting (conn_channel c) \<longleftrightarrow> tc_state c \<noteq> kDisconnected \<and> contents (tc_outputBuffer c) \<noteq> [])"

abbreviation conn_stream :: "'k tcp_connection \<Rightarrow> bytes" where
  "conn_stream c \<equiv> tc_wire c @ contents (tc_outputBuffer c)"

text \<open>What an operation on the sending side leaves alone.\<close>

definition same_reader :: "'k tcp_connection \<Rightarrow> 'k tcp_connection \<Rightarrow> bool" where
  "same_reader c c' \<longleftrightarrow> tc_inputBuffer c' = tc_inputBuffer c \<and> tc_calls c' = tc_calls c
     \<and> tc_state c' = tc_state c \<and> tc_channel c' = tc_channel c
     \<and> tc_connectionCallback c' = tc_connectionCallback c \<and> tc_messageCallback c' = tc_messageCallback c
     \<and> tc_closeCallback c' = tc_closeCallback c"

lemma same_reader_refl [simp]: "same_reader c c"
  by (simp add: same_reader_def)

lemma conn_inv_reader:
  assumes "conn_inv interest c" "same_reader c c'" "chan_ok interest (tc_poller c') (tc_channel c')"
    "buf_ok (tc_outputBuffer c')"
    "isWriting (conn_channel c') \<longleftrightarrow> tc_state c \<noteq> kDisconnected \<and> contents (tc_outputBuffer c') \<noteq> []"
  shows "conn_inv interest c'"
  using assms by (simp add: conn_inv_def same_reader_def)

lemma conn_queue_frame [simp]:
  "tc_poller (conn_queue t f c) = tc_poller c" "tc_channel (conn_queue t f c) = tc_channel c"
  "tc_state (conn_queue t f c) = tc_state c" "tc_inputBuffer (conn_queue t f c) = tc_inputBuffer c"
  "tc_outputBuffer (conn_queue t f c) = tc_outputBuffer c" "tc_wire (conn_queue t f c) = tc_wire c"
  "tc_shutWrite (conn_queue t f c) = tc_shutWrite c" "tc_calls (conn_queue t f c) = tc_calls c"
  "tc_connectionCallback (conn_queue t f c) = tc_connectionCallback c"
  "tc_messageCallback (conn_queue t f c) = tc_messageCallback c"
  "tc_closeCallback (conn_queue t f c) = tc_closeCallback c"
  "tc_writeCompleteCallback (conn_queue t f c) = tc_writeCompleteCallback c"
  "tc_highWaterMarkCallback (conn_queue t f c) = tc_highWaterMarkCallback c"
  "tc_highWaterMark (conn_queue t f c) = tc_highWaterMark c"
  by (simp_all add: conn_queue_def)

lemma isWriting_after:
  "ch_events c = mode_events EnableReading (ch_events d) \<Longrightarrow> isWriting c = isWriting d"
  "ch_events c = mode_events EnableWriting e \<Longrightarrow> isWriting c"
  "ch_events c = mode_events DisableWriting e \<Longrightarrow> \<not> isWriting c"
  "ch_events c = mode_events DisableAll e \<Longrightarrow> \<not> isWriting c"
proof -
  have "kReadEvent AND kWriteEvent = 0"
    by (simp add: kReadEvent_def kWriteEvent_def epoll_flags)
  then have "mode_events EnableReading e AND kWriteEvent = e AND kWriteEvent" for e
    by (simp add: bit.conj_disj_distrib2)
  then show "ch_events c = mode_events EnableReading (ch_events d) \<Longrightarrow> isWriting c = isWriting d"
    by (simp add: isWriting_def del: mode_events.simps)
  show "ch_events c = mode_events EnableWriting e \<Longrightarrow> isWriting c"
    "ch_events c = mode_events DisableWriting e \<Longrightarrow> \<not> isWriting c"
    "ch_events c = mode_events DisableAll e \<Longrightarrow> \<not> isWriting c"
    by (simp_all add: isWriting_def mode_events_bits kNoneEvent_def del: mode_events.simps)
qed

text \<open>Whether \<open>sendInLoop\<close> takes responsibility for the data: not on a closed connection, and not
  when the direct write finds the peer gone.\<close>

definition write_fault :: "int + nat \<Rightarrow> bool" where
  "write_fault r \<longleftrightarrow> (case r of Inl e \<Rightarrow> e = EPIPE \<or> e = ECONNRESET | Inr n \<Rightarrow> False)"

definition send_accepts :: "(bytes \<Rightarrow> int + nat) \<Rightarrow> bytes \<Rightarrow> 'k tcp_connection \<Rightarrow> bool" where
  "send_accepts write data c \<longleftrightarrow> tc_state c \<noteq> kDisconnected
     \<and> \<not> (\<not> isWriting (conn_channel c) \<and> readableBytes (tc_outputBuffer c) = 0 \<and> write_fault (write data))"

text \<open>What the code relies on: \<open>write(2)\<close> takes no more bytes than it is given.\<close>

definition write_bounded :: "(bytes \<Rightarrow> int + nat) \<Rightarrow> bool" where
  "write_bounded write \<longleftrightarrow> (\<forall>s n. write s = Inr n \<longrightarrow> n \<le> length s)"

text \<open>The data an operation hands to \<open>sendInLoop\<close>, and the part of it that enters the stream.\<close>

fun op_message :: "conn_op \<Rightarrow> 'k tcp_connection \<Rightarrow> bytes" where
  "op_message (SendString tid ptr s w) c =
     (if tc_state c = kConnected \<and> isInLoopThread tid (tc_loop c) \<and> send_accepts (kernel_write w) s c then s else [])"
| "op_message (SendBuffer tid b w) c =
     (if tc_state c = kConnected \<and> isInLoopThread tid (tc_loop c) \<and> send_accepts (kernel_write w) (contents b) c
      then contents b else [])"
| "op_message (RunFunctor mem (SendPtr ptr len) w) c =
     (let d = take len (the (map_of mem ptr)) in if send_accepts (kernel_write w) d c then d else [])"
| "op_message (RunFunctor mem (SendMsg s) w) c = (if send_accepts (kernel_write w) s c then s else [])"
| "op_message op c = []"

fun conn_run :: "'k epoll_ctl \<Rightarrow> conn_op list \<Rightarrow> 'k tcp_connection \<Rightarrow> (bytes \<times> 'k tcp_connection) res" where
  "conn_run ctl [] c = Inr ([], c)"
| "conn_run ctl (op # ops) c =
     bindR (conn_step ctl op c) (\<lambda>c1.
     bindR (conn_run ctl ops c1) (\<lambda>(sent, c'). Inr (op_message op c @ sent, c')))"

text \<open>The bytes an operation may add to the output and to the input buffer, and what it needs: a
  well-formed buffer to send, a string that is still alive.\<close>

fun op_out :: "conn_op \<Rightarrow> nat" where
  "op_out (SendString tid ptr s w) = length s"
| "op_out (SendBuffer tid b w) = length (contents b)"
| "op_out (RunFunctor mem (SendPtr ptr len) w) = len"
| "op_out (RunFunctor mem (SendMsg s) w) = length s"
| "op_out op = 0"

fun op_in :: "conn_op \<Rightarrow> nat" where
  "op_in (Readable (Inr s)) = length s"
| "op_in op = 0"

fun op_valid :: "conn_op \<Rightarrow> bool" where
  "op_valid (SendBuffer tid b w) = buf_ok b"
| "op_valid (RunFunctor mem (SendPtr ptr len) w) =
     (case map_of mem ptr of None \<Rightarrow> False | Some s \<Rightarrow> len \<le> length s)"
| "op_valid op = True"

lemma write_bounded_kernel [simp]: "write_bounded (kernel_write w)"
  by (cases w) (auto simp: write_bounded_def)

text \<open>What one step guarantees.\<close>

definition step_ok :: "('k \<Rightarrow> int \<rightharpoonup> epoll_event) \<Rightarrow> conn_op \<Rightarrow> 'k tcp_connection \<Rightarrow> 'k tcp_connection \<Rightarrow> bool" where
  "step_ok interest op c c' \<longleftrightarrow> conn_inv interest c'
     \<and> conn_stream c' = conn_stream c @ op_message op c
     \<and> length (bufferData (tc_outputBuffer c')) \<le> length (bufferData (tc_outputBuffer c)) + op_out op
     \<and> length (bufferData (tc_inputBuffer c')) \<le> length (bufferData (tc_inputBuffer c)) + op_in op
     \<and> (tc_shutWrite c' \<longrightarrow> tc_shutWrite c \<or> contents (tc_outputBuffer c') = [] \<or> tc_state c = kDisconnected)"

context epoll_kernel
begin

lemma conn_set_mode_ok:
  assumes "chan_ok interest (tc_poller c) (tc_channel c)"
  shows "\<exists>pl. conn_set_mode ctl m c = Inr (c\<lparr>tc_poller := pl\<rparr>) \<and> chan_ok interest pl (tc_channel c)
    \<and> ch_events (pl_heap pl (tc_channel c)) = mode_events m (ch_events (conn_channel c))"
  using set_mode_step [OF assms, of m] by (auto simp: conn_set_mode_def)

lemma conn_remove_ok:
  assumes "chan_ok interest (tc_poller c) (tc_channel c)"
  shows "\<exists>pl. conn_remove ctl c = Inr (c\<lparr>tc_poller := pl\<rparr>) \<and> chan_ok interest pl (tc_channel c)
    \<and> ch_events (pl_heap pl (tc_channel c)) = ch_events (conn_channel c)"
  using remove_step [OF assms] by (auto simp: conn_remove_def)

lemma send_rest_ok:
  assumes chan: "chan_ok interest (tc_poller c) (tc_channel c)" and out: "buf_ok (tc_outputBuffer c)"
    and len: "length rest < 2 ^ 31" "length (bufferData (tc_outputBuffer c)) + length rest < 2 ^ 63"
  shows "\<exists>b pl. send_rest ctl rest c = Inr (c\<lparr>tc_outputBuffer := b, tc_poller := pl\<rparr>)
    \<and> chan_ok interest pl (tc_channel c) \<and> isWriting (pl_heap pl (tc_channel c))
    \<and> buf_ok b \<and> contents b = contents (tc_outputBuffer c) @ rest
    \<and> length (bufferData b) \<le> length (bufferData (tc_outputBuffer c)) + length rest"
proof -
  from Buffer_append_ok [OF out len] obtain b where
    b: "Buffer_append rest (tc_outputBuffer c) = Inr b" "buf_ok b"
      "contents b = contents (tc_outputBuffer c) @ rest"
      "length (bufferData b) \<le> length (bufferData (tc_outputBuffer c)) + length rest" by blast
  show ?thesis
  proof (cases "isWriting (conn_channel c)")
    case True
    then have "send_rest ctl rest c = Inr (c\<lparr>tc_outputBuffer := b, tc_poller := tc_poller c\<rparr>)"
      using b(1) by (simp add: send_rest_def)
    then show ?thesis using b chan True by blast
  next
    case False
    from conn_set_mode_ok [of "c\<lparr>tc_outputBuffer := b\<rparr>" EnableWriting] chan obtain pl where
      pl: "conn_set_mode ctl EnableWriting (c\<lparr>tc_outputBuffer := b\<rparr>) = Inr (c\<lparr>tc_outputBuffer := b, tc_poller := pl\<rparr>)"
        "chan_ok interest pl (tc_channel c)"
        "ch_events (pl_heap pl (tc_channel c)) = mode_events EnableWriting (ch_events (conn_channel c))"
      by auto
    have "isWriting (pl_heap pl (tc_channel c))" by (rule isWriting_after(2) [OF pl(3)])
    then show ?thesis using b pl False by (auto simp: send_rest_def)
  qed
qed

lemma send_queue_ok:
  assumes chan: "chan_ok interest (tc_poller c) (tc_channel c)" and out: "buf_ok (tc_outputBuffer c)"
    and len: "length data < 2 ^ 31" "length (bufferData (tc_outputBuffer c)) + length data < 2 ^ 63"
    and n: "n \<le> length data"
  shows "\<exists>c'. send_queue ctl data n (length data - n) c = Inr c'
    \<and> chan_ok interest (tc_poller c') (tc_channel c') \<and> isWriting (conn_channel c')
    \<and> buf_ok (tc_outputBuffer c') \<and> contents (tc_outputBuffer c') = contents (tc_outputBuffer c) @ drop n data
    \<and> length (bufferData (tc_outputBuffer c')) \<le> length (bufferData (tc_outputBuffer c)) + length data
    \<and> same_reader c c' \<and> tc_wire c' = tc_wire c \<and> tc_shutWrite c' = tc_shutWrite c"
proof -
  define c1 where "c1 = (let oldLen = readableBytes (tc_outputBuffer c); r = length data - n in
     if tc_highWaterMark c \<le> size_add oldLen r \<and> oldLen < tc_highWaterMark c \<and> tc_highWaterMarkCallback c
     then conn_queue (el_threadId (tc_loop c)) (HighWaterMarkCb (size_add oldLen r)) c else c)"
  have c1: "tc_poller c1 = tc_poller c" "tc_outputBuffer c1 = tc_outputBuffer c" "same_reader c c1"
    "tc_channel c1 = tc_channel c" "tc_wire c1 = tc_wire c" "tc_shutWrite c1 = tc_shutWrite c"
    by (simp_all add: c1_def Let_def same_reader_def)
  have q: "send_queue ctl data n (length data - n) c = send_rest ctl (drop n data) c1"
    using n by (simp add: send_queue_def c1_def string_at_def Let_def)
  have "length (drop n data) < 2 ^ 31"
    "length (bufferData (tc_outputBuffer c1)) + length (drop n data) < 2 ^ 63"
    using len c1(2) by simp_all
  from send_rest_ok [OF _ _ this] chan out c1 obtain b pl where
    "send_rest ctl (drop n data) c1 = Inr (c1\<lparr>tc_outputBuffer := b, tc_poller := pl\<rparr>)"
    "chan_ok interest pl (tc_channel c)" "isWriting (pl_heap pl (tc_channel c))" "buf_ok b"
    "contents b = contents (tc_outputBuffer c) @ drop n data"
    "length (bufferData b) \<le> length (bufferData (tc_outputBuffer c)) + length (drop n data)"
    by auto
  then show ?thesis using q c1 by (auto simp: same_reader_def)
qed

lemma sendInLoop_wrote:
  assumes inv: "conn_inv interest c" and notclosed: "tc_state c \<noteq> kDisconnected"
    and empty: "contents (tc_outputBuffer c) = []" and Inr: "write data = Inr n" and n: "n \<le> length data"
    and len: "length data < 2 ^ 31" "length (bufferData (tc_outputBuffer c)) + length data < 2 ^ 63"
  shows "\<exists>c'. sendInLoop ctl write data c = Inr c' \<and> conn_inv interest c' \<and> same_reader c c'
    \<and> tc_shutWrite c' = tc_shutWrite c \<and> conn_stream c' = conn_stream c @ data
    \<and> length (bufferData (tc_outputBuffer c')) \<le> length (bufferData (tc_outputBuffer c)) + length data"
proof -
  have out: "buf_ok (tc_outputBuffer c)" and chan: "chan_ok interest (tc_poller c) (tc_channel c)"
    and wi: "\<not> isWriting (conn_channel c)"
    using inv notclosed empty by (simp_all add: conn_inv_def)
  note rd = readableBytes_ok [OF out]
  have sub: "size_sub (length data) n = length data - n"
    using len(1) n by (simp add: size_simps)
  define c1 where "c1 = (let c1 = c\<lparr>tc_wire := tc_wire c @ take n data\<rparr>
    in if length data - n = 0 \<and> tc_writeCompleteCallback c
       then conn_queue (el_threadId (tc_loop c)) WriteCompleteCb c1 else c1)"
  have c1: "tc_poller c1 = tc_poller c" "tc_outputBuffer c1 = tc_outputBuffer c" "same_reader c c1"
    "tc_channel c1 = tc_channel c" "tc_wire c1 = tc_wire c @ take n data" "tc_shutWrite c1 = tc_shutWrite c"
    by (simp_all add: c1_def Let_def same_reader_def)
  have e: "sendInLoop ctl write data c =
      (if n < length data then send_queue ctl data n (length data - n) c1 else Inr c1)"
    using notclosed empty wi rd Inr sub by (simp add: sendInLoop_def send_direct_def c1_def Let_def)
  have "\<exists>c'. sendInLoop ctl write data c = Inr c' \<and> same_reader c1 c' \<and> tc_shutWrite c' = tc_shutWrite c
    \<and> chan_ok interest (tc_poller c') (tc_channel c') \<and> buf_ok (tc_outputBuffer c')
    \<and> (isWriting (conn_channel c') \<longleftrightarrow> contents (tc_outputBuffer c') \<noteq> [])
    \<and> tc_wire c' = tc_wire c1 \<and> contents (tc_outputBuffer c') = drop n data
    \<and> length (bufferData (tc_outputBuffer c')) \<le> length (bufferData (tc_outputBuffer c)) + length data"
    using send_queue_ok [of c1 data n] e chan out len n c1 empty wi
    by (cases "n < length data") auto
  then obtain c' where c': "sendInLoop ctl write data c = Inr c'" "same_reader c1 c'"
    "tc_shutWrite c' = tc_shutWrite c" "chan_ok interest (tc_poller c') (tc_channel c')"
    "buf_ok (tc_outputBuffer c')" "isWriting (conn_channel c') \<longleftrightarrow> contents (tc_outputBuffer c') \<noteq> []"
    "tc_wire c' = tc_wire c1" "contents (tc_outputBuffer c') = drop n data"
    "length (bufferData (tc_outputBuffer c')) \<le> length (bufferData (tc_outputBuffer c)) + length data"
    by blast
  have "same_reader c c'" using c1(3) c'(2) by (simp add: same_reader_def)
  then show ?thesis
    using c' c1(5) empty notclosed conn_inv_reader [OF inv \<open>same_reader c c'\<close> c'(4,5)] by auto
qed

lemma sendInLoop_ok:
  assumes inv: "conn_inv interest c" and wr: "write_bounded write"
    and len: "length data < 2 ^ 31" "length (bufferData (tc_outputBuffer c)) + length data < 2 ^ 63"
  shows "\<exists>c'. sendInLoop ctl write data c = Inr c' \<and> conn_inv interest c' \<and> same_reader c c'
    \<and> tc_shutWrite c' = tc_shutWrite c
    \<and> conn_stream c' = conn_stream c @ (if send_accepts write data c then data else [])
    \<and> length (bufferData (tc_outputBuffer c')) \<le> length (bufferData (tc_outputBuffer c)) + length data"
proof -
  have out: "buf_ok (tc_outputBuffer c)" and chan: "chan_ok interest (tc_poller c) (tc_channel c)"
    using inv by (simp_all add: conn_inv_def)
  note rd = readableBytes_ok [OF out]
  show ?thesis
  proof (cases "tc_state c = kDisconnected")
    case True
    then show ?thesis using inv by (simp add: sendInLoop_def send_accepts_def)
  next
    case notclosed: False
    then have wi: "isWriting (conn_channel c) \<longleftrightarrow> contents (tc_outputBuffer c) \<noteq> []"
      using inv by (simp add: conn_inv_def)
    show ?thesis
    proof (cases "contents (tc_outputBuffer c) = []")
      case False
      have e: "sendInLoop ctl write data c = (if data = [] then Inr c else send_queue ctl data 0 (length data - 0) c)"
        using notclosed False wi by (simp add: sendInLoop_def)
      have a: "send_accepts write data c" using notclosed False wi by (simp add: send_accepts_def)
      show ?thesis
        using send_queue_ok [OF chan out len, of 0] e a inv False notclosed
        by (cases "data = []") (auto simp: conn_inv_reader [OF inv])
    next
      case empty: True
      show ?thesis
      proof (cases "write data")
        case (Inl err)
        then have e: "sendInLoop ctl write data c =
            (if write_fault (Inl err) \<or> data = [] then Inr c else send_queue ctl data 0 (length data - 0) c)"
          using notclosed empty wi rd
          by (auto simp: sendInLoop_def send_direct_def write_fault_def errno_defs)
        have a: "send_accepts write data c \<longleftrightarrow> \<not> write_fault (Inl err)"
          using notclosed empty wi rd Inl by (simp add: send_accepts_def)
        show ?thesis
          using send_queue_ok [OF chan out len, of 0] e a inv empty notclosed
          by (cases "data = []"; cases "write_fault (Inl err :: int + nat)") (auto simp: conn_inv_reader [OF inv])
      next
        case (Inr n)
        then have "n \<le> length data" using wr by (simp add: write_bounded_def)
        moreover have "send_accepts write data c"
          using notclosed Inr by (simp add: send_accepts_def write_fault_def)
        ultimately show ?thesis
          using sendInLoop_wrote [of c "write" data n] inv notclosed empty Inr len by simp
      qed
    qed
  qed
qed

text \<open>\<open>handleWrite\<close>: the stream stays the same, and the half-close happens only with nothing left.\<close>

lemma handleWrite_idle:
  assumes "conn_inv interest c" "\<not> isWriting (conn_channel c) \<or> (\<forall>n. write (contents (tc_outputBuffer c)) = Inr n \<longrightarrow> n = 0)"
  shows "TcpConnection_handleWrite ctl write c = Inr c"
  using assms by (auto simp: TcpConnection_handleWrite_def writeFd_ok conn_inv_def split: sum.split)

lemma handleWrite_partial:
  assumes inv: "conn_inv interest c" and w: "isWriting (conn_channel c)"
    and n: "write (contents (tc_outputBuffer c)) = Inr n" "0 < n" "n < length (contents (tc_outputBuffer c))"
  shows "TcpConnection_handleWrite ctl write c =
    Inr (c\<lparr>tc_wire := tc_wire c @ take n (contents (tc_outputBuffer c)),
           tc_outputBuffer := retrieve n (tc_outputBuffer c)\<rparr>)"
  using assms
  by (simp add: TcpConnection_handleWrite_def writeFd_ok conn_inv_def readableBytes_ok retrieve_ok
      contents_retrieve Let_def)

lemma handleWrite_drain:
  assumes inv: "conn_inv interest c" and w: "isWriting (conn_channel c)"
    and n: "write (contents (tc_outputBuffer c)) = Inr n" "0 < n" "length (contents (tc_outputBuffer c)) \<le> n"
  shows "\<exists>c'. TcpConnection_handleWrite ctl write c = Inr c' \<and> conn_inv interest c' \<and> same_reader c c'
    \<and> tc_wire c' = conn_stream c \<and> contents (tc_outputBuffer c') = []
    \<and> bufferData (tc_outputBuffer c') = bufferData (tc_outputBuffer c)
    \<and> (tc_shutWrite c' \<longleftrightarrow> tc_shutWrite c \<or> tc_state c = kDisconnecting)"
proof -
  have out: "buf_ok (tc_outputBuffer c)" and chan: "chan_ok interest (tc_poller c) (tc_channel c)"
    using inv by (simp_all add: conn_inv_def)
  let ?c1 = "c\<lparr>tc_wire := tc_wire c @ take n (contents (tc_outputBuffer c)),
               tc_outputBuffer := retrieve n (tc_outputBuffer c)\<rparr>"
  from conn_set_mode_ok [of ?c1 DisableWriting] chan obtain pl where
    pl: "conn_set_mode ctl DisableWriting ?c1 = Inr (?c1\<lparr>tc_poller := pl\<rparr>)"
      "chan_ok interest pl (tc_channel c)"
      "ch_events (pl_heap pl (tc_channel c)) = mode_events DisableWriting (ch_events (conn_channel c))"
    by auto
  let ?c2 = "?c1\<lparr>tc_poller := pl\<rparr>"
  define c3 where "c3 = (if tc_writeCompleteCallback ?c2
    then conn_queue (el_threadId (tc_loop ?c2)) WriteCompleteCb ?c2 else ?c2)"
  define c' where "c' = (if tc_state c3 = kDisconnecting then shutdownInLoop c3 else c3)"
  have nw: "\<not> isWriting (pl_heap pl (tc_channel c))" by (rule isWriting_after(3) [OF pl(3)])
  have empty: "contents (retrieve n (tc_outputBuffer c)) = []"
    using n(3) out by (simp add: contents_retrieve)
  have data: "bufferData (retrieve n (tc_outputBuffer c)) = bufferData (tc_outputBuffer c)"
    by (simp add: retrieve_def retrieveAll_def)
  have "TcpConnection_handleWrite ctl write c = Inr c'"
    using w n out pl(1) empty retrieve_ok [OF out]
    by (simp add: TcpConnection_handleWrite_def writeFd_ok readableBytes_ok Let_def c'_def c3_def)
  moreover have "same_reader c c'" "tc_poller c' = pl" "tc_channel c' = tc_channel c"
    "tc_wire c' = conn_stream c" "tc_outputBuffer c' = retrieve n (tc_outputBuffer c)"
    "tc_shutWrite c' \<longleftrightarrow> tc_shutWrite c \<or> tc_state c = kDisconnecting"
    using nw n(3) by (simp_all add: c'_def c3_def same_reader_def shutdownInLoop_def shutdownWrite_def)
  ultimately show ?thesis
    using conn_inv_reader [OF inv, of c'] retrieve_ok [OF out] pl(2) nw empty data by simp
qed

lemma handleWrite_ok:
  assumes inv: "conn_inv interest c" and wr: "write_bounded write"
  shows "\<exists>c'. TcpConnection_handleWrite ctl write c = Inr c' \<and> conn_inv interest c' \<and> same_reader c c'
    \<and> conn_stream c' = conn_stream c \<and> bufferData (tc_outputBuffer c') = bufferData (tc_outputBuffer c)
    \<and> (tc_shutWrite c' \<longrightarrow> tc_shutWrite c \<or> contents (tc_outputBuffer c') = [])"
proof -
  have out: "buf_ok (tc_outputBuffer c)" using inv by (simp add: conn_inv_def)
  consider (idle) "\<not> isWriting (conn_channel c) \<or> (\<forall>n. write (contents (tc_outputBuffer c)) = Inr n \<longrightarrow> n = 0)"
    | (part) n where "isWriting (conn_channel c)" "write (contents (tc_outputBuffer c)) = Inr n" "0 < n"
        "n < length (contents (tc_outputBuffer c))"
    | (all) n where "isWriting (conn_channel c)" "write (contents (tc_outputBuffer c)) = Inr n" "0 < n"
        "length (contents (tc_outputBuffer c)) \<le> n"
  proof (cases "write (contents (tc_outputBuffer c))")
    case (Inl e)
    then show ?thesis using idle by simp
  next
    case (Inr n)
    then show ?thesis
      using idle part all by (cases "isWriting (conn_channel c) \<and> 0 < n") (auto simp: not_less [symmetric])
  qed
  then show ?thesis
  proof cases
    case idle
    then show ?thesis using handleWrite_idle [OF inv, of "write"] inv by simp
  next
    case part
    let ?c' = "c\<lparr>tc_wire := tc_wire c @ take n (contents (tc_outputBuffer c)),
           tc_outputBuffer := retrieve n (tc_outputBuffer c)\<rparr>"
    have "conn_inv interest ?c'" "same_reader c ?c'"
      using inv part by (auto simp: conn_inv_def retrieve_ok contents_retrieve same_reader_def)
    moreover have "bufferData (retrieve n (tc_outputBuffer c)) = bufferData (tc_outputBuffer c)"
      by (simp add: retrieve_def retrieveAll_def)
    ultimately show ?thesis
      using handleWrite_partial [OF inv part(1), of "write" n] part out by (simp add: contents_retrieve)
  next
    case all
    show ?thesis using handleWrite_drain [OF inv all(1), of "write" n] all by auto
  qed
qed

text \<open>Closing, and the two ends of a connection's life.\<close>

lemma handleClose_ok:
  assumes inv: "conn_inv interest c"
  shows "\<exists>c'. TcpConnection_handleClose ctl c = Inr c' \<and> conn_inv interest c' \<and> tc_state c' = kDisconnected
    \<and> tc_inputBuffer c' = tc_inputBuffer c \<and> tc_outputBuffer c' = tc_outputBuffer c \<and> tc_wire c' = tc_wire c
    \<and> tc_shutWrite c' = tc_shutWrite c \<and> tc_channel c' = tc_channel c
    \<and> tc_calls c' = tc_calls c @ [ConnectionCb, CloseCb]
    \<and> \<not> isReading (conn_channel c') \<and> \<not> isWriting (conn_channel c')"
proof -
  have "chan_ok interest (tc_poller (setState kDisconnected c)) (tc_channel (setState kDisconnected c))"
    using inv by (simp add: conn_inv_def setState_def)
  from conn_set_mode_ok [OF this, of DisableAll] obtain pl where
    pl: "conn_set_mode ctl DisableAll (setState kDisconnected c) = Inr ((setState kDisconnected c)\<lparr>tc_poller := pl\<rparr>)"
      "chan_ok interest pl (tc_channel c)"
      "ch_events (pl_heap pl (tc_channel c)) = mode_events DisableAll (ch_events (conn_channel c))"
    by (auto simp: setState_def)
  moreover have "\<not> isReading (pl_heap pl (tc_channel c))"
    using pl(3) mode_events_bits(5) by (simp add: isReading_def kNoneEvent_def del: mode_events.simps)
  ultimately show ?thesis
    using inv isWriting_after(4) [OF pl(3)]
    by (simp add: TcpConnection_handleClose_def conn_callback_def conn_inv_def setState_def)
qed

lemma connectEstablished_ok:
  assumes inv: "conn_inv interest c" and st: "tc_state c = kConnecting"
  shows "\<exists>c'. connectEstablished ctl c = Inr c' \<and> conn_inv interest c' \<and> tc_state c' = kConnected
    \<and> tc_inputBuffer c' = tc_inputBuffer c \<and> tc_outputBuffer c' = tc_outputBuffer c \<and> tc_wire c' = tc_wire c
    \<and> tc_shutWrite c' = tc_shutWrite c \<and> tc_channel c' = tc_channel c
    \<and> tc_calls c' = tc_calls c @ [ConnectionCb] \<and> isReading (conn_channel c')"
proof -
  let ?c2 = "(setState kConnected c)\<lparr>tc_poller := (tc_poller c)\<lparr>pl_heap := (pl_heap (tc_poller c))
    (tc_channel c := Channel_tie (conn_channel c))\<rparr>\<rparr>"
  have "chan_ok interest (tc_poller ?c2) (tc_channel ?c2)"
    using inv by (simp add: conn_inv_def setState_def chan_ok_def Channel_tie_def Let_def)
  from conn_set_mode_ok [OF this, of EnableReading] obtain pl where
    pl: "conn_set_mode ctl EnableReading ?c2 = Inr (?c2\<lparr>tc_poller := pl\<rparr>)"
      "chan_ok interest pl (tc_channel c)"
      "ch_events (pl_heap pl (tc_channel c)) = mode_events EnableReading (ch_events (conn_channel c))"
    by (auto simp: setState_def Channel_tie_def)
  moreover have "isReading (pl_heap pl (tc_channel c))"
    using pl(3) mode_events_bits(1) by (simp add: isReading_def del: mode_events.simps)
  ultimately show ?thesis
    using inv st isWriting_after(1) [OF pl(3)]
    by (simp add: connectEstablished_def conn_callback_def conn_inv_def setState_def Let_def)
qed

lemma connectDestroyed_ok:
  assumes inv: "conn_inv interest c"
  shows "\<exists>c'. connectDestroyed ctl c = Inr c' \<and> conn_inv interest c'
    \<and> tc_inputBuffer c' = tc_inputBuffer c \<and> tc_outputBuffer c' = tc_outputBuffer c \<and> tc_wire c' = tc_wire c
    \<and> tc_shutWrite c' = tc_shutWrite c \<and> tc_state c' \<noteq> kConnected"
proof (cases "tc_state c = kConnected")
  case False
  from inv have "chan_ok interest (tc_poller c) (tc_channel c)" by (simp add: conn_inv_def)
  from conn_remove_ok [OF this] obtain pl where
    "conn_remove ctl c = Inr (c\<lparr>tc_poller := pl\<rparr>)" "chan_ok interest pl (tc_channel c)"
    "ch_events (pl_heap pl (tc_channel c)) = ch_events (conn_channel c)" by blast
  then show ?thesis using inv False by (simp add: connectDestroyed_def conn_inv_def isWriting_def)
next
  case True
  let ?c1 = "setState kDisconnected c"
  from inv have "chan_ok interest (tc_poller ?c1) (tc_channel ?c1)" by (simp add: conn_inv_def setState_def)
  from conn_set_mode_ok [OF this, of DisableAll] obtain pl where
    pl: "conn_set_mode ctl DisableAll ?c1 = Inr (?c1\<lparr>tc_poller := pl\<rparr>)" "chan_ok interest pl (tc_channel c)"
      "ch_events (pl_heap pl (tc_channel c)) = mode_events DisableAll (ch_events (conn_channel c))"
    by (auto simp: setState_def)
  let ?c2 = "?c1\<lparr>tc_poller := pl, tc_calls := tc_calls c @ [ConnectionCb]\<rparr>"
  have "chan_ok interest (tc_poller ?c2) (tc_channel ?c2)" using pl(2) by (simp add: setState_def)
  from conn_remove_ok [OF this] obtain pl' where
    "conn_remove ctl ?c2 = Inr (?c2\<lparr>tc_poller := pl'\<rparr>)" "chan_ok interest pl' (tc_channel c)"
    "ch_events (pl_heap pl' (tc_channel c)) = ch_events (pl_heap pl (tc_channel c))"
    by (auto simp: setState_def)
  moreover from this(3) have "\<not> isWriting (pl_heap pl' (tc_channel c))"
    using pl(3) isWriting_after(4) by metis
  ultimately show ?thesis
    using inv True pl(1) by (simp add: connectDestroyed_def conn_callback_def conn_inv_def setState_def)
qed

lemma handleRead_ok:
  assumes inv: "conn_inv interest c" and room: "length (bufferData (tc_inputBuffer c)) < 2 ^ 62"
  shows "\<exists>c'. TcpConnection_handleRead ctl (kernel_readv r) c = Inr c' \<and> conn_inv interest c'
    \<and> tc_outputBuffer c' = tc_outputBuffer c \<and> tc_wire c' = tc_wire c \<and> tc_shutWrite c' = tc_shutWrite c
    \<and> length (bufferData (tc_inputBuffer c')) \<le> length (bufferData (tc_inputBuffer c)) + op_in (Readable r)
    \<and> (case r of
         Inl e \<Rightarrow> c' = c
       | Inr s \<Rightarrow> let got = take (readFd_capacity (tc_inputBuffer c)) s
           in contents (tc_inputBuffer c') = contents (tc_inputBuffer c) @ got
            \<and> (if got = [] then tc_state c' = kDisconnected \<and> tc_calls c' = tc_calls c @ [ConnectionCb, CloseCb]
               else tc_state c' = tc_state c \<and> tc_calls c' = tc_calls c @ [MessageCb]))"
proof (cases r)
  case (Inl e)
  then have "readFd (kernel_readv r) (tc_inputBuffer c) = Inr (Inl e, tc_inputBuffer c)"
    by (simp add: readFd_error)
  then show ?thesis using inv Inl by (simp add: TcpConnection_handleRead_def)
next
  case (Inr s)
  let ?got = "take (readFd_capacity (tc_inputBuffer c)) s"
  have "buf_ok (tc_inputBuffer c)" using inv by (simp add: conn_inv_def)
  from readFd_data [OF this room, of "kernel_readv r" ?got] Inr obtain b where
    b: "readFd (kernel_readv r) (tc_inputBuffer c) = Inr (Inr (length ?got), b)" "buf_ok b"
      "contents b = contents (tc_inputBuffer c) @ ?got"
      "length (bufferData b) \<le> length (bufferData (tc_inputBuffer c)) + length ?got" by auto
  have inv1: "conn_inv interest (c\<lparr>tc_inputBuffer := b\<rparr>)"
    using inv b(2) by (simp add: conn_inv_def)
  show ?thesis
  proof (cases "?got = []")
    case True
    from handleClose_ok [OF inv1] show ?thesis
      using b True Inr by (auto simp: TcpConnection_handleRead_def Let_def)
  next
    case False
    then show ?thesis
      using b inv Inr by (auto simp: TcpConnection_handleRead_def Let_def conn_callback_def conn_inv_def)
  qed
qed

lemma sendInLoop_step:
  assumes "conn_inv interest c" "length d < 2 ^ 31" "length (bufferData (tc_outputBuffer c)) + length d < 2 ^ 63"
    and "op_message op c = (if send_accepts (kernel_write w) d c then d else [])" "op_out op = length d"
  shows "\<exists>c'. sendInLoop ctl (kernel_write w) d c = Inr c' \<and> step_ok interest op c c'"
  using sendInLoop_ok [OF assms(1) write_bounded_kernel assms(2,3), of w] assms(4,5)
  by (auto simp: step_ok_def same_reader_def)

lemma step_ok_refl: "conn_inv interest c \<Longrightarrow> op_message op c = [] \<Longrightarrow> step_ok interest op c c"
  by (simp add: step_ok_def)

lemma step_ok_queue:
  "conn_inv interest c \<Longrightarrow> op_message op c = [] \<Longrightarrow> step_ok interest op c (conn_queue t f c)"
  by (simp add: step_ok_def conn_inv_def)

lemma send_step_ok:
  assumes inv: "conn_inv interest c" and fit: "op_out op < 2 ^ 31"
      "length (bufferData (tc_outputBuffer c)) + op_out op < 2 ^ 63"
    and op: "op = SendString tid ptr s w \<or> op = SendBuffer tid b w \<and> buf_ok b"
  shows "\<exists>c'. conn_step ctl op c = Inr c' \<and> step_ok interest op c c'"
proof -
  let ?d = "case op of SendString tid ptr s w \<Rightarrow> s | SendBuffer tid b w \<Rightarrow> contents b | _ \<Rightarrow> []"
  have len: "op_out op = length ?d" using op by auto
  consider (off) "tc_state c \<noteq> kConnected" | (far) "tc_state c = kConnected" "\<not> isInLoopThread tid (tc_loop c)"
    | (near) "tc_state c = kConnected" "isInLoopThread tid (tc_loop c)" by blast
  then show ?thesis
  proof cases
    case off
    then have "op_message op c = []" using op by auto
    then show ?thesis using op off step_ok_refl [OF inv] by (auto simp: send_string_def send_buffer_def)
  next
    case far
    then have "op_message op c = []" using op by auto
    then show ?thesis
      using op far step_ok_queue [OF inv]
      by (auto simp: send_string_def send_buffer_def retrieveAllAsString_ok)
  next
    case near
    then have "op_message op c = (if send_accepts (kernel_write w) ?d c then ?d else [])"
      using op by auto
    from sendInLoop_step [OF inv _ _ this len] fit len obtain c' where
      "sendInLoop ctl (kernel_write w) ?d c = Inr c'" "step_ok interest op c c'" by auto
    moreover have "string_at (bufferData b) (peek b) (readableBytes b) = Inr (contents b)" if "buf_ok b"
      using string_at_readable [OF that order_refl] that by (simp add: readableBytes_ok)
    ultimately show ?thesis using op near by (auto simp: send_string_def send_buffer_def)
  qed
qed

lemma shutdown_step_ok:
  assumes "conn_inv interest c"
  shows "step_ok interest (Shutdown tid) c (shutdown tid c)"
    "step_ok interest (RunFunctor mem ShutdownInLoop w) c (shutdownInLoop c)"
  using assms
  by (auto simp: step_ok_def conn_inv_def shutdown_def shutdownInLoop_def shutdownWrite_def setState_def Let_def)

lemma functor_step_ok:
  assumes inv: "conn_inv interest c" and fit: "op_out op < 2 ^ 31"
      "length (bufferData (tc_outputBuffer c)) + op_out op < 2 ^ 63"
    and op: "op = RunFunctor mem f w" "op_valid op"
  shows "\<exists>c'. conn_step ctl op c = Inr c' \<and> step_ok interest op c c'"
proof (cases f)
  case (SendPtr ptr len)
  with op obtain str where str: "map_of mem ptr = Some str" "len \<le> length str"
    by (auto split: option.splits)
  show ?thesis
  proof (cases "tc_state c = kDisconnected")
    case True
    then show ?thesis using op SendPtr step_ok_refl [OF inv, of op] by (simp add: send_accepts_def)
  next
    case False
    with str op SendPtr show ?thesis
      using sendInLoop_step [OF inv, of "take len str" op w] fit by (simp add: string_at_def Let_def)
  qed
next
  case (SendMsg str)
  then show ?thesis using sendInLoop_step [OF inv, of str op w] fit op by simp
next
  case ShutdownInLoop
  then show ?thesis using shutdown_step_ok(2) [OF inv] op by simp
qed (use op step_ok_refl [OF inv, of op] in simp_all)

lemma conn_step_ok:
  assumes inv: "conn_inv interest c" and valid: "op_valid op" and fit: "op_out op < 2 ^ 31"
      "length (bufferData (tc_outputBuffer c)) + op_out op < 2 ^ 63"
      "length (bufferData (tc_inputBuffer c)) < 2 ^ 62"
  shows "\<exists>c'. conn_step ctl op c = Inr c' \<and> step_ok interest op c c'"
proof (cases op)
  case (Readable r)
  then show ?thesis using handleRead_ok [OF inv fit(3), of r] by (auto simp: step_ok_def)
next
  case (Writable w)
  then show ?thesis using handleWrite_ok [OF inv write_bounded_kernel, of w] by (auto simp: step_ok_def same_reader_def)
next
  case HangUp
  then show ?thesis using handleClose_ok [OF inv] by (auto simp: step_ok_def)
next
  case (Consume n)
  then show ?thesis
    using inv by (auto simp: step_ok_def conn_inv_def retrieve_ok length_data_retrieve)
next
  case Destroy
  then show ?thesis using connectDestroyed_ok [OF inv] by (auto simp: step_ok_def)
next
  case (Shutdown tid)
  then show ?thesis using shutdown_step_ok(1) [OF inv] by simp
qed (use send_step_ok [OF inv fit(1,2)] functor_step_ok [OF inv fit(1,2)] valid in auto)

lemma conn_run_ok:
  assumes "conn_inv interest c" "\<forall>op \<in> set ops. op_valid op \<and> op_out op < 2 ^ 31"
    and "length (bufferData (tc_outputBuffer c)) + sum_list (map op_out ops) < 2 ^ 63"
    and "length (bufferData (tc_inputBuffer c)) + sum_list (map op_in ops) < 2 ^ 62"
  shows "\<exists>sent c'. conn_run ctl ops c = Inr (sent, c') \<and> conn_inv interest c'
     \<and> conn_stream c' = conn_stream c @ sent"
  using assms
proof (induction ops arbitrary: c)
  case Nil
  then show ?case by simp
next
  case (Cons op ops)
  from Cons.prems obtain c1 where
    c1: "conn_step ctl op c = Inr c1" "step_ok interest op c c1"
    using conn_step_ok [of c op] by fastforce
  with Cons.prems have "\<exists>sent c'. conn_run ctl ops c1 = Inr (sent, c') \<and> conn_inv interest c'
     \<and> conn_stream c' = conn_stream c1 @ sent"
    by (intro Cons.IH) (auto simp: step_ok_def)
  then show ?case using c1 by (auto simp: step_ok_def)
qed

text \<open>Once shutting down, writable events that take bytes empty the output buffer and half-close.\<close>

lemma drain_run:
  assumes "conn_inv interest c" "tc_state c = kDisconnecting"
    and "contents (tc_outputBuffer c) = [] \<Longrightarrow> tc_shutWrite c"
    and "length (contents (tc_outputBuffer c)) \<le> sum_list ns" "\<forall>n \<in> set ns. 0 < n"
  shows "\<exists>sent c'. conn_run ctl (map (\<lambda>n. Writable (Inr n)) ns) c = Inr (sent, c')
    \<and> contents (tc_outputBuffer c') = [] \<and> tc_wire c' = conn_stream c \<and> tc_shutWrite c'"
  using assms
proof (induction ns arbitrary: c)
  case Nil
  then show ?case by simp
next
  case (Cons n ns)
  have inv: "conn_inv interest c" by (rule Cons.prems(1))
  let ?out = "contents (tc_outputBuffer c)" and ?w = "kernel_write (Inr n)"
  have "\<exists>c1. conn_step ctl (Writable (Inr n)) c = Inr c1 \<and> conn_inv interest c1 \<and> same_reader c c1
    \<and> conn_stream c1 = conn_stream c \<and> contents (tc_outputBuffer c1) = drop n ?out
    \<and> (drop n ?out = [] \<longrightarrow> tc_shutWrite c1)"
  proof (cases "?out = []")
    case True
    then show ?thesis
      using handleWrite_idle [OF inv, of ?w] inv Cons.prems(3) by (simp add: conn_inv_def)
  next
    case False
    then have w: "isWriting (conn_channel c)" using inv Cons.prems(2) by (simp add: conn_inv_def)
    have b: "buf_ok (tc_outputBuffer c)" using inv by (simp add: conn_inv_def)
    have n: "0 < n" using Cons.prems(5) by simp
    show ?thesis
    proof (cases "n < length ?out")
      case True
      with n have "TcpConnection_handleWrite ctl ?w c = Inr (c\<lparr>tc_wire := tc_wire c @ take n ?out,
           tc_outputBuffer := retrieve n (tc_outputBuffer c)\<rparr>)"
        using handleWrite_partial [OF inv w, of ?w n] by simp
      then show ?thesis
        using True inv w b by (auto simp: same_reader_def conn_inv_def retrieve_ok contents_retrieve)
    next
      case big: False
      then show ?thesis
        using handleWrite_drain [OF inv w, of ?w "length ?out"] False Cons.prems(2) by auto
    qed
  qed
  then obtain c1 where c1: "conn_step ctl (Writable (Inr n)) c = Inr c1" "conn_inv interest c1"
    "same_reader c c1" "conn_stream c1 = conn_stream c" "contents (tc_outputBuffer c1) = drop n ?out"
    "drop n ?out = [] \<longrightarrow> tc_shutWrite c1" by blast
  with Cons.prems have "\<exists>sent c'. conn_run ctl (map (\<lambda>n. Writable (Inr n)) ns) c1 = Inr (sent, c')
    \<and> contents (tc_outputBuffer c') = [] \<and> tc_wire c' = conn_stream c1 \<and> tc_shutWrite c'"
    by (intro Cons.IH) (auto simp: same_reader_def)
  then show ?case using c1 by auto
qed

end

section \<open>Closed connections\<close>

lemma conn_set_mode_fields:
  "conn_set_mode ctl m c = Inr c' \<Longrightarrow> \<exists>pl. c' = c\<lparr>tc_poller := pl\<rparr>"
  "conn_remove ctl c = Inr c' \<Longrightarrow> \<exists>pl. c' = c\<lparr>tc_poller := pl\<rparr>"
  by (auto simp: conn_set_mode_def conn_remove_def bindR_Inr_iff)

lemma conn_callback_Inr: "conn_callback f c = Inr c' \<Longrightarrow> c' = c\<lparr>tc_calls := tc_calls c @ [f]\<rparr>"
  by (simp add: conn_callback_def split: if_splits)

lemma sendInLoop_closed: "tc_state c = kDisconnected \<Longrightarrow> sendInLoop ctl write d c = Inr c"
  by (simp add: sendInLoop_def)

lemma handleClose_fields:
  "TcpConnection_handleClose ctl c = Inr c' \<Longrightarrow> tc_state c' = kDisconnected \<and> tc_wire c' = tc_wire c"
  by (auto simp: TcpConnection_handleClose_def bindR_Inr_iff setState_def
      dest!: conn_set_mode_fields conn_callback_Inr)

lemma handleRead_fields:
  assumes "TcpConnection_handleRead ctl readv c = Inr c'"
  shows "tc_wire c' = tc_wire c \<and> (tc_state c' = tc_state c \<or> tc_state c' = kDisconnected)"
proof -
  from assms obtain r b where r: "readFd readv (tc_inputBuffer c) = Inr (r, b)"
    by (auto simp: TcpConnection_handleRead_def bindR_Inr_iff)
  with assms show ?thesis
    by (cases r) (auto simp: TcpConnection_handleRead_def Let_def split: if_splits dest!: conn_callback_Inr handleClose_fields)
qed

lemma closed_step:
  assumes "conn_inv interest c" "tc_state c = kDisconnected" "conn_step ctl op c = Inr c'"
  shows "tc_state c' = kDisconnected \<and> tc_wire c' = tc_wire c"
proof (cases op)
  case (Readable r)
  with assms show ?thesis
    by (auto dest: handleRead_fields)
next
  case (RunFunctor mem f w)
  with assms show ?thesis
    by (cases f) (auto simp: sendInLoop_closed shutdownInLoop_def shutdownWrite_def)
next
  case Destroy
  with assms show ?thesis
    by (auto simp: connectDestroyed_def dest!: conn_set_mode_fields)
next
  case HangUp
  with assms show ?thesis by (auto dest: handleClose_fields)
qed (use assms in \<open>auto simp: send_string_def send_buffer_def shutdown_def
       TcpConnection_handleWrite_def conn_inv_def\<close>)

section \<open>Sending from a handler\<close>

text \<open>The conditions under which a handler runs on a connection: called in the loop's thread on an
  established connection whose buffers are far from their limits.\<close>

definition can_serve :: "('k \<Rightarrow> int \<rightharpoonup> epoll_event) \<Rightarrow> nat \<Rightarrow> 'k tcp_connection \<Rightarrow> bool" where
  "can_serve interest tid c \<longleftrightarrow> conn_inv interest c \<and> tc_state c = kConnected \<and> isInLoopThread tid (tc_loop c)
     \<and> length (bufferData (tc_outputBuffer c)) < 2 ^ 62"

lemma can_serve_input: "can_serve interest tid c \<Longrightarrow> buf_ok b \<Longrightarrow> can_serve interest tid (c\<lparr>tc_inputBuffer := b\<rparr>)"
  by (simp add: can_serve_def conn_inv_def)

lemma send_accepts_input [simp]: "send_accepts w d (c\<lparr>tc_inputBuffer := b\<rparr>) = send_accepts w d c"
  by (simp add: send_accepts_def)

lemma sendInLoop_serve:
  assumes "epoll_kernel ctl interest" "can_serve interest tid c" "length d < 2 ^ 31"
    and "send_accepts (kernel_write w) d c"
  shows "\<exists>c'. sendInLoop ctl (kernel_write w) d c = Inr c' \<and> conn_inv interest c' \<and> tc_state c' = kConnected
     \<and> tc_inputBuffer c' = tc_inputBuffer c \<and> conn_stream c' = conn_stream c @ d"
proof -
  have "conn_inv interest c" "length (bufferData (tc_outputBuffer c)) + length d < 2 ^ 63" "tc_state c = kConnected"
    using assms(2,3) by (auto simp: can_serve_def)
  then show ?thesis
    using epoll_kernel.sendInLoop_ok [OF assms(1) _ write_bounded_kernel assms(3), of c w] assms(4)
    by (auto simp: same_reader_def)
qed

section \<open>Properties\<close>

text \<open>A connection of the descriptor 7 in a fresh loop of thread 1, established.\<close>

definition conn_start :: "(int \<rightharpoonup> epoll_event) tcp_connection" where
  "conn_start = (case TcpConnection_new (Some \<lparr>el_looping = True, el_quit = False,
       el_callingPendingFunctors = False, el_threadId = 1, el_wakeupCount = 0, el_pendingFunctors = []\<rparr>)
       (EPollPoller_new (\<lambda>_. Channel_new 0) Map.empty) 1 ''srv-0.0.0.0:80#1'' 7
       (InetAddress_new 80 []) (InetAddress_new 4000 []) of
     Inr c \<Rightarrow> c\<lparr>tc_connectionCallback := True, tc_messageCallback := True, tc_closeCallback := True\<rparr>)"

lemma conn_start_fields:
  "tc_poller conn_start = (EPollPoller_new (\<lambda>_. Channel_new 0) Map.empty)\<lparr>pl_heap := (\<lambda>_. Channel_new 0)(1 :=
     (Channel_new 7)\<lparr>ch_readCallback := True, ch_writeCallback := True, ch_closeCallback := True,
       ch_errorCallback := True\<rparr>)\<rparr>"
  "tc_channel conn_start = 1" "tc_state conn_start = kConnecting"
  "tc_inputBuffer conn_start = Buffer_new 1024" "tc_outputBuffer conn_start = Buffer_new 1024"
  "tc_connectionCallback conn_start" "tc_messageCallback conn_start" "tc_closeCallback conn_start"
  "el_threadId (tc_loop conn_start) = 1" "tc_wire conn_start = []" "tc_shutWrite conn_start = False"
  "tc_calls conn_start = []"
  by (simp_all add: conn_start_def TcpConnection_new_def CheckLoopNotNull_def EPollPoller_new_def kInitialSize_def)

lemma conn_start_inv: "conn_inv (\<lambda>k. k) conn_start"
  by (simp add: conn_inv_def conn_start_fields chan_ok_def EPollPoller_new_def Channel_new_def index_defs
      isWriting_def)

lemma length_new_buffer: "length (bufferData (Buffer_new 1024)) = 1032"
  by (simp add: Buffer_new_def kCheapPrepend_def size_simps)

text \<open>Claim C2. Through any history of sends, events, functors and closing, no operation fails, and
  the bytes given to the socket followed by the bytes waiting in the output buffer are exactly the
  messages accepted, in order; the channel waits for writability exactly when bytes are waiting.\<close>

theorem stream_in_order:
  assumes "epoll_kernel ctl interest" and "conn_inv interest c"
    and "\<forall>op \<in> set ops. op_valid op \<and> op_out op < 2 ^ 31"
    and "length (bufferData (tc_outputBuffer c)) + sum_list (map op_out ops) < 2 ^ 63"
    and "length (bufferData (tc_inputBuffer c)) + sum_list (map op_in ops) < 2 ^ 62"
  shows "\<exists>sent c'. conn_run ctl ops c = Inr (sent, c') \<and> conn_inv interest c'
     \<and> tc_wire c' @ contents (tc_outputBuffer c') = tc_wire c @ contents (tc_outputBuffer c) @ sent"
  using epoll_kernel.conn_run_ok [OF assms] by auto

theorem stream_in_order_witness:
  "\<exists>sent c'. conn_run epoll_table_ctl [RunFunctor [] (SendMsg ''hello'') (Inr 2), Writable (Inr 1), Shutdown 1,
       Readable (Inl 11), Writable (Inr 9)] conn_start = Inr (sent, c')
     \<and> conn_inv (\<lambda>k. k) c' \<and> tc_wire c' @ contents (tc_outputBuffer c') = sent"
  using stream_in_order [OF tbl.epoll_kernel_axioms conn_start_inv, of "[RunFunctor [] (SendMsg ''hello'') (Inr 2),
      Writable (Inr 1), Shutdown 1, Readable (Inl 11), Writable (Inr 9)]"]
  by (simp add: conn_start_fields length_new_buffer del: conn_run.simps)

text \<open>The socket is half-closed only when everything accepted has been written: a step that
  performs the half-close on an open connection leaves the output buffer empty and all bytes
  accepted so far on the wire.\<close>

lemma shutdown_after_drain:
  assumes "epoll_kernel ctl interest" and "conn_inv interest c" and "op_valid op" and "op_out op < 2 ^ 31"
    and "length (bufferData (tc_outputBuffer c)) + op_out op < 2 ^ 63"
    and "length (bufferData (tc_inputBuffer c)) < 2 ^ 62"
    and "tc_state c \<noteq> kDisconnected" and "\<not> tc_shutWrite c"
  shows "\<exists>c'. conn_step ctl op c = Inr c'
     \<and> (tc_shutWrite c' \<longrightarrow> contents (tc_outputBuffer c') = []
          \<and> tc_wire c' = tc_wire c @ contents (tc_outputBuffer c) @ op_message op c)"
  using epoll_kernel.conn_step_ok [OF assms(1-6)] assms(7,8) by (auto simp: step_ok_def)

text \<open>Claim C28. A shutdown with bytes still queued completes: as soon as the writable events have
  taken as many bytes as were waiting, all of them are on the wire and the socket is half-closed.\<close>

theorem shutdown_completes:
  assumes "epoll_kernel ctl interest" and "conn_inv interest c" and "tc_state c = kConnected"
    and "isInLoopThread tid (tc_loop c)"
    and "length (contents (tc_outputBuffer c)) \<le> sum_list ns" and "\<forall>n \<in> set ns. 0 < n"
  shows "\<exists>sent c'. conn_run ctl (Shutdown tid # map (\<lambda>n. Writable (Inr n)) ns) c = Inr (sent, c')
     \<and> tc_shutWrite c' \<and> contents (tc_outputBuffer c') = []
     \<and> tc_wire c' = tc_wire c @ contents (tc_outputBuffer c)"
proof -
  let ?c1 = "shutdown tid c"
  have c1: "tc_state ?c1 = kDisconnecting" "tc_outputBuffer ?c1 = tc_outputBuffer c" "tc_wire ?c1 = tc_wire c"
    "contents (tc_outputBuffer c) = [] \<Longrightarrow> tc_shutWrite ?c1"
    using assms(2-4)
    by (auto simp: shutdown_def shutdownInLoop_def shutdownWrite_def setState_def Let_def conn_inv_def)
  have "conn_inv interest ?c1"
    using epoll_kernel.shutdown_step_ok(1) [OF assms(1,2)] by (simp add: step_ok_def)
  then show ?thesis
    using epoll_kernel.drain_run [OF assms(1), of ?c1 ns] c1 assms(5,6) by auto
qed

definition conn_backlog :: "(int \<rightharpoonup> epoll_event) tcp_connection" where
  "conn_backlog = (case bindR (connectEstablished epoll_table_ctl conn_start)
       (sendInLoop epoll_table_ctl (kernel_write (Inr 2)) ''hello'') of Inr c \<Rightarrow> c)"

lemma conn_backlog_facts:
  "conn_inv (\<lambda>k. k) conn_backlog" "tc_state conn_backlog = kConnected" "conn_stream conn_backlog = ''hello''"
proof -
  obtain c where c: "connectEstablished epoll_table_ctl conn_start = Inr c" "conn_inv (\<lambda>k. k) c"
    "tc_state c = kConnected" "tc_wire c = []" "tc_outputBuffer c = Buffer_new 1024"
    using tbl.connectEstablished_ok [OF conn_start_inv] by (auto simp: conn_start_fields)
  have "send_accepts (kernel_write (Inr 2)) ''hello'' c"
    using c(3) by (simp add: send_accepts_def write_fault_def)
  then obtain c' where "sendInLoop epoll_table_ctl (kernel_write (Inr 2)) ''hello'' c = Inr c'"
    "conn_inv (\<lambda>k. k) c'" "same_reader c c'" "conn_stream c' = ''hello''"
    using tbl.sendInLoop_ok [OF c(2) write_bounded_kernel, of "''hello''" "Inr 2"] c(4,5)
    by (auto simp: length_new_buffer)
  then show "conn_inv (\<lambda>k. k) conn_backlog" "tc_state conn_backlog = kConnected"
    "conn_stream conn_backlog = ''hello''"
    using c by (simp_all add: conn_backlog_def same_reader_def)
qed

theorem shutdown_completes_witness:
  "\<exists>sent c'. conn_run epoll_table_ctl [Shutdown (el_threadId (tc_loop conn_backlog)), Writable (Inr 1),
       Writable (Inr 4)] conn_backlog = Inr (sent, c')
     \<and> tc_shutWrite c' \<and> contents (tc_outputBuffer c') = [] \<and> tc_wire c' = ''hello''"
proof -
  have "length (conn_stream conn_backlog) = 5" by (simp add: conn_backlog_facts(3) del: length_append)
  then have "length (contents (tc_outputBuffer conn_backlog)) \<le> 5" by simp
  then show ?thesis
    using shutdown_completes [OF tbl.epoll_kernel_axioms conn_backlog_facts(1,2),
        of "el_threadId (tc_loop conn_backlog)" "[1, 4]"] conn_backlog_facts(3)
    by (simp add: isInLoopThread_def del: conn_run.simps)
qed

text \<open>\<open>handleRead\<close> appends what the socket delivered to the input buffer and calls the message
  callback once; at end of stream it closes the connection, calling the connection and the close
  callback; after an error nothing changes.\<close>

lemma handleRead_dispatch:
  assumes "epoll_kernel ctl interest" and "conn_inv interest c"
    and "length (bufferData (tc_inputBuffer c)) < 2 ^ 62"
  shows "\<exists>c'. TcpConnection_handleRead ctl (kernel_readv r) c = Inr c' \<and> conn_inv interest c'
    \<and> (case r of
         Inl e \<Rightarrow> c' = c
       | Inr s \<Rightarrow> let got = take (readFd_capacity (tc_inputBuffer c)) s
           in contents (tc_inputBuffer c') = contents (tc_inputBuffer c) @ got
            \<and> (if got = [] then tc_state c' = kDisconnected \<and> tc_calls c' = tc_calls c @ [ConnectionCb, CloseCb]
               else tc_state c' = tc_state c \<and> tc_calls c' = tc_calls c @ [MessageCb]))"
  using epoll_kernel.handleRead_ok [OF assms, of r] by blast

text \<open>Claim C40. \<open>send\<close> of a string from another thread queues its address, not a copy: if the string is
  gone when the loop runs the functor, the loop reads freed memory.\<close>

theorem send_string_dangles:
  assumes "tc_state c = kConnected" and "\<not> isInLoopThread tid (tc_loop c)" and "map_of mem ptr = None"
  shows "\<exists>c' f. send_string ctl write tid ptr buf c = Inr c'
     \<and> el_pendingFunctors (tc_loop c') = el_pendingFunctors (tc_loop c) @ [f]
     \<and> run_functor ctl write' mem f c' = Inl UseAfterFree"
  using assms by (simp add: send_string_def conn_queue_def queue_defs queue_wake_def queue_push_def)

theorem send_string_dangles_witness:
  "\<exists>c' f. send_string epoll_table_ctl (kernel_write (Inr 5)) 2 100 ''hello'' (conn_start\<lparr>tc_state := kConnected\<rparr>) = Inr c'
     \<and> el_pendingFunctors (tc_loop c') = el_pendingFunctors (tc_loop conn_start) @ [f]
     \<and> run_functor epoll_table_ctl (kernel_write (Inr 5)) [] f c' = Inl UseAfterFree"
  using send_string_dangles [of "conn_start\<lparr>tc_state := kConnected\<rparr>" 2 "[]" 100]
  by (simp add: conn_start_fields isInLoopThread_def)

end
