(* ===== verification/ConnLife.thy ===== *)
theory ConnLife
  imports TcpConnection
begin

text \<open>
  The life of one connection object. Which operations a connection can meet is fixed by its
  environment: the poller reports an event only for a channel in the kernel's interest list, and users
  hold a pointer to the connection once it is established. Under this discipline the state, the
  registration of the channel and the sequence of callbacks stay in step (\<open>life_ok\<close>), and an operation
  touches no other channel of the shared poller (\<open>conn_frame\<close>).
\<close>

section \<open>State, registration and callbacks\<close>

fun up_calls :: "conn_call list \<Rightarrow> bool" where
  "up_calls (ConnectionCb # cs) = (set cs \<subseteq> {MessageCb})"
| "up_calls cs = False"

definition down_calls :: "conn_call list \<Rightarrow> bool" where
  "down_calls cs \<longleftrightarrow> 3 \<le> length cs \<and> up_calls (take (length cs - 2) cs)
     \<and> drop (length cs - 2) cs = [ConnectionCb, CloseCb]"

definition life_ok :: "'k tcp_connection \<Rightarrow> bool" where
  "life_ok c \<longleftrightarrow>
     (case tc_state c of
        kConnecting \<Rightarrow> ch_index (conn_channel c) = kNew \<and> tc_calls c = []
      | kDisconnected \<Rightarrow> ch_index (conn_channel c) \<noteq> kAdded \<and> down_calls (tc_calls c)
      | _ \<Rightarrow> ch_index (conn_channel c) = kAdded \<and> isReading (conn_channel c) \<and> up_calls (tc_calls c))"

definition conn_frame :: "('k \<Rightarrow> int \<rightharpoonup> epoll_event) \<Rightarrow> 'k tcp_connection \<Rightarrow> 'k tcp_connection \<Rightarrow> bool" where
  "conn_frame interest c c' \<longleftrightarrow> tc_channel c' = tc_channel c
     \<and> only_touches interest (tc_channel c) (tc_poller c) (tc_poller c')"

text \<open>The operations of users and of the loop's functors, and the events of the poller.\<close>

fun user_op :: "conn_op \<Rightarrow> bool" where
  "user_op (Readable r) = False"
| "user_op (Writable w) = False"
| "user_op HangUp = False"
| "user_op Destroy = False"
| "user_op op = True"

text \<open>A read or close event comes from a channel the kernel knows. A write event may also be the last
  callback of a dispatch that has just closed the connection.\<close>

definition may_meet :: "conn_op \<Rightarrow> 'k tcp_connection \<Rightarrow> bool" where
  "may_meet op c \<longleftrightarrow>
     (case op of
        Readable r \<Rightarrow> ch_index (conn_channel c) = kAdded
      | HangUp \<Rightarrow> ch_index (conn_channel c) = kAdded
      | Destroy \<Rightarrow> False
      | _ \<Rightarrow> tc_state c \<noteq> kConnecting)"

lemma down_calls_append: "up_calls cs \<Longrightarrow> down_calls (cs @ [ConnectionCb, CloseCb])"
  by (cases cs rule: up_calls.cases) (simp_all add: down_calls_def)

lemma up_calls_message: "up_calls cs \<Longrightarrow> up_calls (cs @ [MessageCb])"
  by (cases cs rule: up_calls.cases) simp_all

lemma life_ok_input [simp]: "life_ok (c\<lparr>tc_inputBuffer := b\<rparr>) = life_ok c"
  by (simp add: life_ok_def split: StateE.split)

lemma conn_frame_input [simp]:
  "conn_frame interest (c\<lparr>tc_inputBuffer := b\<rparr>) c' = conn_frame interest c c'"
  by (simp add: conn_frame_def)

section \<open>What an operation does to the channel\<close>

lemma only_touches_refl [simp]: "only_touches interest p s s"
  by (simp add: only_touches_def)

lemma reading_kept:
  "mode_events EnableWriting e AND kReadEvent \<noteq> 0 \<longleftrightarrow> e AND kReadEvent \<noteq> 0"
  "mode_events DisableWriting e AND kReadEvent = e AND kReadEvent"
proof -
  have w: "kWriteEvent AND kReadEvent = 0" "NOT kWriteEvent AND kReadEvent = kReadEvent"
    by (simp_all add: kReadEvent_def kWriteEvent_def epoll_flags)
  show "mode_events EnableWriting e AND kReadEvent \<noteq> 0 \<longleftrightarrow> e AND kReadEvent \<noteq> 0"
    using w(1) by (simp add: bit.conj_disj_distrib2)
  show "mode_events DisableWriting e AND kReadEvent = e AND kReadEvent"
    using w(2) by (simp add: and.assoc)
qed

text \<open>A user operation or a write event leaves the callbacks alone, may start the shutdown, and changes
  the registration at most by switching the interest in writability.\<close>

definition write_effect :: "'k epoll_ctl \<Rightarrow> 'k tcp_connection \<Rightarrow> 'k tcp_connection \<Rightarrow> bool" where
  "write_effect ctl c c' \<longleftrightarrow> tc_channel c' = tc_channel c \<and> tc_calls c' = tc_calls c
     \<and> (tc_state c' = tc_state c \<or> tc_state c = kConnected \<and> tc_state c' = kDisconnecting)
     \<and> (tc_poller c' = tc_poller c
        \<or> tc_state c \<noteq> kDisconnected \<and> (\<exists>m \<in> {EnableWriting, DisableWriting}.
            Channel_set_mode ctl m (tc_channel c) (tc_poller c) = Inr (tc_poller c')))"

lemma write_effect_refl [simp]: "write_effect ctl c c"
  by (simp add: write_effect_def)

lemma conn_set_mode_poller:
  "conn_set_mode ctl m c = Inr c' \<Longrightarrow>
    \<exists>pl. c' = c\<lparr>tc_poller := pl\<rparr> \<and> Channel_set_mode ctl m (tc_channel c) (tc_poller c) = Inr pl"
  by (auto simp: conn_set_mode_def bindR_Inr_iff)

definition same_link :: "'k tcp_connection \<Rightarrow> 'k tcp_connection \<Rightarrow> bool" where
  "same_link c c1 \<longleftrightarrow> tc_channel c1 = tc_channel c \<and> tc_calls c1 = tc_calls c \<and> tc_state c1 = tc_state c
     \<and> tc_poller c1 = tc_poller c"

lemma same_link_effect: "same_link c c1 \<Longrightarrow> write_effect ctl c1 c' \<Longrightarrow> write_effect ctl c c'"
  by (simp add: write_effect_def same_link_def)

lemma send_direct_link: "send_direct write d c = (n, r, f, c1) \<Longrightarrow> same_link c c1"
  by (auto simp: send_direct_def same_link_def Let_def split: sum.splits if_splits)

lemma send_rest_effect:
  assumes "send_rest ctl rest c = Inr c'" and "tc_state c \<noteq> kDisconnected"
  shows "write_effect ctl c c'"
proof -
  from assms(1) obtain b where b: "Buffer_append rest (tc_outputBuffer c) = Inr b"
    by (auto simp: send_rest_def bindR_Inr_iff)
  show ?thesis
  proof (cases "isWriting (conn_channel c)")
    case True
    then show ?thesis using assms(1) b by (auto simp: send_rest_def write_effect_def)
  next
    case False
    then have "conn_set_mode ctl EnableWriting (c\<lparr>tc_outputBuffer := b\<rparr>) = Inr c'"
      using assms(1) b by (simp add: send_rest_def)
    from conn_set_mode_poller [OF this] show ?thesis using assms(2) by (auto simp: write_effect_def)
  qed
qed

lemma send_queue_effect:
  assumes "send_queue ctl d n r c = Inr c'" and "tc_state c \<noteq> kDisconnected"
  shows "write_effect ctl c c'"
proof -
  let ?len = "size_add (readableBytes (tc_outputBuffer c)) r"
  let ?c1 = "if tc_highWaterMark c \<le> ?len \<and> readableBytes (tc_outputBuffer c) < tc_highWaterMark c
      \<and> tc_highWaterMarkCallback c then conn_queue (el_threadId (tc_loop c)) (HighWaterMarkCb ?len) c else c"
  have "same_link c ?c1" by (simp add: same_link_def)
  moreover from assms(1) obtain rest where "send_rest ctl rest ?c1 = Inr c'"
    unfolding send_queue_def Let_def bindR_Inr_iff by blast
  ultimately obtain c1 where c1: "same_link c c1" "send_rest ctl rest c1 = Inr c'" by blast
  show ?thesis
    by (rule same_link_effect [OF c1(1) send_rest_effect [OF c1(2)]]) (use c1(1) assms(2) in \<open>simp add: same_link_def\<close>)
qed

lemma sendInLoop_effect:
  assumes "sendInLoop ctl write d c = Inr c'"
  shows "write_effect ctl c c'"
proof (cases "tc_state c = kDisconnected")
  case True
  then show ?thesis using assms by (simp add: sendInLoop_closed)
next
  case False
  obtain n r f c1 where d: "(if \<not> isWriting (conn_channel c) \<and> readableBytes (tc_outputBuffer c) = 0
      then send_direct write d c else (0, length d, False, c)) = (n, r, f, c1)" by (metis prod_cases4)
  then have "same_link c c1" using send_direct_link [of "write" d c] by (auto simp: same_link_def split: if_splits)
  moreover have "c' = c1 \<or> send_queue ctl d n r c1 = Inr c'"
    using assms False d by (auto simp: sendInLoop_def split: if_splits)
  ultimately show ?thesis
    using send_queue_effect [of ctl d n r c1 c'] same_link_effect False by (auto simp: same_link_def)
qed

lemma write_drained_effect:
  assumes c2: "conn_set_mode ctl DisableWriting (c\<lparr>tc_wire := wire, tc_outputBuffer := out\<rparr>) = Inr c2"
    and c3: "c3 = (if tc_writeCompleteCallback c2 then conn_queue (el_threadId (tc_loop c2)) WriteCompleteCb c2 else c2)"
    and st: "tc_state c \<noteq> kDisconnected"
  shows "write_effect ctl c (if tc_state c3 = kDisconnecting then shutdownInLoop c3 else c3)"
proof -
  obtain pl where pl: "c2 = c\<lparr>tc_wire := wire, tc_outputBuffer := out, tc_poller := pl\<rparr>"
    "Channel_set_mode ctl DisableWriting (tc_channel c) (tc_poller c) = Inr pl"
    using conn_set_mode_poller [OF c2] by auto
  have "tc_poller c3 = tc_poller c2" "tc_channel c3 = tc_channel c2" "tc_calls c3 = tc_calls c2" "tc_state c3 = tc_state c2"
    by (simp_all add: c3)
  then show ?thesis using pl st by (simp add: write_effect_def shutdownInLoop_def shutdownWrite_def)
qed

lemma handleWrite_effect:
  assumes hw: "TcpConnection_handleWrite ctl write c = Inr c'" and st: "tc_state c \<noteq> kDisconnected"
  shows "write_effect ctl c c'"
proof (cases "isWriting (conn_channel c)")
  case True
  note hw = hw [unfolded TcpConnection_handleWrite_def if_P [OF True]]
  from hw obtain r where r: "writeFd write (tc_outputBuffer c) = Inr r" by (auto simp: bindR_Inr_iff)
  show ?thesis
  proof (cases r)
    case (Inl e)
    then show ?thesis using hw r by simp
  next
    case (Inr n)
    let ?out = "retrieve n (tc_outputBuffer c)"
    consider "n = 0" | "0 < n" "readableBytes ?out \<noteq> 0" | (drained) "0 < n" "readableBytes ?out = 0" by blast
    then show ?thesis
    proof cases
      case drained
      let ?c1 = "c\<lparr>tc_wire := tc_wire c @ take n (contents (tc_outputBuffer c)), tc_outputBuffer := ?out\<rparr>"
      from hw r Inr drained obtain c2 where c2: "conn_set_mode ctl DisableWriting ?c1 = Inr c2"
        by (auto simp: Let_def bindR_Inr_iff)
      with hw r Inr drained show ?thesis using write_drained_effect [OF c2 refl st] by (simp add: Let_def)
    qed (use hw r Inr in \<open>auto simp: Let_def write_effect_def\<close>)
  qed
qed (use hw in \<open>simp add: TcpConnection_handleWrite_def\<close>)

lemma shutdown_effect: "write_effect ctl c (shutdown tid c)" "write_effect ctl c (shutdownInLoop c)"
  by (simp_all add: write_effect_def shutdown_def shutdownInLoop_def shutdownWrite_def setState_def Let_def)

lemma user_op_effect:
  assumes "conn_step ctl op c = Inr c'" and "user_op op"
  shows "write_effect ctl c c'"
proof (cases op)
  case (RunFunctor mem f w)
  then show ?thesis using assms sendInLoop_effect [of ctl _ _ c c'] shutdown_effect(2)
    by (cases f) (auto simp: bindR_Inr_iff split: if_splits option.splits)
next
  case (Consume n)
  then show ?thesis using assms by (auto simp: write_effect_def)
next
  case (Shutdown tid)
  then show ?thesis using assms shutdown_effect(1) by auto
next
  case (SendString tid ptr s w)
  then show ?thesis using assms sendInLoop_effect [of ctl _ _ c c']
    by (auto simp: send_string_def write_effect_def split: if_splits)
next
  case (SendBuffer tid b w)
  then show ?thesis using assms sendInLoop_effect [of ctl _ _ c c']
    by (auto simp: send_buffer_def write_effect_def bindR_Inr_iff split: if_splits)
qed (use assms(2) in simp_all)

section \<open>The life of a connection\<close>

lemma only_touches_trans:
  "only_touches interest p s s1 \<Longrightarrow> only_touches interest p s1 s2 \<Longrightarrow> only_touches interest p s s2"
  by (simp add: only_touches_def)

lemma set_mode_deletes:
  assumes "Channel_set_mode ctl m p s = Inr s'" "ch_index (pl_heap s p) = kAdded"
    "mode_events m (ch_events (pl_heap s p)) = kNoneEvent"
  shows "ch_index (pl_heap s' p) = kDeleted"
  using assms
  by (auto simp: Channel_set_mode_def EPollPoller_updateChannel_def index_defs isNoneEvent_def
      EPollPoller_update_def set_index_def bindR_Inr_iff Let_def split: prod.splits)

context epoll_kernel
begin

lemma write_effect_life:
  assumes ok: "chan_ok interest (tc_poller c) (tc_channel c)" and life: "life_ok c" and st: "tc_state c \<noteq> kConnecting"
    and eff: "write_effect ctl c c'"
  shows "life_ok c' \<and> conn_frame interest c c'"
proof -
  have ch: "tc_channel c' = tc_channel c" "tc_calls c' = tc_calls c"
    and s: "tc_state c' = tc_state c \<or> tc_state c = kConnected \<and> tc_state c' = kDisconnecting"
    using eff by (simp_all add: write_effect_def)
  show ?thesis
  proof (cases "tc_poller c' = tc_poller c")
    case True
    then show ?thesis using ch s life st by (auto simp: conn_frame_def life_ok_def split: StateE.splits)
  next
    case False
    with eff obtain m where m: "m \<in> {EnableWriting, DisableWriting}" "tc_state c \<noteq> kDisconnected"
      "Channel_set_mode ctl m (tc_channel c) (tc_poller c) = Inr (tc_poller c')"
      by (auto simp: write_effect_def)
    from set_mode_step [OF ok, of m] m(3) have pl: "only_touches interest (tc_channel c) (tc_poller c) (tc_poller c')"
      "ch_events (conn_channel c') = mode_events m (ch_events (conn_channel c))"
      "ch_index (conn_channel c') = kAdded \<or> mode_events m (ch_events (conn_channel c)) = kNoneEvent"
      by (auto simp: ch)
    have up: "isReading (conn_channel c)" "up_calls (tc_calls c)" using life m(2) st by (auto simp: life_ok_def split: StateE.splits)
    then have "isReading (conn_channel c')"
      using m(1) reading_kept pl(2) by (auto simp: isReading_def simp del: mode_events.simps)
    moreover from this have "ch_index (conn_channel c') = kAdded" using pl(2,3) by (auto simp: isReading_def kNoneEvent_def)
    ultimately show ?thesis
      using ch s m(2) st pl(1) up(2) by (auto simp: conn_frame_def life_ok_def split: StateE.splits)
  qed
qed

lemma close_life:
  assumes ok: "chan_ok interest (tc_poller c) (tc_channel c)" and life: "life_ok c" and added: "ch_index (conn_channel c) = kAdded"
    and step: "TcpConnection_handleClose ctl c = Inr c'"
  shows "life_ok c' \<and> conn_frame interest c c' \<and> tc_state c' = kDisconnected
    \<and> tc_calls c' = tc_calls c @ [ConnectionCb, CloseCb]"
proof -
  have up: "up_calls (tc_calls c)" using life added by (auto simp: life_ok_def index_defs split: StateE.splits)
  from step obtain pl where
    pl: "Channel_set_mode ctl DisableAll (tc_channel c) (tc_poller c) = Inr pl" and
    c': "c' = (setState kDisconnected c)\<lparr>tc_poller := pl, tc_calls := tc_calls c @ [ConnectionCb, CloseCb]\<rparr>"
    by (auto simp: TcpConnection_handleClose_def bindR_Inr_iff setState_def
        dest!: conn_set_mode_poller conn_callback_Inr)
  from set_mode_step [OF ok, of DisableAll] pl
  have "only_touches interest (tc_channel c) (tc_poller c) pl" by auto
  moreover have "ch_index (pl_heap pl (tc_channel c)) = kDeleted"
    by (rule set_mode_deletes [OF pl added]) (rule mode_events_bits(5))
  ultimately show ?thesis
    by (simp add: c' life_ok_def conn_frame_def setState_def index_defs down_calls_append [OF up])
qed

lemma read_life:
  assumes ok: "chan_ok interest (tc_poller c) (tc_channel c)" and life: "life_ok c" and added: "ch_index (conn_channel c) = kAdded"
    and step: "TcpConnection_handleRead ctl readv c = Inr c'"
  shows "life_ok c' \<and> conn_frame interest c c' \<and>
    (tc_state c' = tc_state c \<and> tc_calls c' \<noteq> tc_calls c @ [ConnectionCb, CloseCb]
     \<or> tc_state c' = kDisconnected \<and> tc_calls c' = tc_calls c @ [ConnectionCb, CloseCb])"
proof -
  from step obtain r b where r: "readFd readv (tc_inputBuffer c) = Inr (r, b)"
    by (auto simp: TcpConnection_handleRead_def bindR_Inr_iff)
  let ?c1 = "c\<lparr>tc_inputBuffer := b\<rparr>"
  consider (closed) "TcpConnection_handleClose ctl ?c1 = Inr c'" | (message) "conn_callback MessageCb ?c1 = Inr c'"
    | (error) "c' = ?c1"
    using step r by (cases r) (auto simp: TcpConnection_handleRead_def Let_def split: if_splits)
  then show ?thesis
  proof cases
    case closed
    from close_life [OF _ _ _ closed] ok life added show ?thesis by simp
  next
    case message
    have "tc_state c \<in> {kConnected, kDisconnecting}"
      using life added by (auto simp: life_ok_def index_defs split: StateE.splits)
    then show ?thesis using life conn_callback_Inr [OF message] up_calls_message
      by (auto simp: life_ok_def conn_frame_def)
  next
    case error
    then show ?thesis using life by (simp add: conn_frame_def)
  qed
qed

lemma establish_life:
  assumes ok: "chan_ok interest (tc_poller c) (tc_channel c)" and life: "life_ok c" and st: "tc_state c = kConnecting"
    and step: "connectEstablished ctl c = Inr c'"
  shows "life_ok c' \<and> conn_frame interest c c' \<and> tc_state c' = kConnected"
proof -
  let ?tied = "(tc_poller c)\<lparr>pl_heap := (pl_heap (tc_poller c))(tc_channel c := Channel_tie (conn_channel c))\<rparr>"
  from step obtain pl where
    pl: "Channel_set_mode ctl EnableReading (tc_channel c) ?tied = Inr pl" and
    c': "c' = (setState kConnected c)\<lparr>tc_poller := pl, tc_calls := tc_calls c @ [ConnectionCb]\<rparr>"
    by (auto simp: connectEstablished_def bindR_Inr_iff setState_def Let_def
        dest!: conn_set_mode_poller conn_callback_Inr)
  have "chan_ok interest ?tied (tc_channel c)" using ok by (simp add: chan_ok_def Channel_tie_def Let_def)
  from set_mode_step [OF this, of EnableReading] pl have
    t: "only_touches interest (tc_channel c) ?tied pl" and
    i: "ch_events (pl_heap pl (tc_channel c)) = mode_events EnableReading (ch_events (pl_heap ?tied (tc_channel c)))"
      "ch_index (pl_heap pl (tc_channel c)) = kAdded
       \<or> mode_events EnableReading (ch_events (pl_heap ?tied (tc_channel c))) = kNoneEvent" by auto
  have "only_touches interest (tc_channel c) (tc_poller c) ?tied" by (simp add: only_touches_def Channel_tie_def)
  note touch = only_touches_trans [OF this t]
  have read: "isReading (pl_heap pl (tc_channel c))"
    using i(1) mode_events_bits(1) by (simp add: isReading_def del: mode_events.simps)
  then have "ch_index (pl_heap pl (tc_channel c)) = kAdded"
    using i by (auto simp: isReading_def kNoneEvent_def simp del: mode_events.simps)
  with read touch life st show ?thesis by (simp add: c' life_ok_def conn_frame_def setState_def)
qed

lemma destroy_life:
  assumes ok: "chan_ok interest (tc_poller c) (tc_channel c)" and life: "life_ok c" and st: "tc_state c = kDisconnected"
    and step: "connectDestroyed ctl c = Inr c'"
  shows "life_ok c' \<and> conn_frame interest c c' \<and> tc_state c' = kDisconnected"
proof -
  from step st obtain pl where pl: "EPollPoller_removeChannel ctl (tc_channel c) (tc_poller c) = Inr pl" "c' = c\<lparr>tc_poller := pl\<rparr>"
    by (auto simp: connectDestroyed_def conn_remove_def bindR_Inr_iff)
  with remove_step [OF ok] show ?thesis using life st by (auto simp: life_ok_def conn_frame_def index_defs)
qed

text \<open>One step: the poller reports an event of a registered channel, or users act on a connection that was
  established. The close callback runs exactly when the connection is closed.\<close>

lemma conn_step_life:
  assumes inv: "conn_inv interest c" and life: "life_ok c" and meet: "may_meet op c"
    and step: "conn_step ctl op c = Inr c'"
  shows "life_ok c' \<and> conn_frame interest c c' \<and> tc_state c' \<noteq> kConnecting
    \<and> (tc_state c' = kDisconnected \<and> tc_state c \<noteq> kDisconnected \<longleftrightarrow> tc_calls c' = tc_calls c @ [ConnectionCb, CloseCb])"
proof -
  have ok: "chan_ok interest (tc_poller c) (tc_channel c)" using inv by (simp add: conn_inv_def)
  consider (user) "user_op op \<or> (\<exists>w. op = Writable w)" | (close) "op = HangUp" | (read) r where "op = Readable r"
    using meet by (cases op) (auto simp: may_meet_def)
  then show ?thesis
  proof cases
    case user
    then have st: "tc_state c \<noteq> kConnecting" using meet by (cases op) (auto simp: may_meet_def)
    have eff: "write_effect ctl c c'"
    proof (cases "user_op op \<or> tc_state c = kDisconnected")
      case True
      then show ?thesis using user user_op_effect [OF step] step inv
        by (auto simp: TcpConnection_handleWrite_def conn_inv_def)
    next
      case False
      then show ?thesis using user step handleWrite_effect by auto
    qed
    then have "tc_calls c' = tc_calls c" "tc_state c' \<noteq> kConnecting" "tc_state c' = kDisconnected \<longleftrightarrow> tc_state c = kDisconnected"
      using st by (auto simp: write_effect_def)
    then show ?thesis using write_effect_life [OF ok life st eff] by simp
  next
    case close
    then have added: "ch_index (conn_channel c) = kAdded" using meet by (simp add: may_meet_def)
    then have "tc_state c \<noteq> kConnecting" "tc_state c \<noteq> kDisconnected" using life by (auto simp: life_ok_def index_defs)
    then show ?thesis using close step close_life [OF ok life added] by simp
  next
    case read
    then have added: "ch_index (conn_channel c) = kAdded" using meet by (simp add: may_meet_def)
    then have "tc_state c \<noteq> kConnecting" "tc_state c \<noteq> kDisconnected" using life by (auto simp: life_ok_def index_defs)
    then show ?thesis using read step read_life [OF ok life added, of "kernel_readv r" c'] by auto
  qed
qed

end

section \<open>A dispatch\<close>

text \<open>The operations that \<open>Channel::handleEvent\<close> starts, with the answers of the socket; \<open>handleError\<close>
  changes nothing.\<close>

fun callback_ops :: "int + bytes \<Rightarrow> int + nat \<Rightarrow> callback \<Rightarrow> conn_op list" where
  "callback_ops r w ReadCallback = [Readable r]"
| "callback_ops r w WriteCallback = [Writable w]"
| "callback_ops r w CloseCallback = [HangUp]"
| "callback_ops r w ErrorCallback = []"

definition dispatch_ops :: "int + bytes \<Rightarrow> int + nat \<Rightarrow> channel \<Rightarrow> conn_op list" where
  "dispatch_ops r w ch = concat (map (callback_ops r w) (handleEventWithGuard ch))"

text \<open>Every operation finds the connection as it should, whatever users do between them.\<close>

fun meets_all :: "conn_op list \<Rightarrow> 'k tcp_connection list \<Rightarrow> bool" where
  "meets_all (op # ops) (c # cs) = (may_meet op c \<and> meets_all ops cs)"
| "meets_all ops cs = True"

text \<open>A hang-up reported with urgent data but without readability would run the close callback and then
  the read callback.\<close>

definition urgent_hangup :: "channel \<Rightarrow> bool" where
  "urgent_hangup ch \<longleftrightarrow> ch_revents ch AND EPOLLHUP \<noteq> 0 \<and> ch_revents ch AND EPOLLIN = 0
     \<and> ch_revents ch AND EPOLLPRI \<noteq> 0"

lemma dispatch_cases:
  assumes "\<not> urgent_hangup ch"
  shows "\<exists>ops. dispatch_ops r w ch = ops \<and> (\<forall>op \<in> set (tl ops). op = Writable w)
    \<and> set ops \<subseteq> {HangUp, Readable r, Writable w}"
proof -
  have "ch_revents ch AND (EPOLLIN OR EPOLLPRI) = (ch_revents ch AND EPOLLIN) OR (ch_revents ch AND EPOLLPRI)"
    by (rule bit.conj_disj_distrib)
  then show ?thesis
    using assms by (auto simp: dispatch_ops_def handleEventWithGuard_def urgent_hangup_def)
qed

lemma dispatch_meets:
  assumes "\<not> urgent_hangup ch" and "cs \<noteq> [] \<longrightarrow> ch_index (conn_channel (hd cs)) = kAdded"
    and "\<forall>c \<in> set cs. life_ok c \<and> tc_state c \<noteq> kConnecting"
  shows "meets_all (dispatch_ops r w ch) cs"
proof -
  have w: "meets_all ops cs" if "\<forall>op \<in> set ops. op = Writable w" "\<forall>c \<in> set cs. tc_state c \<noteq> kConnecting" for ops and cs :: "'a tcp_connection list"
    using that by (induction ops cs rule: meets_all.induct) (auto simp: may_meet_def)
  obtain ops where ops: "dispatch_ops r w ch = ops" "\<forall>op \<in> set (tl ops). op = Writable w"
    "set ops \<subseteq> {HangUp, Readable r, Writable w}" using dispatch_cases [OF assms(1)] by blast
  show ?thesis
  proof (cases ops)
    case (Cons op rest)
    then show ?thesis using ops w [of rest "tl cs"] assms(2,3)
      by (cases cs) (auto simp: may_meet_def)
  qed (simp add: ops(1))
qed

text \<open>The exception closes twice: a read callback at end of stream after the close callback.\<close>

lemma urgent_hangup_closes_twice:
  "dispatch_ops r w (\<lparr>ch_fd = 5, ch_events = kReadEvent, ch_revents = EPOLLHUP OR EPOLLPRI, ch_index = kAdded, ch_tied = True,
      ch_readCallback = True, ch_writeCallback = True, ch_closeCallback = True, ch_errorCallback = True\<rparr>) = [HangUp, Readable r]"
  by (simp add: dispatch_ops_def handleEventWithGuard_def epoll_flags)

end
