(* ===== verification/ServerSystem.thy ===== *)
theory ServerSystem
  imports TcpServer ConnLife
begin

text \<open>
  The server composed with its connection objects and the pollers of its loops
  (\<open>src/src/net/TcpServer.cc\<close>, \<open>TcpConnection.cc\<close>, \<open>poller/EPollPoller.cc\<close>). Every functor of the server
  about a connection runs the real operation on the connection object; every event of a registered
  channel and every call of a user runs the real operation too, and the close callback of a connection
  calls \<open>removeConnection\<close>. A functor that a connection queued for itself may run at any time while it is alive, as the calls of users;
  \<open>FunctorQueue\<close> shows that running them from the queues of the loops is such a history. Connections of one loop share its poller. The phases of the server theory
  become a ghost of the connection's own state.
\<close>

section \<open>State and operations\<close>

record 'k system =
  sy_server :: tcp_server
  sy_conns :: "'k tcp_connection list"
  sy_pollers :: "nat \<Rightarrow> 'k poller"

abbreviation sy_object :: "'k system \<Rightarrow> conn_id \<Rightarrow> conn_object" where
  "sy_object sy c \<equiv> sv_heap (sy_server sy) ! c"

text \<open>A connection with the current poller of its loop, and the way back.\<close>

definition attach :: "'k system \<Rightarrow> conn_id \<Rightarrow> 'k tcp_connection" where
  "attach sy c = (sy_conns sy ! c)\<lparr>tc_poller := sy_pollers sy (co_loop (sy_object sy c))\<rparr>"

definition put_conn :: "conn_id \<Rightarrow> 'k tcp_connection \<Rightarrow> 'k system \<Rightarrow> 'k system" where
  "put_conn c conn sy = sy\<lparr>sy_conns := (sy_conns sy)[c := conn],
     sy_pollers := (sy_pollers sy)(co_loop (sy_object sy c) := tc_poller conn)\<rparr>"

text \<open>The object \<open>newConnection\<close> creates, with the callbacks of the server; \<open>wc\<close> tells whether
  \<open>writeCompleteCallback_\<close> is set. The channel is allocated at \<open>p\<close>.\<close>

definition new_conn ::
  "conn_functor event_loop \<Rightarrow> 'k poller \<Rightarrow> nat \<Rightarrow> bytes \<Rightarrow> int \<Rightarrow> sockaddr_in \<Rightarrow> sockaddr_in \<Rightarrow> bool
    \<Rightarrow> 'k tcp_connection res"
where
  "new_conn loop poller p name sockfd localAddr peerAddr wc =
     bindR (TcpConnection_new (Some loop) poller p name sockfd localAddr peerAddr) (\<lambda>conn. Inr
       (conn\<lparr>tc_connectionCallback := True, tc_messageCallback := True, tc_writeCompleteCallback := wc,
             tc_closeCallback := True\<rparr>))"

text \<open>\<open>newConnection\<close> with the object; in the main loop \<open>connectEstablished\<close> runs at once.\<close>

definition sys_newConnection ::
  "'k epoll_ctl \<Rightarrow> (nat \<Rightarrow> conn_functor event_loop) \<Rightarrow> bool \<Rightarrow> nat \<Rightarrow> int \<Rightarrow> sockaddr_in \<Rightarrow> sockaddr_in
    \<Rightarrow> 'k system \<Rightarrow> 'k system res"
where
  "sys_newConnection ctl loops wc p sockfd peerAddr localAddr sy =
     bindR (newConnection sockfd peerAddr localAddr (sy_server sy)) (\<lambda>s'.
       let ob = sv_heap s' ! length (sy_conns sy); l = co_loop ob
       in bindR (new_conn (loops l) (sy_pollers sy l) p (co_name ob) sockfd localAddr peerAddr wc) (\<lambda>conn.
          bindR (if l = 0 then connectEstablished ctl conn else Inr conn) (\<lambda>conn'.
            Inr \<lparr>sy_server = s', sy_conns = sy_conns sy @ [conn'],
                 sy_pollers = (sy_pollers sy)(l := tc_poller conn')\<rparr>)))"

text \<open>A loop runs a functor.\<close>

fun sys_exec :: "'k epoll_ctl \<Rightarrow> server_functor \<Rightarrow> 'k system \<Rightarrow> 'k system res" where
  "sys_exec ctl (ConnectEstablished c) sy =
     bindR (connectEstablished ctl (attach sy c)) (\<lambda>conn.
       Inr ((put_conn c conn sy)\<lparr>sy_server := server_exec (ConnectEstablished c) (sy_server sy)\<rparr>))"
| "sys_exec ctl (ConnectDestroyed c) sy =
     bindR (connectDestroyed ctl (attach sy c)) (\<lambda>conn.
       Inr ((put_conn c conn sy)\<lparr>sy_server := server_exec (ConnectDestroyed c) (sy_server sy)\<rparr>))"
| "sys_exec ctl f sy = Inr (sy\<lparr>sy_server := server_exec f (sy_server sy)\<rparr>)"

text \<open>An operation on a connection in the thread of its loop. When it calls the close callback, that is
  \<open>removeConnection\<close>.\<close>

definition sys_conn_op :: "'k epoll_ctl \<Rightarrow> conn_op \<Rightarrow> conn_id \<Rightarrow> 'k system \<Rightarrow> 'k system res" where
  "sys_conn_op ctl op c sy =
     bindR (conn_step ctl op (attach sy c)) (\<lambda>conn.
       let sy1 = put_conn c conn sy
       in Inr (if tc_calls conn = tc_calls (attach sy c) @ [ConnectionCb, CloseCb]
               then sy1\<lparr>sy_server := removeConnection (co_loop (sy_object sy c)) c (set_phase c Closed (sy_server sy))\<rparr>
               else sy1))"

abbreviation live :: "'k system \<Rightarrow> conn_id \<Rightarrow> bool" where
  "live sy c \<equiv> c < length (sv_heap (sy_server sy)) \<and> co_phase (sy_object sy c) \<noteq> Destroyed"

text \<open>What an operation needs: the environment of \<open>may_meet\<close>, strings that are alive and buffers far from
  the limits of the address space.\<close>

definition op_fits :: "conn_op \<Rightarrow> 'k tcp_connection \<Rightarrow> bool" where
  "op_fits op conn \<longleftrightarrow> op_valid op \<and> op_out op < 2 ^ 31
     \<and> length (bufferData (tc_outputBuffer conn)) + op_out op < 2 ^ 63
     \<and> length (bufferData (tc_inputBuffer conn)) < 2 ^ 62"

text \<open>A new connection gets a descriptor that no live connection and no other channel (\<open>base\<close>) uses, and a
  channel object of its own.\<close>

definition may_accept :: "int set \<Rightarrow> nat \<Rightarrow> int \<Rightarrow> 'k system \<Rightarrow> bool" where
  "may_accept base p fd sy \<longleftrightarrow> fd \<notin> base \<and> (\<forall>conn \<in> set (sy_conns sy). tc_channel conn \<noteq> p)
     \<and> (\<forall>c. live sy c \<longrightarrow> co_fd (sy_object sy c) \<noteq> fd)"

inductive system_step ::
  "'k epoll_ctl \<Rightarrow> int set \<Rightarrow> (nat \<Rightarrow> conn_functor event_loop) \<Rightarrow> bool \<Rightarrow> 'k system \<Rightarrow> 'k system \<Rightarrow> bool"
  for ctl base loops wc
where
  sys_accept: "may_accept base p fd sy \<Longrightarrow> sys_newConnection ctl loops wc p fd peer loc sy = Inr sy' \<Longrightarrow>
    system_step ctl base loops wc sy sy'"
| sys_run: "sv_queues (sy_server sy) l = f # fs \<Longrightarrow>
    sys_exec ctl f (sy\<lparr>sy_server := (sy_server sy)\<lparr>sv_queues := (sv_queues (sy_server sy))(l := fs)\<rparr>\<rparr>) = Inr sy' \<Longrightarrow>
    system_step ctl base loops wc sy sy'"
| sys_op: "live sy c \<Longrightarrow> may_meet op (attach sy c) \<Longrightarrow> op_fits op (attach sy c) \<Longrightarrow>
    sys_conn_op ctl op c sy = Inr sy' \<Longrightarrow> system_step ctl base loops wc sy sy'"
| sys_poll: "EPollPoller_poll epoll_wait eintr (sy_pollers sy l) = (lg, active, pl) \<Longrightarrow>
    system_step ctl base loops wc sy (sy\<lparr>sy_pollers := (sy_pollers sy)(l := pl)\<rparr>)"

inductive_cases system_stepE: "system_step ctl base loops wc sy sy'"

definition system_start ::
  "('k \<Rightarrow> int \<rightharpoonup> epoll_event) \<Rightarrow> int set \<Rightarrow> tcp_server \<Rightarrow> 'k system \<Rightarrow> bool"
where
  "system_start interest base s0 sy \<longleftrightarrow> sy_server sy = s0 \<and> sy_conns sy = []
     \<and> (\<forall>l fd. fd \<notin> base \<longrightarrow> pl_channels (sy_pollers sy l) fd = None \<and> interest (pl_kernel (sy_pollers sy l)) fd = None)"

section \<open>Invariant\<close>

fun phase_matches :: "conn_phase \<Rightarrow> StateE \<Rightarrow> bool" where
  "phase_matches Connecting st = (st = kConnecting)"
| "phase_matches Established st = (st = kConnected \<or> st = kDisconnecting)"
| "phase_matches Closed st = (st = kDisconnected)"
| "phase_matches Destroyed st = (st = kDisconnected)"

text \<open>One object agrees with its phase; the channel of a live one is registered as its life says.\<close>

definition object_ok :: "('k \<Rightarrow> int \<rightharpoonup> epoll_event) \<Rightarrow> conn_object \<Rightarrow> 'k tcp_connection \<Rightarrow> bool" where
  "object_ok interest ob conn \<longleftrightarrow> phase_matches (co_phase ob) (tc_state conn) \<and>
     (if co_phase ob = Destroyed then down_calls (tc_calls conn)
      else conn_inv interest conn \<and> life_ok conn \<and> ch_fd (conn_channel conn) = co_fd ob)"

definition unused_fd :: "('k \<Rightarrow> int \<rightharpoonup> epoll_event) \<Rightarrow> 'k poller \<Rightarrow> int \<Rightarrow> bool" where
  "unused_fd interest pl fd \<longleftrightarrow> pl_channels pl fd = None \<and> interest (pl_kernel pl) fd = None"

definition conns_inv :: "('k \<Rightarrow> int \<rightharpoonup> epoll_event) \<Rightarrow> int set \<Rightarrow> 'k system \<Rightarrow> bool" where
  "conns_inv interest base sy \<longleftrightarrow>
     length (sy_conns sy) = length (sv_heap (sy_server sy))
     \<and> inj_on (\<lambda>c. tc_channel (sy_conns sy ! c)) {..<length (sy_conns sy)}
     \<and> inj_on (\<lambda>c. co_fd (sy_object sy c)) {c. live sy c}
     \<and> (\<forall>c. live sy c \<longrightarrow> co_fd (sy_object sy c) \<notin> base)
     \<and> (\<forall>c < length (sy_conns sy). object_ok interest (sy_object sy c) (attach sy c))
     \<and> (\<forall>l fd. fd \<notin> base \<and> (\<forall>c. live sy c \<and> co_loop (sy_object sy c) = l \<longrightarrow> co_fd (sy_object sy c) \<noteq> fd)
          \<longrightarrow> unused_fd interest (sy_pollers sy l) fd)"

lemma conns_invD:
  assumes "conns_inv interest base sy"
  shows "length (sy_conns sy) = length (sv_heap (sy_server sy))"
    "c < length (sy_conns sy) \<Longrightarrow> d < length (sy_conns sy) \<Longrightarrow>
       tc_channel (sy_conns sy ! c) = tc_channel (sy_conns sy ! d) \<Longrightarrow> c = d"
    "live sy c \<Longrightarrow> live sy d \<Longrightarrow> co_fd (sy_object sy c) = co_fd (sy_object sy d) \<Longrightarrow> c = d"
    "live sy c \<Longrightarrow> co_fd (sy_object sy c) \<notin> base"
    "c < length (sy_conns sy) \<Longrightarrow> object_ok interest (sy_object sy c) (attach sy c)"
    "fd \<notin> base \<Longrightarrow> (\<And>c. live sy c \<Longrightarrow> co_loop (sy_object sy c) = l \<Longrightarrow> co_fd (sy_object sy c) \<noteq> fd)
       \<Longrightarrow> unused_fd interest (sy_pollers sy l) fd"
  using assms by (auto simp: conns_inv_def inj_on_def)

lemma object_ok_live:
  assumes "conns_inv interest base sy" and "live sy c"
  shows "conn_inv interest (attach sy c)" "life_ok (attach sy c)"
    "phase_matches (co_phase (sy_object sy c)) (tc_state (attach sy c))"
    "ch_fd (conn_channel (attach sy c)) = co_fd (sy_object sy c)" "c < length (sy_conns sy)"
  using conns_invD(1) [OF assms(1)] conns_invD(5) [OF assms(1), of c] assms(2) by (auto simp: object_ok_def)

text \<open>A poller changes at one channel object and one descriptor. Another connection is not disturbed.\<close>

definition touches :: "('k \<Rightarrow> int \<rightharpoonup> epoll_event) \<Rightarrow> nat \<Rightarrow> int \<Rightarrow> 'k poller \<Rightarrow> 'k poller \<Rightarrow> bool" where
  "touches interest p fd s s' \<longleftrightarrow> (\<forall>q. q \<noteq> p \<longrightarrow> pl_heap s' q = pl_heap s q)
     \<and> (\<forall>fd'. fd' \<noteq> fd \<longrightarrow> pl_channels s' fd' = pl_channels s fd'
          \<and> interest (pl_kernel s') fd' = interest (pl_kernel s) fd')"

lemma object_ok_other:
  assumes "object_ok interest ob conn" and "touches interest p fd (tc_poller conn) pl"
    and "tc_channel conn \<noteq> p" and "co_phase ob \<noteq> Destroyed \<Longrightarrow> co_fd ob \<noteq> fd"
  shows "object_ok interest ob (conn\<lparr>tc_poller := pl\<rparr>)"
proof (cases "co_phase ob = Destroyed")
  case True
  then show ?thesis using assms(1) by (simp add: object_ok_def)
next
  case False
  have ch: "pl_heap pl (tc_channel conn) = conn_channel conn" using assms(2,3) by (simp add: touches_def)
  have fd: "ch_fd (conn_channel conn) = co_fd ob" using assms(1) False by (simp add: object_ok_def)
  then have "chan_ok interest pl (tc_channel conn) = chan_ok interest (tc_poller conn) (tc_channel conn)"
    using ch assms(2,4) False by (simp add: chan_ok_def touches_def Let_def)
  then show ?thesis
    using assms(1) False ch by (simp add: object_ok_def conn_inv_def life_ok_def split: StateE.splits)
qed

text \<open>Connection \<open>c\<close> is changed or added, with its entries in the poller of its loop.\<close>

definition conn_change ::
  "('k \<Rightarrow> int \<rightharpoonup> epoll_event) \<Rightarrow> int set \<Rightarrow> conn_id \<Rightarrow> 'k system \<Rightarrow> 'k system \<Rightarrow> bool"
where
  "conn_change interest base c sy sy' \<longleftrightarrow>
     (let p = tc_channel (sy_conns sy' ! c); l = co_loop (sy_object sy' c); fd = co_fd (sy_object sy' c)
      in c < length (sy_conns sy') \<and> length (sv_heap (sy_server sy')) = length (sy_conns sy')
       \<and> (\<forall>d < length (sy_conns sy'). d \<noteq> c \<longrightarrow> d < length (sy_conns sy) \<and> sy_object sy' d = sy_object sy d
            \<and> sy_conns sy' ! d = sy_conns sy ! d \<and> tc_channel (sy_conns sy ! d) \<noteq> p)
       \<and> length (sy_conns sy) \<le> length (sy_conns sy')
       \<and> (c < length (sy_conns sy) \<longrightarrow> co_loop (sy_object sy c) = l \<and> co_fd (sy_object sy c) = fd)
       \<and> (\<forall>d. live sy d \<and> d \<noteq> c \<longrightarrow> co_fd (sy_object sy d) \<noteq> fd) \<and> fd \<notin> base
       \<and> (\<forall>l'. l' \<noteq> l \<longrightarrow> sy_pollers sy' l' = sy_pollers sy l')
       \<and> touches interest p fd (sy_pollers sy l) (sy_pollers sy' l))"

lemma conn_change_objects:
  assumes inv: "conns_inv interest base sy" and ch: "conn_change interest base c sy sy'"
    and d: "d < length (sy_conns sy')" "d \<noteq> c"
  shows "object_ok interest (sy_object sy' d) (attach sy' d)"
proof -
  note D = conns_invD [OF inv]
  have dd: "d < length (sy_conns sy)" "sy_object sy' d = sy_object sy d" "sy_conns sy' ! d = sy_conns sy ! d"
    "tc_channel (sy_conns sy ! d) \<noteq> tc_channel (sy_conns sy' ! c)"
    using ch d by (simp_all add: conn_change_def Let_def)
  show ?thesis
  proof (cases "co_loop (sy_object sy d) = co_loop (sy_object sy' c)")
    case True
    have "attach sy' d = (attach sy d)\<lparr>tc_poller := sy_pollers sy' (co_loop (sy_object sy' c))\<rparr>"
      using True dd by (simp add: attach_def)
    moreover have "co_phase (sy_object sy d) \<noteq> Destroyed \<Longrightarrow> co_fd (sy_object sy d) \<noteq> co_fd (sy_object sy' c)"
      using ch d D(1) dd(1) by (simp add: conn_change_def Let_def)
    moreover have "touches interest (tc_channel (sy_conns sy' ! c)) (co_fd (sy_object sy' c))
        (sy_pollers sy (co_loop (sy_object sy d))) (sy_pollers sy' (co_loop (sy_object sy' c)))"
      using ch True by (simp add: conn_change_def Let_def)
    ultimately show ?thesis using object_ok_other [OF D(5) [OF dd(1)]] dd by (simp add: attach_def)
  next
    case False
    then have "attach sy' d = attach sy d" using ch dd by (simp add: attach_def conn_change_def Let_def)
    then show ?thesis using D(5) [OF dd(1)] dd(2) by simp
  qed
qed

lemma conn_change_live:
  assumes ch: "conn_change interest base c sy sy'" and inv: "conns_inv interest base sy" and d: "d \<noteq> c"
  shows "live sy' d \<longleftrightarrow> live sy d"
proof -
  have "length (sv_heap (sy_server sy')) = length (sy_conns sy')" "length (sy_conns sy) \<le> length (sy_conns sy')"
    "d < length (sy_conns sy') \<longrightarrow> d < length (sy_conns sy) \<and> sy_object sy' d = sy_object sy d"
    using ch d by (simp_all add: conn_change_def Let_def)
  then show ?thesis using conns_invD(1) [OF inv] by auto
qed

lemma conn_change_unused:
  assumes inv: "conns_inv interest base sy" and ch: "conn_change interest base c sy sy'"
    and gone: "\<not> live sy' c \<Longrightarrow> unused_fd interest (sy_pollers sy' (co_loop (sy_object sy' c))) (co_fd (sy_object sy' c))"
    and fd: "fd \<notin> base"
    and none: "\<And>d. live sy' d \<Longrightarrow> co_loop (sy_object sy' d) = l \<Longrightarrow> co_fd (sy_object sy' d) \<noteq> fd"
  shows "unused_fd interest (sy_pollers sy' l) fd"
proof (cases "l = co_loop (sy_object sy' c) \<and> fd = co_fd (sy_object sy' c)")
  case True
  then show ?thesis using none [of c] gone by auto
next
  case False
  have "unused_fd interest (sy_pollers sy l) fd"
  proof (rule conns_invD(6) [OF inv fd])
    fix d
    assume d: "live sy d" "co_loop (sy_object sy d) = l"
    show "co_fd (sy_object sy d) \<noteq> fd"
    proof (cases "d = c")
      case True
      then show ?thesis using d False ch object_ok_live(5) [OF inv d(1)] by (auto simp: conn_change_def Let_def)
    next
      case other: False
      then have "live sy' d" using conn_change_live [OF ch inv] d(1) by blast
      moreover have "sy_object sy' d = sy_object sy d"
        using ch other calculation by (auto simp: conn_change_def Let_def)
      ultimately show ?thesis using none [of d] d(2) by simp
    qed
  qed
  then show ?thesis using False ch
    by (cases "l = co_loop (sy_object sy' c)") (auto simp: conn_change_def Let_def unused_fd_def touches_def)
qed

lemma conns_inv_change:
  assumes inv: "conns_inv interest base sy" and ch: "conn_change interest base c sy sy'"
    and ok: "object_ok interest (sy_object sy' c) (attach sy' c)"
    and gone: "\<not> live sy' c \<Longrightarrow> unused_fd interest (sy_pollers sy' (co_loop (sy_object sy' c))) (co_fd (sy_object sy' c))"
  shows "conns_inv interest base sy'"
proof -
  note D = conns_invD [OF inv]
  have len: "length (sv_heap (sy_server sy')) = length (sy_conns sy')" using ch by (simp add: conn_change_def Let_def)
  have other: "sy_object sy' d = sy_object sy d" "sy_conns sy' ! d = sy_conns sy ! d" "d < length (sy_conns sy)"
    "tc_channel (sy_conns sy ! d) \<noteq> tc_channel (sy_conns sy' ! c)"
    if "d < length (sy_conns sy')" "d \<noteq> c" for d using ch that by (simp_all add: conn_change_def Let_def)
  have fds: "co_fd (sy_object sy d) \<noteq> co_fd (sy_object sy' c)" if "live sy d" "d \<noteq> c" for d
    using ch that by (simp add: conn_change_def Let_def)
  have "inj_on (\<lambda>d. tc_channel (sy_conns sy' ! d)) {..<length (sy_conns sy')}"
  proof (rule inj_onI)
    fix d e
    assume "d \<in> {..<length (sy_conns sy')}" "e \<in> {..<length (sy_conns sy')}"
      "tc_channel (sy_conns sy' ! d) = tc_channel (sy_conns sy' ! e)"
    then show "d = e" using other [of d] other [of e] D(2) [of d e] by (cases "d = c"; cases "e = c") auto
  qed
  moreover have "inj_on (\<lambda>d. co_fd (sy_object sy' d)) {d. live sy' d}"
  proof (rule inj_onI)
    fix d e
    assume a: "d \<in> {d. live sy' d}" "e \<in> {d. live sy' d}" "co_fd (sy_object sy' d) = co_fd (sy_object sy' e)"
    then have l: "d \<noteq> c \<Longrightarrow> live sy d" "e \<noteq> c \<Longrightarrow> live sy e" using conn_change_live [OF ch inv] by blast+
    with a show "d = e" using other(1) [of d] other(1) [of e] len D(3) [of d e] fds [of d] fds [of e]
      by (cases "d = c"; cases "e = c") auto
  qed
  moreover have "\<forall>d. live sy' d \<longrightarrow> co_fd (sy_object sy' d) \<notin> base"
  proof (intro allI impI)
    fix d
    assume d: "live sy' d"
    show "co_fd (sy_object sy' d) \<notin> base"
    proof (cases "d = c")
      case True
      then show ?thesis using ch by (simp add: conn_change_def Let_def)
    next
      case False
      then show ?thesis using D(4) [of d] conn_change_live [OF ch inv False] other(1) [of d] d len by simp
    qed
  qed
  moreover have "\<forall>d < length (sy_conns sy'). object_ok interest (sy_object sy' d) (attach sy' d)"
    using conn_change_objects [OF inv ch] ok by blast
  ultimately show ?thesis
    unfolding conns_inv_def using len conn_change_unused [OF inv ch gone] by simp
qed

text \<open>The pollers change only where connections have their entries, and a connection keeps its channel.\<close>

definition own_changes :: "('k \<Rightarrow> int \<rightharpoonup> epoll_event) \<Rightarrow> int set \<Rightarrow> 'k system \<Rightarrow> 'k system \<Rightarrow> bool" where
  "own_changes interest base sy sy' \<longleftrightarrow> (\<exists>ps. map tc_channel (sy_conns sy') = map tc_channel (sy_conns sy) @ ps)
     \<and> (\<forall>l. sy_pollers sy' l = sy_pollers sy l
          \<or> (\<exists>p \<in> tc_channel ` set (sy_conns sy'). \<exists>fd. fd \<notin> base \<and> touches interest p fd (sy_pollers sy l) (sy_pollers sy' l)))"

lemma conn_change_own:
  assumes ch: "conn_change interest base c sy sy'"
    and same: "c < length (sy_conns sy) \<Longrightarrow> tc_channel (sy_conns sy' ! c) = tc_channel (sy_conns sy ! c)"
  shows "own_changes interest base sy sy'"
proof -
  let ?ps = "map tc_channel (sy_conns sy)" and ?qs = "map tc_channel (sy_conns sy')"
  have le: "length ?ps \<le> length ?qs" using ch by (simp add: conn_change_def Let_def)
  have "take (length ?ps) ?qs = ?ps"
  proof (rule nth_equalityI)
    fix i
    assume "i < length (take (length ?ps) ?qs)"
    then show "take (length ?ps) ?qs ! i = ?ps ! i"
      using ch same by (cases "i = c") (auto simp: conn_change_def Let_def)
  qed (use le in simp)
  then have "?qs = ?ps @ drop (length ?ps) ?qs" by (metis append_take_drop_id)
  moreover have "sy_pollers sy' l = sy_pollers sy l
      \<or> (\<exists>p \<in> tc_channel ` set (sy_conns sy'). \<exists>fd. fd \<notin> base \<and> touches interest p fd (sy_pollers sy l) (sy_pollers sy' l))" for l
  proof (cases "l = co_loop (sy_object sy' c)")
    case True
    then have "tc_channel (sy_conns sy' ! c) \<in> tc_channel ` set (sy_conns sy')" "co_fd (sy_object sy' c) \<notin> base"
      "touches interest (tc_channel (sy_conns sy' ! c)) (co_fd (sy_object sy' c)) (sy_pollers sy l) (sy_pollers sy' l)"
      using ch by (simp_all add: conn_change_def Let_def)
    then show ?thesis by blast
  qed (use ch in \<open>simp add: conn_change_def Let_def\<close>)
  ultimately show ?thesis unfolding own_changes_def by blast
qed

lemma put_conn_change:
  assumes inv: "conns_inv interest base sy" and c: "live sy c"
    and frame: "conn_frame interest (attach sy c) conn"
    and heap: "sv_heap s' = (sv_heap (sy_server sy))[c := (sy_object sy c)\<lparr>co_phase := ph\<rparr>]"
  shows "conn_change interest base c sy ((put_conn c conn sy)\<lparr>sy_server := s'\<rparr>)"
    "attach ((put_conn c conn sy)\<lparr>sy_server := s'\<rparr>) c = conn"
proof -
  note D = conns_invD [OF inv] and L = object_ok_live [OF inv c]
  have "touches interest (tc_channel (sy_conns sy ! c)) (co_fd (sy_object sy c))
      (sy_pollers sy (co_loop (sy_object sy c))) (tc_poller conn)" "tc_channel conn = tc_channel (sy_conns sy ! c)"
    using frame L(4) by (simp_all add: conn_frame_def attach_def only_touches_def touches_def)
  moreover have "\<forall>d < length (sy_conns sy). d \<noteq> c \<longrightarrow> tc_channel (sy_conns sy ! d) \<noteq> tc_channel (sy_conns sy ! c)"
    using D(2) L(5) by blast
  moreover have "\<forall>d. live sy d \<and> d \<noteq> c \<longrightarrow> co_fd (sy_object sy d) \<noteq> co_fd (sy_object sy c)" using D(3) c by blast
  ultimately show "conn_change interest base c sy ((put_conn c conn sy)\<lparr>sy_server := s'\<rparr>)"
    using D(1) D(4) [OF c] L(5) by (simp add: conn_change_def put_conn_def heap)
  show "attach ((put_conn c conn sy)\<lparr>sy_server := s'\<rparr>) c = conn"
    using c L(5) by (simp add: attach_def put_conn_def heap)
qed

text \<open>One connection changes, with its phase.\<close>

lemma put_conn_inv:
  assumes "conns_inv interest base sy" and "live sy c" and "conn_frame interest (attach sy c) conn"
    and "sv_heap s' = (sv_heap (sy_server sy))[c := (sy_object sy c)\<lparr>co_phase := ph\<rparr>]"
    and ok: "object_ok interest ((sy_object sy c)\<lparr>co_phase := ph\<rparr>) conn"
    and gone: "ph = Destroyed \<Longrightarrow> unused_fd interest (tc_poller conn) (co_fd (sy_object sy c))"
  shows "conns_inv interest base ((put_conn c conn sy)\<lparr>sy_server := s'\<rparr>)
    \<and> own_changes interest base sy ((put_conn c conn sy)\<lparr>sy_server := s'\<rparr>)"
proof (rule conjI [OF conns_inv_change [OF assms(1) put_conn_change(1) [OF assms(1-4)]] conn_change_own [OF put_conn_change(1) [OF assms(1-4)]]])
  show "object_ok interest (sy_object ((put_conn c conn sy)\<lparr>sy_server := s'\<rparr>) c) (attach ((put_conn c conn sy)\<lparr>sy_server := s'\<rparr>) c)"
    unfolding put_conn_change(2) [OF assms(1-4)] using ok assms(2) by (simp add: assms(4))
  assume "\<not> live ((put_conn c conn sy)\<lparr>sy_server := s'\<rparr>) c"
  then have "ph = Destroyed" using assms(2) by (simp add: assms(4))
  then show "unused_fd interest (sy_pollers ((put_conn c conn sy)\<lparr>sy_server := s'\<rparr>)
      (co_loop (sy_object ((put_conn c conn sy)\<lparr>sy_server := s'\<rparr>) c))) (co_fd (sy_object ((put_conn c conn sy)\<lparr>sy_server := s'\<rparr>) c))"
    using gone assms(2) by (simp add: put_conn_def assms(4))
next
  assume "c < length (sy_conns sy)"
  then show "tc_channel (sy_conns ((put_conn c conn sy)\<lparr>sy_server := s'\<rparr>) ! c) = tc_channel (sy_conns sy ! c)"
    using assms(3) by (simp add: put_conn_def conn_frame_def attach_def)
qed

text \<open>The server's side of the operations.\<close>

lemma heap_removeConnection:
  "sv_heap (removeConnection t c (set_phase c ph s)) = (sv_heap s)[c := (sv_heap s ! c)\<lparr>co_phase := ph\<rparr>]"
  by (simp add: removeConnection_def server_runInLoop_def removeConnectionInLoop_def server_queue_def set_phase_def Let_def)

lemma newConnection_heap:
  assumes "newConnection fd peer loc s = Inr s'"
  shows "\<exists>ob. sv_heap s' = sv_heap s @ [ob] \<and> co_fd ob = fd \<and> co_peer ob = peer \<and> co_local ob = loc
    \<and> sv_connections s' (co_name ob) = Some (length (sv_heap s)) \<and> co_phase ob = (if co_loop ob = 0 then Established else Connecting)"
  using assms
  by (auto simp: newConnection_def bindR_Inr_iff server_runInLoop_def server_queue_def set_phase_def Let_def split: if_splits)

lemma conns_inv_server:
  "conns_inv interest base sy \<Longrightarrow> sv_heap s' = sv_heap (sy_server sy) \<Longrightarrow> conns_inv interest base (sy\<lparr>sy_server := s'\<rparr>)"
  by (auto simp: conns_inv_def attach_def)

lemma own_changes_server [simp]:
  "own_changes interest base sy (sy\<lparr>sy_server := s'\<rparr>)"
  "own_changes interest base (sy\<lparr>sy_server := s'\<rparr>) sy' = own_changes interest base sy sy'"
  by (simp_all add: own_changes_def)

text \<open>A poll changes no connection.\<close>

lemma object_ok_polled:
  assumes "EPollPoller_poll epoll_wait eintr (tc_poller conn) = (lg, active, pl)"
  shows "object_ok interest ob (conn\<lparr>tc_poller := pl\<rparr>) = object_ok interest ob conn"
  using poll_frame [OF assms]
  by (simp add: object_ok_def conn_inv_def life_ok_def chan_ok_def isWriting_def isReading_def Let_def split: StateE.split)

lemma conns_inv_polled:
  assumes inv: "conns_inv interest base sy" and poll: "EPollPoller_poll epoll_wait eintr (sy_pollers sy l) = (lg, active, pl)"
  shows "conns_inv interest base (sy\<lparr>sy_pollers := (sy_pollers sy)(l := pl)\<rparr>)" (is "conns_inv _ _ ?sy")
proof -
  have "object_ok interest (sy_object sy c) (attach ?sy c) = object_ok interest (sy_object sy c) (attach sy c)" for c
  proof (cases "co_loop (sy_object sy c) = l")
    case True
    then have "attach ?sy c = (attach sy c)\<lparr>tc_poller := pl\<rparr>" by (simp add: attach_def)
    moreover have "EPollPoller_poll epoll_wait eintr (tc_poller (attach sy c)) = (lg, active, pl)"
      using poll True by (simp add: attach_def)
    ultimately show ?thesis using object_ok_polled by metis
  qed (simp add: attach_def)
  moreover have "unused_fd interest (sy_pollers ?sy l') fd = unused_fd interest (sy_pollers sy l') fd" for l' fd
    using poll_frame(1,2) [OF poll] by (simp add: unused_fd_def)
  ultimately have "conns_inv interest base ?sy = conns_inv interest base sy" unfolding conns_inv_def by simp
  then show ?thesis using inv by simp
qed

context epoll_kernel
begin

lemma sys_establish:
  assumes inv: "conns_inv interest base sy" and c: "live sy c" "co_phase (sy_object sy c) = Connecting"
  shows "\<exists>sy'. sys_exec ctl (ConnectEstablished c) sy = Inr sy' \<and> conns_inv interest base sy' \<and> own_changes interest base sy sy'
    \<and> sy_server sy' = server_exec (ConnectEstablished c) (sy_server sy)"
proof -
  note L = object_ok_live [OF inv c(1)]
  have st: "tc_state (attach sy c) = kConnecting" using L(3) c(2) by simp
  from connectEstablished_ok [OF L(1) st] obtain conn where
    conn: "connectEstablished ctl (attach sy c) = Inr conn" "conn_inv interest conn" by blast
  have ok: "chan_ok interest (tc_poller (attach sy c)) (tc_channel (attach sy c))" using L(1) by (simp add: conn_inv_def)
  from establish_life [OF ok L(2) st conn(1)] have
    l: "life_ok conn" "conn_frame interest (attach sy c) conn" "tc_state conn = kConnected" by blast+
  then have fd: "ch_fd (conn_channel conn) = co_fd (sy_object sy c)"
    using L(4) by (simp add: conn_frame_def only_touches_def)
  have "conns_inv interest base ((put_conn c conn sy)\<lparr>sy_server := set_phase c Established (sy_server sy)\<rparr>)
      \<and> own_changes interest base sy ((put_conn c conn sy)\<lparr>sy_server := set_phase c Established (sy_server sy)\<rparr>)"
    by (rule put_conn_inv [OF inv c(1) l(2), where ph = Established])
       (use l conn(2) fd in \<open>simp_all add: object_ok_def set_phase_def\<close>)
  then show ?thesis using conn(1) by simp
qed

lemma sys_destroy:
  assumes inv: "conns_inv interest base sy" and c: "live sy c" "co_phase (sy_object sy c) = Closed"
  shows "\<exists>sy'. sys_exec ctl (ConnectDestroyed c) sy = Inr sy' \<and> conns_inv interest base sy' \<and> own_changes interest base sy sy'
    \<and> sy_server sy' = server_exec (ConnectDestroyed c) (sy_server sy)"
proof -
  note L = object_ok_live [OF inv c(1)]
  have st: "tc_state (attach sy c) = kDisconnected" using L(3) c(2) by simp
  have ok: "chan_ok interest (tc_poller (attach sy c)) (tc_channel (attach sy c))" using L(1) by (simp add: conn_inv_def)
  from remove_step [OF ok] obtain pl where
    pl: "EPollPoller_removeChannel ctl (tc_channel (attach sy c)) (tc_poller (attach sy c)) = Inr pl"
      "chan_ok interest pl (tc_channel (attach sy c))" "ch_index (pl_heap pl (tc_channel (attach sy c))) = kNew" by blast
  let ?conn = "(attach sy c)\<lparr>tc_poller := pl\<rparr>"
  have conn: "connectDestroyed ctl (attach sy c) = Inr ?conn"
    using pl(1) st by (simp add: connectDestroyed_def conn_remove_def)
  from destroy_life [OF ok L(2) st conn] have
    l: "life_ok ?conn" "conn_frame interest (attach sy c) ?conn" by blast+
  have "ch_fd (conn_channel ?conn) = co_fd (sy_object sy c)" using L(4) l(2) by (simp add: conn_frame_def only_touches_def)
  then have gone: "unused_fd interest (tc_poller ?conn) (co_fd (sy_object sy c))"
    using pl(2,3) by (auto simp: unused_fd_def chan_ok_def index_defs Let_def)
  have "conns_inv interest base ((put_conn c ?conn sy)\<lparr>sy_server := set_phase c Destroyed (sy_server sy)\<rparr>)
      \<and> own_changes interest base sy ((put_conn c ?conn sy)\<lparr>sy_server := set_phase c Destroyed (sy_server sy)\<rparr>)"
    by (rule put_conn_inv [OF inv c(1) l(2), where ph = Destroyed])
       (use l(1) gone st in \<open>simp_all add: object_ok_def set_phase_def life_ok_def\<close>)
  then show ?thesis using conn by simp
qed

text \<open>Taking a functor from a queue and running it never fails.\<close>

lemma sys_run_ok:
  assumes inv: "conns_inv interest base sy" and srv: "server_inv None (sy_server sy)"
    and q: "sv_queues (sy_server sy) l = f # fs"
  shows "\<exists>sy'. sys_exec ctl f (sy\<lparr>sy_server := (sy_server sy)\<lparr>sv_queues := (sv_queues (sy_server sy))(l := fs)\<rparr>\<rparr>) = Inr sy'
    \<and> conns_inv interest base sy' \<and> own_changes interest base sy sy' \<and> server_step (sy_server sy) (sy_server sy')"
proof -
  let ?s = "(sy_server sy)\<lparr>sv_queues := (sv_queues (sy_server sy))(l := fs)\<rparr>"
  have hand: "server_inv (Some (l, f)) ?s" by (rule server_inv_pop [OF srv q])
  have pop: "conns_inv interest base (sy\<lparr>sy_server := ?s\<rparr>)" by (rule conns_inv_server [OF inv]) simp
  have "\<exists>sy'. sys_exec ctl f (sy\<lparr>sy_server := ?s\<rparr>) = Inr sy' \<and> conns_inv interest base sy' \<and> own_changes interest base sy sy'
      \<and> sy_server sy' = server_exec f ?s"
  proof (cases f)
    case (ConnectEstablished c)
    then show ?thesis
      using sys_establish [OF pop, of c] hand_phase(1) [OF hand, of c] hand_functors(1) [OF hand, of c]
      by (simp add: functor_of_def)
  next
    case (ConnectDestroyed c)
    then show ?thesis
      using sys_destroy [OF pop, of c] hand_phase(1) [OF hand, of c] hand_functors(3) [OF hand, of c]
      by (simp add: functor_of_def)
  qed (use conns_inv_server [OF pop] in \<open>simp_all add: removeConnectionInLoop_def server_queue_def Let_def\<close>)
  then show ?thesis using server_step.run [OF q] by metis
qed

text \<open>An operation on a connection, as its environment allows it, never fails either.\<close>

lemma sys_op_ok:
  assumes inv: "conns_inv interest base sy" and c: "live sy c"
    and meet: "may_meet op (attach sy c)" and fits: "op_fits op (attach sy c)"
  shows "\<exists>sy'. sys_conn_op ctl op c sy = Inr sy' \<and> conns_inv interest base sy' \<and> own_changes interest base sy sy'
    \<and> (sy_server sy' = sy_server sy \<or> server_step (sy_server sy) (sy_server sy'))"
proof -
  note L = object_ok_live [OF inv c]
  let ?a = "attach sy c"
  from conn_step_ok [OF L(1), of op] fits obtain conn where
    conn: "conn_step ctl op ?a = Inr conn" "conn_inv interest conn" by (auto simp: op_fits_def step_ok_def)
  from conn_step_life [OF L(1,2) meet conn(1)] have
    l: "life_ok conn" "conn_frame interest ?a conn" "tc_state conn \<noteq> kConnecting"
      "tc_state conn = kDisconnected \<and> tc_state ?a \<noteq> kDisconnected \<longleftrightarrow> tc_calls conn = tc_calls ?a @ [ConnectionCb, CloseCb]"
    by blast+
  have fd: "ch_fd (conn_channel conn) = co_fd (sy_object sy c)" using l(2) L(4) by (simp add: conn_frame_def only_touches_def)
  have st: "tc_state ?a \<noteq> kConnecting" using meet L(2) by (auto simp: may_meet_def life_ok_def index_defs split: conn_op.splits)
  show ?thesis
  proof (cases "tc_calls conn = tc_calls ?a @ [ConnectionCb, CloseCb]")
    case True
    let ?s = "removeConnection (co_loop (sy_object sy c)) c (set_phase c Closed (sy_server sy))"
    have "co_phase (sy_object sy c) = Established"
      using L(3) l(4) True st c by (cases "co_phase (sy_object sy c)") auto
    then have "server_step (sy_server sy) ?s" using c by (intro server_step.close) simp_all
    moreover have "conns_inv interest base ((put_conn c conn sy)\<lparr>sy_server := ?s\<rparr>)
        \<and> own_changes interest base sy ((put_conn c conn sy)\<lparr>sy_server := ?s\<rparr>)"
      by (rule put_conn_inv [OF inv c l(2) heap_removeConnection])
         (use l conn(2) fd True in \<open>simp_all add: object_ok_def\<close>)
    ultimately show ?thesis using conn(1) True by (simp add: sys_conn_op_def Let_def)
  next
    case False
    have "phase_matches (co_phase (sy_object sy c)) (tc_state conn)"
      using L(3) l(3,4) False st closed_step [OF L(1) _ conn(1)] by (cases "co_phase (sy_object sy c)"; cases "tc_state conn") auto
    then have "conns_inv interest base ((put_conn c conn sy)\<lparr>sy_server := sy_server sy\<rparr>)
        \<and> own_changes interest base sy ((put_conn c conn sy)\<lparr>sy_server := sy_server sy\<rparr>)"
      by (intro put_conn_inv [OF inv c l(2), where ph = "co_phase (sy_object sy c)"])
         (use l(1) conn(2) fd c in \<open>simp_all add: object_ok_def\<close>)
    then show ?thesis using conn(1) False by (simp add: sys_conn_op_def Let_def put_conn_def)
  qed
qed

text \<open>A new connection, established at once when its loop is the main one.\<close>

lemma new_conn_ok:
  assumes "unused_fd interest pl fd"
  shows "\<exists>conn. new_conn loop pl p name fd loc peer wc = Inr conn \<and> conn_inv interest conn \<and> life_ok conn
    \<and> tc_state conn = kConnecting \<and> tc_channel conn = p \<and> ch_fd (conn_channel conn) = fd
    \<and> touches interest p fd pl (tc_poller conn)"
  using assms
  by (simp add: new_conn_def TcpConnection_new_def CheckLoopNotNull_def conn_inv_def life_ok_def chan_ok_def
      Channel_new_def index_defs isWriting_def unused_fd_def touches_def kInitialSize_def)

lemma fresh_conn_ok:
  assumes "unused_fd interest pl fd"
  shows "\<exists>conn conn'. new_conn loop pl p name fd loc peer wc = Inr conn
    \<and> (if b then connectEstablished ctl conn else Inr conn) = Inr conn' \<and> conn_inv interest conn' \<and> life_ok conn'
    \<and> tc_state conn' = (if b then kConnected else kConnecting) \<and> tc_channel conn' = p \<and> ch_fd (conn_channel conn') = fd
    \<and> touches interest p fd pl (tc_poller conn')"
proof -
  from new_conn_ok [OF assms, of loop p name loc peer wc] obtain conn where
    conn: "new_conn loop pl p name fd loc peer wc = Inr conn" "conn_inv interest conn" "life_ok conn"
      "tc_state conn = kConnecting" "tc_channel conn = p" "ch_fd (conn_channel conn) = fd"
      "touches interest p fd pl (tc_poller conn)" by blast
  show ?thesis
  proof (cases b)
    case True
    from connectEstablished_ok [OF conn(2,4)] obtain conn' where
      conn': "connectEstablished ctl conn = Inr conn'" "conn_inv interest conn'" by blast
    have "chan_ok interest (tc_poller conn) (tc_channel conn)" using conn(2) by (simp add: conn_inv_def)
    from establish_life [OF this conn(3,4) conn'(1)] have
      l: "life_ok conn'" "conn_frame interest conn conn'" "tc_state conn' = kConnected" by blast+
    then have "tc_channel conn' = p" "ch_fd (conn_channel conn') = fd" "touches interest p fd pl (tc_poller conn')"
      using conn(5-7) by (auto simp: conn_frame_def only_touches_def touches_def)
    then show ?thesis using True conn(1) conn' l by auto
  qed (use conn in auto)
qed

lemma sys_accept_ok:
  assumes inv: "conns_inv interest base sy" and acc: "may_accept base p fd sy"
    and new: "newConnection fd peer loc (sy_server sy) = Inr s'"
  shows "\<exists>sy'. sys_newConnection ctl loops wc p fd peer loc sy = Inr sy' \<and> conns_inv interest base sy' \<and> own_changes interest base sy sy'
    \<and> map tc_channel (sy_conns sy') = map tc_channel (sy_conns sy) @ [p] \<and> sy_server sy' = s'"
proof -
  note D = conns_invD [OF inv]
  let ?n = "length (sy_conns sy)"
  from newConnection_heap [OF new] obtain ob where
    ob: "sv_heap s' = sv_heap (sy_server sy) @ [ob]" "co_fd ob = fd"
      "co_phase ob = (if co_loop ob = 0 then Established else Connecting)" by blast
  let ?pl = "sy_pollers sy (co_loop ob)"
  have "unused_fd interest ?pl fd" using acc by (intro D(6)) (auto simp: may_accept_def)
  from fresh_conn_ok [OF this, of "loops (co_loop ob)" p "co_name ob" loc peer wc "co_loop ob = 0"] obtain conn conn' where
    conn: "new_conn (loops (co_loop ob)) ?pl p (co_name ob) fd loc peer wc = Inr conn"
      "(if co_loop ob = 0 then connectEstablished ctl conn else Inr conn) = Inr conn'"
    and c': "conn_inv interest conn'" "life_ok conn'" "tc_state conn' = (if co_loop ob = 0 then kConnected else kConnecting)"
      "tc_channel conn' = p" "ch_fd (conn_channel conn') = fd" "touches interest p fd ?pl (tc_poller conn')"
    by blast
  let ?sy = "\<lparr>sy_server = s', sy_conns = sy_conns sy @ [conn'], sy_pollers = (sy_pollers sy)(co_loop ob := tc_poller conn')\<rparr>"
  have obj: "sv_heap s' ! ?n = ob" using ob(1) D(1) by (simp add: nth_append)
  have "sys_newConnection ctl loops wc p fd peer loc sy = Inr ?sy"
    using new conn obj by (simp add: sys_newConnection_def Let_def)
  moreover have change: "conn_change interest base ?n sy ?sy"
  proof -
    have "\<forall>d < ?n. tc_channel (sy_conns sy ! d) \<noteq> p" using acc by (simp add: may_accept_def)
    then show ?thesis
      using acc c'(4,6) D(1) ob(1,2) obj by (auto simp: conn_change_def may_accept_def nth_append)
  qed
  moreover have "conns_inv interest base ?sy"
  proof (rule conns_inv_change [OF inv change])
    have "attach ?sy ?n = conn'" using obj by (simp add: attach_def)
    then show "object_ok interest (sy_object ?sy ?n) (attach ?sy ?n)"
      using obj ob(2,3) c' by (simp add: object_ok_def)
  qed (use obj ob D(1) in \<open>auto split: if_splits\<close>)
  moreover have "own_changes interest base sy ?sy" by (rule conn_change_own [OF change]) simp
  ultimately show ?thesis using c'(4) by auto
qed

end

section \<open>Refinement of the server\<close>

text \<open>A started server over a kernel that keeps its promises about \<open>epoll_ctl\<close>.\<close>

locale server_system = epoll_kernel ctl interest
  for ctl :: "'k epoll_ctl" and interest :: "'k \<Rightarrow> int \<rightharpoonup> epoll_event" +
  fixes base :: "int set" and loops :: "nat \<Rightarrow> conn_functor event_loop" and wc :: bool and s0 :: tcp_server
  assumes s0_inv: "server_inv None s0" and s0_empty: "sv_heap s0 = []"
begin

lemma start_inv: "system_start interest base s0 sy \<Longrightarrow> conns_inv interest base sy"
  by (auto simp: system_start_def conns_inv_def s0_empty unused_fd_def)

lemma system_step_ok:
  assumes "system_step ctl base loops wc sy sy'" and srv: "server_inv None (sy_server sy)" and inv: "conns_inv interest base sy"
  shows "conns_inv interest base sy' \<and> (sy_server sy' = sy_server sy \<or> server_step (sy_server sy) (sy_server sy'))"
  using assms(1)
proof cases
  case (sys_accept p fd peer loc)
  then obtain s' where "newConnection fd peer loc (sy_server sy) = Inr s'"
    by (auto simp: sys_newConnection_def bindR_Inr_iff)
  from sys_accept_ok [OF inv sys_accept(1) this, of loops wc] sys_accept(2) server_step.accept [OF this]
  show ?thesis by auto
next
  case (sys_run l f fs)
  then show ?thesis using sys_run_ok [OF inv srv sys_run(1)] by auto
next
  case (sys_op c op)
  then show ?thesis using sys_op_ok [OF inv, of c op] by auto
next
  case sys_poll
  then show ?thesis using conns_inv_polled [OF inv] by simp
qed

lemma system_step_own:
  assumes "system_step ctl base loops wc sy sy'" and srv: "server_inv None (sy_server sy)" and inv: "conns_inv interest base sy"
  shows "own_changes interest base sy sy' \<or> (\<exists>wait ei l lg active pl. EPollPoller_poll wait ei (sy_pollers sy l) = (lg, active, pl)
    \<and> sy' = sy\<lparr>sy_pollers := (sy_pollers sy)(l := pl)\<rparr>)"
  using assms(1)
proof cases
  case (sys_accept p fd peer loc)
  then obtain s' where "newConnection fd peer loc (sy_server sy) = Inr s'"
    by (auto simp: sys_newConnection_def bindR_Inr_iff)
  from sys_accept_ok [OF inv sys_accept(1) this, of loops wc] sys_accept(2) show ?thesis by auto
next
  case (sys_run l f fs)
  then show ?thesis using sys_run_ok [OF inv srv sys_run(1)] by auto
next
  case (sys_op c op)
  then show ?thesis using sys_op_ok [OF inv, of c op] by auto
qed blast

end

sublocale server_system \<subseteq> composed: refinement "system_start interest base s0" "system_step ctl base loops wc"
    "\<lambda>sy. server_inv None (sy_server sy) \<and> conns_inv interest base sy" "\<lambda>s. s = s0" server_step sy_server
proof unfold_locales
  fix sy
  assume "system_start interest base s0 sy"
  then show "server_inv None (sy_server sy) \<and> conns_inv interest base sy" "sy_server sy = s0"
    using start_inv s0_inv by (auto simp: system_start_def)
next
  fix sy sy'
  assume "system_step ctl base loops wc sy sy'" "server_inv None (sy_server sy) \<and> conns_inv interest base sy"
  then show "server_inv None (sy_server sy') \<and> conns_inv interest base sy'"
    "sy_server sy' = sy_server sy \<or> server_step (sy_server sy) (sy_server sy')"
    using system_step_ok server_step_inv by metis+
qed

context server_system
begin

lemma system_invs:
  assumes "reachable (system_start interest base s0) (system_step ctl base loops wc) sy"
  shows "server_reachable s0 (sy_server sy)" "server_inv None (sy_server sy)" "conns_inv interest base sy"
  using composed.reachable_abs [OF assms] composed.reachable_inv [OF assms] by simp_all

end

lemma started_server_empty: "started_server addr name n cb startLoop = Inr s0 \<Longrightarrow> sv_heap s0 = []"
  by (auto simp: started_server_def TcpServer_new_def bindR_Inr_iff TcpServer_start_def
      TcpServer_setThreadNum_def server_runInLoop_def Let_def split: prod.splits)

abbreviation system_reachable ::
  "'k epoll_ctl \<Rightarrow> ('k \<Rightarrow> int \<rightharpoonup> epoll_event) \<Rightarrow> int set \<Rightarrow> (nat \<Rightarrow> conn_functor event_loop) \<Rightarrow> bool
    \<Rightarrow> tcp_server \<Rightarrow> 'k system \<Rightarrow> bool"
where
  "system_reachable ctl interest base loops wc s0 \<equiv> reachable (system_start interest base s0) (system_step ctl base loops wc)"

lemma started_system:
  "epoll_kernel ctl interest \<Longrightarrow> started_server addr name n cb startLoop = Inr s0 \<Longrightarrow> n < 2 ^ 31 \<Longrightarrow>
    server_system ctl interest s0"
  by (simp add: server_system_def server_system_axioms_def started_server_inv started_server_empty)

text \<open>The demonstration server of one thread, over the interest list as \<open>epoll_ctl(2)\<close> describes it.\<close>

interpretation demo: server_system epoll_table_ctl "\<lambda>k. k" base loops wc srv_start for base loops wc
  by (rule started_system [OF tbl.epoll_kernel_axioms srv_start_eq]) simp

lemmas system_facts = server_system.system_invs [OF started_system]

text \<open>What the interest list holds for a live connection.\<close>

lemma watched_entry:
  assumes inv: "conns_inv interest base sy" and c: "live sy c"
  shows "interest (pl_kernel (sy_pollers sy (co_loop (sy_object sy c)))) (co_fd (sy_object sy c)) =
    (if co_phase (sy_object sy c) = Established then Some (ch_events (conn_channel (attach sy c)), tc_channel (sy_conns sy ! c)) else None)"
proof -
  note L = object_ok_live [OF inv c]
  have "ch_index (conn_channel (attach sy c)) = kAdded \<longleftrightarrow> co_phase (sy_object sy c) = Established"
    using L(2,3) c by (cases "co_phase (sy_object sy c)") (auto simp: life_ok_def index_defs split: StateE.splits)
  moreover have "chan_ok interest (tc_poller (attach sy c)) (tc_channel (attach sy c))" using L(1) by (simp add: conn_inv_def)
  ultimately show ?thesis using L(4) by (auto simp: chan_ok_def attach_def Let_def index_defs)
qed

section \<open>Properties\<close>

text \<open>Claim C5. The whole server, with its connection objects, the pollers and the kernel's interest lists
  changed by the real operations, refines the protocol of functors and phases: every history of it is a
  history of the protocol, and the phase of each connection is what its own \<open>state_\<close> says.\<close>

theorem system_refines_server:
  assumes "epoll_kernel ctl interest" and "started_server addr name n cb startLoop = Inr s0" and "n < 2 ^ 31"
    and "system_reachable ctl interest base loops wc s0 sy"
  shows "server_reachable s0 (sy_server sy) \<and> length (sy_conns sy) = length (sv_heap (sy_server sy))
    \<and> (\<forall>c < length (sy_conns sy). phase_matches (co_phase (sy_object sy c)) (tc_state (sy_conns sy ! c)))"
proof -
  note facts = system_facts [OF assms]
  have "phase_matches (co_phase (sy_object sy c)) (tc_state (sy_conns sy ! c))" if "c < length (sy_conns sy)" for c
    using conns_invD(5) [OF facts(3) that] by (simp add: object_ok_def attach_def)
  then show ?thesis using facts(1) conns_invD(1) [OF facts(3)] by blast
qed

text \<open>Nothing the server does fails: every functor of the server at the head of a queue can be run, every event
  of a registered channel and every call of a user can be handled, and every connection the kernel offers
  can be accepted until the counter of connections overflows.\<close>

lemma system_never_faults:
  assumes "epoll_kernel ctl interest" and "started_server addr name n cb startLoop = Inr s0" and "n < 2 ^ 31"
    and "system_reachable ctl interest base loops wc s0 sy"
  shows "(\<forall>l f fs. sv_queues (sy_server sy) l = f # fs \<longrightarrow>
        (\<exists>sy'. sys_exec ctl f (sy\<lparr>sy_server := (sy_server sy)\<lparr>sv_queues := (sv_queues (sy_server sy))(l := fs)\<rparr>\<rparr>) = Inr sy'))
    \<and> (\<forall>c op. live sy c \<and> may_meet op (attach sy c) \<and> op_fits op (attach sy c) \<longrightarrow>
        (\<exists>sy'. sys_conn_op ctl op c sy = Inr sy'))
    \<and> (\<forall>p fd peer loc. may_accept base p fd sy \<and> length (sv_heap (sy_server sy)) + 1 < 2 ^ 31 - 1 \<longrightarrow>
        (\<exists>sy'. sys_newConnection ctl loops wc p fd peer loc sy = Inr sy'))"
proof -
  note facts = system_facts [OF assms]
  have "\<exists>sy'. sys_newConnection ctl loops wc p fd peer loc sy = Inr sy'"
    if "may_accept base p fd sy" "length (sv_heap (sy_server sy)) + 1 < 2 ^ 31 - 1" for p fd peer loc
    using epoll_kernel.sys_accept_ok [OF assms(1) facts(3) that(1)] newConnection_inv [OF facts(2) that(2)] by blast
  then show ?thesis
    using epoll_kernel.sys_run_ok [OF assms(1) facts(3,2)] epoll_kernel.sys_op_ok [OF assms(1) facts(3)] by blast
qed

text \<open>The one dispatch that \<open>may_meet\<close> excludes is that of an urgent hang-up.\<close>

lemma urgent_hangup_iff:
  assumes "ch_closeCallback ch" "ch_readCallback ch"
  shows "urgent_hangup ch \<longleftrightarrow> take 2 (dispatch_ops r w ch) = [HangUp, Readable r]"
proof -
  have "ch_revents ch AND (EPOLLIN OR EPOLLPRI) = (ch_revents ch AND EPOLLIN) OR (ch_revents ch AND EPOLLPRI)"
    by (rule bit.conj_disj_distrib)
  then show ?thesis using assms by (auto simp: dispatch_ops_def handleEventWithGuard_def urgent_hangup_def)
qed

context epoll_kernel
begin

lemma close_and_read:
  assumes "conn_inv interest c" and "length (bufferData (tc_inputBuffer c)) < 2 ^ 62"
  shows "\<exists>c1 c2. conn_step ctl HangUp c = Inr c1 \<and> conn_step ctl (Readable (Inr [])) c1 = Inr c2
    \<and> tc_calls c2 = tc_calls c @ [ConnectionCb, CloseCb, ConnectionCb, CloseCb]"
proof -
  from handleClose_ok [OF assms(1)] obtain c1 where c1: "TcpConnection_handleClose ctl c = Inr c1" "conn_inv interest c1"
    "tc_inputBuffer c1 = tc_inputBuffer c" "tc_calls c1 = tc_calls c @ [ConnectionCb, CloseCb]" by blast
  from handleRead_ok [OF c1(2), of "Inr []"] c1(3) assms(2) obtain c2 where
    "conn_step ctl (Readable (Inr [])) c1 = Inr c2" "tc_calls c2 = tc_calls c1 @ [ConnectionCb, CloseCb]" by (auto simp: Let_def)
  then show ?thesis using c1 by auto
qed

end

text \<open>Claim C15. As long as no poll reports a hang-up with urgent but without readable data, the callbacks of every connection
  follow one protocol: none before it is established, then the connection callback, messages, and at the end the connection
  callback and the close callback once each, and nothing after them. That report is exactly the one whose dispatch reads after
  it has closed; at the end of the stream the two together run the connection callback and the close callback twice.\<close>

theorem callbacks_protocol:
  assumes "epoll_kernel ctl interest" and "started_server addr name n cb startLoop = Inr s0" and "n < 2 ^ 31"
    and "system_reachable ctl interest base loops wc s0 sy" and "c < length (sy_conns sy)"
  shows "(case co_phase (sy_object sy c) of
      Connecting \<Rightarrow> tc_calls (sy_conns sy ! c) = []
    | Established \<Rightarrow> \<exists>ms. tc_calls (sy_conns sy ! c) = ConnectionCb # ms \<and> set ms \<subseteq> {MessageCb}
    | _ \<Rightarrow> \<exists>ms. tc_calls (sy_conns sy ! c) = ConnectionCb # ms @ [ConnectionCb, CloseCb] \<and> set ms \<subseteq> {MessageCb})
    \<and> (\<forall>ch r w. ch_closeCallback ch \<and> ch_readCallback ch \<longrightarrow>
        (urgent_hangup ch \<longleftrightarrow> take 2 (dispatch_ops r w ch) = [HangUp, Readable r]))
    \<and> (co_phase (sy_object sy c) = Established \<and> length (bufferData (tc_inputBuffer (sy_conns sy ! c))) < 2 ^ 62 \<longrightarrow>
        (\<exists>c1 c2. conn_step ctl HangUp (attach sy c) = Inr c1 \<and> conn_step ctl (Readable (Inr [])) c1 = Inr c2
          \<and> tc_calls c2 = tc_calls (sy_conns sy ! c) @ [ConnectionCb, CloseCb, ConnectionCb, CloseCb]))"
proof -
  note inv = system_facts(3) [OF assms(1-4)]
  have ok: "object_ok interest (sy_object sy c) (attach sy c)" using conns_invD(5) [OF inv assms(5)] .
  have up: "\<exists>ms. cs = ConnectionCb # ms \<and> set ms \<subseteq> {MessageCb}" if "up_calls cs" for cs
    using that by (cases cs rule: up_calls.cases) auto
  have down: "\<exists>ms. cs = ConnectionCb # ms @ [ConnectionCb, CloseCb] \<and> set ms \<subseteq> {MessageCb}" if "down_calls cs" for cs
    using that up [of "take (length cs - 2) cs"] append_take_drop_id [of "length cs - 2" cs]
    by (auto simp: down_calls_def simp del: append_take_drop_id)
  have "case co_phase (sy_object sy c) of
      Connecting \<Rightarrow> tc_calls (sy_conns sy ! c) = []
    | Established \<Rightarrow> \<exists>ms. tc_calls (sy_conns sy ! c) = ConnectionCb # ms \<and> set ms \<subseteq> {MessageCb}
    | _ \<Rightarrow> \<exists>ms. tc_calls (sy_conns sy ! c) = ConnectionCb # ms @ [ConnectionCb, CloseCb] \<and> set ms \<subseteq> {MessageCb}"
    using ok up down by (cases "co_phase (sy_object sy c)") (auto simp: object_ok_def life_ok_def attach_def split: StateE.splits)
  moreover have "\<exists>c1 c2. conn_step ctl HangUp (attach sy c) = Inr c1 \<and> conn_step ctl (Readable (Inr [])) c1 = Inr c2
      \<and> tc_calls c2 = tc_calls (sy_conns sy ! c) @ [ConnectionCb, CloseCb, ConnectionCb, CloseCb]"
    if "co_phase (sy_object sy c) = Established" "length (bufferData (tc_inputBuffer (sy_conns sy ! c))) < 2 ^ 62"
    using epoll_kernel.close_and_read [OF assms(1), of "attach sy c"] ok that by (simp add: object_ok_def attach_def)
  ultimately show ?thesis using urgent_hangup_iff by blast
qed

text \<open>Claim C17. The kernel watches exactly the established connections: beyond the descriptors of other
  channels, the interest list of a loop holds a descriptor if and only if it belongs to an established
  connection of that loop, and then with its channel.\<close>

theorem watched_iff_established:
  assumes "epoll_kernel ctl interest" and "started_server addr name n cb startLoop = Inr s0" and "n < 2 ^ 31"
    and "system_reachable ctl interest base loops wc s0 sy" and "fd \<notin> base"
  shows "(\<exists>ev. interest (pl_kernel (sy_pollers sy l)) fd = Some (ev, p)) \<longleftrightarrow>
    (\<exists>c < length (sy_conns sy). co_phase (sy_object sy c) = Established \<and> co_loop (sy_object sy c) = l
       \<and> co_fd (sy_object sy c) = fd \<and> tc_channel (sy_conns sy ! c) = p)"
proof -
  note inv = system_facts(3) [OF assms(1-4)]
  note D = conns_invD [OF inv]
  note entry = watched_entry [OF inv]
  show ?thesis
  proof (cases "\<exists>c. live sy c \<and> co_loop (sy_object sy c) = l \<and> co_fd (sy_object sy c) = fd")
    case True
    then obtain c where c: "live sy c" "co_loop (sy_object sy c) = l" "co_fd (sy_object sy c) = fd" by blast
    have "d = c" if "d < length (sy_conns sy)" "co_phase (sy_object sy d) = Established" "co_fd (sy_object sy d) = fd" for d
      using D(3) [of d c] that c D(1) by auto
    moreover have "c < length (sy_conns sy)" using c(1) D(1) by simp
    ultimately have "(\<exists>d < length (sy_conns sy). co_phase (sy_object sy d) = Established \<and> co_loop (sy_object sy d) = l
        \<and> co_fd (sy_object sy d) = fd \<and> tc_channel (sy_conns sy ! d) = p)
      \<longleftrightarrow> co_phase (sy_object sy c) = Established \<and> tc_channel (sy_conns sy ! c) = p"
      using c(2,3) by blast
    then show ?thesis using entry [OF c(1), unfolded c(2,3)] by simp
  next
    case False
    then have "unused_fd interest (sy_pollers sy l) fd" by (intro D(6) [OF assms(5)]) blast
    moreover have "\<not> (co_phase (sy_object sy c) = Established \<and> co_loop (sy_object sy c) = l \<and> co_fd (sy_object sy c) = fd)"
      if "c < length (sy_conns sy)" for c
      using False that unfolding D(1) by force
    ultimately show ?thesis by (simp add: unused_fd_def) blast
  qed
qed

lemma sys_exec_server: "sys_exec ctl f sy = Inr sy' \<Longrightarrow> sy_server sy' = server_exec f (sy_server sy)"
  by (cases f) (auto simp: bindR_Inr_iff)

text \<open>The demonstration server accepts descriptor 7 and its loop establishes the connection.\<close>

abbreviation demo_loops :: "nat \<Rightarrow> conn_functor event_loop" where
  "demo_loops \<equiv> \<lambda>l. \<lparr>el_looping = True, el_quit = False, el_callingPendingFunctors = False, el_threadId = l,
     el_wakeupCount = 0, el_pendingFunctors = []\<rparr>"

definition sys_zero :: "(int \<rightharpoonup> epoll_event) system" where
  "sys_zero = \<lparr>sy_server = srv_start, sy_conns = [], sy_pollers = (\<lambda>_. EPollPoller_new (\<lambda>_. Channel_new 0) Map.empty)\<rparr>"

definition sys_one :: "(int \<rightharpoonup> epoll_event) system" where
  "sys_one = (case sys_newConnection epoll_table_ctl demo_loops False 1 7 (InetAddress_new 4000 []) (InetAddress_new 80 []) sys_zero
     of Inr sy \<Rightarrow> sy)"

definition sys_two :: "(int \<rightharpoonup> epoll_event) system" where
  "sys_two = (case sys_exec epoll_table_ctl (ConnectEstablished 0)
       (sys_one\<lparr>sy_server := (sy_server sys_one)\<lparr>sv_queues := (sv_queues (sy_server sys_one))(1 := [])\<rparr>\<rparr>) of Inr sy \<Rightarrow> sy)"

abbreviation demo_reachable :: "(int \<rightharpoonup> epoll_event) system \<Rightarrow> bool" where
  "demo_reachable \<equiv> system_reachable epoll_table_ctl (\<lambda>k. k) {} demo_loops False srv_start"

lemma sys_zero_reachable: "demo_reachable sys_zero"
  by (rule reachable_start) (simp add: system_start_def sys_zero_def EPollPoller_new_def)

lemma sys_one_accepted:
  "may_accept {} 1 7 sys_zero"
  "sys_newConnection epoll_table_ctl demo_loops False 1 7 (InetAddress_new 4000 []) (InetAddress_new 80 []) sys_zero = Inr sys_one"
  "sy_server sys_one = srv_one"
proof -
  show acc: "may_accept {} 1 7 sys_zero" by (simp add: may_accept_def sys_zero_def srv_start_fields)
  have new: "newConnection 7 (InetAddress_new 4000 []) (InetAddress_new 80 []) (sy_server sys_zero) = Inr srv_one"
    using srv_one_facts(1) by (simp add: sys_zero_def)
  from tbl.sys_accept_ok [OF demo.system_invs(3) [OF sys_zero_reachable] acc new, of demo_loops False]
  show "sys_newConnection epoll_table_ctl demo_loops False 1 7 (InetAddress_new 4000 []) (InetAddress_new 80 []) sys_zero = Inr sys_one"
    and "sy_server sys_one = srv_one" by (auto simp: sys_one_def)
qed

lemma sys_one_facts: "demo_reachable sys_one" "sy_server sys_one = srv_one" "length (sy_conns sys_one) = 1"
  "sv_queues (sy_server sys_one) 1 = [ConnectEstablished 0]"
proof -
  show r: "demo_reachable sys_one" by (rule reachable_step [OF sys_zero_reachable sys_accept [OF sys_one_accepted(1,2)]])
  show "sy_server sys_one = srv_one" by (rule sys_one_accepted(3))
  show "length (sy_conns sys_one) = 1"
    using conns_invD(1) [OF demo.system_invs(3) [OF r]] sys_one_accepted(3) srv_one_facts(3) by simp
  show "sv_queues (sy_server sys_one) 1 = [ConnectEstablished 0]" using srv_one_facts(2) sys_one_accepted(3) by simp
qed

lemma sys_two_established:
  "sys_exec epoll_table_ctl (ConnectEstablished 0)
     (sys_one\<lparr>sy_server := (sy_server sys_one)\<lparr>sv_queues := (sv_queues (sy_server sys_one))(1 := [])\<rparr>\<rparr>) = Inr sys_two"
  using tbl.sys_run_ok [OF demo.system_invs(3,2) [OF sys_one_facts(1)] sys_one_facts(4)] by (auto simp: sys_two_def)

lemma sys_two_facts: "demo_reachable sys_two" "co_phase (sy_object sys_two 0) = Established" "co_loop (sy_object sys_two 0) = 1"
  "co_fd (sy_object sys_two 0) = 7" "length (sy_conns sys_two) = 1"
proof -
  note two = sys_two_established
  show r: "demo_reachable sys_two" by (rule reachable_step [OF sys_one_facts(1) sys_run [OF sys_one_facts(4) two]])
  have sv: "sy_server sys_two = set_phase 0 Established (srv_one\<lparr>sv_queues := (sv_queues srv_one)(1 := [])\<rparr>)"
    using sys_exec_server [OF two] sys_one_facts(2) by simp
  have fd: "co_fd (sv_heap srv_one ! 0) = 7"
    using newConnection_heap [OF srv_one_facts(1)] by (auto simp: srv_start_fields)
  then show "co_phase (sy_object sys_two 0) = Established" "co_loop (sy_object sys_two 0) = 1" "co_fd (sy_object sys_two 0) = 7"
    using sv srv_one_facts(3,4) by (simp_all add: set_phase_def)
  show "length (sy_conns sys_two) = 1"
    using conns_invD(1) [OF demo.system_invs(3) [OF r]] sv srv_one_facts(3) by (simp add: set_phase_def)
qed

theorem system_refines_server_witness:
  "server_reachable srv_start (sy_server sys_two) \<and> phase_matches Established (tc_state (sy_conns sys_two ! 0))"
  using system_refines_server [OF tbl.epoll_kernel_axioms srv_start_eq _ sys_two_facts(1)] sys_two_facts(2,5) by simp

theorem callbacks_protocol_witness:
  "\<exists>ms. tc_calls (sy_conns sys_two ! 0) = ConnectionCb # ms \<and> set ms \<subseteq> {MessageCb}"
  using callbacks_protocol [OF tbl.epoll_kernel_axioms srv_start_eq _ sys_two_facts(1), of 0] sys_two_facts(2,5) by simp

theorem watched_iff_established_witness:
  "\<exists>ev. pl_kernel (sy_pollers sys_two 1) 7 = Some (ev, tc_channel (sy_conns sys_two ! 0))"
  using watched_iff_established [OF tbl.epoll_kernel_axioms srv_start_eq _ sys_two_facts(1), of 7 1 "tc_channel (sy_conns sys_two ! 0)"]
    sys_two_facts(2-5) by auto

end
