(* ===== verification/ServerLoop.thy ===== *)
theory ServerLoop
  imports ServerSystem
begin

text \<open>
  The loops of the server (\<open>EventLoop::loop\<close> and \<open>doPendingFunctors\<close> of \<open>src/src/net/EventLoop.cc\<close>,
  \<open>EPollPoller::poll\<close>, \<open>Channel::handleEvent\<close> of \<open>src/src/net/Channel.cc\<close>) running the connections of \<open>ServerSystem\<close>. Each loop
  polls, dispatches the channels the kernel reported one by one, each callback by callback, then takes the queued
  functors out and runs them. The threads of the loops, accepted connections and calls of users interleave between
  all of these. Of a poll the events of connections are followed here; the listening channel is added in
  \<open>AcceptLoop\<close>, the wake-up and timer channels are the subject of \<open>Reactor\<close>. The functors that connections queue for themselves run here as
  calls of users do; \<open>FunctorQueue\<close> puts them into the queues. A report of a hang-up with urgent but without readable data is left out.
\<close>

section \<open>Loops\<close>

text \<open>Where a loop is: before the poll, at the rest of \<open>activeChannels_\<close> with the callbacks left of the channel
  being handled, or at the rest of the functors it took out.\<close>

datatype round_pc =
    InPoll
  | InChannels "nat list" "(conn_id \<times> callback list) option"
  | InFunctors "server_functor list"

record 'k loops_system =
  sl_system :: "'k system"
  sl_pc :: "nat \<Rightarrow> round_pc"

text \<open>A callback with the answers of the socket to its read or write.\<close>

definition run_callback ::
  "'k epoll_ctl \<Rightarrow> int + bytes \<Rightarrow> int + nat \<Rightarrow> conn_id \<Rightarrow> callback \<Rightarrow> 'k system \<Rightarrow> 'k system res"
where
  "run_callback ctl r w c cb sy =
     (case callback_ops r w cb of [] \<Rightarrow> Inr sy | op # _ \<Rightarrow> sys_conn_op ctl op c sy)"

definition callback_fits :: "int + bytes \<Rightarrow> int + nat \<Rightarrow> conn_id \<Rightarrow> callback \<Rightarrow> 'k system \<Rightarrow> bool" where
  "callback_fits r w c cb sy \<longleftrightarrow> (\<forall>op \<in> set (callback_ops r w cb). op_fits op (attach sy c))"

text \<open>\<open>functors.swap(pendingFunctors_)\<close>.\<close>

definition take_functors :: "nat \<Rightarrow> 'k system \<Rightarrow> 'k system" where
  "take_functors l sy = sy\<lparr>sy_server := (sy_server sy)\<lparr>sv_queues := (sv_queues (sy_server sy))(l := [])\<rparr>\<rparr>"

text \<open>What \<open>epoll_wait\<close> may report: channels in the interest list, each once.\<close>

definition reports :: "('k \<Rightarrow> int \<rightharpoonup> epoll_event) \<Rightarrow> 'k poller \<Rightarrow> nat list \<Rightarrow> bool" where
  "reports interest pl active \<longleftrightarrow> distinct active
     \<and> (\<forall>p \<in> set active. \<exists>ev. interest (pl_kernel pl) (ch_fd (pl_heap pl p)) = Some (ev, p))"

text \<open>The reported channels of connections: those of the wake-up, timer and listening descriptors (\<open>base\<close>) are
  handled too, and do nothing to connections.\<close>

definition conn_channels :: "int set \<Rightarrow> 'k poller \<Rightarrow> nat list \<Rightarrow> nat list" where
  "conn_channels base pl active = filter (\<lambda>p. ch_fd (pl_heap pl p) \<notin> base) active"

inductive loop_step ::
  "'k epoll_ctl \<Rightarrow> ('k \<Rightarrow> int \<rightharpoonup> epoll_event) \<Rightarrow> int set \<Rightarrow> (nat \<Rightarrow> conn_functor event_loop) \<Rightarrow> bool
    \<Rightarrow> 'k loops_system \<Rightarrow> 'k loops_system \<Rightarrow> bool"
  for ctl interest base loops wc
where
  loop_poll: "sl_pc S l = InPoll \<Longrightarrow>
    EPollPoller_poll epoll_wait eintr (sy_pollers (sl_system S) l) = (lg, active, pl) \<Longrightarrow>
    reports interest (sy_pollers (sl_system S) l) active \<Longrightarrow>
    loop_step ctl interest base loops wc S
      (S\<lparr>sl_system := (sl_system S)\<lparr>sy_pollers := (sy_pollers (sl_system S))(l := pl)\<rparr>,
         sl_pc := (sl_pc S)(l := InChannels (conn_channels base pl active) None)\<rparr>)"
| loop_handle: "sl_pc S l = InChannels (p # ps) None \<Longrightarrow> c < length (sy_conns (sl_system S)) \<Longrightarrow>
    tc_channel (sy_conns (sl_system S) ! c) = p \<Longrightarrow> \<not> urgent_hangup (pl_heap (sy_pollers (sl_system S) l) p) \<Longrightarrow>
    loop_step ctl interest base loops wc S
      (S\<lparr>sl_pc := (sl_pc S)(l := InChannels ps (Some (c,
          Channel_handleEvent (live (sl_system S) c) (pl_heap (sy_pollers (sl_system S) l) p))))\<rparr>)"
| loop_callback: "sl_pc S l = InChannels ps (Some (c, cb # cbs)) \<Longrightarrow> callback_fits r w c cb (sl_system S) \<Longrightarrow>
    run_callback ctl r w c cb (sl_system S) = Inr sy \<Longrightarrow>
    loop_step ctl interest base loops wc S (S\<lparr>sl_system := sy, sl_pc := (sl_pc S)(l := InChannels ps (Some (c, cbs)))\<rparr>)"
| loop_handled: "sl_pc S l = InChannels ps (Some (c, [])) \<Longrightarrow>
    loop_step ctl interest base loops wc S (S\<lparr>sl_pc := (sl_pc S)(l := InChannels ps None)\<rparr>)"
| loop_swap: "sl_pc S l = InChannels [] None \<Longrightarrow>
    loop_step ctl interest base loops wc S
      (S\<lparr>sl_system := take_functors l (sl_system S),
         sl_pc := (sl_pc S)(l := InFunctors (sv_queues (sy_server (sl_system S)) l))\<rparr>)"
| loop_functor: "sl_pc S l = InFunctors (f # fs) \<Longrightarrow> sys_exec ctl f (sl_system S) = Inr sy \<Longrightarrow>
    loop_step ctl interest base loops wc S (S\<lparr>sl_system := sy, sl_pc := (sl_pc S)(l := InFunctors fs)\<rparr>)"
| loop_again: "sl_pc S l = InFunctors [] \<Longrightarrow>
    loop_step ctl interest base loops wc S (S\<lparr>sl_pc := (sl_pc S)(l := InPoll)\<rparr>)"
| loop_accept: "may_accept base p fd (sl_system S) \<Longrightarrow>
    sys_newConnection ctl loops wc p fd peer loc (sl_system S) = Inr sy \<Longrightarrow>
    loop_step ctl interest base loops wc S (S\<lparr>sl_system := sy\<rparr>)"
| loop_user: "live (sl_system S) c \<Longrightarrow> user_op op \<Longrightarrow> may_meet op (attach (sl_system S) c) \<Longrightarrow>
    op_fits op (attach (sl_system S) c) \<Longrightarrow> sys_conn_op ctl op c (sl_system S) = Inr sy \<Longrightarrow>
    loop_step ctl interest base loops wc S (S\<lparr>sl_system := sy\<rparr>)"

inductive_cases loop_stepE: "loop_step ctl interest base loops wc S S'"

definition loops_start ::
  "('k \<Rightarrow> int \<rightharpoonup> epoll_event) \<Rightarrow> int set \<Rightarrow> tcp_server \<Rightarrow> 'k loops_system \<Rightarrow> bool"
where
  "loops_start interest base s0 S \<longleftrightarrow> system_start interest base s0 (sl_system S) \<and> sl_pc S = (\<lambda>_. InPoll)"

section \<open>The system seen without its loops\<close>

text \<open>The functors a loop has taken out stand before those in its queue.\<close>

fun pending :: "round_pc \<Rightarrow> server_functor list" where
  "pending (InFunctors fs) = fs"
| "pending pc = []"

definition queue_front :: "(nat \<Rightarrow> server_functor list) \<Rightarrow> tcp_server \<Rightarrow> tcp_server" where
  "queue_front F s = s\<lparr>sv_queues := \<lambda>l. F l @ sv_queues s l\<rparr>"

definition with_front :: "(nat \<Rightarrow> server_functor list) \<Rightarrow> 'k system \<Rightarrow> 'k system" where
  "with_front F sy = sy\<lparr>sy_server := queue_front F (sy_server sy)\<rparr>"

definition sl_abs :: "'k loops_system \<Rightarrow> 'k system" where
  "sl_abs S = with_front (\<lambda>l. pending (sl_pc S l)) (sl_system S)"

text \<open>No operation looks at the functors in front.\<close>

lemma front_fields [simp]:
  "sy_conns (with_front F sy) = sy_conns sy" "sy_pollers (with_front F sy) = sy_pollers sy"
  "sv_heap (sy_server (with_front F sy)) = sv_heap (sy_server sy)" "attach (with_front F sy) c = attach sy c"
  "put_conn c conn (with_front F sy) = with_front F (put_conn c conn sy)"
  "sy_server (with_front F sy) = queue_front F (sy_server sy)"
  by (simp_all add: with_front_def queue_front_def attach_def put_conn_def)

lemma queue_front_fields [simp]:
  "sv_heap (queue_front F s) = sv_heap s" "sv_connections (queue_front F s) = sv_connections s"
  "sv_pool (queue_front F s) = sv_pool s" "sv_nextConnId (queue_front F s) = sv_nextConnId s"
  "sv_queues (queue_front F s) l = F l @ sv_queues s l" "connName (queue_front F s) = connName s"
  by (simp_all add: queue_front_def connName_def)

lemma queue_front_queue: "server_queue l f (queue_front F s) = queue_front F (server_queue l f s)"
proof -
  have "(\<lambda>l'. F l' @ sv_queues s l')(l := (F l @ sv_queues s l) @ [f]) = (\<lambda>l'. F l' @ ((sv_queues s)(l := sv_queues s l @ [f])) l')"
    by auto
  then show ?thesis by (simp add: server_queue_def queue_front_def)
qed

lemma queue_front_phase: "set_phase c ph (queue_front F s) = queue_front F (set_phase c ph s)"
  by (simp add: queue_front_def set_phase_def)

lemma queue_front_exec: "server_exec f (queue_front F s) = queue_front F (server_exec f s)"
proof (cases f)
  case (RemoveConnectionInLoop c)
  have "(queue_front F s)\<lparr>sv_connections := m\<rparr> = queue_front F (s\<lparr>sv_connections := m\<rparr>)" for m by (simp add: queue_front_def)
  then show ?thesis using RemoveConnectionInLoop by (simp add: removeConnectionInLoop_def Let_def queue_front_queue)
qed (simp_all add: queue_front_phase, simp add: queue_front_def)

lemma queue_front_run: "server_runInLoop t l f (queue_front F s) = queue_front F (server_runInLoop t l f s)"
  by (simp add: server_runInLoop_def queue_front_exec queue_front_queue)

lemma queue_front_new:
  "newConnection fd peer loc (queue_front F s) = bindR (newConnection fd peer loc s) (\<lambda>s'. Inr (queue_front F s'))"
proof (cases "getNextLoop (sv_pool s)")
  case (Inr x)
  obtain l pool where x: "getNextLoop (sv_pool s) = Inr (l, pool)" using Inr by (cases x) auto
  have "(queue_front F s)\<lparr>sv_pool := pool, sv_nextConnId := n, sv_heap := h, sv_connections := m\<rparr>
      = queue_front F (s\<lparr>sv_pool := pool, sv_nextConnId := n, sv_heap := h, sv_connections := m\<rparr>)" for n h m
    by (simp add: queue_front_def)
  then show ?thesis by (simp add: newConnection_def x Let_def queue_front_run)
qed (simp add: newConnection_def)

lemma front_server: "(with_front F sy)\<lparr>sy_server := queue_front F s\<rparr> = with_front F (sy\<lparr>sy_server := s\<rparr>)"
  by (simp add: with_front_def)

lemma sys_exec_front: "sys_exec ctl f (with_front F sy) = bindR (sys_exec ctl f sy) (\<lambda>sy'. Inr (with_front F sy'))"
proof (cases f)
  case (ConnectEstablished c)
  then show ?thesis by (cases "connectEstablished ctl (attach sy c)") (simp_all add: queue_front_phase front_server)
next
  case (ConnectDestroyed c)
  then show ?thesis by (cases "connectDestroyed ctl (attach sy c)") (simp_all add: queue_front_phase front_server)
next
  case (RemoveConnectionInLoop c)
  then show ?thesis using queue_front_exec [of f F "sy_server sy"] by (simp add: front_server)
next
  case AcceptorListen
  then show ?thesis using queue_front_exec [of f F "sy_server sy"] by (simp add: front_server)
qed

lemma sys_conn_op_front:
  "sys_conn_op ctl op c (with_front F sy) = bindR (sys_conn_op ctl op c sy) (\<lambda>sy'. Inr (with_front F sy'))"
  by (cases "conn_step ctl op (attach sy c)")
     (simp_all add: sys_conn_op_def Let_def queue_front_phase queue_front_run removeConnection_def front_server)

lemma sys_new_front:
  "sys_newConnection ctl loops wc p fd peer loc (with_front F sy)
    = bindR (sys_newConnection ctl loops wc p fd peer loc sy) (\<lambda>sy'. Inr (with_front F sy'))"
proof (cases "newConnection fd peer loc (sy_server sy)")
  case (Inr s')
  let ?ob = "sv_heap s' ! length (sy_conns sy)"
  let ?new = "new_conn (loops (co_loop ?ob)) (sy_pollers sy (co_loop ?ob)) p (co_name ?ob) fd loc peer wc"
  show ?thesis
  proof (cases ?new)
    case new: (Inr conn)
    show ?thesis
      by (cases "if co_loop ?ob = 0 then connectEstablished ctl conn else Inr conn")
         (simp_all add: sys_newConnection_def queue_front_new Inr new Let_def with_front_def)
  qed (simp add: sys_newConnection_def queue_front_new Inr Let_def)
qed (simp add: sys_newConnection_def queue_front_new)

section \<open>What a step leaves alone\<close>

text \<open>A connection keeps its channel, its loop and its phase.\<close>

definition kept :: "'k system \<Rightarrow> 'k system \<Rightarrow> conn_id \<Rightarrow> bool" where
  "kept sy sy' c \<longleftrightarrow> (c < length (sy_conns sy) \<longrightarrow> c < length (sy_conns sy')
     \<and> tc_channel (sy_conns sy' ! c) = tc_channel (sy_conns sy ! c)
     \<and> co_loop (sy_object sy' c) = co_loop (sy_object sy c) \<and> co_phase (sy_object sy' c) = co_phase (sy_object sy c))"

lemma sys_new_keeps:
  assumes "sys_newConnection ctl loops wc p fd peer loc sy = Inr sy'" "length (sy_conns sy) = length (sv_heap (sy_server sy))"
  shows "kept sy sy' c"
proof -
  from assms(1) obtain s' conn where "newConnection fd peer loc (sy_server sy) = Inr s'" "sy_server sy' = s'"
    "sy_conns sy' = sy_conns sy @ [conn]" by (auto simp: sys_newConnection_def bindR_Inr_iff Let_def)
  then show ?thesis using newConnection_heap [of fd peer loc "sy_server sy" s'] assms(2) by (auto simp: kept_def nth_append)
qed

lemma kept_put:
  assumes "c < length (sy_conns sy)" "length (sy_conns sy) = length (sv_heap (sy_server sy))"
    and "tc_channel conn = tc_channel (sy_conns sy ! c)"
    and "sv_heap s' = (sv_heap (sy_server sy))[c := (sy_object sy c)\<lparr>co_phase := ph\<rparr>]"
    and "d = c \<Longrightarrow> ph = co_phase (sy_object sy c)"
  shows "kept sy ((put_conn c conn sy)\<lparr>sy_server := s'\<rparr>) d"
  using assms by (cases "d = c") (auto simp: kept_def put_conn_def)

context epoll_kernel
begin

lemma sys_op_keeps:
  assumes inv: "conns_inv interest base sy" and c: "live sy c" and meet: "may_meet op (attach sy c)"
    and step: "sys_conn_op ctl op c sy = Inr sy'"
  shows "d \<noteq> c \<or> user_op op \<or> op = Writable w \<Longrightarrow> kept sy sy' d"
    "kept sy sy' c \<or> co_phase (sy_object sy c) = Established \<and> co_phase (sy_object sy' c) = Closed
      \<and> c < length (sy_conns sy') \<and> tc_channel (sy_conns sy' ! c) = tc_channel (sy_conns sy ! c)
      \<and> co_loop (sy_object sy' c) = co_loop (sy_object sy c)"
proof -
  note L = object_ok_live [OF inv c] and D = conns_invD [OF inv]
  let ?a = "attach sy c"
  from step obtain conn where conn: "conn_step ctl op ?a = Inr conn" by (auto simp: sys_conn_op_def bindR_Inr_iff)
  from conn_step_life [OF L(1,2) meet conn] have
    l: "tc_channel conn = tc_channel (sy_conns sy ! c)"
      "tc_state conn = kDisconnected \<and> tc_state ?a \<noteq> kDisconnected \<longleftrightarrow> tc_calls conn = tc_calls ?a @ [ConnectionCb, CloseCb]"
    by (auto simp: conn_frame_def attach_def)
  have "(d \<noteq> c \<or> user_op op \<or> op = Writable w \<longrightarrow> kept sy sy' d) \<and> (kept sy sy' c \<or> co_phase (sy_object sy c) = Established \<and> co_phase (sy_object sy' c) = Closed
      \<and> c < length (sy_conns sy') \<and> tc_channel (sy_conns sy' ! c) = tc_channel (sy_conns sy ! c)
      \<and> co_loop (sy_object sy' c) = co_loop (sy_object sy c))"
  proof (cases "tc_calls conn = tc_calls ?a @ [ConnectionCb, CloseCb]")
    case True
    let ?s = "removeConnection (co_loop (sy_object sy c)) c (set_phase c Closed (sy_server sy))"
    have sy': "sy' = (put_conn c conn sy)\<lparr>sy_server := ?s\<rparr>" using step conn True by (simp add: sys_conn_op_def Let_def)
    have st: "tc_state ?a \<noteq> kDisconnected" "tc_state ?a \<noteq> kConnecting"
      using l(2) True meet L(2) by (auto simp: may_meet_def life_ok_def index_defs split: conn_op.splits)
    then have est: "co_phase (sy_object sy c) = Established" using L(3) by (cases "co_phase (sy_object sy c)") auto
    have "\<not> (user_op op \<or> op = Writable w)"
      using user_op_effect [OF conn] handleWrite_effect [of ctl _ ?a conn] conn st(1) True by (auto simp: write_effect_def)
    then show ?thesis using kept_put [OF L(5) D(1) l(1) heap_removeConnection, of d] est L(5) D(1) l(1)
      by (auto simp: sy' put_conn_def heap_removeConnection)
  next
    case False
    then have "sy' = (put_conn c conn sy)\<lparr>sy_server := sy_server sy\<rparr>"
      using step conn by (auto simp: sys_conn_op_def Let_def put_conn_def)
    moreover have "sv_heap (sy_server sy) = (sv_heap (sy_server sy))[c := (sy_object sy c)\<lparr>co_phase := co_phase (sy_object sy c)\<rparr>]"
      by simp
    ultimately have "kept sy sy' e" for e using kept_put [OF L(5) D(1) l(1), of "sy_server sy" _ e] by metis
    then show ?thesis by blast
  qed
  then show "d \<noteq> c \<or> user_op op \<or> op = Writable w \<Longrightarrow> kept sy sy' d"
    "kept sy sy' c \<or> co_phase (sy_object sy c) = Established \<and> co_phase (sy_object sy' c) = Closed
      \<and> c < length (sy_conns sy') \<and> tc_channel (sy_conns sy' ! c) = tc_channel (sy_conns sy ! c)
      \<and> co_loop (sy_object sy' c) = co_loop (sy_object sy c)" by blast+
qed

text \<open>A functor changes the phase of its own connection only: one that is connecting, or a closed one
  of the loop that runs the functor.\<close>

lemma sys_exec_keeps:
  assumes inv: "conns_inv interest base sy" and hand: "server_inv (Some (l, f)) (sy_server sy)"
    and step: "sys_exec ctl f sy = Inr sy'"
    and d: "co_phase (sy_object sy d) = Established \<or> co_loop (sy_object sy d) \<noteq> l" "co_phase (sy_object sy d) \<noteq> Connecting"
  shows "kept sy sy' d"
proof (cases f)
  case (ConnectEstablished c)
  then have c: "live sy c" "co_phase (sy_object sy c) = Connecting"
    using hand_phase(1) [OF hand, of c] hand_functors(1) [OF hand, of c] by (auto simp: functor_of_def)
  note L = object_ok_live [OF inv c(1)]
  have ok: "chan_ok interest (tc_poller (attach sy c)) (tc_channel (attach sy c))" using L(1) by (simp add: conn_inv_def)
  from step ConnectEstablished obtain conn where conn: "connectEstablished ctl (attach sy c) = Inr conn"
    "sy' = (put_conn c conn sy)\<lparr>sy_server := set_phase c Established (sy_server sy)\<rparr>" by (auto simp: bindR_Inr_iff)
  have "tc_channel conn = tc_channel (sy_conns sy ! c)"
    using establish_life [OF ok L(2) _ conn(1)] L(3) c(2) by (simp add: conn_frame_def attach_def)
  then show ?thesis unfolding conn(2)
    by (rule kept_put [OF L(5) conns_invD(1) [OF inv], where ph = Established]) (use c d in \<open>auto simp: set_phase_def\<close>)
next
  case (ConnectDestroyed c)
  then have c: "live sy c" "co_phase (sy_object sy c) = Closed" "co_loop (sy_object sy c) = l"
    using hand_phase(1) [OF hand, of c] hand_functors(3) [OF hand, of c] by (auto simp: functor_of_def)
  note L = object_ok_live [OF inv c(1)]
  have ok: "chan_ok interest (tc_poller (attach sy c)) (tc_channel (attach sy c))" using L(1) by (simp add: conn_inv_def)
  from step ConnectDestroyed obtain conn where conn: "connectDestroyed ctl (attach sy c) = Inr conn"
    "sy' = (put_conn c conn sy)\<lparr>sy_server := set_phase c Destroyed (sy_server sy)\<rparr>" by (auto simp: bindR_Inr_iff)
  have "tc_channel conn = tc_channel (sy_conns sy ! c)"
    using destroy_life [OF ok L(2) _ conn(1)] L(3) c(2) by (simp add: conn_frame_def attach_def)
  then show ?thesis unfolding conn(2)
    by (rule kept_put [OF L(5) conns_invD(1) [OF inv], where ph = Destroyed]) (use c d in \<open>auto simp: set_phase_def\<close>)
qed (use step in \<open>auto simp: kept_def removeConnectionInLoop_def server_queue_def Let_def\<close>)

end

section \<open>Invariant of a dispatch\<close>

text \<open>The callbacks that need a registered channel; at most one of them is left, and only while the connection is
  established.\<close>

definition needs_channel :: "callback \<Rightarrow> bool" where
  "needs_channel cb \<longleftrightarrow> cb = CloseCallback \<or> cb = ReadCallback"

definition calls_ok :: "callback list \<Rightarrow> conn_phase \<Rightarrow> bool" where
  "calls_ok cbs ph \<longleftrightarrow> length (filter needs_channel cbs) \<le> 1 \<and> (filter needs_channel cbs \<noteq> [] \<longrightarrow> ph = Established)"

definition active_ok :: "nat \<Rightarrow> 'k system \<Rightarrow> nat \<Rightarrow> bool" where
  "active_ok l sy p \<longleftrightarrow> (\<exists>c < length (sy_conns sy). tc_channel (sy_conns sy ! c) = p \<and> co_loop (sy_object sy c) = l
     \<and> co_phase (sy_object sy c) = Established)"

definition handling_ok :: "nat \<Rightarrow> 'k system \<Rightarrow> nat list \<Rightarrow> conn_id \<times> callback list \<Rightarrow> bool" where
  "handling_ok l sy ps x \<longleftrightarrow> (case x of (c, cbs) \<Rightarrow> c < length (sy_conns sy) \<and> co_loop (sy_object sy c) = l
     \<and> tc_channel (sy_conns sy ! c) \<notin> set ps \<and> co_phase (sy_object sy c) \<in> {Established, Closed}
     \<and> calls_ok cbs (co_phase (sy_object sy c)))"

fun pc_ok :: "nat \<Rightarrow> 'k system \<Rightarrow> round_pc \<Rightarrow> bool" where
  "pc_ok l sy (InChannels ps now) \<longleftrightarrow> distinct ps \<and> (\<forall>p \<in> set ps. active_ok l sy p) \<and> pred_option (handling_ok l sy ps) now"
| "pc_ok l sy pc \<longleftrightarrow> True"

definition loops_inv :: "('k \<Rightarrow> int \<rightharpoonup> epoll_event) \<Rightarrow> int set \<Rightarrow> 'k loops_system \<Rightarrow> bool" where
  "loops_inv interest base S \<longleftrightarrow> server_inv None (sy_server (sl_abs S)) \<and> conns_inv interest base (sl_system S)
     \<and> (\<forall>l. pc_ok l (sl_system S) (sl_pc S l))"

lemma conns_inv_front: "conns_inv interest base (with_front F sy) = conns_inv interest base sy"
  by (simp add: conns_inv_def)

lemma handler_calls:
  assumes "\<not> urgent_hangup ch"
  shows "calls_ok (Channel_handleEvent alive ch) Established"
proof -
  have "ch_revents ch AND (EPOLLIN OR EPOLLPRI) = (ch_revents ch AND EPOLLIN) OR (ch_revents ch AND EPOLLPRI)"
    by (rule bit.conj_disj_distrib)
  then show ?thesis using assms
    by (auto simp: calls_ok_def needs_channel_def Channel_handleEvent_def handleEventWithGuard_def urgent_hangup_def)
qed

text \<open>The place of a loop stays right when its established and closed connections are kept.\<close>

lemma active_ok_kept:
  assumes "active_ok l sy p" "\<And>c. tc_channel (sy_conns sy ! c) = p \<Longrightarrow> co_phase (sy_object sy c) = Established \<Longrightarrow>
      co_loop (sy_object sy c) = l \<Longrightarrow> kept sy sy' c"
  shows "active_ok l sy' p"
proof -
  from assms(1) obtain c where c: "c < length (sy_conns sy)" "tc_channel (sy_conns sy ! c) = p" "co_loop (sy_object sy c) = l"
    "co_phase (sy_object sy c) = Established" by (auto simp: active_ok_def)
  with assms(2) have "kept sy sy' c" by blast
  with c show ?thesis by (auto simp: active_ok_def kept_def)
qed

lemma pc_ok_kept:
  assumes "pc_ok l sy pc"
    and kept: "\<And>c. co_loop (sy_object sy c) = l \<Longrightarrow> co_phase (sy_object sy c) \<in> {Established, Closed} \<Longrightarrow> kept sy sy' c"
  shows "pc_ok l sy' pc"
proof (cases pc)
  case (InChannels ps now)
  have "active_ok l sy' p" if "p \<in> set ps" for p
    using assms(1) that InChannels by (intro active_ok_kept [OF _ kept]) auto
  moreover have "handling_ok l sy' ps x" if "handling_ok l sy ps x" for x
  proof -
    obtain c cbs where x: "x = (c, cbs)" by fastforce
    then have "kept sy sy' c" using that by (intro kept) (auto simp: handling_ok_def)
    then show ?thesis using that x by (auto simp: handling_ok_def kept_def)
  qed
  ultimately show ?thesis using assms(1) InChannels by (auto simp: option.pred_True elim: option.pred_mono_strong)
qed simp_all

lemma kept_pollers [simp]: "kept sy (sy\<lparr>sy_pollers := pls\<rparr>) c" "kept sy (take_functors l sy) c"
  by (simp_all add: kept_def take_functors_def)

section \<open>Steps\<close>

lemma sl_abs_same: "sl_abs S = with_front (\<lambda>l. pending (sl_pc S l)) (sl_system S)"
  by (simp add: sl_abs_def)

lemma pending_upd: "pending pc = pending (sl_pc S l) \<Longrightarrow> (\<lambda>l'. pending (((sl_pc S)(l := pc)) l')) = (\<lambda>l'. pending (sl_pc S l'))"
  by auto

lemma pc_ok_others:
  assumes "\<forall>l. pc_ok l sy (pcs l)" "\<And>l'. l' \<noteq> l \<Longrightarrow> pc_ok l' sy (pcs l') \<Longrightarrow> pc_ok l' sy' (pcs l')" "pc_ok l sy' pc"
  shows "\<forall>l'. pc_ok l' sy' ((pcs(l := pc)) l')"
  using assms by auto

text \<open>Taking the first of the functors a loop has taken out.\<close>

lemma functor_front:
  assumes "sl_pc S l = InFunctors (f # fs)"
  defines "F \<equiv> \<lambda>l'. pending (((sl_pc S)(l := InFunctors fs)) l')"
  shows "sv_queues (sy_server (sl_abs S)) l = f # (fs @ sv_queues (sy_server (sl_system S)) l)"
    "(sl_abs S)\<lparr>sy_server := (sy_server (sl_abs S))\<lparr>sv_queues :=
        (sv_queues (sy_server (sl_abs S)))(l := fs @ sv_queues (sy_server (sl_system S)) l)\<rparr>\<rparr> = with_front F (sl_system S)"
    "(sy_server (sl_abs S))\<lparr>sv_queues := (sv_queues (sy_server (sl_abs S)))(l := fs @ sv_queues (sy_server (sl_system S)) l)\<rparr>
       = sy_server (with_front F (sl_system S))"
proof -
  show "sv_queues (sy_server (sl_abs S)) l = f # (fs @ sv_queues (sy_server (sl_system S)) l)"
    using assms(1) by (simp add: sl_abs_def)
  let ?q = "sv_queues (sy_server (sl_system S))"
  have "(\<lambda>l'. pending (sl_pc S l') @ ?q l')(l := fs @ ?q l) = (\<lambda>l'. F l' @ ?q l')"
    by (auto simp: F_def)
  then show "(sl_abs S)\<lparr>sy_server := (sy_server (sl_abs S))\<lparr>sv_queues :=
        (sv_queues (sy_server (sl_abs S)))(l := fs @ ?q l)\<rparr>\<rparr> = with_front F (sl_system S)"
    "(sy_server (sl_abs S))\<lparr>sv_queues := (sv_queues (sy_server (sl_abs S)))(l := fs @ ?q l)\<rparr> = sy_server (with_front F (sl_system S))"
    by (simp_all add: sl_abs_def with_front_def queue_front_def)
qed

text \<open>What moves a loop on leaves the system as it is.\<close>

lemma moved_abs: "pending pc = pending (sl_pc S l) \<Longrightarrow> sl_abs (S\<lparr>sl_pc := (sl_pc S)(l := pc)\<rparr>) = sl_abs S"
  by (simp add: sl_abs_def pending_upd del: fun_upd_apply)

lemma swapped_abs:
  assumes "sl_pc S l = InChannels [] None"
  shows "sl_abs (S\<lparr>sl_system := take_functors l (sl_system S),
    sl_pc := (sl_pc S)(l := InFunctors (sv_queues (sy_server (sl_system S)) l))\<rparr>) = sl_abs S"
proof -
  let ?q = "sv_queues (sy_server (sl_system S))"
  have "(\<lambda>l'. pending (((sl_pc S)(l := InFunctors (?q l))) l') @ (?q(l := [])) l') = (\<lambda>l'. pending (sl_pc S l') @ ?q l')"
    using assms by auto
  then show ?thesis by (simp add: sl_abs_def with_front_def queue_front_def take_functors_def del: fun_upd_apply)
qed

text \<open>A channel that the kernel reports belongs to an established connection of the loop.\<close>

lemma reported_active:
  assumes inv: "conns_inv interest base sy" and "fd \<notin> base" "interest (pl_kernel (sy_pollers sy l)) fd = Some (ev, p)"
  shows "active_ok l sy p"
proof -
  have "\<not> unused_fd interest (sy_pollers sy l) fd" using assms(3) by (simp add: unused_fd_def)
  then obtain c where c: "live sy c" "co_loop (sy_object sy c) = l" "co_fd (sy_object sy c) = fd"
    using conns_invD(6) [OF inv assms(2)] by blast
  then show ?thesis using watched_entry [OF inv c(1)] assms(3) object_ok_live(5) [OF inv c(1)]
    by (auto simp: active_ok_def split: if_splits)
qed

context epoll_kernel
begin

lemma callback_meets:
  assumes inv: "conns_inv interest base sy" and h: "handling_ok l sy ps (c, cb # cbs)" and op: "op \<in> set (callback_ops r w cb)"
  shows "live sy c \<and> may_meet op (attach sy c)"
proof -
  have c: "live sy c" using h conns_invD(1) [OF inv] by (auto simp: handling_ok_def)
  note L = object_ok_live [OF inv c]
  have ph: "co_phase (sy_object sy c) \<in> {Established, Closed}" "needs_channel cb \<Longrightarrow> co_phase (sy_object sy c) = Established"
    using h by (auto simp: handling_ok_def calls_ok_def)
  then have st: "tc_state (attach sy c) \<noteq> kConnecting" using L(3) by auto
  have "ch_index (conn_channel (attach sy c)) = kAdded" if "needs_channel cb"
    using L(2,3) ph(2) [OF that] by (auto simp: life_ok_def split: StateE.splits)
  then show ?thesis using c st op by (cases cb) (auto simp: may_meet_def needs_channel_def)
qed

lemma callback_step:
  assumes inv: "conns_inv interest base sy" and h: "handling_ok l sy ps (c, cb # cbs)" and fits: "callback_fits r w c cb sy"
    and step: "run_callback ctl r w c cb sy = Inr sy'"
  shows "sy' = sy \<or> (\<exists>op. live sy c \<and> may_meet op (attach sy c) \<and> op_fits op (attach sy c) \<and> sys_conn_op ctl op c sy = Inr sy')"
    "d \<noteq> c \<Longrightarrow> kept sy sy' d" "handling_ok l sy' ps (c, cbs)"
proof -
  have rest: "calls_ok cbs ph" if "calls_ok (cb # cbs) ph'" "needs_channel cb \<or> ph = ph'" for ph ph'
    using that by (auto simp: calls_ok_def split: if_splits)
  have "(sy' = sy \<or> (\<exists>op. live sy c \<and> may_meet op (attach sy c) \<and> op_fits op (attach sy c) \<and> sys_conn_op ctl op c sy = Inr sy'))
      \<and> (d \<noteq> c \<longrightarrow> kept sy sy' d) \<and> handling_ok l sy' ps (c, cbs)"
  proof (cases "callback_ops r w cb")
    case Nil
    then have "sy' = sy" using step by (simp add: run_callback_def)
    then show ?thesis using h rest by (auto simp: handling_ok_def kept_def)
  next
    case (Cons op ops)
    then have s: "sys_conn_op ctl op c sy = Inr sy'" and o: "op \<in> set (callback_ops r w cb)" using step by (simp_all add: run_callback_def)
    note m = callback_meets [OF inv h o]
    note k = sys_op_keeps [OF inv conjunct1 [OF m] conjunct2 [OF m] s]
    have "needs_channel cb \<or> op = Writable w" using o by (cases cb) (auto simp: needs_channel_def)
    then have "kept sy sy' c \<or> needs_channel cb" using k(1) by blast
    then have "handling_ok l sy' ps (c, cbs)" using h k(2) rest by (auto simp: handling_ok_def kept_def)
    then show ?thesis using m s o fits k(1) by (auto simp: callback_fits_def)
  qed
  then show "sy' = sy \<or> (\<exists>op. live sy c \<and> may_meet op (attach sy c) \<and> op_fits op (attach sy c) \<and> sys_conn_op ctl op c sy = Inr sy')"
    "d \<noteq> c \<Longrightarrow> kept sy sy' d" "handling_ok l sy' ps (c, cbs)" by blast+
qed

lemma callback_succeeds:
  assumes inv: "conns_inv interest base sy" and h: "handling_ok l sy ps (c, cb # cbs)" and fits: "callback_fits r w c cb sy"
  shows "\<exists>sy'. run_callback ctl r w c cb sy = Inr sy'"
proof (cases "callback_ops r w cb")
  case (Cons op ops)
  then have o: "op \<in> set (callback_ops r w cb)" by simp
  then show ?thesis using callback_meets [OF inv h o] sys_op_ok [OF inv, of c op] fits Cons
    by (auto simp: run_callback_def callback_fits_def)
qed (simp add: run_callback_def)

text \<open>A callback keeps the places of its own loop and of the others right, a functor those of the others.\<close>

lemma callback_places:
  assumes inv: "conns_inv interest base sy" and own: "pc_ok l sy (InChannels ps (Some (c, cb # cbs)))"
    and fits: "callback_fits r w c cb sy" and step: "run_callback ctl r w c cb sy = Inr sy'"
  shows "pc_ok l sy' (InChannels ps (Some (c, cbs)))" "l' \<noteq> l \<Longrightarrow> pc_ok l' sy pc \<Longrightarrow> pc_ok l' sy' pc"
proof -
  have d: "distinct ps" "\<forall>p \<in> set ps. active_ok l sy p" and h: "handling_ok l sy ps (c, cb # cbs)" using own by simp_all
  note cs = callback_step [OF inv h fits step]
  have "active_ok l sy' p" if "p \<in> set ps" for p
  proof (rule active_ok_kept [of l sy])
    show "active_ok l sy p" using d(2) that by blast
    fix e
    assume "tc_channel (sy_conns sy ! e) = p"
    then have "e \<noteq> c" using h that by (auto simp: handling_ok_def)
    then show "kept sy sy' e" by (rule cs(2))
  qed
  then show "pc_ok l sy' (InChannels ps (Some (c, cbs)))" using d(1) cs(3) by simp
  assume "l' \<noteq> l" "pc_ok l' sy pc"
  show "pc_ok l' sy' pc"
  proof (rule pc_ok_kept [OF \<open>pc_ok l' sy pc\<close>])
    fix e
    assume "co_loop (sy_object sy e) = l'"
    then have "e \<noteq> c" using h \<open>l' \<noteq> l\<close> by (auto simp: handling_ok_def)
    then show "kept sy sy' e" by (rule cs(2))
  qed
qed

lemma functor_places:
  assumes inv: "loops_inv interest base S" and pc: "sl_pc S l = InFunctors (f # fs)" and step: "sys_exec ctl f (sl_system S) = Inr sy"
    and l': "l' \<noteq> l" "pc_ok l' (sl_system S) pc'"
  shows "pc_ok l' sy pc'"
proof -
  let ?sy = "sl_system S" and ?F = "\<lambda>l'. pending (((sl_pc S)(l := InFunctors fs)) l')"
  have conns: "conns_inv interest base ?sy" and srv: "server_inv None (sy_server (sl_abs S))" using inv by (auto simp: loops_inv_def)
  note ff = functor_front [OF pc]
  have hand: "server_inv (Some (l, f)) (sy_server (with_front ?F ?sy))" using server_inv_pop [OF srv ff(1)] by (simp only: ff(3))
  have "sys_exec ctl f (with_front ?F ?sy) = Inr (with_front ?F sy)" using step by (simp add: sys_exec_front)
  moreover have "conns_inv interest base (with_front ?F ?sy)" using conns by (simp only: conns_inv_front)
  ultimately have "kept ?sy sy d" if "co_loop (sy_object ?sy d) \<noteq> l" "co_phase (sy_object ?sy d) \<in> {Established, Closed}" for d
    using sys_exec_keeps [OF _ hand, of base "with_front ?F sy" d] that by (auto simp: kept_def)
  then show ?thesis using l'(1) by (intro pc_ok_kept [OF l'(2)]) auto
qed

lemma poll_places:
  assumes conns: "conns_inv interest base sy" and poll: "EPollPoller_poll epoll_wait eintr (sy_pollers sy l) = (lg, active, pl)"
    and rep: "reports interest (sy_pollers sy l) active"
  shows "pc_ok l sy (InChannels (conn_channels base pl active) None)"
proof -
  have "\<forall>p \<in> set (conn_channels base pl active). active_ok l sy p" "distinct (conn_channels base pl active)"
    using reported_active [OF conns] rep poll_frame(3) [OF poll] by (auto simp: reports_def conn_channels_def)
  then show ?thesis by simp
qed

lemma handle_places:
  assumes conns: "conns_inv interest base sy" and pc: "pc_ok l sy (InChannels (p # ps) None)"
    and c: "c < length (sy_conns sy)" "tc_channel (sy_conns sy ! c) = p" and h: "\<not> urgent_hangup ch"
  shows "pc_ok l sy (InChannels ps (Some (c, Channel_handleEvent alive ch)))"
proof -
  from pc obtain d where "d < length (sy_conns sy)" "tc_channel (sy_conns sy ! d) = p" "co_loop (sy_object sy d) = l"
    "co_phase (sy_object sy d) = Established" by (auto simp: active_ok_def)
  moreover from this have "d = c" using conns_invD(2) [OF conns, of d c] c by simp
  ultimately have "handling_ok l sy ps (c, Channel_handleEvent alive ch)"
    using pc handler_calls [OF h] by (simp add: handling_ok_def)
  then show ?thesis using pc by simp
qed

text \<open>Every step keeps the places of all loops right.\<close>

lemma loop_step_pc:
  assumes step: "loop_step ctl interest base loops wc S S'" and inv: "loops_inv interest base S"
  shows "pc_ok l' (sl_system S') (sl_pc S' l')"
proof -
  let ?sy = "sl_system S"
  have conns: "conns_inv interest base ?sy" and pcs: "\<And>l. pc_ok l ?sy (sl_pc S l)" using inv by (auto simp: loops_inv_def)
  from step show ?thesis
  proof cases
    case (loop_poll l epoll_wait eintr lg active pl)
    have "pc_ok l' ?sy (((sl_pc S)(l := InChannels (conn_channels base pl active) None)) l')"
      using poll_places [OF conns loop_poll(3,4)] pcs by simp
    then show ?thesis using loop_poll(1) pc_ok_kept [of l' ?sy] by simp
  next
    case (loop_handle l p ps c)
    have "pc_ok l ?sy (InChannels (p # ps) None)" using pcs [of l] loop_handle(2) by simp
    from handle_places [OF conns this loop_handle(3-5)] show ?thesis using loop_handle(1) pcs by simp
  next
    case (loop_callback l ps c cb cbs r w sy)
    have own: "pc_ok l ?sy (InChannels ps (Some (c, cb # cbs)))" using pcs [of l] loop_callback(2) by simp
    note places = callback_places [OF conns own loop_callback(3,4)]
    show ?thesis using places(1) places(2) [OF _ pcs, of l'] loop_callback(1) by simp
  next
    case (loop_handled l ps c)
    then show ?thesis using pcs [of l] pcs [of l'] by auto
  next
    case (loop_swap l)
    have "pc_ok l' ?sy (((sl_pc S)(l := InFunctors (sv_queues (sy_server ?sy) l))) l')" using pcs by simp
    then show ?thesis using loop_swap(1) pc_ok_kept [of l' ?sy _ "take_functors l ?sy"] by simp
  next
    case (loop_functor l f fs sy)
    then show ?thesis using functor_places [OF inv loop_functor(2,3) _ pcs, of l'] by simp
  next
    case (loop_again l)
    then show ?thesis using pcs [of l'] by simp
  next
    case (loop_accept p fd peer loc sy)
    then show ?thesis using pc_ok_kept [OF pcs [of l']] sys_new_keeps [OF loop_accept(3)] conns_invD(1) [OF conns] by simp
  next
    case (loop_user c op sy)
    then show ?thesis using pc_ok_kept [OF pcs [of l']] sys_op_keeps(1) [OF conns loop_user(2,4,6)] by simp
  qed
qed

text \<open>Every step is a step of the system, or one that only moves a loop on.\<close>

lemma loop_step_abs:
  assumes step: "loop_step ctl interest base loops wc S S'" and inv: "loops_inv interest base S"
  shows "sl_abs S' = sl_abs S \<or> system_step ctl base loops wc (sl_abs S) (sl_abs S')"
proof -
  let ?sy = "sl_system S" and ?F = "\<lambda>l. pending (sl_pc S l)"
  have conns: "conns_inv interest base ?sy" and pcs: "\<And>l. pc_ok l ?sy (sl_pc S l)" using inv by (auto simp: loops_inv_def)
  have op: "system_step ctl base loops wc (sl_abs S) (with_front ?F sy)"
    if "live ?sy c" "may_meet op (attach ?sy c)" "op_fits op (attach ?sy c)" "sys_conn_op ctl op c ?sy = Inr sy" for c op sy
    unfolding sl_abs_def by (rule sys_op [where c = c and op = op]) (use that in \<open>simp_all add: sys_conn_op_front\<close>)
  from step show ?thesis
  proof cases
    case (loop_poll l epoll_wait eintr lg active pl)
    have "sl_abs S' = (sl_abs S)\<lparr>sy_pollers := (sy_pollers (sl_abs S))(l := pl)\<rparr>"
      using loop_poll(1,2) pending_upd [of "InChannels (conn_channels base pl active) None" S l] by (simp add: sl_abs_def with_front_def)
    moreover have "EPollPoller_poll epoll_wait eintr (sy_pollers (sl_abs S) l) = (lg, active, pl)"
      using loop_poll(3) by (simp add: sl_abs_def)
    ultimately show ?thesis using sys_poll by metis
  next
    case (loop_handle l p ps c)
    then show ?thesis by (simp add: moved_abs del: fun_upd_apply)
  next
    case (loop_callback l ps c cb cbs r w sy)
    have h: "handling_ok l ?sy ps (c, cb # cbs)" using pcs [of l] loop_callback(2) by simp
    have abs: "sl_abs S' = with_front ?F sy"
      using loop_callback(1,2) by (simp add: sl_abs_def pending_upd del: fun_upd_apply)
    show ?thesis
      using callback_step(1) [OF conns h loop_callback(3,4)] op unfolding abs by (auto simp: sl_abs_def)
  next
    case (loop_handled l ps c)
    then show ?thesis by (simp add: moved_abs del: fun_upd_apply)
  next
    case (loop_swap l)
    then show ?thesis by (simp add: swapped_abs del: fun_upd_apply)
  next
    case (loop_functor l f fs sy)
    note ff = functor_front [OF loop_functor(2)]
    let ?G = "\<lambda>l'. pending (((sl_pc S)(l := InFunctors fs)) l')"
    have "sl_abs S' = with_front ?G sy" using loop_functor(1) by (simp add: sl_abs_def)
    moreover have "sys_exec ctl f (with_front ?G ?sy) = Inr (with_front ?G sy)" using loop_functor(3) by (simp add: sys_exec_front)
    ultimately show ?thesis using sys_run [OF ff(1), of ctl "sl_abs S'"] by (simp only: ff(2) simp_thms)
  next
    case (loop_again l)
    then show ?thesis by (simp add: moved_abs del: fun_upd_apply)
  next
    case (loop_accept p fd peer loc sy)
    have "may_accept base p fd (sl_abs S)" using loop_accept(2) by (simp add: may_accept_def sl_abs_def)
    moreover have "sys_newConnection ctl loops wc p fd peer loc (sl_abs S) = Inr (sl_abs S')"
      using loop_accept(1,3) by (simp add: sl_abs_def sys_new_front)
    ultimately show ?thesis using sys_accept by blast
  next
    case (loop_user c uop sy)
    then show ?thesis using op [OF loop_user(2,4,5,6)] by (simp add: sl_abs_def)
  qed
qed

end

text \<open>The loops refine the system that \<open>ServerSystem\<close> describes.\<close>

sublocale server_system \<subseteq> looping: refinement "loops_start interest base s0" "loop_step ctl interest base loops wc"
    "loops_inv interest base" "system_start interest base s0" "system_step ctl base loops wc" sl_abs
proof unfold_locales
  fix S
  assume S: "loops_start interest base s0 S"
  have "sl_abs S = sl_system S" using S by (simp add: loops_start_def sl_abs_def with_front_def queue_front_def)
  then show "loops_inv interest base S" "system_start interest base s0 (sl_abs S)"
    using S start_inv s0_inv by (auto simp: loops_start_def loops_inv_def system_start_def)
next
  fix S S'
  assume step: "loop_step ctl interest base loops wc S S'" and inv: "loops_inv interest base S"
  show abs: "sl_abs S' = sl_abs S \<or> system_step ctl base loops wc (sl_abs S) (sl_abs S')" by (rule loop_step_abs [OF step inv])
  have i: "server_inv None (sy_server (sl_abs S))" "conns_inv interest base (sl_abs S)"
    using inv by (auto simp: loops_inv_def sl_abs_def conns_inv_front simp del: front_fields)
  then have "server_inv None (sy_server (sl_abs S')) \<and> conns_inv interest base (sl_abs S')"
    using abs system_step_ok [OF _ i] server_step_inv [OF i(1)] by metis
  then show "loops_inv interest base S'"
    using loop_step_pc [OF step inv] by (auto simp: loops_inv_def sl_abs_def conns_inv_front simp del: front_fields)
qed

context server_system
begin

lemma loops_invs:
  assumes "reachable (loops_start interest base s0) (loop_step ctl interest base loops wc) S"
  shows "reachable (system_start interest base s0) (system_step ctl base loops wc) (sl_abs S)"
    "loops_inv interest base S"
  using looping.reachable_abs [OF assms] looping.reachable_inv [OF assms] by simp_all

end

abbreviation loops_reachable ::
  "'k epoll_ctl \<Rightarrow> ('k \<Rightarrow> int \<rightharpoonup> epoll_event) \<Rightarrow> int set \<Rightarrow> (nat \<Rightarrow> conn_functor event_loop) \<Rightarrow> bool
    \<Rightarrow> tcp_server \<Rightarrow> 'k loops_system \<Rightarrow> bool"
where
  "loops_reachable ctl interest base loops wc s0 \<equiv>
     reachable (loops_start interest base s0) (loop_step ctl interest base loops wc)"

lemmas loops_facts = server_system.loops_invs [OF started_system]

section \<open>Properties\<close>

text \<open>Claim C7. The loops of the server refine the server: polling, dispatching the reported channels callback by
  callback and running the functors in batches, in any interleaving of the threads of the loops with
  accepted connections and users, is a history of the composed server, in which the functors that a loop has taken
  out stand before those in its queue. So the kernel's reports alone ensure that a callback meets a connection in a
  state in which it may be called.\<close>

theorem loops_refine_system:
  assumes "epoll_kernel ctl interest" and "started_server addr name n cb startLoop = Inr s0" and "n < 2 ^ 31"
    and "loops_reachable ctl interest base loops wc s0 S"
  shows "system_reachable ctl interest base loops wc s0 (sl_abs S)"
  by (rule loops_facts(1) [OF assms])

text \<open>A loop never acts on a dead connection: every channel it has still to handle belongs to an established connection of
  the loop, although the earlier ones of the same poll may have closed theirs; every callback and every functor of the
  server it comes to succeeds.\<close>

lemma loops_never_fault:
  assumes "epoll_kernel ctl interest" and "started_server addr name n cb startLoop = Inr s0" and "n < 2 ^ 31"
    and "loops_reachable ctl interest base loops wc s0 S"
  shows "(\<forall>p ps now. sl_pc S l = InChannels ps now \<and> p \<in> set ps \<longrightarrow> active_ok l (sl_system S) p)
    \<and> (\<forall>ps c cbk cbs r w. sl_pc S l = InChannels ps (Some (c, cbk # cbs)) \<and> callback_fits r w c cbk (sl_system S) \<longrightarrow>
         live (sl_system S) c \<and> (\<exists>sy. run_callback ctl r w c cbk (sl_system S) = Inr sy))
    \<and> (\<forall>f fs. sl_pc S l = InFunctors (f # fs) \<longrightarrow> (\<exists>sy. sys_exec ctl f (sl_system S) = Inr sy))"
proof -
  have inv: "loops_inv interest base S" by (rule loops_facts(2) [OF assms])
  then have conns: "conns_inv interest base (sl_system S)" and srv: "server_inv None (sy_server (sl_abs S))"
    and pc: "pc_ok l (sl_system S) (sl_pc S l)" by (auto simp: loops_inv_def)
  have "\<exists>sy. sys_exec ctl f (sl_system S) = Inr sy" if "sl_pc S l = InFunctors (f # fs)" for f fs
  proof -
    note ff = functor_front [OF that]
    have "conns_inv interest base (sl_abs S)" using conns by (simp only: sl_abs_def conns_inv_front)
    from epoll_kernel.sys_run_ok [OF assms(1) this srv ff(1)] show ?thesis
      unfolding ff(2) by (auto simp: sys_exec_front bindR_Inr_iff)
  qed
  moreover have "active_ok l (sl_system S) p" if "sl_pc S l = InChannels ps now" "p \<in> set ps" for p ps now
    using pc that by simp
  moreover have "live (sl_system S) c \<and> (\<exists>sy. run_callback ctl r w c cbk (sl_system S) = Inr sy)"
    if "sl_pc S l = InChannels ps (Some (c, cbk # cbs))" "callback_fits r w c cbk (sl_system S)" for ps c cbk cbs r w
  proof -
    have h: "handling_ok l (sl_system S) ps (c, cbk # cbs)" using pc that(1) by simp
    then have "live (sl_system S) c" using conns_invD(1) [OF conns] by (auto simp: handling_ok_def)
    then show ?thesis using epoll_kernel.callback_succeeds [OF assms(1) conns h that(2)] by blast
  qed
  ultimately show ?thesis by blast
qed

text \<open>The demonstration server accepts a connection; its loop runs a round, which establishes the connection, and polls
  again when a byte has arrived.\<close>

abbreviation demo_loops_reach :: "(int \<rightharpoonup> epoll_event) loops_system \<Rightarrow> bool" where
  "demo_loops_reach \<equiv> loops_reachable epoll_table_ctl (\<lambda>k. k) {} demo_loops False srv_start"

text \<open>The history is stated for every relation that has the steps of the loops while none is handling a channel.\<close>

definition extends_idle :: "('k loops_system \<Rightarrow> 'k loops_system \<Rightarrow> bool) \<Rightarrow> ('k loops_system \<Rightarrow> 'k loops_system \<Rightarrow> bool) \<Rightarrow> bool" where
  "extends_idle step step' \<longleftrightarrow> (\<forall>S S'. step S S' \<and> (\<forall>l ps x. sl_pc S l \<noteq> InChannels ps (Some x)) \<longrightarrow> step' S S')"

lemma demo_round:
  assumes ext: "extends_idle (loop_step epoll_table_ctl (\<lambda>k. k) {} demo_loops False) step"
  shows "reachable (loops_start (\<lambda>k. k) {} srv_start) step \<lparr>sl_system = sys_two, sl_pc = (\<lambda>_. InPoll)\<rparr>"
proof -
  let ?step = "loop_step epoll_table_ctl (\<lambda>k. k) {} demo_loops False"
  let ?S = "\<lambda>sy pc. \<lparr>sl_system = sy, sl_pc = (\<lambda>_. InPoll)(1 := pc)\<rparr> :: (int \<rightharpoonup> epoll_event) loops_system"
  let ?q = "take_functors 1 sys_one"
  have idle: "step (?S sy pc) S'" if "?step (?S sy pc) S'" "\<And>ps x. pc \<noteq> InChannels ps (Some x)" for sy pc S'
    using ext that by (simp add: extends_idle_def)
  have 0: "reachable (loops_start (\<lambda>k. k) {} srv_start) step (?S sys_zero InPoll)"
    by (rule reachable_start) (simp add: loops_start_def system_start_def sys_zero_def EPollPoller_new_def fun_upd_idem)
  have 1: "?step (?S sys_zero InPoll) (?S sys_one InPoll)"
    using loop_accept [of "{}" 1 7 "?S sys_zero InPoll" epoll_table_ctl demo_loops False _ _ sys_one "\<lambda>k. k"] sys_one_accepted(1,2) by simp
  have 2: "?step (?S sys_one InPoll) (?S sys_one (InChannels [] None))"
    using loop_poll [of "?S sys_one InPoll" 1 "\<lambda>_. (0, [])" False LogTimeout "[]" "sy_pollers sys_one 1" "\<lambda>k. k" epoll_table_ctl "{}" demo_loops False]
    by (simp add: EPollPoller_poll_def size_of_int_def reports_def conn_channels_def)
  have 3: "?step (?S sys_one (InChannels [] None)) (?S ?q (InFunctors [ConnectEstablished 0]))"
    using loop_swap [of "?S sys_one (InChannels [] None)" 1 epoll_table_ctl "\<lambda>k. k" "{}" demo_loops False] sys_one_facts(4) by simp
  have 4: "?step (?S ?q (InFunctors [ConnectEstablished 0])) (?S sys_two (InFunctors []))"
    using loop_functor [of "?S ?q (InFunctors [ConnectEstablished 0])" 1 "ConnectEstablished 0" "[]" epoll_table_ctl sys_two "\<lambda>k. k" "{}" demo_loops False]
      sys_two_established by (simp add: take_functors_def del: sys_exec.simps)
  have 5: "?step (?S sys_two (InFunctors [])) (?S sys_two InPoll)"
    using loop_again [of "?S sys_two (InFunctors [])" 1 epoll_table_ctl "\<lambda>k. k" "{}" demo_loops False] by simp
  have "step (?S sys_zero InPoll) (?S sys_one InPoll)" "step (?S sys_one InPoll) (?S sys_one (InChannels [] None))"
    "step (?S sys_one (InChannels [] None)) (?S ?q (InFunctors [ConnectEstablished 0]))"
    "step (?S ?q (InFunctors [ConnectEstablished 0])) (?S sys_two (InFunctors []))" "step (?S sys_two (InFunctors [])) (?S sys_two InPoll)"
    by (rule idle [OF 1] idle [OF 2] idle [OF 3] idle [OF 4] idle [OF 5]; simp)+
  with 0 have "reachable (loops_start (\<lambda>k. k) {} srv_start) step (?S sys_two InPoll)" by (meson reachable_step)
  then show ?thesis by (simp add: fun_upd_idem)
qed

lemma demo_readable_by:
  assumes ext: "extends_idle (loop_step epoll_table_ctl (\<lambda>k. k) {} demo_loops False) step"
  defines "p \<equiv> tc_channel (sy_conns sys_two ! 0)"
  shows "\<exists>S pl. reachable (loops_start (\<lambda>k. k) {} srv_start) step S \<and> sl_pc S = (\<lambda>_. InPoll)(1 := InChannels [p] None)
    \<and> sl_system S = sys_two\<lparr>sy_pollers := (sy_pollers sys_two)(1 := pl)\<rparr>
    \<and> pl_heap pl p = (pl_heap (sy_pollers sys_two 1) p)\<lparr>ch_revents := EPOLLIN\<rparr>"
proof -
  let ?S = "\<lparr>sl_system = sys_two, sl_pc = (\<lambda>_. InPoll)\<rparr>"
  let ?wait = "\<lambda>_. (1, [(EPOLLIN, p)])"
  obtain lg active pl where poll: "EPollPoller_poll ?wait False (sy_pollers sys_two 1) = (lg, active, pl)"
    by (cases "EPollPoller_poll ?wait False (sy_pollers sys_two 1)")
  then have a: "active = [p]" "pl_heap pl p = (pl_heap (sy_pollers sys_two 1) p)\<lparr>ch_revents := EPOLLIN\<rparr>"
    by (auto simp: EPollPoller_poll_def fillActiveChannels_def size_of_int_def int_of_size_def Let_def split: if_splits)
  have "live sys_two 0" using sys_two_facts(2,5) conns_invD(1) [OF demo.system_invs(3) [OF sys_two_facts(1)]] by simp
  then have "\<exists>ev. pl_kernel (sy_pollers sys_two 1) 7 = Some (ev, p)"
    using watched_entry [OF demo.system_invs(3) [OF sys_two_facts(1)], of 0] sys_two_facts(2-4) by (auto simp: p_def)
  moreover have "ch_fd (pl_heap (sy_pollers sys_two 1) p) = 7"
    using object_ok_live(4) [OF demo.system_invs(3) [OF sys_two_facts(1)] \<open>live sys_two 0\<close>] sys_two_facts by (simp add: p_def attach_def)
  ultimately have "reports (\<lambda>k. k) (sy_pollers sys_two 1) active" by (auto simp: reports_def a(1))
  then have "loop_step epoll_table_ctl (\<lambda>k. k) {} demo_loops False ?S
      (?S\<lparr>sl_system := sys_two\<lparr>sy_pollers := (sy_pollers sys_two)(1 := pl)\<rparr>, sl_pc := (\<lambda>_. InPoll)(1 := InChannels [p] None)\<rparr>)"
    using loop_poll [of ?S 1 ?wait False lg active pl "\<lambda>k. k" epoll_table_ctl "{}" demo_loops False] poll a(1) by (simp add: conn_channels_def)
  then have "step ?S (?S\<lparr>sl_system := sys_two\<lparr>sy_pollers := (sy_pollers sys_two)(1 := pl)\<rparr>, sl_pc := (\<lambda>_. InPoll)(1 := InChannels [p] None)\<rparr>)"
    using ext by (simp add: extends_idle_def)
  from reachable_step [OF demo_round [OF ext] this] show ?thesis using a(2) by (intro exI conjI) auto
qed

lemma demo_readable:
  "\<exists>S. demo_loops_reach S \<and> sl_pc S 1 = InChannels [tc_channel (sy_conns sys_two ! 0)] None"
proof -
  have "extends_idle (loop_step epoll_table_ctl (\<lambda>k. k) {} demo_loops False) (loop_step epoll_table_ctl (\<lambda>k. k) {} demo_loops False)"
    by (simp add: extends_idle_def)
  from demo_readable_by [OF this] show ?thesis by auto
qed

theorem loops_refine_system_witness:
  "\<exists>S. sl_pc S 1 = InChannels [tc_channel (sy_conns sys_two ! 0)] None \<and> demo_reachable (sl_abs S)"
  using demo_readable loops_refine_system [OF tbl.epoll_kernel_axioms srv_start_eq] by fastforce

end
