(* ===== verification/Timestamp.thy ===== *)
theory Timestamp
  imports Complex_Main Prelude "HOL-Library.Signed_Division"
begin

text \<open>
  Time stamps (\<open>src/src/base/Timestamp.h\<close>, \<open>Timestamp.cc\<close>): microseconds since the epoch in an
  \<open>int64_t\<close>, here an \<open>int\<close> whose sums and differences wrap at 64 bits. \<open>gettimeofday\<close> (whose readings are
  far from the bounds) and \<open>localtime\<close> are arguments; the product of a \<open>double\<close> with \<open>10 ^ 6\<close> and its conversion to
  \<open>int64_t\<close> is the argument \<open>usec\<close> of \<open>addTime\<close>. Division truncates towards zero.
\<close>

type_synonym timestamp = int

text \<open>A \<open>double\<close> number of seconds; only its sign and its conversion to microseconds are used.\<close>

type_synonym seconds = rat

definition kMicroSecondsPerSecond :: int where
  "kMicroSecondsPerSecond = 1000 * 1000"

definition Timestamp_invalid :: timestamp where
  "Timestamp_invalid = 0"

definition Timestamp_now :: "int \<times> int \<Rightarrow> timestamp" where
  "Timestamp_now tv = fst tv * kMicroSecondsPerSecond + snd tv"

definition secondsSinceEpoch :: "timestamp \<Rightarrow> int" where
  "secondsSinceEpoch t = t sdiv kMicroSecondsPerSecond"

definition addTime :: "(seconds \<Rightarrow> int) \<Rightarrow> timestamp \<Rightarrow> seconds \<Rightarrow> timestamp" where
  "addTime usec t s = int64 (t + usec s)"

text \<open>The broken-down time of \<open>localtime\<close>.\<close>

record tm =
  tm_year :: int
  tm_mon :: int
  tm_mday :: int
  tm_hour :: int
  tm_min :: int
  tm_sec :: int

text \<open>The conversions \<open>%4d\<close> (padded with spaces) and \<open>%0wd\<close>.\<close>

definition fmt_space :: "nat \<Rightarrow> int \<Rightarrow> bytes" where
  "fmt_space w i = replicate (w - length (fmt_int i)) (CHR '' '') @ fmt_int i"

definition fmt_zero :: "nat \<Rightarrow> int \<Rightarrow> bytes" where
  "fmt_zero w i =
     (if i < 0 then CHR ''-'' # fmt_pad (w - 1) (fmt_nat (nat (- i))) else fmt_pad w (fmt_nat (nat i)))"

definition fmt_date :: "tm \<Rightarrow> bytes" where
  "fmt_date m =
     fmt_space 4 (tm_year m + 1900) @ ''/'' @ fmt_zero 2 (tm_mon m + 1) @ ''/''
     @ fmt_zero 2 (tm_mday m) @ '' '' @ fmt_zero 2 (tm_hour m) @ '':'' @ fmt_zero 2 (tm_min m)
     @ '':'' @ fmt_zero 2 (tm_sec m)"

definition toFormattedString :: "(int \<Rightarrow> tm) \<Rightarrow> bool \<Rightarrow> timestamp \<Rightarrow> bytes" where
  "toFormattedString localtime showMicroseconds t =
     (let seconds = t sdiv kMicroSecondsPerSecond;
          tm_time = localtime seconds
      in if showMicroseconds
         then snprintf_buf 64 (fmt_date tm_time @ ''.'' @ fmt_zero 6 (t smod kMicroSecondsPerSecond))
         else snprintf_buf 64 (fmt_date tm_time))"

section \<open>Lemmas\<close>

text \<open>A calendar time of the years 1000 to 9999.\<close>

definition valid_tm :: "tm \<Rightarrow> bool" where
  "valid_tm m \<longleftrightarrow> -900 \<le> tm_year m \<and> tm_year m < 8100 \<and> 0 \<le> tm_mon m \<and> tm_mon m < 12
     \<and> 1 \<le> tm_mday m \<and> tm_mday m \<le> 31 \<and> 0 \<le> tm_hour m \<and> tm_hour m < 24
     \<and> 0 \<le> tm_min m \<and> tm_min m < 60 \<and> 0 \<le> tm_sec m \<and> tm_sec m \<le> 60"

lemma length_fmt_zero: "0 \<le> i \<Longrightarrow> i < 10 ^ w \<Longrightarrow> 0 < w \<Longrightarrow> length (fmt_zero w i) = w"
proof -
  assume i: "0 \<le> i" "i < 10 ^ w" "0 < w"
  then have "nat i < 10 ^ w" by (simp add: nat_less_iff)
  with i have "length (fmt_nat (nat i)) \<le> w" by (intro length_fmt_nat_le)
  with i show ?thesis by (simp add: fmt_zero_def fmt_pad_def)
qed

lemma length_fmt_space: "0 \<le> i \<Longrightarrow> i < 10 ^ w \<Longrightarrow> 0 < w \<Longrightarrow> length (fmt_space w i) = w"
proof -
  assume i: "0 \<le> i" "i < 10 ^ w" "0 < w"
  then have "nat i < 10 ^ w" by (simp add: nat_less_iff)
  with i have "length (fmt_nat (nat i)) \<le> w" by (intro length_fmt_nat_le)
  with i show ?thesis by (simp add: fmt_space_def fmt_int_def)
qed

lemma length_fmt_date:
  assumes "valid_tm m"
  shows "length (fmt_date m) = 19"
proof -
  have "length (fmt_space 4 (tm_year m + 1900)) = 4"
    using assms by (intro length_fmt_space) (auto simp: valid_tm_def)
  moreover have "length (fmt_zero 2 (tm_mon m + 1)) = 2" "length (fmt_zero 2 (tm_mday m)) = 2"
    "length (fmt_zero 2 (tm_hour m)) = 2" "length (fmt_zero 2 (tm_min m)) = 2"
    "length (fmt_zero 2 (tm_sec m)) = 2"
    using assms by (auto simp: valid_tm_def intro!: length_fmt_zero)
  ultimately show ?thesis by (simp add: fmt_date_def)
qed

lemma fmt_date_prefix:
  assumes "valid_tm m"
  shows "take 17 (fmt_date m)
    = fmt_space 4 (tm_year m + 1900) @ ''/'' @ fmt_zero 2 (tm_mon m + 1) @ ''/''
      @ fmt_zero 2 (tm_mday m) @ '' '' @ fmt_zero 2 (tm_hour m) @ '':'' @ fmt_zero 2 (tm_min m) @ '':''"
    (is "_ = ?p")
proof -
  have sec: "length (fmt_zero 2 (tm_sec m)) = 2"
    using assms by (auto simp: valid_tm_def intro!: length_fmt_zero)
  have split: "fmt_date m = ?p @ fmt_zero 2 (tm_sec m)" by (simp add: fmt_date_def)
  with length_fmt_date [OF assms] sec have "length ?p = 17" by simp
  then show ?thesis by (metis split append_eq_conv_conj)
qed

lemma Timestamp_now_seconds:
  assumes "0 \<le> s" "0 \<le> u" "u < kMicroSecondsPerSecond"
  shows "secondsSinceEpoch (Timestamp_now (s, u)) = s"
  using assms
  by (simp add: secondsSinceEpoch_def Timestamp_now_def signed_divide_int_def kMicroSecondsPerSecond_def
      sgn_if abs_if)

end
