(* ===== verification/HttpContext.thy ===== *)
theory HttpContext
  imports Buffer Timestamp
begin

text \<open>
  Requests and their parser (\<open>src/src/http/HttpRequest.h\<close>, \<open>HttpContext.h\<close>, \<open>HttpContext.cc\<close>).
  A pointer range of the source is the byte string it delimits. The parsing loop is a partial
  function: \<open>None\<close> is a call that never returns, which the code does from the states
  \<open>kExpectBody\<close> and \<open>kGotAll\<close>. \<open>http_parse\<close> is the same automaton on plain byte strings; the
  buffer version is shown to refine it, and a printed request is shown to parse back.
\<close>

section \<open>Requests\<close>

datatype Method = kInvalid | kGet | kPost | kHead | kPut | kDelete

datatype Version = kUnknown | kHttp10 | kHttp11

record http_request =
  rq_method :: Method
  rq_version :: Version
  rq_path :: bytes
  rq_query :: bytes
  rq_receiveTime :: timestamp
  rq_headers :: "bytes \<rightharpoonup> bytes"

text \<open>A default-constructed request: invalid method, unknown version, everything else empty.\<close>

definition HttpRequest_new :: http_request where
  "HttpRequest_new = \<lparr>rq_method = kInvalid, rq_version = kUnknown, rq_path = [], rq_query = [],
     rq_receiveTime = Timestamp_invalid, rq_headers = Map.empty\<rparr>"

definition method_of :: "bytes \<Rightarrow> Method" where
  "method_of m =
     (if m = ''GET'' then kGet
      else if m = ''POST'' then kPost
      else if m = ''HEAD'' then kHead
      else if m = ''PUT'' then kPut
      else if m = ''DELETE'' then kDelete
      else kInvalid)"

definition setMethod :: "bytes \<Rightarrow> http_request \<Rightarrow> bool \<times> http_request" where
  "setMethod m r = (let r' = r\<lparr>rq_method := method_of m\<rparr> in (rq_method r' \<noteq> kInvalid, r'))"

fun methodString :: "Method \<Rightarrow> bytes" where
  "methodString kGet = ''GET''"
| "methodString kPost = ''POST''"
| "methodString kHead = ''HEAD''"
| "methodString kPut = ''PUT''"
| "methodString kDelete = ''DELETE''"
| "methodString kInvalid = ''UNKNOWN''"

definition setVersion :: "Version \<Rightarrow> http_request \<Rightarrow> http_request" where
  "setVersion v r = r\<lparr>rq_version := v\<rparr>"

definition setPath :: "bytes \<Rightarrow> http_request \<Rightarrow> http_request" where
  "setPath p r = r\<lparr>rq_path := p\<rparr>"

definition setQuery :: "bytes \<Rightarrow> http_request \<Rightarrow> http_request" where
  "setQuery q r = r\<lparr>rq_query := q\<rparr>"

definition setReceiveTime :: "timestamp \<Rightarrow> http_request \<Rightarrow> http_request" where
  "setReceiveTime t r = r\<lparr>rq_receiveTime := t\<rparr>"

text \<open>The trailing-space loop: while the last character is a space, drop it.\<close>

definition trim_right :: "bytes \<Rightarrow> bytes" where
  "trim_right s = rev (dropWhile is_space (rev s))"

text \<open>\<open>addHeader(start, colon, end)\<close> on the line \<open>[start, end)\<close> with the colon at an offset.\<close>

definition addHeader :: "bytes \<Rightarrow> nat \<Rightarrow> http_request \<Rightarrow> http_request" where
  "addHeader line colon r =
     (let field = take colon line;
          value = trim_right (dropWhile is_space (drop (Suc colon) line))
      in r\<lparr>rq_headers := (rq_headers r)(field \<mapsto> value)\<rparr>)"

definition getHeader :: "bytes \<Rightarrow> http_request \<Rightarrow> bytes" where
  "getHeader field r = (case rq_headers r field of Some v \<Rightarrow> v | None \<Rightarrow> [])"

definition HttpRequest_swap :: "http_request \<Rightarrow> http_request \<Rightarrow> http_request \<times> http_request" where
  "HttpRequest_swap a b =
     (a\<lparr>rq_method := rq_method b, rq_version := rq_version b, rq_path := rq_path b, rq_query := rq_query b,
        rq_receiveTime := rq_receiveTime b, rq_headers := rq_headers b\<rparr>,
      b\<lparr>rq_method := rq_method a, rq_version := rq_version a, rq_path := rq_path a, rq_query := rq_query a,
        rq_receiveTime := rq_receiveTime a, rq_headers := rq_headers a\<rparr>)"

section \<open>The parsing automaton\<close>

datatype HttpRequestParseState = kExpectRequestLine | kExpectHeaders | kExpectBody | kGotAll

record http_context =
  cx_state :: HttpRequestParseState
  cx_request :: http_request

definition HttpContext_new :: http_context where
  "HttpContext_new = \<lparr>cx_state = kExpectRequestLine, cx_request = HttpRequest_new\<rparr>"

definition gotAll :: "http_context \<Rightarrow> bool" where
  "gotAll c \<longleftrightarrow> cx_state c = kGotAll"

definition HttpContext_reset :: "http_context \<Rightarrow> http_context" where
  "HttpContext_reset c =
     (let c' = c\<lparr>cx_state := kExpectRequestLine\<rparr>;
          dummy = HttpRequest_new
      in c'\<lparr>cx_request := fst (HttpRequest_swap (cx_request c') dummy)\<rparr>)"

text \<open>\<open>processRequestLine(begin, end)\<close> on the line \<open>[begin, end)\<close>.\<close>

definition processVersion :: "bytes \<Rightarrow> http_request \<Rightarrow> bool \<times> http_request" where
  "processVersion v r =
     (if length v = 8 \<and> take 7 v = ''HTTP/1.''
      then if v ! 7 = CHR ''1'' then (True, setVersion kHttp11 r)
           else if v ! 7 = CHR ''0'' then (True, setVersion kHttp10 r)
           else (False, r)
      else (False, r))"

definition processTarget :: "bytes \<Rightarrow> http_request \<Rightarrow> http_request" where
  "processTarget target r =
     (let question = std_find (CHR ''?'') target
      in if question \<noteq> length target
         then setQuery (drop question target) (setPath (take question target) r)
         else setPath target r)"

definition processRequestLine :: "bytes \<Rightarrow> http_request \<Rightarrow> bool \<times> http_request" where
  "processRequestLine line r =
     (let space = std_find (CHR '' '') line
      in if space = length line then (False, r)
         else let (valid, r1) = setMethod (take space line) r
           in if \<not> valid then (False, r1)
              else let rest = drop (Suc space) line;
                       space2 = std_find (CHR '' '') rest
                in if space2 = length rest then (False, r1)
                   else processVersion (drop (Suc space2) rest)
                          (processTarget (take space2 rest) r1))"

text \<open>The bytes from \<open>peek()\<close> up to a pointer.\<close>

definition line_at :: "buffer \<Rightarrow> nat \<Rightarrow> bytes" where
  "line_at b crlf = take (crlf - peek b) (drop (peek b) (bufferData b))"

partial_function (option) parse_loop ::
  "timestamp \<Rightarrow> bool \<Rightarrow> http_context \<Rightarrow> buffer \<Rightarrow> (bool \<times> http_context \<times> buffer) option"
where
  "parse_loop t ok c b =
     (case cx_state c of
        kExpectRequestLine \<Rightarrow>
          (case findCRLF b of
             None \<Rightarrow> Some (ok, c, b)
           | Some crlf \<Rightarrow>
               (let (ok', r) = processRequestLine (line_at b crlf) (cx_request c)
                in if ok'
                   then parse_loop t ok'
                          \<lparr>cx_state = kExpectHeaders, cx_request = setReceiveTime t r\<rparr>
                          (retrieveUntil (crlf + 2) b)
                   else Some (ok', c\<lparr>cx_request := r\<rparr>, b)))
      | kExpectHeaders \<Rightarrow>
          (case findCRLF b of
             None \<Rightarrow> Some (ok, c, b)
           | Some crlf \<Rightarrow>
               (let line = line_at b crlf;
                    colon = std_find (CHR '':'') line
                in if colon \<noteq> length line
                   then parse_loop t ok (c\<lparr>cx_request := addHeader line colon (cx_request c)\<rparr>)
                          (retrieveUntil (crlf + 2) b)
                   else Some (ok, c\<lparr>cx_state := kGotAll\<rparr>, retrieveUntil (crlf + 2) b)))
      | kExpectBody \<Rightarrow> parse_loop t ok c b
      | kGotAll \<Rightarrow> parse_loop t ok c b)"

definition parseRequest ::
  "http_context \<Rightarrow> buffer \<Rightarrow> timestamp \<Rightarrow> (bool \<times> http_context \<times> buffer) option"
where
  "parseRequest c buf receiveTime = parse_loop receiveTime False c buf"

section \<open>The automaton on byte strings\<close>

text \<open>The bytes before the first CRLF and those after it.\<close>

definition split_line :: "bytes \<Rightarrow> (bytes \<times> bytes) option" where
  "split_line s =
     (let k = std_search kCRLF s
      in if k = length s then None else Some (take k s, drop (k + 2) s))"

lemma split_line_shorter: "split_line s = Some (l, s') \<Longrightarrow> length s' < length s"
  using std_search_le [of kCRLF s]
  by (auto simp: split_line_def Let_def split: if_splits)

text \<open>Header lines up to one without a colon, or to the end of the available lines.\<close>

function http_headers :: "http_request \<Rightarrow> bytes \<Rightarrow> bool \<times> http_request \<times> bytes" where
  "http_headers r s =
     (case split_line s of
        None \<Rightarrow> (False, r, s)
      | Some (line, s') \<Rightarrow>
          (let colon = std_find (CHR '':'') line
           in if colon \<noteq> length line then http_headers (addHeader line colon r) s'
              else (True, r, s')))"
  by pat_completeness auto
termination
  by (relation "measure (\<lambda>(r, s). length s)") (auto dest: split_line_shorter)

declare http_headers.simps [simp del]

definition headers_context :: "bool \<times> http_request \<times> bytes \<Rightarrow> http_context \<times> bytes" where
  "headers_context x =
     (case x of (fin, r, s) \<Rightarrow> (\<lparr>cx_state = (if fin then kGotAll else kExpectHeaders), cx_request = r\<rparr>, s))"

definition http_parse ::
  "timestamp \<Rightarrow> http_request \<Rightarrow> bytes \<Rightarrow> bool \<times> http_context \<times> bytes"
where
  "http_parse t r s =
     (case split_line s of
        None \<Rightarrow> (False, \<lparr>cx_state = kExpectRequestLine, cx_request = r\<rparr>, s)
      | Some (line, s') \<Rightarrow>
          (case processRequestLine line r of
             (True, r') \<Rightarrow> (True, headers_context (http_headers (setReceiveTime t r') s'))
           | (False, r') \<Rightarrow> (False, \<lparr>cx_state = kExpectRequestLine, cx_request = r'\<rparr>, s)))"

section \<open>Refinement\<close>

lemma findCRLF_None_iff: "buf_ok b \<Longrightarrow> findCRLF b = None \<longleftrightarrow> split_line (contents b) = None"
  by (simp add: findCRLF_contents split_line_def Let_def)

lemma findCRLF_Some:
  assumes ok: "buf_ok b" and crlf: "findCRLF b = Some p"
  shows "split_line (contents b) = Some (line_at b p, contents (retrieveUntil (p + 2) b))"
    and "buf_ok (retrieveUntil (p + 2) b)"
proof -
  let ?k = "std_search kCRLF (contents b)"
  from crlf have p: "p = peek b + ?k" and k: "?k < length (contents b)"
    using std_search_le [of kCRLF "contents b"]
    by (auto simp: findCRLF_contents [OF ok] split: if_splits)
  have k2: "?k + 2 \<le> readableBytes b"
    using std_search_found [OF k] by (simp add: readableBytes_ok [OF ok] kCRLF_def)
  have until: "retrieveUntil (p + 2) b = retrieve (?k + 2) b"
    using retrieveUntil_offset [OF ok k2] by (simp add: p add.assoc)
  have "line_at b p = take ?k (contents b)"
    using k ok by (simp add: line_at_def p length_contents) (simp add: contents_def peek_def min_def)
  then show "split_line (contents b) = Some (line_at b p, contents (retrieveUntil (p + 2) b))"
    using k until ok by (simp add: split_line_def Let_def contents_retrieve)
  show "buf_ok (retrieveUntil (p + 2) b)"
    using until ok by (simp add: retrieve_ok)
qed

lemma parse_loop_headers:
  "buf_ok b \<Longrightarrow> s = contents b \<Longrightarrow> \<exists>b'. parse_loop t ok \<lparr>cx_state = kExpectHeaders, cx_request = r\<rparr> b
      = Some (ok, fst (headers_context (http_headers r s)), b')
    \<and> buf_ok b' \<and> contents b' = snd (headers_context (http_headers r s))"
proof (induction r s arbitrary: b rule: http_headers.induct)
  case (1 r s)
  show ?case
  proof (cases "findCRLF b")
    case None
    with "1.prems" have "split_line s = None" by (simp add: findCRLF_None_iff)
    with None "1.prems" show ?thesis
      by (simp add: parse_loop.simps [of t ok _ b] http_headers.simps [of r] headers_context_def)
  next
    case (Some p)
    let ?b = "retrieveUntil (p + 2) b" and ?line = "line_at b p"
    from findCRLF_Some [OF "1.prems"(1) Some] "1.prems"(2)
    have sp: "split_line s = Some (?line, contents ?b)" and ok': "buf_ok ?b" by simp_all
    show ?thesis
    proof (cases "std_find (CHR '':'') ?line = length ?line")
      case True
      with sp ok' Some show ?thesis
        by (simp add: parse_loop.simps [of t ok _ b] http_headers.simps [of r]
            headers_context_def Let_def)
    next
      case False
      with "1.IH" [OF sp refl refl False ok' refl] sp Some show ?thesis
        by (simp add: parse_loop.simps [of t ok "\<lparr>cx_state = kExpectHeaders, cx_request = r\<rparr>" b]
            http_headers.simps [of r] Let_def)
    qed
  qed
qed

lemma parse_loop_request:
  assumes ok: "buf_ok b"
  shows "\<exists>b'. parse_loop t False \<lparr>cx_state = kExpectRequestLine, cx_request = r\<rparr> b
      = Some (fst (http_parse t r (contents b)), fst (snd (http_parse t r (contents b))), b')
    \<and> buf_ok b' \<and> contents b' = snd (snd (http_parse t r (contents b)))"
proof (cases "findCRLF b")
  case None
  with ok have "split_line (contents b) = None" by (simp add: findCRLF_None_iff)
  with None ok show ?thesis
    by (simp add: parse_loop.simps [of t _ _ b] http_parse_def)
next
  case (Some p)
  let ?b = "retrieveUntil (p + 2) b" and ?line = "line_at b p"
  from findCRLF_Some [OF ok Some]
  have sp: "split_line (contents b) = Some (?line, contents ?b)" and ok': "buf_ok ?b" by simp_all
  obtain v r' where pr: "processRequestLine ?line r = (v, r')" by (cases "processRequestLine ?line r")
  show ?thesis
  proof (cases v)
    case False
    with sp pr Some ok show ?thesis
      by (simp add: parse_loop.simps [of t _ _ b] http_parse_def)
  next
    case True
    with sp pr Some ok parse_loop_headers [OF ok' refl, of t True "setReceiveTime t r'"] show ?thesis
      by (simp add: parse_loop.simps [of t False "\<lparr>cx_state = kExpectRequestLine, cx_request = r\<rparr>" b]
          http_parse_def)
  qed
qed

section \<open>Printing and parsing back\<close>

fun versionString :: "Version \<Rightarrow> bytes" where
  "versionString kHttp10 = ''HTTP/1.0''"
| "versionString kHttp11 = ''HTTP/1.1''"
| "versionString kUnknown = []"

text \<open>A request as a client prints it.\<close>

definition render_request_line :: "Method \<Rightarrow> bytes \<Rightarrow> bytes \<Rightarrow> Version \<Rightarrow> bytes" where
  "render_request_line m path query v =
     methodString m @ '' '' @ path @ query @ '' '' @ versionString v"

definition render_header :: "bytes \<times> bytes \<Rightarrow> bytes" where
  "render_header h = fst h @ '': '' @ snd h @ kCRLF"

definition render_request ::
  "Method \<Rightarrow> bytes \<Rightarrow> bytes \<Rightarrow> Version \<Rightarrow> (bytes \<times> bytes) list \<Rightarrow> bytes"
where
  "render_request m path query v hs =
     render_request_line m path query v @ kCRLF @ concat (map render_header hs) @ kCRLF"

definition no_cr :: "bytes \<Rightarrow> bool" where
  "no_cr s \<longleftrightarrow> CHR 0x0D \<notin> set s"

definition wf_path :: "bytes \<Rightarrow> bool" where
  "wf_path p \<longleftrightarrow> no_cr p \<and> CHR '' '' \<notin> set p \<and> CHR ''?'' \<notin> set p"

definition wf_query :: "bytes \<Rightarrow> bool" where
  "wf_query q \<longleftrightarrow> no_cr q \<and> CHR '' '' \<notin> set q \<and> (case q of [] \<Rightarrow> True | c # _ \<Rightarrow> c = CHR ''?'')"

definition wf_header :: "bytes \<times> bytes \<Rightarrow> bool" where
  "wf_header h \<longleftrightarrow> no_cr (fst h) \<and> CHR '':'' \<notin> set (fst h) \<and> no_cr (snd h)
     \<and> dropWhile is_space (snd h) = snd h \<and> trim_right (snd h) = snd h"

definition wf_request :: "Method \<Rightarrow> bytes \<Rightarrow> bytes \<Rightarrow> Version \<Rightarrow> (bytes \<times> bytes) list \<Rightarrow> bool" where
  "wf_request m path query v hs \<longleftrightarrow>
     m \<noteq> kInvalid \<and> v \<noteq> kUnknown \<and> wf_path path \<and> wf_query query \<and> list_all wf_header hs"

lemma split_line_render: "no_cr l \<Longrightarrow> split_line (l @ kCRLF @ s) = Some (l, s)"
proof -
  assume "no_cr l"
  then have "std_search kCRLF (l @ kCRLF @ s) = length l"
    by (induction l) (auto simp: kCRLF_def no_cr_def)
  then show ?thesis by (simp add: split_line_def Let_def kCRLF_def)
qed

lemma split_line_incomplete: "no_cr s \<Longrightarrow> split_line s = None"
proof -
  assume "no_cr s"
  then have "std_search kCRLF s = length s"
    by (induction s) (auto simp: kCRLF_def no_cr_def)
  then show ?thesis by (simp add: split_line_def)
qed

lemma method_of_methodString [simp]: "m \<noteq> kInvalid \<Longrightarrow> method_of (methodString m) = m"
  by (cases m) (simp_all add: method_of_def)

lemma space_notin_methodString [simp]: "CHR '' '' \<notin> set (methodString m)"
  by (cases m) simp_all

lemma no_cr_methodString [simp]: "CHR 0x0D \<notin> set (methodString m)"
  by (cases m) simp_all

lemma no_cr_versionString [simp]: "CHR 0x0D \<notin> set (versionString v)"
  by (cases v) simp_all

lemma space_notin_versionString [simp]: "CHR '' '' \<notin> set (versionString v)"
  by (cases v) simp_all

lemma processVersion_versionString:
  "v \<noteq> kUnknown \<Longrightarrow> processVersion (versionString v) r = (True, setVersion v r)"
  by (cases v) (simp_all add: processVersion_def)

lemma processTarget_render:
  assumes "wf_path path" "wf_query query"
  shows "processTarget (path @ query) r
    = (if query = [] then setPath path r else setQuery query (setPath path r))"
proof (cases query)
  case Nil
  with assms show ?thesis by (simp add: processTarget_def wf_path_def)
next
  case (Cons c q)
  with assms have "std_find (CHR ''?'') (path @ query) = length path"
    by (simp add: std_find_append wf_path_def wf_query_def)
  with Cons show ?thesis by (simp add: processTarget_def)
qed

lemma processRequestLine_render:
  assumes "m \<noteq> kInvalid" "v \<noteq> kUnknown" "wf_path path" "wf_query query"
  shows "processRequestLine (render_request_line m path query v) r
    = (True, setVersion v (if query = [] then setPath path (r\<lparr>rq_method := m\<rparr>)
        else setQuery query (setPath path (r\<lparr>rq_method := m\<rparr>))))"
proof -
  have sp: "CHR '' '' \<notin> set (path @ query)"
    using assms by (auto simp: wf_path_def wf_query_def)
  have "std_find (CHR '' '') (render_request_line m path query v) = length (methodString m)"
    by (simp add: render_request_line_def std_find_append)
  moreover have "std_find (CHR '' '') ((path @ query) @ '' '' @ versionString v) = length (path @ query)"
    using sp by (simp add: std_find_append)
  ultimately show ?thesis
    using assms processTarget_render [OF assms(3,4)]
    by (simp add: processRequestLine_def render_request_line_def setMethod_def Let_def
        processVersion_versionString)
qed

lemma addHeader_render:
  assumes "wf_header h"
  shows "addHeader (fst h @ '': '' @ snd h) (length (fst h)) r
    = r\<lparr>rq_headers := (rq_headers r)(fst h \<mapsto> snd h)\<rparr>"
  using assms by (simp add: addHeader_def wf_header_def is_space_def)

lemma http_headers_render:
  "list_all wf_header hs \<Longrightarrow>
   http_headers r (concat (map render_header hs) @ kCRLF @ rest)
     = (True, r\<lparr>rq_headers := rq_headers r ++ map_of (rev hs)\<rparr>, rest)"
proof (induction hs arbitrary: r)
  case Nil
  have "split_line (kCRLF @ rest) = Some ([], rest)"
    using split_line_render [of "[]" rest] by (simp add: no_cr_def)
  then show ?case by (simp add: http_headers.simps [of r])
next
  case (Cons h hs)
  let ?line = "fst h @ '': '' @ snd h"
  let ?s = "concat (map render_header hs) @ kCRLF @ rest"
  from Cons.prems have h: "wf_header h" by simp
  then have "split_line (?line @ kCRLF @ ?s) = Some (?line, ?s)"
    by (intro split_line_render) (auto simp: wf_header_def no_cr_def)
  moreover have "std_find (CHR '':'') ?line = length (fst h)"
    using h by (simp add: wf_header_def std_find_append)
  ultimately have "http_headers r (concat (map render_header (h # hs)) @ kCRLF @ rest)
      = http_headers (r\<lparr>rq_headers := (rq_headers r)(fst h \<mapsto> snd h)\<rparr>) ?s"
    using addHeader_render [OF h, of r]
    by (simp add: http_headers.simps [of r] render_header_def)
  also have "\<dots> = (True, r\<lparr>rq_headers := (rq_headers r)(fst h \<mapsto> snd h) ++ map_of (rev hs)\<rparr>, rest)"
    using Cons.prems by (subst Cons.IH) simp_all
  also have "(rq_headers r)(fst h \<mapsto> snd h) ++ map_of (rev hs) = rq_headers r ++ map_of (rev (h # hs))"
    by (cases h) (auto simp: map_add_def fun_eq_iff split: option.splits)
  finally show ?case .
qed

lemma http_parse_render:
  assumes "wf_request m path query v hs"
  shows "http_parse t HttpRequest_new (render_request m path query v hs @ rest)
    = (True, \<lparr>cx_state = kGotAll, cx_request =
         \<lparr>rq_method = m, rq_version = v, rq_path = path, rq_query = query, rq_receiveTime = t,
          rq_headers = map_of (rev hs)\<rparr>\<rparr>, rest)"
proof -
  have wf: "m \<noteq> kInvalid" "v \<noteq> kUnknown" "wf_path path" "wf_query query" "list_all wf_header hs"
    using assms by (simp_all add: wf_request_def)
  have "no_cr (render_request_line m path query v)"
    using wf by (simp add: no_cr_def render_request_line_def wf_path_def wf_query_def)
  from split_line_render [OF this, of "concat (map render_header hs) @ kCRLF @ rest"]
  show ?thesis
    using wf
    by (simp add: http_parse_def render_request_def processRequestLine_render http_headers_render
        headers_context_def setVersion_def setPath_def setQuery_def setReceiveTime_def HttpRequest_new_def)
qed

section \<open>Properties\<close>

text \<open>Called in the state \<open>kGotAll\<close> or \<open>kExpectBody\<close>, \<open>parseRequest\<close> never returns:
  no branch of its loop clears \<open>hasMore\<close>.\<close>

lemma parseRequest_diverges:
  assumes "cx_state c = kGotAll \<or> cx_state c = kExpectBody"
  shows "parseRequest c b t = None"
proof -
  have "parse_loop t ok c b = Some r \<Longrightarrow> cx_state c \<noteq> kGotAll \<and> cx_state c \<noteq> kExpectBody" for ok r
  proof (rule parse_loop.raw_induct
      [where P = "\<lambda>t ok c b r. cx_state c \<noteq> kGotAll \<and> cx_state c \<noteq> kExpectBody"])
  qed (auto split: HttpRequestParseState.splits)
  with assms show ?thesis
    by (cases "parse_loop t False c b") (auto simp: parseRequest_def)
qed

text \<open>Claim C18. \<open>parseRequest\<close> on a well-formed buffer, in each state of the context. Fresh
  (\<open>kExpectRequestLine\<close>), it returns, and what it returns, the context it leaves and the bytes it leaves in the
  buffer are those of the automaton \<open>http_parse\<close> on the readable bytes. Resumed in the middle of the headers
  (\<open>kExpectHeaders\<close>), it returns with the context and the bytes of the automaton of the headers, but always
  reports failure, since only a request line sets its result. In the two other states it never returns.\<close>

theorem parseRequest_refines:
  assumes "buf_ok b"
  shows "case cx_state c of
      kExpectRequestLine \<Rightarrow> \<exists>ok c' b'. parseRequest c b t = Some (ok, c', b') \<and> buf_ok b'
        \<and> http_parse t (cx_request c) (contents b) = (ok, c', contents b')
    | kExpectHeaders \<Rightarrow> \<exists>c' b'. parseRequest c b t = Some (False, c', b') \<and> buf_ok b'
        \<and> headers_context (http_headers (cx_request c) (contents b)) = (c', contents b')
    | _ \<Rightarrow> parseRequest c b t = None"
proof (cases "cx_state c")
  case kExpectRequestLine
  then have "c = \<lparr>cx_state = kExpectRequestLine, cx_request = cx_request c\<rparr>" by simp
  with parse_loop_request [OF assms, of t "cx_request c"] kExpectRequestLine show ?thesis
    by simp (metis parseRequest_def prod.collapse)
next
  case kExpectHeaders
  then have "c = \<lparr>cx_state = kExpectHeaders, cx_request = cx_request c\<rparr>" by simp
  with parse_loop_headers [OF assms refl, of t False "cx_request c"] kExpectHeaders show ?thesis
    by simp (metis parseRequest_def prod.collapse)
qed (simp_all add: parseRequest_diverges)

theorem parseRequest_refines_witness:
  "(\<exists>ok c' b'. parseRequest HttpContext_new (Buffer_new 16) 7 = Some (ok, c', b') \<and> buf_ok b'
      \<and> http_parse 7 HttpRequest_new (contents (Buffer_new 16)) = (ok, c', contents b'))
    \<and> parseRequest (HttpContext_new\<lparr>cx_state := kGotAll\<rparr>) (Buffer_new 16) 7 = None"
  using parseRequest_refines [of "Buffer_new 16" HttpContext_new 7]
    parseRequest_refines [of "Buffer_new 16" "HttpContext_new\<lparr>cx_state := kGotAll\<rparr>" 7]
  by (simp add: HttpContext_new_def)

text \<open>Claim C13. A request printed by a client parses back: method, target, version, every header
  and the time stamp are those printed, and the bytes after it stay in the buffer.\<close>

theorem parse_render_roundtrip:
  assumes "buf_ok b" and "wf_request m path query v hs"
    and "contents b = render_request m path query v hs @ rest"
  shows "\<exists>b'. parseRequest HttpContext_new b t
      = Some (True, \<lparr>cx_state = kGotAll, cx_request =
         \<lparr>rq_method = m, rq_version = v, rq_path = path, rq_query = query, rq_receiveTime = t,
          rq_headers = map_of (rev hs)\<rparr>\<rparr>, b')
    \<and> buf_ok b' \<and> contents b' = rest"
  using parse_loop_request [OF assms(1), of t HttpRequest_new]
  by (simp add: parseRequest_def HttpContext_new_def assms(3) http_parse_render [OF assms(2)])

definition sample_buffer :: buffer where
  "sample_buffer =
     (let s = render_request kGet ''/hello'' ''?a=1'' kHttp11 [(''Host'', ''localhost'')] @ ''rest''
      in \<lparr>bufferData = replicate 8 (CHR 0x00) @ s, readerIndex = 8, writerIndex = 8 + length s\<rparr>)"

theorem parse_render_roundtrip_witness:
  "\<exists>b'. parseRequest HttpContext_new sample_buffer 5
      = Some (True, \<lparr>cx_state = kGotAll, cx_request =
         \<lparr>rq_method = kGet, rq_version = kHttp11, rq_path = ''/hello'', rq_query = ''?a=1'',
          rq_receiveTime = 5, rq_headers = map_of (rev [(''Host'', ''localhost'')])\<rparr>\<rparr>, b')
    \<and> buf_ok b' \<and> contents b' = ''rest''"
  by (rule parse_render_roundtrip)
     (simp_all add: sample_buffer_def Let_def buf_ok_def kCheapPrepend_def contents_def wf_request_def
       wf_path_def wf_query_def wf_header_def no_cr_def trim_right_def is_space_def
       render_request_def render_request_line_def render_header_def kCRLF_def)

end
