(* ===== verification/HttpResponse.thy ===== *)
theory HttpResponse
  imports HttpContext
begin

text \<open>
  Responses (\<open>src/src/http/HttpResponse.h\<close>, \<open>HttpResponse.cc\<close>): the setters, and the
  serialisation into a network buffer as the sequence of appends the code makes. The iteration
  order of the \<open>std::unordered_map\<close> of headers is the argument \<open>iter\<close>.
\<close>

datatype HttpStatusCode =
    kUnknownCode | k200Ok | k301MovedPermanently | k400BadRequest | k404NotFound

fun status_number :: "HttpStatusCode \<Rightarrow> int" where
  "status_number kUnknownCode = 0"
| "status_number k200Ok = 200"
| "status_number k301MovedPermanently = 301"
| "status_number k400BadRequest = 400"
| "status_number k404NotFound = 404"

record http_response =
  rs_headers :: "bytes \<rightharpoonup> bytes"
  rs_statusCode :: HttpStatusCode
  rs_statusMessage :: bytes
  rs_closeConnection :: bool
  rs_body :: bytes

definition HttpResponse_new :: "bool \<Rightarrow> http_response" where
  "HttpResponse_new close = \<lparr>rs_headers = Map.empty, rs_statusCode = kUnknownCode,
     rs_statusMessage = [], rs_closeConnection = close, rs_body = []\<rparr>"

definition setStatusCode :: "HttpStatusCode \<Rightarrow> http_response \<Rightarrow> http_response" where
  "setStatusCode code r = r\<lparr>rs_statusCode := code\<rparr>"

definition setStatusMessage :: "bytes \<Rightarrow> http_response \<Rightarrow> http_response" where
  "setStatusMessage msg r = r\<lparr>rs_statusMessage := msg\<rparr>"

definition setCloseConnection :: "bool \<Rightarrow> http_response \<Rightarrow> http_response" where
  "setCloseConnection on r = r\<lparr>rs_closeConnection := on\<rparr>"

definition HttpResponse_addHeader :: "bytes \<Rightarrow> bytes \<Rightarrow> http_response \<Rightarrow> http_response" where
  "HttpResponse_addHeader key v r = r\<lparr>rs_headers := (rs_headers r)(key \<mapsto> v)\<rparr>"

definition setContentType :: "bytes \<Rightarrow> http_response \<Rightarrow> http_response" where
  "setContentType contentType r = HttpResponse_addHeader ''Content-Type'' contentType r"

definition setBody :: "bytes \<Rightarrow> http_response \<Rightarrow> http_response" where
  "setBody body r = r\<lparr>rs_body := body\<rparr>"

section \<open>Serialisation\<close>

text \<open>The arguments of the successive \<open>output->append\<close> calls.\<close>

definition response_chunks ::
  "((bytes \<rightharpoonup> bytes) \<Rightarrow> (bytes \<times> bytes) list) \<Rightarrow> http_response \<Rightarrow> bytes list"
where
  "response_chunks iter r =
     [c_str (snprintf_buf 32 (''HTTP/1.1 '' @ fmt_int (status_number (rs_statusCode r)) @ '' '')),
      rs_statusMessage r, kCRLF]
     @ (if rs_closeConnection r then [''Connection: close'' @ kCRLF]
        else [c_str (snprintf_buf 32 (''Content-Length: '' @ fmt_nat (length (rs_body r)) @ kCRLF)),
              ''Connection: Keep-Alive'' @ kCRLF])
     @ concat (map (\<lambda>(k, v). [k, '': '', v, kCRLF]) (iter (rs_headers r)))
     @ [kCRLF, rs_body r]"

fun append_all :: "bytes list \<Rightarrow> buffer \<Rightarrow> buffer res" where
  "append_all [] b = Inr b"
| "append_all (s # ss) b = bindR (Buffer_append s b) (append_all ss)"

definition appendToBuffer ::
  "((bytes \<rightharpoonup> bytes) \<Rightarrow> (bytes \<times> bytes) list) \<Rightarrow> http_response \<Rightarrow> buffer \<Rightarrow> buffer res"
where
  "appendToBuffer iter r output = append_all (response_chunks iter r) output"

lemma append_all_ok:
  "\<lbrakk>buf_ok b; length (concat ss) < 2 ^ 31; length (bufferData b) + length (concat ss) < 2 ^ 63\<rbrakk> \<Longrightarrow>
   \<exists>b'. append_all ss b = Inr b' \<and> buf_ok b' \<and> contents b' = contents b @ concat ss"
proof (induction ss arbitrary: b)
  case Nil
  then show ?case by simp
next
  case (Cons s ss)
  then have "length s < 2 ^ 31" "length (bufferData b) + length s < 2 ^ 63" by simp_all
  from Buffer_append_ok [OF Cons.prems(1) this] obtain b1 where
    b1: "Buffer_append s b = Inr b1" "buf_ok b1" "contents b1 = contents b @ s"
      "length (bufferData b1) \<le> length (bufferData b) + length s" by blast
  have "length (concat ss) < 2 ^ 31" "length (bufferData b1) + length (concat ss) < 2 ^ 63"
    using Cons.prems b1(4) by simp_all
  from Cons.IH [OF b1(2) this] b1 show ?case by auto
qed

section \<open>The text of a response\<close>

definition render_headers :: "(bytes \<times> bytes) list \<Rightarrow> bytes" where
  "render_headers hs = concat (map (\<lambda>(k, v). k @ '': '' @ v @ kCRLF) hs)"

definition response_text :: "(bytes \<times> bytes) list \<Rightarrow> http_response \<Rightarrow> bytes" where
  "response_text hs r =
     ''HTTP/1.1 '' @ fmt_int (status_number (rs_statusCode r)) @ '' '' @ rs_statusMessage r @ kCRLF
     @ (if rs_closeConnection r then ''Connection: close'' @ kCRLF
        else ''Content-Length: '' @ fmt_nat (length (rs_body r)) @ kCRLF
             @ ''Connection: Keep-Alive'' @ kCRLF)
     @ render_headers hs @ kCRLF @ rs_body r"

lemma digit_not_nul: "d < 10 \<Longrightarrow> digit_char d \<noteq> CHR 0x00"
proof
  assume d: "d < 10" and z: "digit_char d = CHR 0x00"
  from d have "of_char (digit_char d) = 48 + d" by simp
  with z show False by simp
qed

lemma fmt_nat_not_nul: "CHR 0x00 \<notin> set (fmt_nat n)"
  using set_fmt_nat [of n] digit_not_nul by fastforce

lemma status_chunk:
  "c_str (snprintf_buf 32 (''HTTP/1.1 '' @ fmt_int (status_number code) @ '' ''))
    = ''HTTP/1.1 '' @ fmt_int (status_number code) @ '' ''"
  by (cases code) (simp_all add: c_str_def snprintf_buf_def fmt_int_def fmt_nat.simps)

lemma length_chunk:
  assumes "n < 10 ^ 13"
  shows "c_str (snprintf_buf 32 (''Content-Length: '' @ fmt_nat n @ kCRLF))
    = ''Content-Length: '' @ fmt_nat n @ kCRLF"
proof -
  have "length (fmt_nat n) \<le> 13" using assms by (intro length_fmt_nat_le) simp_all
  then have "snprintf_buf 32 (''Content-Length: '' @ fmt_nat n @ kCRLF)
      = ''Content-Length: '' @ fmt_nat n @ kCRLF"
    by (simp add: snprintf_buf_def kCRLF_def)
  then show ?thesis using fmt_nat_not_nul [of n] by (simp add: c_str_id kCRLF_def)
qed

lemma concat_response_chunks:
  assumes "length (rs_body r) < 10 ^ 13"
  shows "concat (response_chunks iter r) = response_text (iter (rs_headers r)) r"
proof -
  have "concat (concat (map (\<lambda>(k, v). [k, '': '', v, kCRLF]) hs)) = render_headers hs" for hs
    by (induction hs) (auto simp: render_headers_def)
  then show ?thesis
    using assms by (simp add: response_chunks_def response_text_def status_chunk [simplified] length_chunk [simplified])
qed

lemma appendToBuffer_ok:
  assumes "buf_ok out" and "length (response_text (iter (rs_headers r)) r) < 2 ^ 31"
    and "length (bufferData out) < 2 ^ 62"
  shows "\<exists>out'. appendToBuffer iter r out = Inr out' \<and> buf_ok out'
    \<and> contents out' = contents out @ response_text (iter (rs_headers r)) r"
proof -
  have "length (rs_body r) < 10 ^ 13"
    using assms(2) by (simp add: response_text_def)
  then have cc: "concat (response_chunks iter r) = response_text (iter (rs_headers r)) r"
    by (rule concat_response_chunks)
  have "length (bufferData out) + length (concat (response_chunks iter r)) < 2 ^ 63"
    using assms by (simp add: cc)
  from append_all_ok [OF assms(1) _ this] assms(2) show ?thesis
    by (simp add: appendToBuffer_def cc)
qed

section \<open>Properties\<close>

text \<open>Serialising a response adds to the buffer exactly its status line, the connection
  headers (with the length of the body when the connection is kept), the user's headers in
  iteration order, the empty line and the body.\<close>

lemma appendToBuffer_correct:
  assumes "buf_ok out" and "length (response_text (iter (rs_headers r)) r) < 2 ^ 31"
    and "length (bufferData out) < 2 ^ 62"
  shows "\<exists>out'. appendToBuffer iter r out = Inr out' \<and> buf_ok out'
    \<and> contents out' = contents out @ response_text (iter (rs_headers r)) r"
  using appendToBuffer_ok [of out iter r] assms by blast

end
