(* ===== verification/HttpServer.thy ===== *)
theory HttpServer
  imports HttpContext HttpResponse TcpConnection
begin

text \<open>
  The HTTP server (\<open>src/src/http/HttpServer.h\<close>, \<open>HttpServer.cc\<close>) and the request handler of its
  demonstration program (\<open>main.cc\<close>): how a message in the input buffer of a connection becomes a
  response on its way out. The user's \<open>httpCallback_\<close>, the iteration order of the header table, the
  clock and the socket are arguments.
\<close>

section \<open>Handlers\<close>

definition defaultHttpCallback :: "http_request \<Rightarrow> http_response \<Rightarrow> http_response" where
  "defaultHttpCallback req resp =
     setCloseConnection True (setStatusMessage ''Not Found'' (setStatusCode k404NotFound resp))"

definition HttpServer_onRequest ::
  "'k epoll_ctl \<Rightarrow> (bytes \<Rightarrow> int + nat) \<Rightarrow> ((bytes \<rightharpoonup> bytes) \<Rightarrow> (bytes \<times> bytes) list)
    \<Rightarrow> (http_request \<Rightarrow> http_response \<Rightarrow> http_response) \<Rightarrow> nat \<Rightarrow> http_request \<Rightarrow> 'k tcp_connection
    \<Rightarrow> 'k tcp_connection res"
where
  "HttpServer_onRequest ctl write iter httpCallback tid req conn =
     (let connection = getHeader ''Connection'' req;
          close = (connection = ''close'' \<or> rq_version req = kHttp10 \<and> connection \<noteq> ''Keep-Alive'');
          close = True;
          response = httpCallback req (HttpResponse_new close)
      in bindR (appendToBuffer iter response (Buffer_new kInitialSize)) (\<lambda>buf.
         bindR (send_buffer ctl write tid buf conn) (\<lambda>(buf', conn1).
           Inr (if rs_closeConnection response then shutdown tid conn1 else conn1))))"

definition bad_request :: bytes where
  "bad_request = ''HTTP/1.1 400 Bad Request'' @ kCRLF @ kCRLF"

text \<open>\<open>onMessage\<close> on the connection's own input buffer; \<open>ptr\<close> is where the error text lives. \<open>None\<close>
  means that \<open>parseRequest\<close> does not return.\<close>

definition HttpServer_onMessage ::
  "'k epoll_ctl \<Rightarrow> (bytes \<Rightarrow> int + nat) \<Rightarrow> ((bytes \<rightharpoonup> bytes) \<Rightarrow> (bytes \<times> bytes) list)
    \<Rightarrow> (http_request \<Rightarrow> http_response \<Rightarrow> http_response) \<Rightarrow> nat \<Rightarrow> nat \<Rightarrow> timestamp \<Rightarrow> 'k tcp_connection
    \<Rightarrow> 'k tcp_connection res option"
where
  "HttpServer_onMessage ctl write iter httpCallback tid ptr receiveTime conn =
     (case parseRequest HttpContext_new (tc_inputBuffer conn) receiveTime of
        None \<Rightarrow> None
      | Some (ok, context, buf) \<Rightarrow> Some (
          let conn1 = conn\<lparr>tc_inputBuffer := buf\<rparr>
          in bindR (if \<not> ok
                    then bindR (send_string ctl write tid ptr bad_request conn1) (\<lambda>c. Inr (shutdown tid c))
                    else Inr conn1) (\<lambda>conn2.
             if gotAll context then HttpServer_onRequest ctl write iter httpCallback tid (cx_request context) conn2
             else Inr conn2)))"

text \<open>The handler of the demonstration server, with its clock text and icon.\<close>

definition main_onRequest :: "bytes \<Rightarrow> bytes \<Rightarrow> http_request \<Rightarrow> http_response \<Rightarrow> http_response" where
  "main_onRequest now favicon req resp =
     (if rq_path req = ''/''
      then setBody (''<html><head><title>This is title</title></head><body><h1>Hello</h1>Now is '' @ now
             @ ''</body></html>'')
           (HttpResponse_addHeader ''Server'' ''Muduo'' (setContentType ''text/html''
             (setStatusMessage ''OK'' (setStatusCode k200Ok resp))))
      else if rq_path req = ''/favicon.ico''
      then setBody favicon (setContentType ''image/png'' (setStatusMessage ''OK'' (setStatusCode k200Ok resp)))
      else if rq_path req = ''/hello''
      then setBody (''hello, world!'' @ [CHR 0x0A])
           (HttpResponse_addHeader ''Server'' ''Muduo'' (setContentType ''text/plain''
             (setStatusMessage ''OK'' (setStatusCode k200Ok resp))))
      else setCloseConnection True (setStatusMessage ''Not Found'' (setStatusCode k404NotFound resp)))"

section \<open>Sending from the loop's thread\<close>

definition half_closed :: "nat \<Rightarrow> bool \<Rightarrow> 'k tcp_connection \<Rightarrow> 'k tcp_connection" where
  "half_closed tid close c = (if close then shutdown tid c else c)"

lemma half_closed_facts:
  assumes "epoll_kernel ctl interest" "conn_inv interest c" "tc_state c = kConnected"
  shows "conn_inv interest (half_closed tid close c)" "conn_stream (half_closed tid close c) = conn_stream c"
    "tc_state (half_closed tid close c) = (if close then kDisconnecting else kConnected)"
    "tc_inputBuffer (half_closed tid close c) = tc_inputBuffer c"
proof -
  have sh: "tc_inputBuffer (shutdown tid c) = tc_inputBuffer c" "tc_state (shutdown tid c) = kDisconnecting"
    using assms(3) by (simp_all add: shutdown_def shutdownInLoop_def shutdownWrite_def setState_def Let_def)
  show "conn_inv interest (half_closed tid close c)" "conn_stream (half_closed tid close c) = conn_stream c"
    "tc_state (half_closed tid close c) = (if close then kDisconnecting else kConnected)"
    "tc_inputBuffer (half_closed tid close c) = tc_inputBuffer c"
    using epoll_kernel.shutdown_step_ok(1) [OF assms(1,2), of tid] assms(2,3) sh
    by (simp_all add: half_closed_def step_ok_def)
qed

lemma onRequest_ok:
  assumes k: "epoll_kernel ctl interest" and srv: "can_serve interest tid c"
    and resp: "resp = httpCallback req (HttpResponse_new True)"
    and tx: "text = response_text (iter (rs_headers resp)) resp" "length text < 2 ^ 31"
    and acc: "send_accepts (kernel_write w) text c"
  shows "\<exists>c'. HttpServer_onRequest ctl (kernel_write w) iter httpCallback tid req c = Inr c' \<and> conn_inv interest c'
    \<and> conn_stream c' = conn_stream c @ text \<and> tc_inputBuffer c' = tc_inputBuffer c
    \<and> tc_state c' = (if rs_closeConnection resp then kDisconnecting else kConnected)"
proof -
  obtain out where out: "appendToBuffer iter resp (Buffer_new 1024) = Inr out" "buf_ok out" "contents out = text"
    using appendToBuffer_ok [of "Buffer_new 1024" iter resp] tx by (auto simp: length_new_buffer)
  have str: "string_at (bufferData out) (peek out) (readableBytes out) = Inr text"
    using string_at_readable [OF out(2) order_refl] out(2,3) by (simp add: readableBytes_ok)
  from sendInLoop_serve [OF k srv tx(2) acc] obtain c1 where
    c1: "sendInLoop ctl (kernel_write w) text c = Inr c1" "conn_inv interest c1" "tc_state c1 = kConnected"
      "tc_inputBuffer c1 = tc_inputBuffer c" "conn_stream c1 = conn_stream c @ text" by blast
  have "send_buffer ctl (kernel_write w) tid out c = Inr (retrieveAll out, c1)"
    using srv str c1(1) by (simp add: send_buffer_def can_serve_def)
  then have "HttpServer_onRequest ctl (kernel_write w) iter httpCallback tid req c
      = Inr (half_closed tid (rs_closeConnection resp) c1)"
    using out(1) by (simp add: HttpServer_onRequest_def resp [symmetric] kInitialSize_def Let_def half_closed_def)
  then show ?thesis using half_closed_facts [OF k c1(2,3)] c1(4,5) by simp
qed

lemma bad_request_ok:
  assumes k: "epoll_kernel ctl interest" and srv: "can_serve interest tid c"
    and acc: "send_accepts (kernel_write w) bad_request c"
  shows "\<exists>c'. bindR (send_string ctl (kernel_write w) tid ptr bad_request c) (\<lambda>c. Inr (shutdown tid c)) = Inr c'
    \<and> conn_inv interest c' \<and> conn_stream c' = conn_stream c @ bad_request
    \<and> tc_inputBuffer c' = tc_inputBuffer c \<and> tc_state c' = kDisconnecting"
proof -
  have "length bad_request < 2 ^ 31" by (simp add: bad_request_def kCRLF_def)
  from sendInLoop_serve [OF k srv this acc] obtain c1 where
    c1: "sendInLoop ctl (kernel_write w) bad_request c = Inr c1" "conn_inv interest c1" "tc_state c1 = kConnected"
      "tc_inputBuffer c1 = tc_inputBuffer c" "conn_stream c1 = conn_stream c @ bad_request" by blast
  then show ?thesis
    using half_closed_facts [OF k c1(2,3), of tid True] srv by (simp add: send_string_def can_serve_def half_closed_def)
qed

text \<open>\<open>onMessage\<close> through the automaton on the received bytes.\<close>

lemma parse_input:
  assumes "buf_ok b"
  shows "\<exists>b'. parseRequest HttpContext_new b t = Some (fst (http_parse t HttpRequest_new (contents b)),
       fst (snd (http_parse t HttpRequest_new (contents b))), b')
     \<and> buf_ok b' \<and> contents b' = snd (snd (http_parse t HttpRequest_new (contents b)))"
  using parse_loop_request [OF assms, of t HttpRequest_new]
  by (auto simp: parseRequest_def HttpContext_new_def)

lemma onMessage_bad:
  assumes k: "epoll_kernel ctl interest" and srv: "can_serve interest tid c"
    and p: "http_parse t HttpRequest_new (contents (tc_inputBuffer c)) = (False, cx, rest)" "\<not> gotAll cx"
    and acc: "send_accepts (kernel_write w) bad_request c"
  shows "\<exists>c'. HttpServer_onMessage ctl (kernel_write w) iter cb tid ptr t c = Some (Inr c') \<and> conn_inv interest c'
    \<and> conn_stream c' = conn_stream c @ bad_request \<and> tc_state c' = kDisconnecting
    \<and> contents (tc_inputBuffer c') = rest"
proof -
  have "buf_ok (tc_inputBuffer c)" using srv by (simp add: can_serve_def conn_inv_def)
  from parse_input [OF this, of t] p obtain b' where
    b': "parseRequest HttpContext_new (tc_inputBuffer c) t = Some (False, cx, b')" "buf_ok b'" "contents b' = rest"
    by auto
  from bad_request_ok [OF k can_serve_input [OF srv b'(2)], of w ptr] acc obtain c' where
    "bindR (send_string ctl (kernel_write w) tid ptr bad_request (c\<lparr>tc_inputBuffer := b'\<rparr>)) (\<lambda>c. Inr (shutdown tid c)) = Inr c'"
    "conn_inv interest c'" "conn_stream c' = conn_stream c @ bad_request"
    "tc_inputBuffer c' = b'" "tc_state c' = kDisconnecting" by auto
  then show ?thesis using b' p(2) by (simp add: HttpServer_onMessage_def Let_def)
qed

lemma http_parse_fragment: "no_cr s \<Longrightarrow> http_parse t r s = (False, \<lparr>cx_state = kExpectRequestLine, cx_request = r\<rparr>, s)"
  by (simp add: http_parse_def split_line_incomplete)

text \<open>The start of a request: its request line and headers, but not yet the empty line.\<close>

lemma http_headers_open:
  "list_all wf_header hs \<Longrightarrow> \<exists>r'. http_headers r (concat (map render_header hs)) = (False, r', [])"
proof (induction hs arbitrary: r)
  case Nil
  then show ?case by (subst http_headers.simps) (simp add: split_line_def)
next
  case (Cons h hs)
  from Cons.prems have "wf_header h" "list_all wf_header hs" by simp_all
  then have "split_line (concat (map render_header (h # hs)))
      = Some (fst h @ '': '' @ snd h, concat (map render_header hs))"
    using split_line_render [of "fst h @ '': '' @ snd h" "concat (map render_header hs)"]
    by (simp add: render_header_def wf_header_def no_cr_def split_beta)
  then show ?case
    using Cons.IH [OF \<open>list_all wf_header hs\<close>] \<open>wf_header h\<close>
    by (subst http_headers.simps) (simp add: wf_header_def std_find_append)
qed

text \<open>A complete request is answered, and its bytes are consumed.\<close>

lemma onMessage_request:
  assumes "epoll_kernel ctl interest" and "can_serve interest tid c" and "wf_request m path query v hs"
    and "contents (tc_inputBuffer c) = render_request m path query v hs @ rest"
    and "req = \<lparr>rq_method = m, rq_version = v, rq_path = path, rq_query = query, rq_receiveTime = t,
          rq_headers = map_of (rev hs)\<rparr>"
    and "resp = httpCallback req (HttpResponse_new True)"
    and "reply = response_text (iter (rs_headers resp)) resp" and "length reply < 2 ^ 31"
    and "send_accepts (kernel_write w) reply c"
  shows "\<exists>c'. HttpServer_onMessage ctl (kernel_write w) iter httpCallback tid ptr t c = Some (Inr c')
    \<and> conn_inv interest c'
    \<and> tc_wire c' @ contents (tc_outputBuffer c') = tc_wire c @ contents (tc_outputBuffer c) @ reply
    \<and> contents (tc_inputBuffer c') = rest
    \<and> tc_state c' = (if rs_closeConnection resp then kDisconnecting else kConnected)"
proof -
  have "buf_ok (tc_inputBuffer c)" using assms(2) by (simp add: can_serve_def conn_inv_def)
  from parse_input [OF this, of t] obtain b' where
    b': "parseRequest HttpContext_new (tc_inputBuffer c) t = Some (True, \<lparr>cx_state = kGotAll, cx_request = req\<rparr>, b')"
      "buf_ok b'" "contents b' = rest"
    by (auto simp: assms(4,5) http_parse_render [OF assms(3)])
  have "\<exists>c'. HttpServer_onRequest ctl (kernel_write w) iter httpCallback tid req (c\<lparr>tc_inputBuffer := b'\<rparr>) = Inr c'
    \<and> conn_inv interest c' \<and> conn_stream c' = conn_stream (c\<lparr>tc_inputBuffer := b'\<rparr>) @ reply
    \<and> tc_inputBuffer c' = tc_inputBuffer (c\<lparr>tc_inputBuffer := b'\<rparr>)
    \<and> tc_state c' = (if rs_closeConnection resp then kDisconnecting else kConnected)"
    using onRequest_ok [OF assms(1) can_serve_input [OF assms(2) b'(2)], of resp httpCallback req reply iter w]
      assms(6-9) by simp
  then show ?thesis using b' by (auto simp: HttpServer_onMessage_def gotAll_def Let_def)
qed

section \<open>Properties\<close>

text \<open>Claim C4. A complete request in the input buffer of an established connection is answered: the
  handler's response to exactly that request is added to the outgoing stream, the bytes behind the
  request stay in the input buffer, and the connection is shut down when the response says so.\<close>

theorem request_is_answered:
  assumes "epoll_kernel ctl interest" and "can_serve interest tid c" and "wf_request m path query v hs"
    and "contents (tc_inputBuffer c) = render_request m path query v hs @ rest"
    and "req = \<lparr>rq_method = m, rq_version = v, rq_path = path, rq_query = query, rq_receiveTime = t,
          rq_headers = map_of (rev hs)\<rparr>"
    and "resp = httpCallback req (HttpResponse_new True)"
    and "reply = response_text (iter (rs_headers resp)) resp" and "length reply < 2 ^ 31"
    and "send_accepts (kernel_write w) reply c"
  shows "\<exists>c'. HttpServer_onMessage ctl (kernel_write w) iter httpCallback tid ptr t c = Some (Inr c')
    \<and> conn_inv interest c'
    \<and> tc_wire c' @ contents (tc_outputBuffer c') = tc_wire c @ contents (tc_outputBuffer c) @ reply
    \<and> contents (tc_inputBuffer c') = rest
    \<and> tc_state c' = (if rs_closeConnection resp then kDisconnecting else kConnected)"
  using onMessage_request [where httpCallback = httpCallback and iter = iter, OF assms] .

text \<open>Each message is parsed with a new context, so a request that arrives in pieces is
  refused: when the first piece has no complete line, it is answered with 400 and the connection is
  shut down, though the rest may still be on its way.\<close>

lemma fragment_refused:
  assumes "epoll_kernel ctl interest" and "can_serve interest tid c" and "no_cr (contents (tc_inputBuffer c))"
    and "send_accepts (kernel_write w) bad_request c"
  shows "\<exists>c'. HttpServer_onMessage ctl (kernel_write w) iter cb tid ptr t c = Some (Inr c') \<and> conn_inv interest c'
    \<and> tc_wire c' @ contents (tc_outputBuffer c') = tc_wire c @ contents (tc_outputBuffer c) @ bad_request
    \<and> tc_state c' = kDisconnecting"
proof -
  have "\<not> gotAll \<lparr>cx_state = kExpectRequestLine, cx_request = HttpRequest_new\<rparr>" by (simp add: gotAll_def)
  from onMessage_bad [where iter = iter and cb = cb and ptr = ptr,
      OF assms(1,2) http_parse_fragment [OF assms(3), of t] this assms(4)]
  show ?thesis by auto
qed

text \<open>A request cut between its headers and its final empty line is lost: the first message
  consumes the request line and the headers and forgets them, and the empty line that follows is
  taken for a bad request.\<close>

lemma split_request_lost:
  assumes "epoll_kernel ctl interest" and "can_serve interest tid c" and "wf_request m path query v hs"
    and "contents (tc_inputBuffer c) = render_request_line m path query v @ kCRLF @ concat (map render_header hs)"
    and "buf_ok b2" and "contents b2 = kCRLF" and "send_accepts (kernel_write w) bad_request c"
  shows "\<exists>c1 c2. HttpServer_onMessage ctl (kernel_write w) iter cb tid ptr t c = Some (Inr c1)
    \<and> contents (tc_inputBuffer c1) = [] \<and> conn_stream c1 = conn_stream c
    \<and> HttpServer_onMessage ctl (kernel_write w) iter cb tid ptr time (c1\<lparr>tc_inputBuffer := b2\<rparr>) = Some (Inr c2)
    \<and> conn_stream c2 = conn_stream c @ bad_request \<and> tc_state c2 = kDisconnecting"
proof -
  have wf: "m \<noteq> kInvalid" "v \<noteq> kUnknown" "wf_path path" "wf_query query" "list_all wf_header hs"
    using assms(3) by (simp_all add: wf_request_def)
  have "no_cr (render_request_line m path query v)"
    using wf by (simp add: no_cr_def render_request_line_def wf_path_def wf_query_def)
  then have line: "split_line (contents (tc_inputBuffer c))
      = Some (render_request_line m path query v, concat (map render_header hs))"
    by (simp add: assms(4) split_line_render)
  obtain r1 where r1: "processRequestLine (render_request_line m path query v) HttpRequest_new = (True, r1)"
    using wf by (simp add: processRequestLine_render HttpRequest_new_def)
  obtain r' where "http_headers (setReceiveTime t r1) (concat (map render_header hs)) = (False, r', [])"
    using http_headers_open [OF wf(5)] by blast
  then have p1: "http_parse t HttpRequest_new (contents (tc_inputBuffer c))
      = (True, \<lparr>cx_state = kExpectHeaders, cx_request = r'\<rparr>, [])"
    by (simp add: http_parse_def line r1 headers_context_def)
  have "buf_ok (tc_inputBuffer c)" using assms(2) by (simp add: can_serve_def conn_inv_def)
  from parse_input [OF this, of t] p1 obtain b1 where
    b1: "parseRequest HttpContext_new (tc_inputBuffer c) t = Some (True, \<lparr>cx_state = kExpectHeaders, cx_request = r'\<rparr>, b1)"
      "buf_ok b1" "contents b1 = []" by auto
  let ?c1 = "c\<lparr>tc_inputBuffer := b1\<rparr>"
  have m1: "HttpServer_onMessage ctl (kernel_write w) iter cb tid ptr t c = Some (Inr ?c1)"
    using b1 by (simp add: HttpServer_onMessage_def gotAll_def Let_def)
  have srv: "can_serve interest tid (?c1\<lparr>tc_inputBuffer := b2\<rparr>)"
    using can_serve_input [OF assms(2) assms(5)] by simp
  have "http_parse time HttpRequest_new kCRLF = (False, \<lparr>cx_state = kExpectRequestLine, cx_request = HttpRequest_new\<rparr>, kCRLF)"
    by (simp add: http_parse_def split_line_def kCRLF_def processRequestLine_def)
  then have p2: "http_parse time HttpRequest_new (contents (tc_inputBuffer (?c1\<lparr>tc_inputBuffer := b2\<rparr>)))
      = (False, \<lparr>cx_state = kExpectRequestLine, cx_request = HttpRequest_new\<rparr>, kCRLF)"
    using assms(6) by simp
  from onMessage_bad [where iter = iter and cb = cb and ptr = ptr and w = w, OF assms(1) srv p2]
  show ?thesis using m1 b1(3) assms(7) by (auto simp: gotAll_def)
qed

text \<open>An established connection with given bytes in its input buffer.\<close>

definition buffer_of :: "bytes \<Rightarrow> buffer" where
  "buffer_of s = \<lparr>bufferData = replicate 8 (CHR 0x00) @ s, readerIndex = 8, writerIndex = 8 + length s\<rparr>"

definition conn_with :: "bytes \<Rightarrow> (int \<rightharpoonup> epoll_event) tcp_connection" where
  "conn_with s = (case connectEstablished epoll_table_ctl conn_start of Inr c \<Rightarrow> c\<lparr>tc_inputBuffer := buffer_of s\<rparr>)"

abbreviation conn_tid :: nat where
  "conn_tid \<equiv> el_threadId (tc_loop (conn_with []))"

lemma buffer_of_facts: "length s < 2 ^ 62 \<Longrightarrow> buf_ok (buffer_of s)" "contents (buffer_of s) = s"
  by (simp_all add: buf_ok_def buffer_of_def contents_def kCheapPrepend_def)

lemma conn_with_facts:
  assumes "length s < 2 ^ 62"
  shows "can_serve (\<lambda>k. k) conn_tid (conn_with s)" "tc_wire (conn_with s) = []"
    "contents (tc_outputBuffer (conn_with s)) = []" "contents (tc_inputBuffer (conn_with s)) = s"
    "send_accepts (kernel_write (Inr n)) d (conn_with s)"
proof -
  obtain c where c: "connectEstablished epoll_table_ctl conn_start = Inr c" "conn_inv (\<lambda>k. k) c"
    "tc_state c = kConnected" "tc_wire c = []" "tc_outputBuffer c = Buffer_new 1024"
    using tbl.connectEstablished_ok [OF conn_start_inv] by (auto simp: conn_start_fields)
  then show "can_serve (\<lambda>k. k) conn_tid (conn_with s)" "tc_wire (conn_with s) = []"
    "contents (tc_outputBuffer (conn_with s)) = []" "contents (tc_inputBuffer (conn_with s)) = s"
    "send_accepts (kernel_write (Inr n)) d (conn_with s)"
    using assms
    by (simp_all add: conn_with_def can_serve_def conn_inv_def isInLoopThread_def buffer_of_facts
        length_new_buffer send_accepts_def write_fault_def)
qed

lemma sample_wf: "wf_request kGet ''/x'' [] kHttp11 [(''Host'', ''a'')]"
  by (simp add: wf_request_def wf_path_def wf_query_def wf_header_def no_cr_def trim_right_def is_space_def)

theorem request_is_answered_witness:
  "\<exists>c'. HttpServer_onMessage epoll_table_ctl (kernel_write (Inr 10)) (\<lambda>m. []) defaultHttpCallback conn_tid 0 5
      (conn_with (render_request kGet ''/x'' [] kHttp11 [(''Host'', ''a'')] @ ''GET'')) = Some (Inr c')
    \<and> tc_wire c' @ contents (tc_outputBuffer c')
        = ''HTTP/1.1 404 Not Found'' @ kCRLF @ ''Connection: close'' @ kCRLF @ kCRLF
    \<and> contents (tc_inputBuffer c') = ''GET'' \<and> tc_state c' = kDisconnecting"
proof -
  let ?s = "render_request kGet ''/x'' [] kHttp11 [(''Host'', ''a'')] @ ''GET''"
  have len: "length ?s < 2 ^ 62"
    by (simp add: render_request_def render_request_line_def render_header_def kCRLF_def)
  let ?resp = "defaultHttpCallback \<lparr>rq_method = kGet, rq_version = kHttp11, rq_path = ''/x'', rq_query = [],
     rq_receiveTime = 5, rq_headers = map_of (rev [(''Host'', ''a'')])\<rparr> (HttpResponse_new True)"
  have r: "rs_closeConnection ?resp" "response_text [] ?resp
      = ''HTTP/1.1 404 Not Found'' @ kCRLF @ ''Connection: close'' @ kCRLF @ kCRLF"
    by (simp_all add: defaultHttpCallback_def setCloseConnection_def setStatusMessage_def setStatusCode_def
        HttpResponse_new_def response_text_def render_headers_def fmt_int_def fmt_nat.simps)
  have short: "length (response_text [] ?resp) < 2 ^ 31" unfolding r(2) by (simp add: kCRLF_def)
  have acc: "send_accepts (kernel_write (Inr 10)) (response_text [] ?resp) (conn_with ?s)"
    by (rule conn_with_facts(5) [OF len])
  from request_is_answered [where httpCallback = defaultHttpCallback and iter = "\<lambda>m. []" and ptr = 0,
      OF tbl.epoll_kernel_axioms conn_with_facts(1) [OF len] sample_wf conn_with_facts(4) [OF len] refl refl refl
        short acc]
  show ?thesis unfolding r(2) conn_with_facts(2,3) [OF len] using r(1) by auto
qed

end
