(* ===== verification/EchoServer.thy ===== *)
theory EchoServer
  imports TcpConnection
begin

text \<open>
  The echo server of the examples (\<open>src/example/echoServer.cc\<close>, \<open>echoServerAsync.cc\<close>): its message
  handler, and the events of one connection with the handler called where \<open>handleRead\<close> calls the
  message callback. \<open>onConnection\<close> only logs.
\<close>

definition Echo_onMessage ::
  "'k epoll_ctl \<Rightarrow> (bytes \<Rightarrow> int + nat) \<Rightarrow> nat \<Rightarrow> nat \<Rightarrow> 'k tcp_connection \<Rightarrow> 'k tcp_connection res"
where
  "Echo_onMessage ctl write tid ptr conn =
     bindR (retrieveAllAsString (tc_inputBuffer conn)) (\<lambda>(msg, buf).
       send_string ctl write tid ptr msg (conn\<lparr>tc_inputBuffer := buf\<rparr>))"

text \<open>An event: bytes arrive, with the answer of the socket to the echo, or the socket is writable.\<close>

datatype echo_event = Received bytes "int + nat" | Drained "int + nat"

fun echo_step :: "'k epoll_ctl \<Rightarrow> nat \<Rightarrow> echo_event \<Rightarrow> 'k tcp_connection \<Rightarrow> 'k tcp_connection res" where
  "echo_step ctl tid (Received s w) c =
     bindR (TcpConnection_handleRead ctl (kernel_readv (Inr s)) c) (\<lambda>c1.
       if tc_calls c1 = tc_calls c @ [MessageCb] then Echo_onMessage ctl (kernel_write w) tid 0 c1 else Inr c1)"
| "echo_step ctl tid (Drained w) c = TcpConnection_handleWrite ctl (kernel_write w) c"

fun echo_run :: "'k epoll_ctl \<Rightarrow> nat \<Rightarrow> echo_event list \<Rightarrow> 'k tcp_connection \<Rightarrow> 'k tcp_connection res" where
  "echo_run ctl tid [] c = Inr c"
| "echo_run ctl tid (ev # evs) c = bindR (echo_step ctl tid ev c) (echo_run ctl tid evs)"

fun received :: "echo_event \<Rightarrow> bytes" where
  "received (Received s w) = s"
| "received (Drained w) = []"

text \<open>What the events need: the bytes of one read fit the stack block of \<open>readFd\<close>, and the peer has not
  closed the connection.\<close>

fun ev_ok :: "echo_event \<Rightarrow> bool" where
  "ev_ok (Received s w) = (s \<noteq> [] \<and> length s \<le> 65536 \<and> \<not> write_fault w)"
| "ev_ok (Drained w) = True"

section \<open>The loop of a connection\<close>

lemma conn_queue_thread [simp]: "el_threadId (tc_loop (conn_queue t f c)) = el_threadId (tc_loop c)"
  by (simp add: conn_queue_def queue_defs wakeup_def)

lemma conn_set_mode_loop: "conn_set_mode ctl m c = Inr c' \<Longrightarrow> tc_loop c' = tc_loop c"
  by (auto simp: conn_set_mode_def bindR_Inr_iff)

lemma sendInLoop_thread:
  "sendInLoop ctl write d c = Inr c' \<Longrightarrow> el_threadId (tc_loop c') = el_threadId (tc_loop c)"
  by (auto simp: sendInLoop_def send_direct_def send_queue_def send_rest_def Let_def bindR_Inr_iff
      split: if_splits sum.splits prod.splits dest!: conn_set_mode_loop)

lemma shutdownInLoop_loop [simp]: "tc_loop (shutdownInLoop c) = tc_loop c"
  by (simp add: shutdownInLoop_def shutdownWrite_def)

lemma handleWrite_thread:
  assumes "TcpConnection_handleWrite ctl write c = Inr c'"
  shows "el_threadId (tc_loop c') = el_threadId (tc_loop c)"
proof (cases "isWriting (conn_channel c)")
  case True
  with assms obtain r where r: "writeFd write (tc_outputBuffer c) = Inr r"
    by (auto simp: TcpConnection_handleWrite_def bindR_Inr_iff)
  with assms True show ?thesis
    by (cases r) (auto simp: TcpConnection_handleWrite_def Let_def bindR_Inr_iff split: if_splits dest!: conn_set_mode_loop)
qed (use assms in \<open>simp add: TcpConnection_handleWrite_def\<close>)

lemma handleRead_loop:
  assumes "TcpConnection_handleRead ctl readv c = Inr c'"
  shows "tc_loop c' = tc_loop c"
proof -
  from assms obtain r b where r: "readFd readv (tc_inputBuffer c) = Inr (r, b)"
    by (auto simp: TcpConnection_handleRead_def bindR_Inr_iff)
  with assms show ?thesis
    by (cases r) (auto simp: TcpConnection_handleRead_def TcpConnection_handleClose_def Let_def bindR_Inr_iff setState_def
        split: if_splits dest!: conn_set_mode_loop conn_callback_Inr)
qed

text \<open>A connection that has echoed everything it received.\<close>

definition echoing :: "('k \<Rightarrow> int \<rightharpoonup> epoll_event) \<Rightarrow> nat \<Rightarrow> nat \<Rightarrow> 'k tcp_connection \<Rightarrow> bool" where
  "echoing interest tid n c \<longleftrightarrow> conn_inv interest c \<and> tc_state c = kConnected \<and> el_threadId (tc_loop c) = tid
     \<and> contents (tc_inputBuffer c) = [] \<and> length (bufferData (tc_outputBuffer c)) + n < 2 ^ 61
     \<and> length (bufferData (tc_inputBuffer c)) + n < 2 ^ 61"

lemma readFd_capacity_ge: "65536 \<le> readFd_capacity b"
  by (simp add: readFd_capacity_def extrabufSize_def)

lemma length_retrieveAll: "bufferData (retrieveAll b) = bufferData b"
  by (simp add: retrieveAll_def)

lemma echo_step_ok:
  assumes k: "epoll_kernel ctl interest" and e: "echoing interest tid (length (received ev) + n) c" and ok: "ev_ok ev"
  shows "\<exists>c'. echo_step ctl tid ev c = Inr c' \<and> echoing interest tid n c' \<and> conn_stream c' = conn_stream c @ received ev"
proof (cases ev)
  case (Drained w)
  have "conn_inv interest c" using e by (simp add: echoing_def)
  from epoll_kernel.handleWrite_ok [OF k this write_bounded_kernel] obtain c' where
    "TcpConnection_handleWrite ctl (kernel_write w) c = Inr c'" "conn_inv interest c'" "same_reader c c'"
    "conn_stream c' = conn_stream c" "bufferData (tc_outputBuffer c') = bufferData (tc_outputBuffer c)" by blast
  then show ?thesis using e Drained handleWrite_thread by (fastforce simp: echoing_def same_reader_def)
next
  case (Received s w)
  have s: "s \<noteq> []" "length s \<le> 65536" "\<not> write_fault w" using ok Received by simp_all
  have inv: "conn_inv interest c" "length (bufferData (tc_inputBuffer c)) < 2 ^ 62" using e by (auto simp: echoing_def)
  have got: "take (readFd_capacity (tc_inputBuffer c)) s = s" using s(2) readFd_capacity_ge order_trans by fastforce
  from epoll_kernel.handleRead_ok [OF k inv, of "Inr s"] obtain c1 where
    c1: "TcpConnection_handleRead ctl (kernel_readv (Inr s)) c = Inr c1" "conn_inv interest c1"
      "tc_outputBuffer c1 = tc_outputBuffer c" "tc_wire c1 = tc_wire c" "contents (tc_inputBuffer c1) = s"
      "length (bufferData (tc_inputBuffer c1)) \<le> length (bufferData (tc_inputBuffer c)) + length s"
      "tc_state c1 = kConnected" "tc_calls c1 = tc_calls c @ [MessageCb]"
    using e s(1) got by (auto simp: echoing_def Let_def)
  let ?b = "retrieveAll (tc_inputBuffer c1)"
  let ?c = "c1\<lparr>tc_inputBuffer := ?b\<rparr>"
  have b: "buf_ok (tc_inputBuffer c1)" "buf_ok ?b" "contents ?b = []" using c1(2) by (simp_all add: conn_inv_def retrieveAll_ok)
  have th: "el_threadId (tc_loop c1) = tid" using e handleRead_loop [OF c1(1)] by (simp add: echoing_def)
  have inv2: "conn_inv interest ?c" using c1(2) b(2) by (simp add: conn_inv_def)
  have acc: "send_accepts (kernel_write w) s ?c"
    using c1(7) s(3) by (cases w) (simp_all add: send_accepts_def write_fault_def)
  have "length s < 2 ^ 31" "length (bufferData (tc_outputBuffer ?c)) + length s < 2 ^ 63"
    using s(2) e c1(3) Received by (auto simp: echoing_def)
  from epoll_kernel.sendInLoop_ok [OF k inv2 write_bounded_kernel [of w] this] acc obtain c' where
    c': "sendInLoop ctl (kernel_write w) s ?c = Inr c'" "conn_inv interest c'" "same_reader ?c c'"
      "conn_stream c' = conn_stream c @ s"
      "length (bufferData (tc_outputBuffer c')) \<le> length (bufferData (tc_outputBuffer c)) + length s"
    using c1(3,4) by auto
  have "echo_step ctl tid ev c = Inr c'"
    using Received c1(1,5,7,8) b(1) th c'(1)
    by (simp add: Echo_onMessage_def retrieveAllAsString_ok send_string_def isInLoopThread_def)
  moreover have "echoing interest tid n c'"
    using c'(2,3,5) e c1(6,7) b(3) th sendInLoop_thread [OF c'(1)] Received
    by (auto simp: echoing_def same_reader_def length_retrieveAll)
  ultimately show ?thesis using c'(4) Received by simp
qed

section \<open>Properties\<close>

text \<open>Claim C27. The echo server sends back exactly what it receives: through any sequence of arriving
  bytes and writable events, however few bytes the socket takes at a time, the outgoing stream grows by
  the bytes received, in order, and nothing is left in the input buffer.\<close>

theorem echo_in_order:
  assumes "epoll_kernel ctl interest" and "echoing interest tid (length (concat (map received evs))) c" and "list_all ev_ok evs"
  shows "\<exists>c'. echo_run ctl tid evs c = Inr c'
    \<and> tc_wire c' @ contents (tc_outputBuffer c') = tc_wire c @ contents (tc_outputBuffer c) @ concat (map received evs)
    \<and> contents (tc_inputBuffer c') = [] \<and> tc_state c' = kConnected"
  using assms(2,3)
proof (induction evs arbitrary: c)
  case Nil
  then show ?case by (simp add: echoing_def)
next
  case (Cons ev evs)
  from echo_step_ok [OF assms(1), of tid ev "length (concat (map received evs))" c] Cons.prems obtain c1 where
    c1: "echo_step ctl tid ev c = Inr c1" "echoing interest tid (length (concat (map received evs))) c1"
      "conn_stream c1 = conn_stream c @ received ev" by auto
  from Cons.IH [OF c1(2)] Cons.prems(2) c1(1,3) show ?case by auto
qed

theorem echo_in_order_witness:
  "\<exists>c'. echo_run epoll_table_ctl 1 [Received ''hello'' (Inr 2), Received ''!'' (Inl 11), Drained (Inr 3)]
        (conn_start\<lparr>tc_state := kConnected\<rparr>) = Inr c'
    \<and> tc_wire c' @ contents (tc_outputBuffer c') = ''hello!''"
proof -
  have new: "contents (Buffer_new 1024) = []"
    by (simp add: Buffer_new_def contents_def)
  have inv: "conn_inv (\<lambda>k. k) (conn_start\<lparr>tc_state := kConnected\<rparr>)"
    using conn_start_inv new by (simp add: conn_inv_def conn_start_fields)
  then show ?thesis
    using echo_in_order [OF tbl.epoll_kernel_axioms, of 1 "[Received ''hello'' (Inr 2), Received ''!'' (Inl 11), Drained (Inr 3)]"
        "conn_start\<lparr>tc_state := kConnected\<rparr>"] new
    by (auto simp: echoing_def conn_start_fields length_new_buffer write_fault_def errno_defs simp del: echo_run.simps)
qed

end
