(* ===== verification/Programs.thy ===== *)
theory Programs
  imports HttpServer EchoServer ServerSystem
begin

text \<open>
  The servers of the repository from their constructors on: \<open>HttpServer\<close> (\<open>src/src/http/HttpServer.cc\<close>)
  with the program that runs it (\<open>main.cc\<close>), and the echo server (\<open>src/example/echoServer.cc\<close>,
  \<open>echoServerAsync.cc\<close>). How connections are spread over the loops, and the answer of the demonstration
  handler.
\<close>

section \<open>The HTTP server\<close>

record http_server =
  hs_server :: tcp_server
  hs_httpCallback :: "http_request \<Rightarrow> http_response \<Rightarrow> http_response"

definition HttpServer_new :: "sockaddr_in \<Rightarrow> bytes \<Rightarrow> http_server res" where
  "HttpServer_new listenAddr name =
     bindR (TcpServer_new listenAddr name) (\<lambda>server. Inr
       \<lparr>hs_server = TcpServer_setThreadNum 4 server, hs_httpCallback = defaultHttpCallback\<rparr>)"

definition setHttpCallback ::
  "(http_request \<Rightarrow> http_response \<Rightarrow> http_response) \<Rightarrow> http_server \<Rightarrow> http_server"
where
  "setHttpCallback cb h = h\<lparr>hs_httpCallback := cb\<rparr>"

text \<open>\<open>start\<close> in thread \<open>t\<close>, without a thread initialiser.\<close>

definition HttpServer_start :: "(nat \<Rightarrow> nat) \<Rightarrow> nat \<Rightarrow> http_server \<Rightarrow> http_server" where
  "HttpServer_start startLoop t h = h\<lparr>hs_server := TcpServer_start False startLoop t (hs_server h)\<rparr>"

text \<open>The connection callback only logs.\<close>

definition HttpServer_onConnection :: "'k tcp_connection \<Rightarrow> bytes" where
  "HttpServer_onConnection conn = (if connected conn then ''new Connection arrived'' else ''Connection closed'')"

section \<open>The demonstration program\<close>

definition favicon :: bytes where
  "favicon = map char_of [
      137, 80, 78, 71, 13, 10, 26, 10, 0, 0, 0, 13, 73, 72, 68, 82, 0, 0, 0, 16,
      0, 0, 0, 16, 8, 6, 0, 0, 0, 31, 243, 255, 97, 0, 0, 0, 25, 116, 69, 88,
      116, 83, 111, 102, 116, 119, 97, 114, 101, 0, 65, 100, 111, 98, 101, 32, 73, 109, 97, 103,
      101, 82, 101, 97, 100, 121, 113, 201, 101, 60, 0, 0, 1, 205, 73, 68, 65, 84, 120, 218,
      148, 147, 57, 72, 3, 65, 20, 134, 255, 93, 98, 167, 4, 82, 196, 109, 34, 30, 160, 70,
      36, 8, 22, 22, 118, 10, 54, 186, 74, 154, 128, 8, 65, 180, 113, 133, 88, 137, 71, 176,
      73, 169, 81, 36, 205, 166, 8, 164, 72, 99, 145, 66, 11, 175, 86, 193, 70, 180, 21, 207,
      34, 88, 152, 11, 84, 72, 138, 100, 147, 141, 251, 70, 103, 201, 26, 20, 125, 240, 102, 118,
      102, 223, 124, 239, 231, 103, 70, 168, 213, 106, 72, 36, 18, 42, 0, 5, 191, 71, 212, 239,
      247, 47, 54, 236, 18, 32, 30, 143, 215, 170, 213, 234, 175, 73, 53, 70, 170, 84, 95, 159,
      34, 65, 42, 149, 10, 131, 229, 114, 57, 100, 179, 89, 150, 153, 76, 6, 233, 116, 154, 37,
      133, 44, 203, 84, 167, 196, 98, 49, 181, 94, 0, 3, 104, 154, 198, 22, 130, 32, 88, 82,
      20, 69, 54, 83, 148, 203, 101, 120, 189, 94, 170, 85, 84, 35, 76, 192, 224, 226, 193, 143,
      0, 158, 188, 9, 65, 124, 62, 31, 131, 68, 34, 17, 213, 84, 64, 63, 56, 128, 119, 229,
      51, 7, 184, 92, 46, 72, 146, 4, 135, 195, 129, 64, 32, 64, 103, 152, 233, 54, 26, 166,
      103, 21, 4, 227, 215, 200, 189, 21, 225, 105, 183, 67, 171, 234, 120, 47, 106, 88, 146, 187,
      24, 32, 159, 207, 51, 195, 184, 233, 78, 167, 211, 108, 74, 0, 105, 54, 124, 142, 225, 254,
      86, 132, 231, 60, 159, 114, 43, 58, 66, 123, 55, 102, 119, 174, 142, 14, 243, 189, 82, 169,
      100, 2, 66, 175, 133, 50, 102, 70, 186, 12, 217, 159, 29, 154, 108, 34, 230, 199, 58, 44,
      128, 239, 193, 21, 144, 7, 147, 162, 40, 160, 83, 106, 177, 184, 223, 41, 53, 67, 14, 63,
      88, 252, 152, 218, 121, 106, 80, 64, 0, 135, 174, 27, 23, 66, 180, 58, 63, 190, 121, 199,
      10, 38, 182, 238, 217, 154, 96, 20, 147, 219, 143, 13, 10, 46, 233, 35, 149, 41, 88, 0,
      39, 235, 110, 86, 112, 188, 214, 203, 214, 71, 171, 61, 108, 125, 184, 210, 221, 160, 96, 131,
      186, 239, 95, 164, 234, 204, 2, 78, 174, 94, 112, 26, 236, 179, 64, 57, 172, 254, 242, 145,
      137, 103, 145, 133, 33, 168, 135, 183, 88, 126, 126, 133, 187, 205, 78, 78, 98, 116, 64, 250,
      147, 137, 236, 30, 236, 134, 2, 72, 38, 147, 208, 117, 29, 127, 9, 50, 149, 191, 31, 219,
      215, 99, 138, 26, 247, 92, 193, 255, 34, 74, 195, 135, 0, 3, 0, 75, 187, 248, 214, 42,
      118, 152, 73, 0, 0, 0, 0, 73, 69, 78, 68, 174, 66, 96, 130 :: nat]"

definition http_main :: "bytes \<Rightarrow> (nat \<Rightarrow> nat) \<Rightarrow> http_server res" where
  "http_main now startLoop =
     bindR (HttpServer_new (InetAddress_new 8080 ''127.0.0.1'') ''http-server'') (\<lambda>server.
       Inr (HttpServer_start startLoop 0 (setHttpCallback (main_onRequest now favicon) server)))"

section \<open>The echo server\<close>

definition Echo_new :: "sockaddr_in \<Rightarrow> bytes \<Rightarrow> tcp_server res" where
  "Echo_new addr name = TcpServer_new addr name"

definition Echo_start :: "(nat \<Rightarrow> nat) \<Rightarrow> nat \<Rightarrow> tcp_server \<Rightarrow> tcp_server" where
  "Echo_start startLoop t s = TcpServer_start False startLoop t s"

text \<open>The log line of \<open>onConnection\<close>.\<close>

definition Echo_onConnection :: "'k tcp_connection \<Rightarrow> bytes res" where
  "Echo_onConnection conn = bindR (toIpPort (tc_peerAddr conn)) (\<lambda>ip.
     Inr ((if connected conn then ''Connection UP : '' else ''Connection DOWN : '') @ c_str ip))"

definition echo_main :: "(nat \<Rightarrow> nat) \<Rightarrow> tcp_server res" where
  "echo_main startLoop =
     bindR (Echo_new (InetAddress_new 8080 ''127.0.0.1'') ''EchoServer'') (\<lambda>server. Inr (Echo_start startLoop 0 server))"

section \<open>Spreading the connections\<close>

text \<open>The acceptor calls \<open>newConnection\<close> for each accepted descriptor.\<close>

fun accept_all :: "(int \<times> sockaddr_in \<times> sockaddr_in) list \<Rightarrow> tcp_server \<Rightarrow> tcp_server res" where
  "accept_all [] s = Inr s"
| "accept_all ((fd, peer, loc) # cs) s = bindR (newConnection fd peer loc s) (accept_all cs)"

definition dealt_loop :: "nat loop_pool \<Rightarrow> nat \<Rightarrow> nat" where
  "dealt_loop p i = getAllLoops p ! ((lp_next p + i) mod length (getAllLoops p))"

lemma newConnection_dealt:
  assumes inv: "server_inv None s" and bound: "length (sv_heap s) + 1 < 2 ^ 31 - 1"
  shows "\<exists>s' ob. newConnection fd peer loc s = Inr s' \<and> server_inv None s' \<and> sv_heap s' = sv_heap s @ [ob]
    \<and> co_loop ob = dealt_loop (sv_pool s) 0 \<and> co_fd ob = fd \<and> co_peer ob = peer
    \<and> (\<forall>i. dealt_loop (sv_pool s') i = dealt_loop (sv_pool s) (Suc i))"
proof -
  have pool: "pool_ok (sv_pool s)" using inv by (simp add: server_inv_def)
  from getNextLoop_ok [OF pool] obtain p' where
    p': "getNextLoop (sv_pool s) = Inr (getAllLoops (sv_pool s) ! lp_next (sv_pool s), p')"
      "lp_loops p' = lp_loops (sv_pool s)" "lp_baseLoop p' = lp_baseLoop (sv_pool s)"
      "lp_next p' = Suc (lp_next (sv_pool s)) mod length (getAllLoops (sv_pool s))" by blast
  from newConnection_inv [OF inv bound, of fd peer loc] obtain s' where
    s': "newConnection fd peer loc s = Inr s'" "server_inv None s'" by blast
  have all: "getAllLoops p' = getAllLoops (sv_pool s)" using p'(2,3) by (simp add: getAllLoops_def)
  have "lp_next (sv_pool s) < length (getAllLoops (sv_pool s))"
    using pool by (auto simp: pool_ok_def getAllLoops_def max_def split: if_splits)
  then have "dealt_loop (sv_pool s) 0 = getAllLoops (sv_pool s) ! lp_next (sv_pool s)" by (simp add: dealt_loop_def)
  moreover have "dealt_loop p' i = dealt_loop (sv_pool s) (Suc i)" for i
    by (simp add: dealt_loop_def all p'(4) mod_add_left_eq)
  ultimately show ?thesis using s' p'(1)
    by (auto simp: newConnection_def server_runInLoop_def server_queue_def set_phase_def Let_def split: if_splits)
qed

lemma accept_all_dealt:
  "server_inv None s \<Longrightarrow> length (sv_heap s) + length cs < 2 ^ 31 - 1 \<Longrightarrow>
   \<exists>s' obs. accept_all cs s = Inr s' \<and> server_inv None s' \<and> sv_heap s' = sv_heap s @ obs
     \<and> map co_loop obs = map (dealt_loop (sv_pool s)) [0..<length cs] \<and> map co_fd obs = map fst cs"
proof (induction cs arbitrary: s)
  case (Cons c cs)
  obtain fd peer loc where c: "c = (fd, peer, loc)" by (cases c)
  from newConnection_dealt [OF Cons.prems(1), of fd peer loc] Cons.prems(2) obtain s1 ob where
    s1: "newConnection fd peer loc s = Inr s1" "server_inv None s1" "sv_heap s1 = sv_heap s @ [ob]"
      "co_loop ob = dealt_loop (sv_pool s) 0" "co_fd ob = fd" "\<And>i. dealt_loop (sv_pool s1) i = dealt_loop (sv_pool s) (Suc i)"
    by auto
  from Cons.IH [OF s1(2)] Cons.prems(2) s1(3) obtain s2 obs where
    s2: "accept_all cs s1 = Inr s2" "server_inv None s2" "sv_heap s2 = sv_heap s1 @ obs"
      "map co_loop obs = map (dealt_loop (sv_pool s1)) [0..<length cs]" "map co_fd obs = map fst cs" by auto
  have "map (dealt_loop (sv_pool s)) [0..<length (c # cs)] = dealt_loop (sv_pool s) 0 # map (dealt_loop (sv_pool s1)) [0..<length cs]"
    by (simp add: s1(6) upt_conv_Cons map_Suc_upt [symmetric] del: upt_Suc)
  then show ?case using c s1 s2 by (intro exI [of _ s2] exI [of _ "ob # obs"]) simp
qed simp

lemma http_main_started:
  assumes "http_main now startLoop = Inr h"
  shows "started_server (InetAddress_new 8080 ''127.0.0.1'') ''http-server'' 4 False startLoop = Inr (hs_server h)"
    "hs_httpCallback h = main_onRequest now favicon"
  using assms
  by (auto simp: http_main_def HttpServer_new_def HttpServer_start_def setHttpCallback_def started_server_def bindR_Inr_iff)

lemma echo_main_started:
  assumes "echo_main startLoop = Inr s"
  shows "started_server (InetAddress_new 8080 ''127.0.0.1'') ''EchoServer'' 0 False startLoop = Inr s"
  using assms
  by (auto simp: echo_main_def Echo_new_def Echo_start_def started_server_def bindR_Inr_iff TcpServer_new_def
      TcpServer_setThreadNum_def setThreadNum_def EventLoopThreadPool_new_def)

lemma started_server_pool:
  assumes "started_server addr name n cb startLoop = Inr s"
  shows "sv_listening s" "getAllLoops (sv_pool s) = (if 0 < n then map startLoop [0..<nat n] else [0])" "lp_next (sv_pool s) = 0"
    "sv_heap s = []"
  using assms fold_start_thread [of startLoop "[0..<nat n]"]
  by (auto simp: started_server_def TcpServer_new_def bindR_Inr_iff TcpServer_start_def TcpServer_setThreadNum_def
      server_runInLoop_def pool_start_def setThreadNum_def EventLoopThreadPool_new_def getAllLoops_def Let_def)

section \<open>Properties\<close>

text \<open>The HTTP program listens when \<open>start\<close> returns, and spreads its connections over its four
  loops in turn: the \<open>i\<close>-th one goes to loop \<open>i mod 4\<close>, with the descriptor it was accepted with.\<close>

lemma http_connections_spread:
  assumes "http_main now startLoop = Inr h" and "length cs < 2 ^ 31 - 1"
  shows "sv_listening (hs_server h) \<and> (\<exists>s'. accept_all cs (hs_server h) = Inr s'
    \<and> map co_loop (sv_heap s') = map (\<lambda>i. startLoop (i mod 4)) [0..<length cs] \<and> map co_fd (sv_heap s') = map fst cs)"
proof -
  note st = http_main_started(1) [OF assms(1)]
  note p = started_server_pool [OF st]
  have "server_inv None (hs_server h)" by (rule started_server_inv [OF st]) simp
  from accept_all_dealt [OF this, of cs] assms(2) p(4) obtain s' where
    "accept_all cs (hs_server h) = Inr s'" "map co_loop (sv_heap s') = map (dealt_loop (sv_pool (hs_server h))) [0..<length cs]"
    "map co_fd (sv_heap s') = map fst cs" by auto
  moreover have "dealt_loop (sv_pool (hs_server h)) i = startLoop (i mod 4)" for i
    by (simp add: dealt_loop_def p(2,3))
  ultimately show ?thesis using p(1) by auto
qed

text \<open>The echo program has no threads: all its connections are served by the main loop.\<close>

lemma echo_connections_in_main:
  assumes "echo_main startLoop = Inr s" and "length cs < 2 ^ 31 - 1"
  shows "\<exists>s'. accept_all cs s = Inr s' \<and> map co_loop (sv_heap s') = replicate (length cs) 0"
proof -
  note st = echo_main_started [OF assms(1)]
  note p = started_server_pool [OF st]
  have "server_inv None s" by (rule started_server_inv [OF st]) simp
  from accept_all_dealt [OF this, of cs] assms(2) p(4) obtain s' where
    "accept_all cs s = Inr s'" "map co_loop (sv_heap s') = map (dealt_loop (sv_pool s)) [0..<length cs]" by auto
  moreover have "map (dealt_loop (sv_pool s)) [0..<length cs] = replicate (length cs) 0"
    by (rule nth_equalityI) (simp_all add: dealt_loop_def p(2,3))
  ultimately show ?thesis by simp
qed

text \<open>The response of the demonstration handler to \<open>/hello\<close>; \<open>order\<close> is the order in which the header table
  is walked.\<close>

definition hello_headers :: "bytes \<rightharpoonup> bytes" where
  "hello_headers = [''Content-Type'' \<mapsto> ''text/plain'', ''Server'' \<mapsto> ''Muduo'']"

definition hello_reply :: "(bytes \<times> bytes) list \<Rightarrow> bytes" where
  "hello_reply order = ''HTTP/1.1 200 OK'' @ kCRLF @ ''Connection: close'' @ kCRLF @ render_headers order @ kCRLF
     @ ''hello, world!'' @ [CHR 0x0A]"

lemma hello_response:
  assumes "rq_path req = ''/hello''"
  shows "rs_headers (main_onRequest now icon req (HttpResponse_new True)) = hello_headers"
    "rs_closeConnection (main_onRequest now icon req (HttpResponse_new True))"
    "response_text order (main_onRequest now icon req (HttpResponse_new True)) = hello_reply order"
  using assms
  by (simp_all add: main_onRequest_def hello_headers_def hello_reply_def response_text_def setBody_def setContentType_def
      HttpResponse_addHeader_def setStatusMessage_def setStatusCode_def HttpResponse_new_def fmt_int_def fmt_nat.simps)

text \<open>The HTTP program answers a request for \<open>/hello\<close>: when its bytes are in the input buffer of an
  established connection, the handler that \<open>main\<close> installed puts exactly the status line, the headers and
  the greeting on the outgoing stream, keeps the bytes behind the request, and starts the shutdown.\<close>

lemma hello_served:
  assumes "http_main now startLoop = Inr h" and "epoll_kernel ctl interest" and "can_serve interest tid c"
    and "wf_request m ''/hello'' query v hs"
    and "contents (tc_inputBuffer c) = render_request m ''/hello'' query v hs @ rest"
    and "iter hello_headers = order" and "length (render_headers order) < 1000"
    and "send_accepts (kernel_write w) (hello_reply order) c"
  shows "\<exists>c'. HttpServer_onMessage ctl (kernel_write w) iter (hs_httpCallback h) tid ptr t c = Some (Inr c')
    \<and> tc_wire c' @ contents (tc_outputBuffer c') = tc_wire c @ contents (tc_outputBuffer c) @ hello_reply order
    \<and> contents (tc_inputBuffer c') = rest \<and> tc_state c' = kDisconnecting"
proof -
  let ?req = "\<lparr>rq_method = m, rq_version = v, rq_path = ''/hello'', rq_query = query, rq_receiveTime = t,
      rq_headers = map_of (rev hs)\<rparr>"
  let ?resp = "main_onRequest now favicon ?req (HttpResponse_new True)"
  note r = hello_response [where req = ?req and now = now and icon = favicon, simplified]
  have reply: "hello_reply order = response_text (iter (rs_headers ?resp)) ?resp" by (simp add: r assms(6))
  have "length (hello_reply order) < 2 ^ 31" using assms(7) by (simp add: hello_reply_def kCRLF_def)
  from onMessage_request [where httpCallback = "main_onRequest now favicon" and iter = iter,
      OF assms(2-5) refl refl reply this assms(8)]
  show ?thesis using http_main_started(2) [OF assms(1)] r(2) by auto
qed

lemma http_main_runs: "\<exists>h. http_main now startLoop = Inr h"
  by (simp add: http_main_def HttpServer_new_def TcpServer_new_def toIpPort_text)

end
