(* ===== verification/HandlerLoop.thy ===== *)
theory HandlerLoop
  imports ServerLoop Programs "HOL-Library.Char_ord" "HOL-Library.List_Lexorder"
begin

text \<open>
  The servers of the repository in their loops: the message handlers of \<open>HttpServer\<close> (\<open>src/src/http/HttpServer.cc\<close>)
  and of the echo server (\<open>src/example/echoServer.cc\<close>) called where \<open>TcpConnection::handleRead\<close> calls the message callback, in the
  loops of \<open>ServerLoop\<close>. A handler is a sequence of operations of a user on its connection (\<open>message_handler\<close>),
  so a server with its handler is one of the systems of \<open>ServerLoop\<close>, and everything shown of them holds of it.
\<close>

section \<open>Handlers\<close>

text \<open>An operation of a user on a connection that is established or was.\<close>

definition user_step :: "'k epoll_ctl \<Rightarrow> 'k tcp_connection \<Rightarrow> 'k tcp_connection \<Rightarrow> bool" where
  "user_step ctl c c' \<longleftrightarrow> (\<exists>op. user_op op \<and> op_fits op c \<and> conn_step ctl op c = Inr c')"

text \<open>The message callback of the connections: it gets what the environment answers meanwhile and the thread that
  calls it. \<open>None\<close> means that it does not return.\<close>

type_synonym ('e, 'k) handler = "'e \<Rightarrow> nat \<Rightarrow> 'k tcp_connection \<Rightarrow> 'k tcp_connection res option"

text \<open>When the handler is called the output buffer is far from the limits of the address space, and the length of the
  input in the range of \<open>int\<close>.\<close>

definition message_room :: "'k tcp_connection \<Rightarrow> bool" where
  "message_room c \<longleftrightarrow> length (bufferData (tc_inputBuffer c)) < 2 ^ 31 \<and> length (bufferData (tc_outputBuffer c)) < 2 ^ 62"

text \<open>\<open>handleRead\<close> with the handler in the place of \<open>messageCallback_\<close>.\<close>

definition run_message ::
  "'k epoll_ctl \<Rightarrow> ('e, 'k) handler \<Rightarrow> 'e \<Rightarrow> int + bytes \<Rightarrow> nat \<Rightarrow> conn_id \<Rightarrow> 'k system \<Rightarrow> 'k system res option"
where
  "run_message ctl handler e r tid c sy =
     (case sys_conn_op ctl (Readable r) c sy of
        Inl f \<Rightarrow> Some (Inl f)
      | Inr sy1 \<Rightarrow>
          if tc_calls (attach sy1 c) = tc_calls (attach sy c) @ [MessageCb]
          then map_option (\<lambda>x. bindR x (\<lambda>conn. Inr (put_conn c conn sy1))) (handler e tid (attach sy1 c))
          else Some (Inr sy1))"

definition message_fits :: "int + bytes \<Rightarrow> 'k tcp_connection \<Rightarrow> bool" where
  "message_fits r c \<longleftrightarrow> length (bufferData (tc_inputBuffer c)) + op_in (Readable r) < 2 ^ 31
     \<and> length (bufferData (tc_outputBuffer c)) < 2 ^ 62"

definition at_read :: "round_pc \<Rightarrow> bool" where
  "at_read pc \<longleftrightarrow> (case pc of InChannels ps (Some (c, ReadCallback # cbs)) \<Rightarrow> True | _ \<Rightarrow> False)"

text \<open>The loops with a handler: a read callback runs the handler in the thread of its loop, all else is as before.\<close>

inductive handler_step ::
  "'k epoll_ctl \<Rightarrow> ('k \<Rightarrow> int \<rightharpoonup> epoll_event) \<Rightarrow> int set \<Rightarrow> (nat \<Rightarrow> conn_functor event_loop) \<Rightarrow> bool \<Rightarrow> ('e, 'k) handler
    \<Rightarrow> 'k loops_system \<Rightarrow> 'k loops_system \<Rightarrow> bool"
  for ctl interest base loops wc handler
where
  handler_message: "sl_pc S l = InChannels ps (Some (c, ReadCallback # cbs)) \<Longrightarrow> message_fits r (attach (sl_system S) c) \<Longrightarrow>
    run_message ctl handler e r (el_threadId (loops l)) c (sl_system S) = Some (Inr sy) \<Longrightarrow>
    handler_step ctl interest base loops wc handler S
      (S\<lparr>sl_system := sy, sl_pc := (sl_pc S)(l := InChannels ps (Some (c, cbs)))\<rparr>)"
| handler_other: "loop_step ctl interest base loops wc S S' \<Longrightarrow> (\<forall>l. at_read (sl_pc S l) \<longrightarrow> sl_pc S' l = sl_pc S l) \<Longrightarrow>
    handler_step ctl interest base loops wc handler S S'"

section \<open>The handlers of the programs\<close>

text \<open>\<open>HttpServer::onMessage\<close> with the socket's answer, the time of the message and what the user's callback reads.\<close>

definition http_handler ::
  "'k epoll_ctl \<Rightarrow> ((bytes \<rightharpoonup> bytes) \<Rightarrow> (bytes \<times> bytes) list) \<Rightarrow> ('x \<Rightarrow> http_request \<Rightarrow> http_response \<Rightarrow> http_response) \<Rightarrow> nat
    \<Rightarrow> ((int + nat) \<times> timestamp \<times> 'x, 'k) handler"
where
  "http_handler ctl iter httpCallback ptr e tid conn =
     (case e of (w, t, x) \<Rightarrow> HttpServer_onMessage ctl (kernel_write w) iter (httpCallback x) tid ptr t conn)"

definition echo_handler :: "'k epoll_ctl \<Rightarrow> nat \<Rightarrow> (int + nat, 'k) handler" where
  "echo_handler ctl ptr w tid conn = Some (Echo_onMessage ctl (kernel_write w) tid ptr conn)"

text \<open>The length of a response stays in the range of \<open>int\<close>, through which \<open>sendInLoop\<close> passes it.\<close>

definition short_replies ::
  "((bytes \<rightharpoonup> bytes) \<Rightarrow> (bytes \<times> bytes) list) \<Rightarrow> ('x \<Rightarrow> http_request \<Rightarrow> http_response \<Rightarrow> http_response) \<Rightarrow> bool"
where
  "short_replies iter cb \<longleftrightarrow> (\<forall>x req. let resp = cb x req (HttpResponse_new True)
     in length (response_text (iter (rs_headers resp)) resp) < 2 ^ 31)"

section \<open>The thread of a connection\<close>

lemma conn_set_mode_thread: "conn_set_mode ctl m c = Inr c' \<Longrightarrow> el_threadId (tc_loop c') = el_threadId (tc_loop c)"
  by (drule conn_set_mode_loop) simp

lemma conn_remove_loop: "conn_remove ctl c = Inr c' \<Longrightarrow> tc_loop c' = tc_loop c"
  by (auto simp: conn_remove_def bindR_Inr_iff)

lemma handleClose_loop: "TcpConnection_handleClose ctl c = Inr c' \<Longrightarrow> tc_loop c' = tc_loop c"
  by (auto simp: TcpConnection_handleClose_def bindR_Inr_iff setState_def dest!: conn_set_mode_loop conn_callback_Inr)

lemma connectDestroyed_loop: "connectDestroyed ctl c = Inr c' \<Longrightarrow> tc_loop c' = tc_loop c"
  by (auto simp: connectDestroyed_def bindR_Inr_iff setState_def split: if_splits
      dest!: conn_set_mode_loop conn_callback_Inr conn_remove_loop)

lemma connectEstablished_loop: "connectEstablished ctl c = Inr c' \<Longrightarrow> tc_loop c' = tc_loop c"
  by (auto simp: connectEstablished_def bindR_Inr_iff setState_def Let_def dest!: conn_set_mode_loop conn_callback_Inr)

lemma shutdown_thread: "el_threadId (tc_loop (shutdown tid c)) = el_threadId (tc_loop c)"
  by (simp add: shutdown_def setState_def Let_def)

lemma conn_step_thread:
  assumes "conn_step ctl op c = Inr c'"
  shows "el_threadId (tc_loop c') = el_threadId (tc_loop c)"
proof (cases op)
  case (RunFunctor mem f w)
  then show ?thesis using assms
    by (cases f) (auto simp: bindR_Inr_iff split: if_splits option.splits dest: sendInLoop_thread)
qed (use assms in \<open>auto simp: send_string_def send_buffer_def bindR_Inr_iff shutdown_thread split: if_splits
  dest: sendInLoop_thread handleWrite_thread handleRead_loop handleClose_loop connectDestroyed_loop\<close>)

text \<open>Every connection knows the loop it was given to.\<close>

definition threads_ok :: "(nat \<Rightarrow> conn_functor event_loop) \<Rightarrow> 'k system \<Rightarrow> bool" where
  "threads_ok loops sy \<longleftrightarrow> length (sy_conns sy) = length (sv_heap (sy_server sy))
     \<and> (\<forall>c < length (sy_conns sy). el_threadId (tc_loop (sy_conns sy ! c)) = el_threadId (loops (co_loop (sy_object sy c))))"

lemma threads_ok_put:
  assumes "threads_ok loops sy" "length (sv_heap s') = length (sv_heap (sy_server sy))"
    and "\<And>d. d < length (sv_heap s') \<Longrightarrow> co_loop (sv_heap s' ! d) = co_loop (sy_object sy d)"
    and "el_threadId (tc_loop conn) = el_threadId (tc_loop (sy_conns sy ! c))"
  shows "threads_ok loops ((put_conn c conn sy)\<lparr>sy_server := s'\<rparr>)"
  using assms by (cases "c < length (sy_conns sy)") (auto simp: threads_ok_def put_conn_def nth_update)

lemma attach_loop [simp]: "tc_loop (attach sy c) = tc_loop (sy_conns sy ! c)"
  by (simp add: attach_def)

lemma server_exec_loops:
  "length (sv_heap (server_exec f s)) = length (sv_heap s)"
  "d < length (sv_heap s) \<Longrightarrow> co_loop (sv_heap (server_exec f s) ! d) = co_loop (sv_heap s ! d)"
  by (cases f; simp add: removeConnectionInLoop_def server_queue_def set_phase_def nth_update Let_def)+

lemma server_run_loops:
  "length (sv_heap (server_runInLoop t l f s)) = length (sv_heap s)"
  "d < length (sv_heap s) \<Longrightarrow> co_loop (sv_heap (server_runInLoop t l f s) ! d) = co_loop (sv_heap s ! d)"
  by (simp_all add: server_runInLoop_def server_exec_loops server_queue_def)

lemma remove_loops:
  "length (sv_heap (removeConnection t c (set_phase c ph s))) = length (sv_heap s)"
  "d < length (sv_heap s) \<Longrightarrow> co_loop (sv_heap (removeConnection t c (set_phase c ph s)) ! d) = co_loop (sv_heap s ! d)"
  by (simp_all add: removeConnection_def server_run_loops set_phase_def nth_update)

lemma new_conn_loop: "new_conn loop pl p name fd loc peer wc = Inr conn \<Longrightarrow> tc_loop conn = loop"
  by (auto simp: new_conn_def TcpConnection_new_def CheckLoopNotNull_def bindR_Inr_iff Let_def)

lemma threads_ok_exec:
  assumes ok: "threads_ok loops sy" and step: "sys_exec ctl f sy = Inr sy'"
  shows "threads_ok loops sy'"
proof (cases f)
  case (ConnectEstablished c)
  with step obtain conn where conn: "connectEstablished ctl (attach sy c) = Inr conn"
    "sy' = (put_conn c conn sy)\<lparr>sy_server := server_exec f (sy_server sy)\<rparr>" by (auto simp: bindR_Inr_iff)
  show ?thesis unfolding conn(2)
    by (rule threads_ok_put [OF ok]) (use connectEstablished_loop [OF conn(1)] in \<open>auto simp: server_exec_loops\<close>)
next
  case (ConnectDestroyed c)
  with step obtain conn where conn: "connectDestroyed ctl (attach sy c) = Inr conn"
    "sy' = (put_conn c conn sy)\<lparr>sy_server := server_exec f (sy_server sy)\<rparr>" by (auto simp: bindR_Inr_iff)
  show ?thesis unfolding conn(2)
    by (rule threads_ok_put [OF ok]) (use connectDestroyed_loop [OF conn(1)] in \<open>auto simp: server_exec_loops\<close>)
qed (use ok step in \<open>auto simp: threads_ok_def removeConnectionInLoop_def server_queue_def Let_def\<close>)

lemma threads_ok_op:
  assumes ok: "threads_ok loops sy" and step: "sys_conn_op ctl op c sy = Inr sy'"
  shows "threads_ok loops sy'"
proof -
  from step obtain conn where conn: "conn_step ctl op (attach sy c) = Inr conn"
    "sy' = put_conn c conn sy \<or> sy' = (put_conn c conn sy)\<lparr>sy_server :=
       removeConnection (co_loop (sy_object sy c)) c (set_phase c Closed (sy_server sy))\<rparr>"
    by (auto simp: sys_conn_op_def bindR_Inr_iff Let_def split: if_splits)
  have th: "el_threadId (tc_loop conn) = el_threadId (tc_loop (sy_conns sy ! c))" using conn_step_thread [OF conn(1)] by simp
  have "put_conn c conn sy = (put_conn c conn sy)\<lparr>sy_server := sy_server sy\<rparr>" by (simp add: put_conn_def)
  then show ?thesis using conn(2) threads_ok_put [OF ok _ _ th, of "sy_server sy"] threads_ok_put [OF ok remove_loops(1) _ th]
    by (auto simp: remove_loops)
qed

lemma threads_ok_new:
  assumes ok: "threads_ok loops sy" and step: "sys_newConnection ctl loops wc p fd peer loc sy = Inr sy'"
  shows "threads_ok loops sy'"
proof -
  let ?n = "length (sy_conns sy)"
  from step obtain s' conn conn' where
    s': "newConnection fd peer loc (sy_server sy) = Inr s'" and
    new: "new_conn (loops (co_loop (sv_heap s' ! ?n))) (sy_pollers sy (co_loop (sv_heap s' ! ?n))) p
       (co_name (sv_heap s' ! ?n)) fd loc peer wc = Inr conn" and
    est: "(if co_loop (sv_heap s' ! ?n) = 0 then connectEstablished ctl conn else Inr conn) = Inr conn'" and
    sy': "sy_server sy' = s'" "sy_conns sy' = sy_conns sy @ [conn']"
    by (auto simp: sys_newConnection_def bindR_Inr_iff Let_def)
  have "tc_loop conn' = tc_loop conn" using est connectEstablished_loop by (auto split: if_splits)
  then have "tc_loop conn' = loops (co_loop (sv_heap s' ! ?n))" using new_conn_loop [OF new] by simp
  then show ?thesis
    using newConnection_heap [OF s'] ok sy' by (auto simp: threads_ok_def nth_append less_Suc_eq)
qed

lemma system_step_threads:
  assumes "system_step ctl base loops wc sy sy'" and ok: "threads_ok loops sy"
  shows "threads_ok loops sy'"
  using assms(1)
proof cases
  case (sys_run l f fs)
  have "threads_ok loops (sy\<lparr>sy_server := (sy_server sy)\<lparr>sv_queues := (sv_queues (sy_server sy))(l := fs)\<rparr>\<rparr>)"
    using ok by (simp add: threads_ok_def)
  then show ?thesis using sys_run(2) by (rule threads_ok_exec)
next
  case (sys_poll epoll_wait eintr l lg active pl)
  then show ?thesis using ok by (simp add: threads_ok_def)
qed (use ok in \<open>blast intro: threads_ok_new threads_ok_op\<close>)+

sublocale server_system \<subseteq> threads: transition_invariant "system_start interest base s0" "system_step ctl base loops wc" "threads_ok loops"
proof unfold_locales
  fix sy
  assume "system_start interest base s0 sy"
  then show "threads_ok loops sy" using s0_empty by (auto simp: system_start_def threads_ok_def)
qed (rule system_step_threads)

section \<open>The operations of a handler\<close>

text \<open>After an operation the connection holds the current poller of its loop.\<close>

definition fresh :: "'k system \<Rightarrow> conn_id \<Rightarrow> bool" where
  "fresh sy c \<longleftrightarrow> c < length (sy_conns sy) \<and> attach sy c = sy_conns sy ! c"

lemma put_conn_fresh:
  assumes "c < length (sy_conns sy)"
  shows "fresh (put_conn c conn sy) c" "attach (put_conn c conn sy) c = conn"
  using assms by (simp_all add: fresh_def put_conn_def attach_def)

lemma put_conn_again: "put_conn c conn' (put_conn c conn sy) = put_conn c conn' sy"
  by (simp add: put_conn_def)

lemma put_conn_same: "fresh sy c \<Longrightarrow> put_conn c (attach sy c) sy = sy"
proof -
  assume f: "fresh sy c"
  have "tc_poller (attach sy c) = sy_pollers sy (co_loop (sy_object sy c))" by (simp add: attach_def)
  then show ?thesis using f by (simp add: fresh_def put_conn_def)
qed

lemma put_conn_server [simp]: "sy_server (put_conn c conn sy) = sy_server sy" "length (sy_conns (put_conn c conn sy)) = length (sy_conns sy)"
  by (simp_all add: put_conn_def)

lemma user_step_effect: "user_step ctl c c' \<Longrightarrow> write_effect ctl c c'"
  by (auto simp: user_step_def intro: user_op_effect)

lemma user_steps_state:
  "(user_step ctl)\<^sup>*\<^sup>* c c' \<Longrightarrow> tc_state c \<noteq> kConnecting \<Longrightarrow> tc_state c' \<noteq> kConnecting"
  by (induction rule: rtranclp_induct) (auto simp: write_effect_def dest!: user_step_effect)

lemma user_step_loop:
  assumes "live (sl_system S) c" "tc_state (attach (sl_system S) c) \<noteq> kConnecting"
    and step: "user_step ctl (attach (sl_system S) c) conn"
  shows "loop_step ctl interest base loops wc S (S\<lparr>sl_system := put_conn c conn (sl_system S)\<rparr>)"
proof -
  from step obtain op where op: "user_op op" "op_fits op (attach (sl_system S) c)" "conn_step ctl op (attach (sl_system S) c) = Inr conn"
    by (auto simp: user_step_def)
  have "tc_calls conn = tc_calls (attach (sl_system S) c)" using user_op_effect [OF op(3,1)] by (simp add: write_effect_def)
  then have "sys_conn_op ctl op c (sl_system S) = Inr (put_conn c conn (sl_system S))" using op(3) by (simp add: sys_conn_op_def)
  moreover have "may_meet op (attach (sl_system S) c)" using op(1) assms(2) by (cases op) (auto simp: may_meet_def)
  ultimately show ?thesis using loop_user [OF assms(1) op(1) _ op(2)] by blast
qed

lemma user_steps_loop:
  assumes "(user_step ctl)\<^sup>*\<^sup>* (attach (sl_system S) c) conn" and c: "fresh (sl_system S) c" "live (sl_system S) c"
    and st: "tc_state (attach (sl_system S) c) \<noteq> kConnecting"
  shows "(loop_step ctl interest base loops wc)\<^sup>*\<^sup>* S (S\<lparr>sl_system := put_conn c conn (sl_system S)\<rparr>)"
  using assms(1)
proof (induction rule: rtranclp_induct)
  case base
  show ?case using put_conn_same [OF c(1)] by simp
next
  case (step conn1 conn2)
  let ?S = "S\<lparr>sl_system := put_conn c conn1 (sl_system S)\<rparr>"
  have a: "attach (sl_system ?S) c = conn1" using c(1) by (simp add: fresh_def put_conn_fresh)
  have "loop_step ctl interest base loops wc ?S (?S\<lparr>sl_system := put_conn c conn2 (sl_system ?S)\<rparr>)"
  proof (rule user_step_loop)
    show "live (sl_system ?S) c" using c(2) by simp
    show "tc_state (attach (sl_system ?S) c) \<noteq> kConnecting" unfolding a by (rule user_steps_state [OF step.hyps(1) st])
    show "user_step ctl (attach (sl_system ?S) c) conn2" unfolding a by (rule step.hyps(2))
  qed
  with step.IH show ?case by (simp add: put_conn_again)
qed

text \<open>What a read leaves when it calls the handler, and when it does not.\<close>

lemma read_message:
  assumes "sys_conn_op ctl (Readable r) c sy = Inr sy1" "c < length (sy_conns sy)"
    and "tc_calls (attach sy1 c) = tc_calls (attach sy c) @ [MessageCb]"
  shows "\<exists>conn. conn_step ctl (Readable r) (attach sy c) = Inr conn \<and> sy1 = put_conn c conn sy \<and> attach sy1 c = conn"
proof -
  from assms(1) obtain conn where conn: "conn_step ctl (Readable r) (attach sy c) = Inr conn"
    and sy1: "sy1 = (let sy1 = put_conn c conn sy in if tc_calls conn = tc_calls (attach sy c) @ [ConnectionCb, CloseCb]
        then sy1\<lparr>sy_server := removeConnection (co_loop (sy_object sy c)) c (set_phase c Closed (sy_server sy))\<rparr> else sy1)"
    by (auto simp: sys_conn_op_def bindR_Inr_iff Let_def)
  have "tc_calls (attach sy1 c) = tc_calls conn" using assms(2) by (simp add: sy1 Let_def attach_def put_conn_def)
  then have "sy1 = put_conn c conn sy" using sy1 assms(3) by simp
  then show ?thesis using conn assms(2) by (auto simp: put_conn_fresh)
qed

section \<open>Servers with a handler\<close>

text \<open>What the loops rely on: called in the thread of its loop, on a connection that is established or shutting
  down, a handler returns, and is a sequence of operations of a user.\<close>

locale message_handler = epoll_kernel ctl interest
  for ctl :: "'k epoll_ctl" and interest :: "'k \<Rightarrow> int \<rightharpoonup> epoll_event" +
  fixes handler :: "('e, 'k) handler"
  assumes handler_ops: "conn_inv interest c \<Longrightarrow> tc_state c = kConnected \<or> tc_state c = kDisconnecting \<Longrightarrow>
    isInLoopThread tid (tc_loop c) \<Longrightarrow> message_room c \<Longrightarrow>
    \<exists>c'. handler e tid c = Some (Inr c') \<and> (user_step ctl)\<^sup>*\<^sup>* c c'"

locale handler_system = server_system ctl interest base loops wc s0 + message_handler ctl interest handler
  for ctl :: "'k epoll_ctl" and interest :: "'k \<Rightarrow> int \<rightharpoonup> epoll_event" and base :: "int set"
    and loops :: "nat \<Rightarrow> conn_functor event_loop" and wc :: bool and s0 :: tcp_server and handler :: "('e, 'k) handler"
begin

abbreviation reach :: "'k loops_system \<Rightarrow> bool" where
  "reach \<equiv> reachable (loops_start interest base s0) (loop_step ctl interest base loops wc)"

text \<open>The connection on which a loop is about to read.\<close>

lemma reading_conn:
  assumes r: "reach S" and pc: "sl_pc S l = InChannels ps (Some (c, ReadCallback # cbs))"
  defines "conn \<equiv> attach (sl_system S) c"
  shows "live (sl_system S) c" "c < length (sy_conns (sl_system S))" "conn_inv interest conn" "life_ok conn"
    "tc_state conn = kConnected \<or> tc_state conn = kDisconnecting" "isInLoopThread (el_threadId (loops l)) (tc_loop conn)"
    "handling_ok l (sl_system S) ps (c, ReadCallback # cbs)" "conns_inv interest base (sl_system S)"
proof -
  have inv: "loops_inv interest base S" by (rule loops_invs(2) [OF r])
  then show conns: "conns_inv interest base (sl_system S)" by (simp add: loops_inv_def)
  have "pc_ok l (sl_system S) (sl_pc S l)" using inv by (simp add: loops_inv_def)
  then show h: "handling_ok l (sl_system S) ps (c, ReadCallback # cbs)" using pc by simp
  then have est: "co_phase (sy_object (sl_system S) c) = Established" "co_loop (sy_object (sl_system S) c) = l"
    by (auto simp: handling_ok_def calls_ok_def needs_channel_def)
  then show c: "live (sl_system S) c" using h conns_invD(1) [OF conns] by (simp add: handling_ok_def)
  note L = object_ok_live [OF conns c]
  show "c < length (sy_conns (sl_system S))" "conn_inv interest conn" "life_ok conn"
    "tc_state conn = kConnected \<or> tc_state conn = kDisconnecting" using L est(1) by (auto simp: conn_def)
  have "threads_ok loops (sl_abs S)" by (rule threads.reachable_inv [OF loops_invs(1) [OF r]])
  then have "el_threadId (tc_loop conn) = el_threadId (loops l)" using L(5) est(2) by (simp add: threads_ok_def sl_abs_def conn_def)
  then show "isInLoopThread (el_threadId (loops l)) (tc_loop conn)" by (simp add: isInLoopThread_def)
qed

text \<open>After a read that calls the handler, the handler runs.\<close>

lemma handler_after_read:
  assumes r: "reach S" and pc: "sl_pc S l = InChannels ps (Some (c, ReadCallback # cbs))"
    and fits: "message_fits r (attach (sl_system S) c)"
    and conn: "conn_step ctl (Readable r) (attach (sl_system S) c) = Inr conn"
    and calls: "tc_calls conn = tc_calls (attach (sl_system S) c) @ [MessageCb]"
  shows "tc_state conn \<noteq> kConnecting \<and> (\<exists>conn'. handler e (el_threadId (loops l)) conn = Some (Inr conn') \<and> (user_step ctl)\<^sup>*\<^sup>* conn conn')"
proof -
  note R = reading_conn [OF r pc]
  have "may_meet (Readable r) (attach (sl_system S) c)"
    using R(4,5) by (auto simp: may_meet_def life_ok_def)
  from conn_step_life [OF R(3,4) this conn] have st: "tc_state conn = kConnected \<or> tc_state conn = kDisconnecting"
    using calls R(5) by (cases "tc_state conn") auto
  have "step_ok interest (Readable r) (attach (sl_system S) c) conn"
    using conn_step_ok [OF R(3), of "Readable r"] conn fits by (auto simp: message_fits_def)
  then have "conn_inv interest conn" "message_room conn"
    using fits by (auto simp: step_ok_def message_fits_def message_room_def)
  moreover have "isInLoopThread (el_threadId (loops l)) (tc_loop conn)"
    using conn_step_thread [OF conn] R(6) by (simp add: isInLoopThread_def)
  ultimately show ?thesis using handler_ops st by auto
qed

lemma message_runs:
  assumes r: "reach S" and pc: "sl_pc S l = InChannels ps (Some (c, ReadCallback # cbs))"
    and fits: "message_fits r (attach (sl_system S) c)"
  shows "\<exists>sy. run_message ctl handler e r (el_threadId (loops l)) c (sl_system S) = Some (Inr sy)
    \<and> (loop_step ctl interest base loops wc)\<^sup>*\<^sup>* S
        (S\<lparr>sl_system := sy, sl_pc := (sl_pc S)(l := InChannels ps (Some (c, cbs)))\<rparr>)"
proof -
  note R = reading_conn [OF r pc]
  have f: "callback_fits r w c ReadCallback (sl_system S)" for w
    using fits by (simp add: callback_fits_def op_fits_def message_fits_def)
  from callback_succeeds [OF R(8,7) f] obtain sy1 where
    cb: "run_callback ctl r w c ReadCallback (sl_system S) = Inr sy1" for w by (auto simp: run_callback_def)
  then have op: "sys_conn_op ctl (Readable r) c (sl_system S) = Inr sy1" by (simp add: run_callback_def)
  let ?S1 = "S\<lparr>sl_system := sy1, sl_pc := (sl_pc S)(l := InChannels ps (Some (c, cbs)))\<rparr>"
  have s1: "loop_step ctl interest base loops wc S ?S1" by (rule loop_callback [OF pc f cb])
  show ?thesis
  proof (cases "tc_calls (attach sy1 c) = tc_calls (attach (sl_system S) c) @ [MessageCb]")
    case False
    then show ?thesis using op s1 by (auto simp: run_message_def)
  next
    case True
    from read_message [OF op R(2) True] obtain conn where
      conn: "conn_step ctl (Readable r) (attach (sl_system S) c) = Inr conn" "sy1 = put_conn c conn (sl_system S)" "attach sy1 c = conn"
      by blast
    from handler_after_read [OF r pc fits conn(1)] True conn(3) obtain conn' where
      h: "tc_state conn \<noteq> kConnecting" "handler e (el_threadId (loops l)) conn = Some (Inr conn')" "(user_step ctl)\<^sup>*\<^sup>* conn conn'" by auto
    have "(loop_step ctl interest base loops wc)\<^sup>*\<^sup>* ?S1 (?S1\<lparr>sl_system := put_conn c conn' (sl_system ?S1)\<rparr>)"
      by (rule user_steps_loop) (use h conn R(1,2) in \<open>simp_all add: put_conn_fresh\<close>)
    then have "(loop_step ctl interest base loops wc)\<^sup>*\<^sup>* S (?S1\<lparr>sl_system := put_conn c conn' sy1\<rparr>)"
      using s1 by (simp add: converse_rtranclp_into_rtranclp)
    moreover have "?S1\<lparr>sl_system := put_conn c conn' sy1\<rparr>
        = S\<lparr>sl_system := put_conn c conn' sy1, sl_pc := (sl_pc S)(l := InChannels ps (Some (c, cbs)))\<rparr>" by (cases S) simp
    moreover have "run_message ctl handler e r (el_threadId (loops l)) c (sl_system S) = Some (Inr (put_conn c conn' sy1))"
      using op True conn(3) h(2) by (simp add: run_message_def)
    ultimately show ?thesis by metis
  qed
qed

text \<open>Bytes arrive: the handler finds them behind the bytes left in the input buffer, and its result is the next state.\<close>

lemma message_arrives:
  assumes r: "reach S" and pc: "sl_pc S l = InChannels ps (Some (c, ReadCallback # cbs))"
    and fits: "message_fits (Inr s) (attach (sl_system S) c)" and s: "s \<noteq> []" "length s \<le> 65536"
  defines "conn \<equiv> attach (sl_system S) c"
  shows "\<exists>c1. conn_inv interest c1 \<and> tc_state c1 = tc_state conn \<and> isInLoopThread (el_threadId (loops l)) (tc_loop c1)
    \<and> tc_outputBuffer c1 = tc_outputBuffer conn \<and> tc_wire c1 = tc_wire conn
    \<and> contents (tc_inputBuffer c1) = contents (tc_inputBuffer conn) @ s \<and> message_room c1
    \<and> (\<forall>e c'. handler e (el_threadId (loops l)) c1 = Some (Inr c') \<longrightarrow>
         (\<exists>S'. handler_step ctl interest base loops wc handler S S' \<and> attach (sl_system S') c = c'
            \<and> sl_pc S' = (sl_pc S)(l := InChannels ps (Some (c, cbs)))))"
proof -
  note R = reading_conn [OF r pc, folded conn_def]
  have got: "take (readFd_capacity (tc_inputBuffer conn)) s = s" using s(2) readFd_capacity_ge order_trans by fastforce
  have "length (bufferData (tc_inputBuffer conn)) < 2 ^ 62" using fits by (simp add: message_fits_def conn_def)
  from handleRead_ok [OF R(3) this, of "Inr s"] obtain c1 where
    step: "conn_step ctl (Readable (Inr s)) conn = Inr c1" and
    c1: "conn_inv interest c1" "tc_outputBuffer c1 = tc_outputBuffer conn" "tc_wire c1 = tc_wire conn"
      "contents (tc_inputBuffer c1) = contents (tc_inputBuffer conn) @ s" "tc_state c1 = tc_state conn"
      "length (bufferData (tc_inputBuffer c1)) \<le> length (bufferData (tc_inputBuffer conn)) + length s"
      "tc_calls c1 = tc_calls conn @ [MessageCb]"
    using s(1) got by (auto simp: Let_def)
  have op: "sys_conn_op ctl (Readable (Inr s)) c (sl_system S) = Inr (put_conn c c1 (sl_system S))"
    using step c1(7) by (simp add: sys_conn_op_def conn_def)
  note a = put_conn_fresh(2) [OF R(2)]
  have "\<exists>S'. handler_step ctl interest base loops wc handler S S' \<and> attach (sl_system S') c = c'
      \<and> sl_pc S' = (sl_pc S)(l := InChannels ps (Some (c, cbs)))"
    if "handler e (el_threadId (loops l)) c1 = Some (Inr c')" for e c'
  proof -
    have "run_message ctl handler e (Inr s) (el_threadId (loops l)) c (sl_system S) = Some (Inr (put_conn c c' (sl_system S)))"
      using op a [of c1] c1(7) that by (simp add: run_message_def conn_def put_conn_again)
    from handler_message [where loops = loops and interest = interest and base = base and wc = wc, OF pc fits this] show ?thesis
      by (intro exI conjI) (assumption, simp_all add: a)
  qed
  moreover have "message_room c1" using c1(2,6) fits by (simp add: message_room_def message_fits_def conn_def)
  moreover have "isInLoopThread (el_threadId (loops l)) (tc_loop c1)"
    using conn_step_thread [OF step] R(6) by (simp add: isInLoopThread_def)
  ultimately show ?thesis using c1(1-5) by (intro exI [of _ c1]) simp
qed

lemma reach_steps: "(loop_step ctl interest base loops wc)\<^sup>*\<^sup>* S S' \<Longrightarrow> reach S \<Longrightarrow> reach S'"
  by (induction rule: rtranclp_induct) (auto intro: reachable_step)

lemma handler_step_loops:
  assumes r: "reach S" and step: "handler_step ctl interest base loops wc handler S S'"
  shows "(loop_step ctl interest base loops wc)\<^sup>*\<^sup>* S S'"
  using step
proof cases
  case (handler_message l ps c cbs r' e sy)
  then show ?thesis using message_runs [OF r handler_message(2,3), of e] by auto
qed blast

end

sublocale handler_system \<subseteq> handled: transition_invariant "loops_start interest base s0"
    "handler_step ctl interest base loops wc handler" reach
proof unfold_locales
  fix S S'
  assume "handler_step ctl interest base loops wc handler S S'" and "reach S"
  then show "reach S'" using handler_step_loops reach_steps by blast
qed (rule reachable_start)

context handler_system
begin

lemma handled_reach:
  "reachable (loops_start interest base s0) (handler_step ctl interest base loops wc handler) S \<Longrightarrow>
    reachable (loops_start interest base s0) (loop_step ctl interest base loops wc) S"
  by (rule handled.reachable_inv)

end

section \<open>The handlers of the programs are operations of a user\<close>

text \<open>Room for the operations of one message.\<close>

definition op_room :: "nat \<Rightarrow> 'k tcp_connection \<Rightarrow> bool" where
  "op_room n c \<longleftrightarrow> length (bufferData (tc_outputBuffer c)) + n < 2 ^ 63 \<and> length (bufferData (tc_inputBuffer c)) < 2 ^ 62"

lemma message_room_op: "message_room c \<Longrightarrow> n \<le> 2 ^ 32 \<Longrightarrow> op_room n c"
  by (simp add: message_room_def op_room_def)

lemma user_stepI:
  assumes k: "epoll_kernel ctl interest" and "conn_inv interest c" "op_room (op_out op + n) c" "op_out op < 2 ^ 31"
    and op: "user_op op" "op_valid op"
  shows "\<exists>c'. conn_step ctl op c = Inr c' \<and> user_step ctl c c' \<and> conn_inv interest c' \<and> op_room n c'"
proof -
  have fits: "op_fits op c" using assms by (auto simp: op_fits_def op_room_def)
  from epoll_kernel.conn_step_ok [OF k assms(2) op(2) assms(4)] assms(3) obtain c' where
    c': "conn_step ctl op c = Inr c'" "step_ok interest op c c'" by (auto simp: op_room_def)
  have "op_in op = 0" using op(1) by (cases op) simp_all
  then show ?thesis using c' fits op(1) assms(3) by (auto simp: user_step_def step_ok_def op_room_def)
qed

lemma consume_steps:
  "op_room 0 c \<Longrightarrow> (user_step ctl)\<^sup>*\<^sup>* c (c\<lparr>tc_inputBuffer := fold retrieve ns (tc_inputBuffer c)\<rparr>)"
proof (induction ns arbitrary: c)
  case (Cons n ns)
  let ?c = "c\<lparr>tc_inputBuffer := retrieve n (tc_inputBuffer c)\<rparr>"
  have "op_fits (Consume n) c" using Cons.prems by (simp add: op_fits_def op_room_def)
  then have "user_step ctl c ?c" unfolding user_step_def by (intro exI [of _ "Consume n"]) simp
  moreover have "op_room 0 ?c" using Cons.prems by (simp add: op_room_def length_data_retrieve)
  ultimately show ?case using Cons.IH [of ?c] by (simp add: converse_rtranclp_into_rtranclp)
qed simp

lemma parse_loop_consumes: "parse_loop t ok c b = Some y \<Longrightarrow> \<exists>ns. snd (snd y) = fold retrieve ns b"
proof (rule parse_loop.raw_induct [where P = "\<lambda>t ok c b y. \<exists>ns. snd (snd y) = fold retrieve ns b"], goal_cases)
  case (1 parse t ok c b y)
  have again: "\<exists>ns. snd (snd y) = fold retrieve ns b" if "parse t ok' c' (retrieveUntil n b) = Some y" for ok' c' n
  proof -
    from 1(2) [OF that] obtain ns where "snd (snd y) = fold retrieve ns (retrieveUntil n b)" by blast
    then show ?thesis by (intro exI [of _ "size_sub n (peek b) # ns"]) (simp add: retrieveUntil_def)
  qed
  have none: "\<exists>ns. b = fold retrieve ns b" by (rule exI [of _ "[]"]) simp
  have one: "\<exists>ns. retrieveUntil n b = fold retrieve ns b" for n
    by (rule exI [of _ "[size_sub n (peek b)]"]) (simp add: retrieveUntil_def)
  show ?case
  proof (cases "findCRLF b")
    case None
    then show ?thesis using 1(2,3) none by (auto split: HttpRequestParseState.splits)
  next
    case (Some crlf)
    then show ?thesis using 1(2,3) none one again
      by (auto simp: Let_def split: HttpRequestParseState.splits if_splits prod.splits)
  qed
qed assumption

text \<open>A response is sent as a buffer; a bad request is answered with a string. Both may start the shutdown.\<close>

lemma shutdown_user:
  assumes "op_room 0 c" shows "user_step ctl c (shutdown tid c)"
proof -
  have "op_fits (Shutdown tid) c" using assms by (simp add: op_fits_def op_room_def)
  then show ?thesis unfolding user_step_def by (intro exI [of _ "Shutdown tid"]) simp
qed

lemma onRequest_user:
  assumes k: "epoll_kernel ctl interest" and inv: "conn_inv interest c" and room: "op_room (2 ^ 31) c"
    and resp: "resp = cb req (HttpResponse_new True)" "length (response_text (iter (rs_headers resp)) resp) < 2 ^ 31"
  shows "\<exists>c'. HttpServer_onRequest ctl (kernel_write w) iter cb tid req c = Inr c' \<and> (user_step ctl)\<^sup>*\<^sup>* c c'"
proof -
  obtain out where out: "appendToBuffer iter resp (Buffer_new 1024) = Inr out" "buf_ok out"
      "contents out = response_text (iter (rs_headers resp)) resp"
    using appendToBuffer_ok [of "Buffer_new 1024" iter resp] resp by (auto simp: length_new_buffer)
  have r: "op_room (op_out (SendBuffer tid out w) + 0) c" "op_out (SendBuffer tid out w) < 2 ^ 31"
    using room resp(2) out(3) by (auto simp: op_room_def)
  from user_stepI [OF k inv r] out(2) obtain c1 where
    c1: "conn_step ctl (SendBuffer tid out w) c = Inr c1" "user_step ctl c c1" "op_room 0 c1" by auto
  then obtain b' where "send_buffer ctl (kernel_write w) tid out c = Inr (b', c1)" by (auto simp: bindR_Inr_iff)
  then have "HttpServer_onRequest ctl (kernel_write w) iter cb tid req c = Inr (half_closed tid (rs_closeConnection resp) c1)"
    using out(1) by (simp add: HttpServer_onRequest_def resp(1) [symmetric] kInitialSize_def Let_def half_closed_def)
  moreover have "(user_step ctl)\<^sup>*\<^sup>* c (half_closed tid (rs_closeConnection resp) c1)"
    using c1(2) shutdown_user [OF c1(3), of ctl tid] by (auto simp: half_closed_def)
  ultimately show ?thesis by blast
qed

lemma bad_request_user:
  assumes k: "epoll_kernel ctl interest" and inv: "conn_inv interest c" and room: "op_room (2 ^ 32) c"
  shows "\<exists>c'. bindR (send_string ctl (kernel_write w) tid ptr bad_request c) (\<lambda>c. Inr (shutdown tid c)) = Inr c'
    \<and> (user_step ctl)\<^sup>*\<^sup>* c c' \<and> conn_inv interest c' \<and> op_room (2 ^ 31) c'"
proof -
  have r: "op_room (op_out (SendString tid ptr bad_request w) + 2 ^ 31) c" "op_out (SendString tid ptr bad_request w) < 2 ^ 31"
    using room by (simp_all add: op_room_def bad_request_def kCRLF_def)
  from user_stepI [OF k inv r] obtain c1 where
    c1: "conn_step ctl (SendString tid ptr bad_request w) c = Inr c1" "user_step ctl c c1" "conn_inv interest c1" "op_room (2 ^ 31) c1" by auto
  have "op_room (op_out (Shutdown tid) + 2 ^ 31) c1" "op_out (Shutdown tid) < 2 ^ 31" using c1(4) by simp_all
  from user_stepI [OF k c1(3) this] obtain c2 where
    "conn_step ctl (Shutdown tid) c1 = Inr c2" "user_step ctl c1 c2" "conn_inv interest c2" "op_room (2 ^ 31) c2" by auto
  then show ?thesis using c1(1,2) by auto
qed

lemma http_message_handler:
  assumes k: "epoll_kernel ctl interest" and short: "short_replies iter cb"
  shows "message_handler ctl interest (http_handler ctl iter cb ptr)"
proof (intro message_handler.intro message_handler_axioms.intro k)
  fix c tid and e :: "(int + nat) \<times> timestamp \<times> 'b"
  assume inv: "conn_inv interest c" and room: "message_room c"
  obtain w t x where e: "e = (w, t, x)" by (cases e)
  have len: "length (response_text (iter (rs_headers (cb x req (HttpResponse_new True)))) (cb x req (HttpResponse_new True))) < 2 ^ 31" for req
    using short by (simp add: short_replies_def Let_def)
  have "buf_ok (tc_inputBuffer c)" using inv by (simp add: conn_inv_def)
  from parse_input [OF this, of t] obtain ok cx b where
    p: "parseRequest HttpContext_new (tc_inputBuffer c) t = Some (ok, cx, b)" "buf_ok b" by blast
  then obtain ns where ns: "b = fold retrieve ns (tc_inputBuffer c)" using parse_loop_consumes by (fastforce simp: parseRequest_def)
  let ?c = "c\<lparr>tc_inputBuffer := b\<rparr>"
  have s1: "(user_step ctl)\<^sup>*\<^sup>* c ?c" unfolding ns by (rule consume_steps) (rule message_room_op [OF room], simp)
  have "length (bufferData b) = length (bufferData (tc_inputBuffer c))"
    unfolding ns by (induction ns rule: rev_induct) (simp_all add: length_data_retrieve)
  then have r1: "conn_inv interest ?c" "op_room (2 ^ 32) ?c"
    using inv p(2) message_room_op [OF room, of "2 ^ 32"] by (simp_all add: conn_inv_def op_room_def)
  have "\<exists>c1. (if \<not> ok then bindR (send_string ctl (kernel_write w) tid ptr bad_request ?c) (\<lambda>c. Inr (shutdown tid c)) else Inr ?c) = Inr c1
      \<and> (user_step ctl)\<^sup>*\<^sup>* ?c c1 \<and> conn_inv interest c1 \<and> op_room (2 ^ 31) c1"
    using bad_request_user [OF k r1, of w tid ptr] r1 by (cases ok) (auto simp: op_room_def)
  then obtain c1 where
    c1: "(if \<not> ok then bindR (send_string ctl (kernel_write w) tid ptr bad_request ?c) (\<lambda>c. Inr (shutdown tid c)) else Inr ?c) = Inr c1"
      "(user_step ctl)\<^sup>*\<^sup>* ?c c1" "conn_inv interest c1" "op_room (2 ^ 31) c1" by blast
  have "\<exists>c'. (if gotAll cx then HttpServer_onRequest ctl (kernel_write w) iter (cb x) tid (cx_request cx) c1 else Inr c1) = Inr c'
      \<and> (user_step ctl)\<^sup>*\<^sup>* c1 c'"
    using onRequest_user [where cb = "cb x" and iter = iter and req = "cx_request cx", OF k c1(3,4) refl len, of w tid] by auto
  then obtain c' where
    c': "(if gotAll cx then HttpServer_onRequest ctl (kernel_write w) iter (cb x) tid (cx_request cx) c1 else Inr c1) = Inr c'"
      "(user_step ctl)\<^sup>*\<^sup>* c1 c'" by blast
  have "HttpServer_onMessage ctl (kernel_write w) iter (cb x) tid ptr t c = Some (Inr c')"
    using p(1) c1(1) c'(1) by (simp only: HttpServer_onMessage_def Let_def option.case prod.case bindR.simps)
  then show "\<exists>c'. http_handler ctl iter cb ptr e tid c = Some (Inr c') \<and> (user_step ctl)\<^sup>*\<^sup>* c c'"
    using s1 c1(2) c'(2) by (auto simp: http_handler_def e)
qed

lemma echo_message_handler:
  assumes k: "epoll_kernel ctl interest"
  shows "message_handler ctl interest (echo_handler ctl ptr)"
proof (intro message_handler.intro message_handler_axioms.intro k)
  fix c tid w
  assume inv: "conn_inv interest c" and room: "message_room c"
  let ?b = "tc_inputBuffer c"
  let ?c = "c\<lparr>tc_inputBuffer := retrieveAll ?b\<rparr>"
  have b: "buf_ok ?b" using inv by (simp add: conn_inv_def)
  have "retrieve (readableBytes ?b) ?b = retrieveAll ?b" by (simp add: retrieve_def)
  then have s1: "(user_step ctl)\<^sup>*\<^sup>* c ?c"
    using consume_steps [OF message_room_op [OF room, of 0], of ctl "[readableBytes ?b]"] by simp
  have "length (contents ?b) < 2 ^ 31" using room b by (auto simp: message_room_def contents_def)
  then have r: "op_room (op_out (SendString tid ptr (contents ?b) w) + 0) ?c" "op_out (SendString tid ptr (contents ?b) w) < 2 ^ 31"
    using room by (auto simp: message_room_def op_room_def length_retrieveAll)
  have "conn_inv interest ?c" using inv b by (simp add: conn_inv_def)
  from user_stepI [OF k this r] obtain c' where
    "conn_step ctl (SendString tid ptr (contents ?b) w) ?c = Inr c'" "user_step ctl ?c c'" by auto
  then show "\<exists>c'. echo_handler ctl ptr w tid c = Some (Inr c') \<and> (user_step ctl)\<^sup>*\<^sup>* c c'"
    using s1 b by (auto simp: echo_handler_def Echo_onMessage_def retrieveAllAsString_ok)
qed

lemma handler_systems:
  assumes "epoll_kernel ctl interest" and "started_server addr name n cb startLoop = Inr s0" and "n < 2 ^ 31"
  shows "short_replies iter httpCallback \<Longrightarrow> handler_system ctl interest s0 (http_handler ctl iter httpCallback ptr)"
    "handler_system ctl interest s0 (echo_handler ctl ptr)"
  using started_system [OF assms] http_message_handler [OF assms(1)] echo_message_handler [OF assms(1)]
  by (simp_all add: handler_system_def)

abbreviation handler_reachable ::
  "'k epoll_ctl \<Rightarrow> ('k \<Rightarrow> int \<rightharpoonup> epoll_event) \<Rightarrow> int set \<Rightarrow> (nat \<Rightarrow> conn_functor event_loop) \<Rightarrow> bool \<Rightarrow> tcp_server
    \<Rightarrow> ('e, 'k) handler \<Rightarrow> 'k loops_system \<Rightarrow> bool"
where
  "handler_reachable ctl interest base loops wc s0 handler \<equiv>
     reachable (loops_start interest base s0) (handler_step ctl interest base loops wc handler)"

section \<open>The demonstration program\<close>

text \<open>The callback of \<open>main\<close> as a function of the clock reading it takes.\<close>

definition main_callback :: "(int \<Rightarrow> tm) \<Rightarrow> timestamp \<Rightarrow> http_request \<Rightarrow> http_response \<Rightarrow> http_response" where
  "main_callback localtime now = main_onRequest (toFormattedString localtime False now) favicon"

text \<open>Its responses are short, so the server of \<open>main\<close> has the handler that the loops rely on.\<close>

lemma formatted_short: "length (toFormattedString localtime b now) < 64"
  by (auto simp: toFormattedString_def snprintf_buf_def Let_def simp del: take_append)

lemma favicon_length: "length favicon = 555"
  by (simp add: favicon_def)

lemma main_headers:
  "rs_headers (main_onRequest now icon req (HttpResponse_new True)) \<in>
     {Map.empty, hello_headers, [''Content-Type'' \<mapsto> ''text/html'', ''Server'' \<mapsto> ''Muduo''], [''Content-Type'' \<mapsto> ''image/png'']}"
  by (simp add: main_onRequest_def hello_headers_def setBody_def setContentType_def HttpResponse_addHeader_def
      setStatusMessage_def setStatusCode_def setCloseConnection_def HttpResponse_new_def)

text \<open>What \<open>std::map\<close> and the like promise of an iteration: every entry once.\<close>

definition lists_entries :: "((bytes \<rightharpoonup> bytes) \<Rightarrow> (bytes \<times> bytes) list) \<Rightarrow> bool" where
  "lists_entries iter \<longleftrightarrow> (\<forall>m. finite (dom m) \<longrightarrow> distinct (iter m) \<and> (\<forall>k v. (k, v) \<in> set (iter m) \<longleftrightarrow> m k = Some v))"

lemma render_headers_length: "length (render_headers hs) = sum_list (map (\<lambda>(k, v). length k + length v + 4) hs)"
  by (induction hs) (auto simp: render_headers_def kCRLF_def)

lemma main_headers_short:
  assumes "lists_entries iter" "m = rs_headers (main_onRequest now icon req (HttpResponse_new True))"
  shows "length (render_headers (iter m)) < 1000"
proof -
  let ?f = "\<lambda>(k, v). length k + length v + 4 :: nat"
  let ?A = "{(''Content-Type'', ''text/plain''), (''Content-Type'', ''text/html''), (''Content-Type'', ''image/png''), (''Server'', ''Muduo'')}"
  have m: "finite (dom m)" "m k = Some v \<Longrightarrow> (k, v) \<in> ?A" for k v
    using main_headers [of now icon req] assms(2) by (auto simp: hello_headers_def split: if_splits)
  have it: "distinct (iter m)" "(k, v) \<in> set (iter m) \<longleftrightarrow> m k = Some v" for k v
    using assms(1) m(1) by (simp_all add: lists_entries_def)
  have sub: "set (iter m) \<subseteq> ?A" by (rule subrelI) (rule m(2), simp only: it(2))
  have "sum_list (map ?f (iter m)) = sum ?f (set (iter m))" by (rule sum_list_distinct_conv_sum_set [OF it(1)])
  also have "\<dots> \<le> sum ?f ?A" by (rule sum_mono2 [OF _ sub]) auto
  also have "\<dots> < 1000" by simp
  finally show ?thesis by (simp add: render_headers_length)
qed

lemma main_short_replies:
  assumes "lists_entries iter"
  shows "short_replies iter (main_callback localtime)"
proof -
  have "length (response_text (iter (rs_headers resp)) resp) < 2 ^ 31"
    if "resp = main_onRequest now favicon req (HttpResponse_new True)" "length now < 64" for resp now req
  proof -
    have "length (render_headers (iter (rs_headers resp))) < 1000" using main_headers_short [OF assms] that(1) by simp
    moreover have "length (rs_body resp) < 1000 \<and> length (rs_statusMessage resp) < 100 \<and> rs_closeConnection resp
        \<and> rs_statusCode resp \<in> {k200Ok, k404NotFound}"
      using that by (simp add: main_onRequest_def setBody_def setContentType_def HttpResponse_addHeader_def favicon_length
          setStatusMessage_def setStatusCode_def setCloseConnection_def HttpResponse_new_def)
    moreover from this have "length (fmt_int (status_number (rs_statusCode resp))) = 3"
      by (auto simp: fmt_int_def fmt_nat.simps)
    ultimately show ?thesis by (simp add: response_text_def kCRLF_def)
  qed
  then show ?thesis using formatted_short by (simp add: short_replies_def main_callback_def Let_def)
qed

text \<open>An iteration in the order of the keys.\<close>

definition table_order :: "(bytes \<rightharpoonup> bytes) \<Rightarrow> (bytes \<times> bytes) list" where
  "table_order m = map (\<lambda>k. (k, the (m k))) (sorted_list_of_set (dom m))"

lemma table_order_lists: "lists_entries table_order"
  by (auto simp: lists_entries_def table_order_def distinct_map inj_on_def dom_def image_iff)

lemmas demo_systems = handler_systems [OF tbl.epoll_kernel_axioms srv_start_eq, simplified]

interpretation http: message_handler epoll_table_ctl "\<lambda>k. k" "http_handler epoll_table_ctl table_order (main_callback localtime) ptr" for localtime ptr
  by (rule http_message_handler [OF tbl.epoll_kernel_axioms main_short_replies [OF table_order_lists]])

interpretation echo: message_handler epoll_table_ctl "\<lambda>k. k" "echo_handler epoll_table_ctl ptr" for ptr
  by (rule echo_message_handler [OF tbl.epoll_kernel_axioms])

interpretation http_demo: handler_system epoll_table_ctl "\<lambda>k. k" base loops wc srv_start
    "http_handler epoll_table_ctl table_order (main_callback localtime) ptr" for base loops wc localtime ptr
  by (rule demo_systems(1) [OF main_short_replies [OF table_order_lists]])

section \<open>Properties\<close>

text \<open>Claim C9. The HTTP server in its loops is one of the servers of the loops: whatever arrives, the message handler called from the
  dispatch of a read is a sequence of operations a user may do, so every history of the server with its handler is
  one of the loops. A read never gets stuck: parsing ends, and the handler returns without a fault.\<close>

theorem http_refines_loops:
  assumes "epoll_kernel ctl interest" and "started_server addr name n cb startLoop = Inr s0" and "n < 2 ^ 31"
    and "short_replies iter httpCallback"
    and "handler_reachable ctl interest base loops wc s0 (http_handler ctl iter httpCallback ptr) S"
  shows "loops_reachable ctl interest base loops wc s0 S
    \<and> (\<forall>l ps c cbs r e. sl_pc S l = InChannels ps (Some (c, ReadCallback # cbs)) \<and> message_fits r (attach (sl_system S) c) \<longrightarrow>
         (\<exists>sy. run_message ctl (http_handler ctl iter httpCallback ptr) e r (el_threadId (loops l)) c (sl_system S) = Some (Inr sy)))"
proof -
  note sys = handler_systems(1) [OF assms(1-4), of ptr]
  have r: "loops_reachable ctl interest base loops wc s0 S"
    by (rule handler_system.handled_reach [OF sys assms(5)])
  then show ?thesis using handler_system.message_runs [OF sys r] by blast
qed

text \<open>Claim C3. A request that reaches the server is answered by the server: when a loop dispatches a read that completes a
  request on an established connection, then the loop goes on to a state in which exactly the response of the user's
  callback to this request is behind what the connection had on its way out, the bytes after the request are kept,
  and the shutdown is started when the response closes.\<close>

theorem request_served:
  assumes "epoll_kernel ctl interest" and "started_server addr name n cb startLoop = Inr s0" and "n < 2 ^ 31"
    and "short_replies iter httpCallback"
    and "handler_reachable ctl interest base loops wc s0 (http_handler ctl iter httpCallback ptr) S"
    and "sl_pc S l = InChannels ps (Some (c, ReadCallback # cbs))"
    and "conn = attach (sl_system S) c" and "tc_state conn = kConnected"
    and "message_fits (Inr s) conn" and "s \<noteq> []" and "length s \<le> 65536" and "\<not> write_fault w"
    and "wf_request m path query v hs" and "contents (tc_inputBuffer conn) @ s = render_request m path query v hs @ rest"
    and "req = \<lparr>rq_method = m, rq_version = v, rq_path = path, rq_query = query, rq_receiveTime = t, rq_headers = map_of (rev hs)\<rparr>"
    and "resp = httpCallback x req (HttpResponse_new True)"
  shows "\<exists>S' conn'. handler_step ctl interest base loops wc (http_handler ctl iter httpCallback ptr) S S'
    \<and> sl_pc S' = (sl_pc S)(l := InChannels ps (Some (c, cbs))) \<and> conn' = attach (sl_system S') c
    \<and> tc_wire conn' @ contents (tc_outputBuffer conn')
        = tc_wire conn @ contents (tc_outputBuffer conn) @ response_text (iter (rs_headers resp)) resp
    \<and> contents (tc_inputBuffer conn') = rest
    \<and> tc_state conn' = (if rs_closeConnection resp then kDisconnecting else kConnected)"
proof -
  let ?h = "http_handler ctl iter httpCallback ptr" and ?tid = "el_threadId (loops l)"
  let ?reply = "response_text (iter (rs_headers resp)) resp"
  note sys = handler_systems(1) [OF assms(1-4), of ptr]
  have r: "loops_reachable ctl interest base loops wc s0 S"
    by (rule handler_system.handled_reach [OF sys assms(5)])
  from handler_system.message_arrives [OF sys r assms(6) assms(9) [unfolded assms(7)] assms(10,11)] obtain c1 where
    c1: "conn_inv interest c1" "tc_state c1 = kConnected" "isInLoopThread ?tid (tc_loop c1)" "tc_outputBuffer c1 = tc_outputBuffer conn"
      "tc_wire c1 = tc_wire conn" "contents (tc_inputBuffer c1) = render_request m path query v hs @ rest" "message_room c1" and
    go: "\<And>e c'. ?h e ?tid c1 = Some (Inr c') \<Longrightarrow>
         \<exists>S'. handler_step ctl interest base loops wc ?h S S' \<and> attach (sl_system S') c = c'
            \<and> sl_pc S' = (sl_pc S)(l := InChannels ps (Some (c, cbs)))"
    using assms(7,8,14) by auto
  have serve: "can_serve interest ?tid c1" using c1(1-3,7) by (simp add: can_serve_def message_room_def)
  have short: "length ?reply < 2 ^ 31" using assms(4,16) by (simp add: short_replies_def Let_def)
  have acc: "send_accepts (kernel_write w) ?reply c1"
    using c1(2) assms(12) by (cases w) (simp_all add: send_accepts_def write_fault_def)
  from onMessage_request [where httpCallback = "httpCallback x" and iter = iter and ptr = ptr,
      OF assms(1) serve assms(13) c1(6) assms(15,16) refl short acc] obtain c' where
    c': "?h (w, t, x) ?tid c1 = Some (Inr c')" "conn_stream c' = tc_wire c1 @ contents (tc_outputBuffer c1) @ ?reply"
      "contents (tc_inputBuffer c') = rest" "tc_state c' = (if rs_closeConnection resp then kDisconnecting else kConnected)"
    by (auto simp: http_handler_def)
  from go [OF c'(1)] show ?thesis using c' c1(4,5) by auto
qed

text \<open>The echo server in its loops sends back what a read delivers.\<close>

lemma echo_served:
  assumes "epoll_kernel ctl interest" and "started_server addr name n cb startLoop = Inr s0" and "n < 2 ^ 31"
    and "handler_reachable ctl interest base loops wc s0 (echo_handler ctl ptr) S"
    and "sl_pc S l = InChannels ps (Some (c, ReadCallback # cbs))"
    and "conn = attach (sl_system S) c" and "tc_state conn = kConnected"
    and "message_fits (Inr s) conn" and "s \<noteq> []" and "length s \<le> 65536" and "\<not> write_fault w"
  shows "\<exists>S' conn'. handler_step ctl interest base loops wc (echo_handler ctl ptr) S S'
    \<and> sl_pc S' = (sl_pc S)(l := InChannels ps (Some (c, cbs))) \<and> conn' = attach (sl_system S') c
    \<and> conn_stream conn' = conn_stream conn @ contents (tc_inputBuffer conn) @ s
    \<and> contents (tc_inputBuffer conn') = [] \<and> tc_state conn' = kConnected"
proof -
  let ?h = "echo_handler ctl ptr" and ?tid = "el_threadId (loops l)"
  note sys = handler_systems(2) [OF assms(1-3), of ptr]
  have r: "loops_reachable ctl interest base loops wc s0 S"
    by (rule handler_system.handled_reach [OF sys assms(4)])
  from handler_system.message_arrives [OF sys r assms(5) assms(8) [unfolded assms(6)] assms(9,10)] obtain c1 where
    c1: "conn_inv interest c1" "tc_state c1 = kConnected" "isInLoopThread ?tid (tc_loop c1)" "tc_outputBuffer c1 = tc_outputBuffer conn"
      "tc_wire c1 = tc_wire conn" "contents (tc_inputBuffer c1) = contents (tc_inputBuffer conn) @ s" "message_room c1" and
    go: "\<And>e c'. ?h e ?tid c1 = Some (Inr c') \<Longrightarrow>
         \<exists>S'. handler_step ctl interest base loops wc ?h S S' \<and> attach (sl_system S') c = c'
            \<and> sl_pc S' = (sl_pc S)(l := InChannels ps (Some (c, cbs)))"
    using assms(6,7) by auto
  let ?d = "contents (tc_inputBuffer c1)" and ?c = "c1\<lparr>tc_inputBuffer := retrieveAll (tc_inputBuffer c1)\<rparr>"
  have b: "buf_ok (tc_inputBuffer c1)" using c1(1) by (simp add: conn_inv_def)
  have serve: "can_serve interest ?tid c1" using c1(1-3,7) by (simp add: can_serve_def message_room_def)
  have acc: "send_accepts (kernel_write w) ?d ?c"
    using c1(2) assms(11) by (cases w) (simp_all add: send_accepts_def write_fault_def)
  have "length ?d < 2 ^ 31" using c1(7) b by (auto simp: message_room_def contents_def)
  from sendInLoop_serve [OF assms(1) can_serve_input [OF serve retrieveAll_ok [OF b]] this acc] obtain c' where
    c': "sendInLoop ctl (kernel_write w) ?d ?c = Inr c'" "tc_state c' = kConnected"
      "tc_inputBuffer c' = retrieveAll (tc_inputBuffer c1)" "conn_stream c' = conn_stream c1 @ ?d" by auto
  then have "?h w ?tid c1 = Some (Inr c')"
    using b c1(2,3) by (simp add: echo_handler_def Echo_onMessage_def retrieveAllAsString_ok send_string_def)
  from go [OF this] show ?thesis using c' c1(4-6) by auto
qed

text \<open>The demonstration server is about to read from its connection.\<close>

lemma sys_two_conn:
  defines "conn \<equiv> attach sys_two 0"
  shows "ch_readCallback (conn_channel conn)" "tc_state conn = kConnected" "tc_inputBuffer conn = Buffer_new 1024"
    "tc_outputBuffer conn = Buffer_new 1024" "tc_wire conn = []"
proof -
  have l: "co_loop (sv_heap srv_one ! 0) = 1" by (rule srv_one_facts(4))
  obtain conn0 where
    c0: "new_conn (demo_loops 1) (sy_pollers sys_zero 1) 1 (co_name (sv_heap srv_one ! 0)) 7 (InetAddress_new 80 []) (InetAddress_new 4000 []) False = Inr conn0"
      "sys_one = \<lparr>sy_server = srv_one, sy_conns = [conn0], sy_pollers = (sy_pollers sys_zero)(1 := tc_poller conn0)\<rparr>"
    using sys_one_accepted(2) srv_one_facts(1) l by (auto simp: sys_newConnection_def bindR_Inr_iff Let_def sys_zero_def)
  have f0: "ch_readCallback (conn_channel conn0)" "tc_inputBuffer conn0 = Buffer_new 1024" "tc_outputBuffer conn0 = Buffer_new 1024"
    "tc_wire conn0 = []"
    using c0(1) by (auto simp: new_conn_def TcpConnection_new_def CheckLoopNotNull_def bindR_Inr_iff kInitialSize_def)
  let ?one = "sys_one\<lparr>sy_server := (sy_server sys_one)\<lparr>sv_queues := (sv_queues (sy_server sys_one))(1 := [])\<rparr>\<rparr>"
  have a1: "attach ?one 0 = conn0" unfolding c0(2) using l by (simp add: attach_def)
  from sys_two_established [unfolded sys_exec.simps a1] obtain conn1 where
    c1: "connectEstablished epoll_table_ctl conn0 = Inr conn1" "sys_two = (put_conn 0 conn1 ?one)\<lparr>sy_server := server_exec (ConnectEstablished 0) (sy_server ?one)\<rparr>"
    by (auto simp: bindR_Inr_iff)
  have "attach sys_two 0 = attach (put_conn 0 conn1 ?one) 0"
    using l c0(2) by (simp add: c1(2) attach_def set_phase_def nth_update)
  also have "\<dots> = conn1" by (rule put_conn_fresh(2)) (simp add: c0(2))
  finally have "conn = conn1" by (simp add: conn_def)
  moreover obtain pl where pl: "Channel_set_mode epoll_table_ctl EnableReading (tc_channel conn0)
      ((tc_poller conn0)\<lparr>pl_heap := (pl_heap (tc_poller conn0))(tc_channel conn0 := Channel_tie (conn_channel conn0))\<rparr>) = Inr pl"
    "conn1 = (setState kConnected conn0)\<lparr>tc_poller := pl, tc_calls := tc_calls conn0 @ [ConnectionCb]\<rparr>"
    using c1(1) by (auto simp: connectEstablished_def bindR_Inr_iff setState_def Let_def dest!: conn_set_mode_poller conn_callback_Inr)
  ultimately show "ch_readCallback (conn_channel conn)" "tc_state conn = kConnected" "tc_inputBuffer conn = Buffer_new 1024"
    "tc_outputBuffer conn = Buffer_new 1024" "tc_wire conn = []"
    using f0 set_mode_callback [OF pl(1), of "tc_channel conn0"] by (simp_all add: setState_def Channel_tie_def)
qed

lemma demo_at_read:
  defines "p \<equiv> tc_channel (sy_conns sys_two ! 0)"
  shows "\<exists>S pl. handler_reachable epoll_table_ctl (\<lambda>k. k) {} demo_loops False srv_start handler S
    \<and> sl_pc S = (\<lambda>_. InPoll)(1 := InChannels [] (Some (0, [ReadCallback])))
    \<and> sl_system S = sys_two\<lparr>sy_pollers := (sy_pollers sys_two)(1 := pl)\<rparr>"
proof -
  let ?step = "handler_step epoll_table_ctl (\<lambda>k. k) {} demo_loops False handler"
  have "extends_idle (loop_step epoll_table_ctl (\<lambda>k. k) {} demo_loops False) ?step"
    by (auto simp: extends_idle_def at_read_def intro!: handler_other split: round_pc.splits option.splits)
  from demo_readable_by [OF this] obtain S pl where
    S: "handler_reachable epoll_table_ctl (\<lambda>k. k) {} demo_loops False srv_start handler S"
      "sl_pc S = (\<lambda>_. InPoll)(1 := InChannels [p] None)" "sl_system S = sys_two\<lparr>sy_pollers := (sy_pollers sys_two)(1 := pl)\<rparr>"
      "pl_heap pl p = (pl_heap (sy_pollers sys_two 1) p)\<lparr>ch_revents := EPOLLIN\<rparr>" by (auto simp: p_def)
  have "conn_channel (attach sys_two 0) = pl_heap (sy_pollers sys_two 1) p" by (simp add: attach_def p_def sys_two_facts(3))
  then have "Channel_handleEvent True (pl_heap pl p) = [ReadCallback]" "\<not> urgent_hangup (pl_heap pl p)"
    using sys_two_conn(1) by (simp_all add: Channel_handleEvent_def handleEventWithGuard_def S(4) urgent_hangup_def epoll_flags)
  moreover have "live (sl_system S) 0"
    using sys_two_facts(2,5) conns_invD(1) [OF demo.system_invs(3) [OF sys_two_facts(1)]] by (simp add: S(3))
  ultimately have "loop_step epoll_table_ctl (\<lambda>k. k) {} demo_loops False S
      (S\<lparr>sl_pc := (\<lambda>_. InPoll)(1 := InChannels [] (Some (0, [ReadCallback])))\<rparr>)"
    using loop_handle [of S 1 p "[]" 0 epoll_table_ctl "\<lambda>k. k" "{}" demo_loops False] S sys_two_facts(5) by (simp add: p_def)
  then have "?step S (S\<lparr>sl_pc := (\<lambda>_. InPoll)(1 := InChannels [] (Some (0, [ReadCallback])))\<rparr>)"
    by (rule handler_other) (simp add: S(2) at_read_def)
  from reachable_step [OF S(1) this] show ?thesis using S(3)
    by (intro exI [of _ "S\<lparr>sl_pc := (\<lambda>_. InPoll)(1 := InChannels [] (Some (0, [ReadCallback])))\<rparr>"] exI [of _ pl]) simp
qed

text \<open>It reads a request for \<open>/hello\<close>, and the start of the next.\<close>

definition demo_localtime :: "int \<Rightarrow> tm" where
  "demo_localtime secs = \<lparr>tm_year = 122, tm_mon = 9, tm_mday = 26, tm_hour = 10, tm_min = 30, tm_sec = secs mod 60\<rparr>"

abbreviation demo_http :: "((int + nat) \<times> timestamp \<times> timestamp, int \<rightharpoonup> epoll_event) handler" where
  "demo_http \<equiv> http_handler epoll_table_ctl table_order (main_callback demo_localtime) 0"

abbreviation hello_request :: bytes where
  "hello_request \<equiv> render_request kGet ''/hello'' [] kHttp11 [(''Host'', ''a'')] @ ''GET''"

lemma hello_request_facts:
  "wf_request kGet ''/hello'' [] kHttp11 [(''Host'', ''a'')]" "hello_request \<noteq> []" "length hello_request \<le> 65536"
  "length (bufferData (Buffer_new 1024)) + op_in (Readable (Inr hello_request)) < 2 ^ 31"
  by (simp_all add: wf_request_def wf_path_def wf_query_def wf_header_def no_cr_def trim_right_def is_space_def length_new_buffer
      render_request_def render_request_line_def render_header_def kCRLF_def)

lemma demo_conn:
  fixes S :: "(int \<rightharpoonup> epoll_event) loops_system"
  assumes "sl_system S = sys_two\<lparr>sy_pollers := (sy_pollers sys_two)(1 := pl)\<rparr>"
  shows "tc_state (attach (sl_system S) 0) = kConnected" "contents (tc_inputBuffer (attach (sl_system S) 0)) = []"
    "conn_stream (attach (sl_system S) 0) = []" "message_fits (Inr hello_request) (attach (sl_system S) 0)"
  using sys_two_conn hello_request_facts(4)
  by (simp_all add: assms attach_def message_fits_def length_new_buffer)

theorem http_refines_loops_witness:
  "\<exists>S sy. demo_loops_reach S
    \<and> run_message epoll_table_ctl demo_http (Inr 5, 0, 0) (Inr hello_request) (el_threadId (demo_loops 1)) 0 (sl_system S) = Some (Inr sy)"
proof -
  obtain S pl where S: "handler_reachable epoll_table_ctl (\<lambda>k. k) {} demo_loops False srv_start demo_http S"
    "sl_pc S = (\<lambda>_. InPoll)(1 := InChannels [] (Some (0, [ReadCallback])))"
    "sl_system S = sys_two\<lparr>sy_pollers := (sy_pollers sys_two)(1 := pl)\<rparr>" using demo_at_read by blast
  have "sl_pc S 1 = InChannels [] (Some (0, ReadCallback # []))" by (simp add: S(2))
  with http_refines_loops [OF tbl.epoll_kernel_axioms srv_start_eq _ main_short_replies [OF table_order_lists] S(1)] demo_conn(4) [OF S(3)]
  show ?thesis by fastforce
qed

theorem request_served_witness:
  "\<exists>S S'. handler_step epoll_table_ctl (\<lambda>k. k) {} demo_loops False demo_http S S'
    \<and> conn_stream (attach (sl_system S') 0) = hello_reply (table_order hello_headers)
    \<and> contents (tc_inputBuffer (attach (sl_system S') 0)) = ''GET'' \<and> tc_state (attach (sl_system S') 0) = kDisconnecting"
proof -
  obtain S pl where S: "handler_reachable epoll_table_ctl (\<lambda>k. k) {} demo_loops False srv_start demo_http S"
    "sl_pc S = (\<lambda>_. InPoll)(1 := InChannels [] (Some (0, [ReadCallback])))"
    "sl_system S = sys_two\<lparr>sy_pollers := (sy_pollers sys_two)(1 := pl)\<rparr>" using demo_at_read by blast
  have pc: "sl_pc S 1 = InChannels [] (Some (0, ReadCallback # []))" by (simp add: S(2))
  note D = demo_conn [OF S(3)]
  have in0: "contents (tc_inputBuffer (attach (sl_system S) 0)) @ hello_request = hello_request" using D(2) by simp
  have w: "\<not> write_fault (Inr 5)" by (simp add: write_fault_def)
  let ?req = "\<lparr>rq_method = kGet, rq_version = kHttp11, rq_path = ''/hello'', rq_query = [], rq_receiveTime = 9, rq_headers = map_of (rev [(''Host'', ''a'')])\<rparr>"
  let ?resp = "main_callback demo_localtime 0 ?req (HttpResponse_new True)"
  have r: "rs_headers ?resp = hello_headers" "rs_closeConnection ?resp" "response_text order ?resp = hello_reply order" for order
    using hello_response [of ?req] by (simp_all add: main_callback_def)
  have "\<exists>S' conn'. handler_step epoll_table_ctl (\<lambda>k. k) {} demo_loops False demo_http S S'
      \<and> sl_pc S' = (sl_pc S)(1 := InChannels [] (Some (0, []))) \<and> conn' = attach (sl_system S') 0
      \<and> conn_stream conn' = tc_wire (attach (sl_system S) 0) @ contents (tc_outputBuffer (attach (sl_system S) 0))
          @ response_text (table_order (rs_headers ?resp)) ?resp
      \<and> contents (tc_inputBuffer conn') = ''GET'' \<and> tc_state conn' = (if rs_closeConnection ?resp then kDisconnecting else kConnected)"
    by (rule request_served [OF tbl.epoll_kernel_axioms srv_start_eq _ main_short_replies [OF table_order_lists] S(1) pc refl D(1,4)
      hello_request_facts(2,3) w hello_request_facts(1) in0 refl refl]) simp
  then show ?thesis using D(3) unfolding r(1,3) if_P [OF r(2)] by auto
qed

end
