(* ===== verification/AcceptLoop.thy ===== *)
theory AcceptLoop
  imports Acceptor HandlerLoop
begin

text \<open>
  The acceptor in the main loop (\<open>Acceptor::handleRead\<close> of \<open>src/src/net/Acceptor.cc\<close>, called by
  \<open>Channel::handleEvent\<close> from \<open>EventLoop::loop\<close>, with \<open>TcpServer::newConnection\<close> as its callback). In \<open>ServerLoop\<close> a connection
  is accepted at any time; here only when loop 0 has polled, the kernel reported the listening channel and the loop comes
  to its read callback. The loops may be those of \<open>ServerLoop\<close> or those with a message handler of \<open>HandlerLoop\<close>.
\<close>

section \<open>State and steps\<close>

text \<open>The loops, and the callbacks of the listening channel that loop 0 has still to call in this round.\<close>

record 'k listening =
  ls_loops :: "'k loops_system"
  ls_calls :: "callback list"

fun dispatching :: "round_pc \<Rightarrow> bool" where
  "dispatching (InChannels ps now) \<longleftrightarrow> True"
| "dispatching pc \<longleftrightarrow> False"

text \<open>The channels loop 0 has got from its poll are handled in any order. It comes to the functors when all have been
  handled. \<open>accept4\<close> returned \<open>connfd\<close>, with the peer in \<open>sa\<close> or the reason in \<open>errno\<close>; \<open>getsockname\<close> gave \<open>loc\<close>. A new
  descriptor is one that nobody has open, and the channel object is allocated away from all others.\<close>

inductive listen_step ::
  "'k epoll_ctl \<Rightarrow> ('k \<Rightarrow> int \<rightharpoonup> epoll_event) \<Rightarrow> int set \<Rightarrow> (nat \<Rightarrow> conn_functor event_loop) \<Rightarrow> bool
    \<Rightarrow> ('k loops_system \<Rightarrow> 'k loops_system \<Rightarrow> bool) \<Rightarrow> 'k acceptor \<Rightarrow> 'k listening \<Rightarrow> 'k listening \<Rightarrow> bool"
  for ctl interest base loops wc inner a
where
  listen_poll: "S = ls_loops L \<Longrightarrow> sl_pc S 0 = InPoll \<Longrightarrow>
    EPollPoller_poll epoll_wait eintr (sy_pollers (sl_system S) 0) = (lg, active, pl) \<Longrightarrow>
    reports interest (sy_pollers (sl_system S) 0) active \<Longrightarrow>
    listen_step ctl interest base loops wc inner a L
      \<lparr>ls_loops = S\<lparr>sl_system := (sl_system S)\<lparr>sy_pollers := (sy_pollers (sl_system S))(0 := pl)\<rparr>,
                    sl_pc := (sl_pc S)(0 := InChannels (conn_channels base pl active) None)\<rparr>,
       ls_calls = (if ac_channel a \<in> set active then Channel_handleEvent True (pl_heap pl (ac_channel a)) else [])\<rparr>"
| listen_accept: "S = ls_loops L \<Longrightarrow> sl_pc S 0 = InChannels ps None \<Longrightarrow> ls_calls L = ReadCallback # cbs \<Longrightarrow>
    Acceptor_handleRead connfd sa errno a = NewConnection fd peer \<Longrightarrow>
    may_accept base p fd (sl_system S) \<Longrightarrow> p \<noteq> ac_channel a \<Longrightarrow>
    sys_newConnection ctl loops wc p fd peer loc (sl_system S) = Inr sy \<Longrightarrow>
    listen_step ctl interest base loops wc inner a L \<lparr>ls_loops = S\<lparr>sl_system := sy\<rparr>, ls_calls = cbs\<rparr>"
| listen_refused: "sl_pc (ls_loops L) 0 = InChannels ps None \<Longrightarrow> ls_calls L = ReadCallback # cbs \<Longrightarrow>
    Acceptor_handleRead connfd sa errno a = CloseFd connfd \<or> Acceptor_handleRead connfd sa errno a = AcceptFailed full \<Longrightarrow>
    listen_step ctl interest base loops wc inner a L (L\<lparr>ls_calls := cbs\<rparr>)"
| listen_inner: "inner (ls_loops L) S' \<Longrightarrow>
    length (sy_conns (sl_system S')) = length (sy_conns (sl_system (ls_loops L))) \<Longrightarrow>
    (sl_pc (ls_loops L) 0 = InPoll \<Longrightarrow> sl_pc S' 0 = InPoll) \<Longrightarrow>
    (ls_calls L \<noteq> [] \<Longrightarrow> dispatching (sl_pc S' 0)) \<Longrightarrow>
    listen_step ctl interest base loops wc inner a L (L\<lparr>ls_loops := S'\<rparr>)"

definition listen_start ::
  "('k \<Rightarrow> int \<rightharpoonup> epoll_event) \<Rightarrow> int set \<Rightarrow> tcp_server \<Rightarrow> 'k acceptor \<Rightarrow> 'k listening \<Rightarrow> bool"
where
  "listen_start interest base s0 a L \<longleftrightarrow> loops_start interest base s0 (ls_loops L) \<and> ls_calls L = []
     \<and> sy_pollers (sl_system (ls_loops L)) 0 = ac_poller a"

section \<open>The listening channel stays registered\<close>

definition listens_on :: "('k \<Rightarrow> int \<rightharpoonup> epoll_event) \<Rightarrow> nat \<Rightarrow> int \<Rightarrow> 'k system \<Rightarrow> bool" where
  "listens_on interest p fd sy \<longleftrightarrow> watching interest p fd (sy_pollers sy 0) \<and> reads_only (pl_heap (sy_pollers sy 0) p)
     \<and> p \<notin> tc_channel ` set (sy_conns sy)"

text \<open>Connections keep their channels, and new ones are added behind.\<close>

definition conns_grow :: "'k system \<Rightarrow> 'k system \<Rightarrow> bool" where
  "conns_grow sy sy' \<longleftrightarrow> (\<exists>ps. map tc_channel (sy_conns sy') = map tc_channel (sy_conns sy) @ ps)"

lemma conns_grow_refl: "conns_grow sy sy"
  by (simp add: conns_grow_def)

lemma conns_grow_trans: "conns_grow sy sy' \<Longrightarrow> conns_grow sy' sy'' \<Longrightarrow> conns_grow sy sy''"
  by (auto simp: conns_grow_def)

lemma conns_grow_channels:
  assumes "conns_grow sy sy'"
  shows "tc_channel ` set (sy_conns sy) \<subseteq> tc_channel ` set (sy_conns sy')"
    "length (sy_conns sy') = length (sy_conns sy) \<Longrightarrow> tc_channel ` set (sy_conns sy') = tc_channel ` set (sy_conns sy)"
proof -
  from assms obtain ps where ps: "map tc_channel (sy_conns sy') = map tc_channel (sy_conns sy) @ ps" by (auto simp: conns_grow_def)
  then have "set (map tc_channel (sy_conns sy')) = set (map tc_channel (sy_conns sy)) \<union> set ps" by (simp only: set_append)
  then show "tc_channel ` set (sy_conns sy) \<subseteq> tc_channel ` set (sy_conns sy')" by auto
  assume "length (sy_conns sy') = length (sy_conns sy)"
  then have "ps = []" using arg_cong [OF ps, of length] by simp
  then have "set (map tc_channel (sy_conns sy')) = set (map tc_channel (sy_conns sy))" using ps by simp
  then show "tc_channel ` set (sy_conns sy') = tc_channel ` set (sy_conns sy)" by simp
qed

lemma own_changes_listens:
  assumes own: "own_changes interest base sy sy'" and fd: "fd \<in> base" and on: "listens_on interest p fd sy"
    and p: "p \<notin> tc_channel ` set (sy_conns sy')"
  shows "listens_on interest p fd sy'"
proof -
  let ?pl = "sy_pollers sy 0" and ?pl' = "sy_pollers sy' 0"
  have "?pl' = ?pl \<or> (\<exists>q fd'. q \<noteq> p \<and> fd' \<noteq> fd \<and> touches interest q fd' ?pl ?pl')"
    using own fd p unfolding own_changes_def by metis
  then have same: "pl_heap ?pl' p = pl_heap ?pl p" "pl_channels ?pl' fd = pl_channels ?pl fd"
    "interest (pl_kernel ?pl') fd = interest (pl_kernel ?pl) fd" by (auto simp: touches_def)
  have "watching interest p fd ?pl" using on by (simp add: listens_on_def)
  then have "watching interest p fd ?pl'" using same by (auto simp: watching_def chan_ok_def Let_def)
  then show ?thesis using on p same(1) by (simp add: listens_on_def)
qed

lemma polled_listens:
  assumes poll: "EPollPoller_poll wait ei (sy_pollers sy l) = (lg, active, pl)" and on: "listens_on interest p fd sy"
  shows "listens_on interest p fd (sy\<lparr>sy_pollers := (sy_pollers sy)(l := pl)\<rparr>)"
proof (cases "l = 0")
  case True
  then show ?thesis
    using on poll_watching [of wait ei "sy_pollers sy 0" lg active pl interest p fd] poll poll_callbacks [OF poll, of p]
    by (simp add: listens_on_def reads_only_def same_callbacks_def)
qed (use on in \<open>simp add: listens_on_def\<close>)

lemma listens_on_front [simp]: "listens_on interest p fd (with_front F sy) = listens_on interest p fd sy"
  by (simp add: listens_on_def)

context server_system
begin

text \<open>The loops keep it, however they are interleaved, while every new connection has a channel object of its own.\<close>

lemma loop_step_listens:
  assumes step: "loop_step ctl interest base loops wc S S'" and inv: "loops_inv interest base S"
  shows "conns_grow (sl_system S) (sl_system S')"
    "fd \<in> base \<Longrightarrow> listens_on interest p fd (sl_system S) \<Longrightarrow> p \<notin> tc_channel ` set (sy_conns (sl_system S')) \<Longrightarrow>
       listens_on interest p fd (sl_system S')"
proof -
  have i: "server_inv None (sy_server (sl_abs S))" "conns_inv interest base (sl_abs S)"
    using inv by (auto simp: loops_inv_def sl_abs_def conns_inv_front simp del: front_fields)
  have conns: "sy_conns (sl_abs T) = sy_conns (sl_system T)" for T by (simp add: sl_abs_def)
  have on: "listens_on interest p fd (sl_abs T) = listens_on interest p fd (sl_system T)" for T by (simp add: sl_abs_def)
  have "conns_grow sy sy'" if "own_changes interest base sy sy'" for sy sy' using that by (simp add: own_changes_def conns_grow_def)
  moreover have "conns_grow sy (sy\<lparr>sy_pollers := pls\<rparr>)" for sy pls by (simp add: conns_grow_def)
  ultimately have "conns_grow (sl_abs S) (sl_abs S')"
    using loop_step_abs [OF step inv] system_step_own [OF _ i] conns_grow_refl [of "sl_abs S"] by metis
  then show "conns_grow (sl_system S) (sl_system S')" by (simp add: conns_grow_def conns)
  from loop_step_abs [OF step inv] show
    "fd \<in> base \<Longrightarrow> listens_on interest p fd (sl_system S) \<Longrightarrow> p \<notin> tc_channel ` set (sy_conns (sl_system S')) \<Longrightarrow>
       listens_on interest p fd (sl_system S')"
    unfolding on [symmetric] conns [symmetric]
    using system_step_own [OF _ i] own_changes_listens polled_listens by fastforce
qed

lemma loop_steps_listen:
  assumes "(loop_step ctl interest base loops wc)\<^sup>*\<^sup>* S S'"
    and r: "reachable (loops_start interest base s0) (loop_step ctl interest base loops wc) S"
    and fd: "fd \<in> base" and on: "listens_on interest p fd (sl_system S)"
  shows "reachable (loops_start interest base s0) (loop_step ctl interest base loops wc) S'
    \<and> conns_grow (sl_system S) (sl_system S')
    \<and> (p \<notin> tc_channel ` set (sy_conns (sl_system S')) \<longrightarrow> listens_on interest p fd (sl_system S'))"
  using assms(1)
proof (induction rule: rtranclp_induct)
  case (step T U)
  then have r: "reachable (loops_start interest base s0) (loop_step ctl interest base loops wc) T" by blast
  note L = loop_step_listens [OF step.hyps(2) loops_invs(2) [OF r]]
  have "p \<notin> tc_channel ` set (sy_conns (sl_system U)) \<longrightarrow> listens_on interest p fd (sl_system U)"
    using step.IH L(2) [OF fd] conns_grow_channels(1) [OF L(1)] by blast
  then show ?case using reachable_step [OF r step.hyps(2)] step.IH conns_grow_trans L(1) by blast
qed (use r on in \<open>simp add: conns_grow_refl\<close>)

end

section \<open>The main loop with its acceptor\<close>

text \<open>What the main loop relies on: a listening acceptor with a descriptor of its own, and loops that have the steps of
  \<open>ServerLoop\<close> away from the reads of a handler, and no others than sequences of them.\<close>

locale listening_system = server_system ctl interest base loops wc s0
  for ctl :: "'k epoll_ctl" and interest :: "'k \<Rightarrow> int \<rightharpoonup> epoll_event" and base :: "int set"
    and loops :: "nat \<Rightarrow> conn_functor event_loop" and wc :: bool and s0 :: tcp_server +
  fixes inner :: "'k loops_system \<Rightarrow> 'k loops_system \<Rightarrow> bool" and poller :: "'k poller" and pa :: nat and sockfd :: int
    and addr :: sockaddr_in and reuse :: bool and a :: "'k acceptor"
  assumes acceptor: "listening_acceptor ctl poller pa sockfd addr reuse = Inr a" "fresh_fd interest sockfd poller"
    and own_fd: "sockfd \<in> base"
    and inner_idle: "loop_step ctl interest base loops wc S S' \<Longrightarrow> (\<forall>l. at_read (sl_pc S l) \<longrightarrow> sl_pc S' l = sl_pc S l) \<Longrightarrow> inner S S'"
    and inner_loops: "reachable (loops_start interest base s0) (loop_step ctl interest base loops wc) S \<Longrightarrow> inner S S' \<Longrightarrow>
      (loop_step ctl interest base loops wc)\<^sup>*\<^sup>* S S'"
begin

abbreviation reach :: "'k loops_system \<Rightarrow> bool" where
  "reach \<equiv> reachable (loops_start interest base s0) (loop_step ctl interest base loops wc)"

definition listen_inv :: "'k listening \<Rightarrow> bool" where
  "listen_inv L \<longleftrightarrow> reachable (loops_start interest base s0) inner (ls_loops L) \<and> reach (ls_loops L)
     \<and> listens_on interest pa sockfd (sl_system (ls_loops L))
     \<and> (ls_calls L \<noteq> [] \<longrightarrow> ls_calls L = [ReadCallback] \<and> dispatching (sl_pc (ls_loops L) 0))"

lemma inner_listens:
  assumes step: "inner S S'" and r: "reach S" and on: "listens_on interest pa sockfd (sl_system S)"
    and pa: "pa \<notin> tc_channel ` set (sy_conns (sl_system S'))
      \<or> length (sy_conns (sl_system S')) = length (sy_conns (sl_system S))"
  shows "reach S' \<and> listens_on interest pa sockfd (sl_system S')"
proof -
  note L = loop_steps_listen [OF inner_loops [OF r step] r own_fd on]
  then have "pa \<notin> tc_channel ` set (sy_conns (sl_system S'))"
    using pa conns_grow_channels(2) on by (fastforce simp: listens_on_def)
  then show ?thesis using L by blast
qed

lemma poll_inner:
  assumes "sl_pc S 0 = InPoll" and "EPollPoller_poll epoll_wait eintr (sy_pollers (sl_system S) 0) = (lg, active, pl)"
    and "reports interest (sy_pollers (sl_system S) 0) active"
  shows "inner S (S\<lparr>sl_system := (sl_system S)\<lparr>sy_pollers := (sy_pollers (sl_system S))(0 := pl)\<rparr>,
    sl_pc := (sl_pc S)(0 := InChannels (conn_channels base pl active) None)\<rparr>)"
  by (rule inner_idle [OF loop_poll [OF assms]]) (use assms(1) in \<open>auto simp: at_read_def\<close>)

lemma accept_inner:
  assumes "may_accept base p fd (sl_system S)" and "sys_newConnection ctl loops wc p fd peer loc (sl_system S) = Inr sy"
  shows "inner S (S\<lparr>sl_system := sy\<rparr>)"
  by (rule inner_idle [OF loop_accept [OF assms]]) simp

lemma reach_conns: "reach S \<Longrightarrow> conns_inv interest base (sl_system S)"
  using loops_invs(2) by (simp add: loops_inv_def)

lemma accepted_channels:
  assumes r: "reach S" and acc: "may_accept base p fd (sl_system S)"
    and new: "sys_newConnection ctl loops wc p fd peer loc (sl_system S) = Inr sy"
  shows "tc_channel ` set (sy_conns sy) = insert p (tc_channel ` set (sy_conns (sl_system S)))"
proof -
  from new obtain s' where "newConnection fd peer loc (sy_server (sl_system S)) = Inr s'"
    by (auto simp: sys_newConnection_def bindR_Inr_iff)
  from sys_accept_ok [OF reach_conns [OF r] acc this, of loops wc] new
  have "map tc_channel (sy_conns sy) = map tc_channel (sy_conns (sl_system S)) @ [p]" by auto
  then have "set (map tc_channel (sy_conns sy)) = insert p (set (map tc_channel (sy_conns (sl_system S))))" by simp
  then show ?thesis by simp
qed

lemma listen_step_inv:
  assumes "listen_step ctl interest base loops wc inner a L L'" and inv: "listen_inv L"
  shows "listen_inv L'"
proof -
  note A = listening_watches [OF acceptor]
  have r: "reachable (loops_start interest base s0) inner (ls_loops L)" "reach (ls_loops L)"
    and on: "listens_on interest pa sockfd (sl_system (ls_loops L))" using inv by (simp_all add: listen_inv_def)
  from assms(1) show ?thesis
  proof cases
    case (listen_poll S epoll_wait eintr lg active pl)
    let ?S = "S\<lparr>sl_system := (sl_system S)\<lparr>sy_pollers := (sy_pollers (sl_system S))(0 := pl)\<rparr>,
      sl_pc := (sl_pc S)(0 := InChannels (conn_channels base pl active) None)\<rparr>"
    have step: "inner (ls_loops L) ?S" using poll_inner [OF listen_poll(3-5)] listen_poll(2) by simp
    have "reach ?S \<and> listens_on interest pa sockfd (sl_system ?S)"
      by (rule inner_listens [OF step r(2) on]) (use listen_poll(2) in simp)
    moreover from this have "reads_only (pl_heap pl pa)" by (simp add: listens_on_def)
    ultimately show ?thesis using listen_poll(1) A(1) reachable_step [OF r(1) step] by (simp add: listen_inv_def reads_only_calls)
  next
    case (listen_accept S ps cbs connfd sa errno fd peer p loc sy)
    have step: "inner (ls_loops L) (S\<lparr>sl_system := sy\<rparr>)"
      using accept_inner [OF listen_accept(6,8)] listen_accept(2) by simp
    have "pa \<notin> tc_channel ` set (sy_conns sy)"
      using accepted_channels [OF _ listen_accept(6,8)] r(2) on listen_accept(2,7) A(1) by (simp add: listens_on_def)
    then have "reach (S\<lparr>sl_system := sy\<rparr>) \<and> listens_on interest pa sockfd sy"
      using inner_listens [OF step r(2) on] by simp
    moreover have "cbs = []" using inv listen_accept(4) by (simp add: listen_inv_def)
    ultimately show ?thesis using listen_accept(1) reachable_step [OF r(1) step] by (simp add: listen_inv_def)
  next
    case (listen_refused ps cbs)
    then show ?thesis using inv by (simp add: listen_inv_def)
  next
    case (listen_inner S')
    have "reach S' \<and> listens_on interest pa sockfd (sl_system S')"
      by (rule inner_listens [OF listen_inner(2) r(2) on]) (use listen_inner(3) in simp)
    then show ?thesis using listen_inner(1,5) inv reachable_step [OF r(1) listen_inner(2)] by (auto simp: listen_inv_def)
  qed
qed

text \<open>A reported listening channel is served, whatever \<open>accept4\<close> answers.\<close>

lemma accept_runs:
  assumes inv: "listen_inv L" and calls: "ls_calls L \<noteq> []" and pc: "sl_pc (ls_loops L) 0 = InChannels ps None"
    and fd: "0 \<le> connfd" and acc: "may_accept base p connfd (sl_system (ls_loops L))" "p \<noteq> pa"
    and room: "length (sv_heap (sy_server (sl_system (ls_loops L)))) + 1 < 2 ^ 31 - 1"
  defines "n \<equiv> length (sv_heap (sy_server (sl_system (ls_loops L))))"
  shows "\<exists>sy'. listen_step ctl interest base loops wc inner a L \<lparr>ls_loops = (ls_loops L)\<lparr>sl_system := sy'\<rparr>, ls_calls = []\<rparr>
    \<and> length (sv_heap (sy_server sy')) = Suc n \<and> co_fd (sy_object sy' n) = connfd
    \<and> co_peer (sy_object sy' n) = setSockAddr sa (InetAddress_new 0 ''127.0.0.1'') \<and> co_local (sy_object sy' n) = loc
    \<and> sv_connections (sy_server sy') (co_name (sy_object sy' n)) = Some n \<and> tc_channel (sy_conns sy' ! n) = p"
proof -
  let ?sy = "sl_system (ls_loops L)" and ?peer = "setSockAddr sa (InetAddress_new 0 ''127.0.0.1'')"
  note A = listening_watches [OF acceptor]
  have r: "reach (ls_loops L)" and c: "ls_calls L = [ReadCallback]" using inv calls by (simp_all add: listen_inv_def)
  have srv: "length (sv_heap (sy_server (sl_abs (ls_loops L)))) = n" by (simp add: sl_abs_def n_def)
  have conns: "conns_inv interest base ?sy" by (rule reach_conns [OF r])
  have "server_inv None (sy_server (sl_abs (ls_loops L)))" using loops_invs(2) [OF r] by (simp add: loops_inv_def)
  from newConnection_inv [OF this, of connfd ?peer loc] obtain s'' where
    "newConnection connfd ?peer loc (queue_front (\<lambda>l. pending (sl_pc (ls_loops L) l)) (sy_server ?sy)) = Inr s''"
    using room by (auto simp: sl_abs_def)
  then obtain s' where new: "newConnection connfd ?peer loc (sy_server ?sy) = Inr s'"
    by (auto simp: queue_front_new bindR_Inr_iff)
  from newConnection_heap [OF new] obtain ob where
    ob: "sv_heap s' = sv_heap (sy_server ?sy) @ [ob]" "co_fd ob = connfd" "co_peer ob = ?peer" "co_local ob = loc"
      "sv_connections s' (co_name ob) = Some n" by (auto simp: n_def)
  from sys_accept_ok [OF conns acc(1) new, of loops wc] obtain sy' where
    sy': "sys_newConnection ctl loops wc p connfd ?peer loc ?sy = Inr sy'" "sy_server sy' = s'"
      "map tc_channel (sy_conns sy') = map tc_channel (sy_conns ?sy) @ [p]" by auto
  have read: "Acceptor_handleRead connfd sa 0 a = NewConnection connfd ?peer"
    using fd A(2) by (simp add: Acceptor_handleRead_def Socket_accept_def)
  have step: "listen_step ctl interest base loops wc inner a L \<lparr>ls_loops = (ls_loops L)\<lparr>sl_system := sy'\<rparr>, ls_calls = []\<rparr>"
    by (rule listen_accept [OF refl pc c read acc(1) _ sy'(1)]) (use acc(2) A(1) in simp)
  have "map tc_channel (sy_conns sy') ! n = p" using sy'(3) conns_invD(1) [OF conns] by (simp add: n_def nth_append)
  moreover have "length (sy_conns sy') = Suc n" using arg_cong [OF sy'(3), of length] conns_invD(1) [OF conns] by (simp add: n_def)
  ultimately have "tc_channel (sy_conns sy' ! n) = p" by simp
  then show ?thesis using step ob sy'(2) by (intro exI [of _ sy']) (simp add: n_def)
qed

lemma refusal_runs:
  assumes inv: "listen_inv L" and calls: "ls_calls L \<noteq> []" and pc: "sl_pc (ls_loops L) 0 = InChannels ps None" and fd: "connfd < 0"
  shows "Acceptor_handleRead connfd sa errno a = AcceptFailed (errno = EMFILE)
    \<and> listen_step ctl interest base loops wc inner a L (L\<lparr>ls_calls := []\<rparr>)"
proof -
  have c: "ls_calls L = [ReadCallback]" using inv calls by (simp add: listen_inv_def)
  have read: "Acceptor_handleRead connfd sa errno a = AcceptFailed (errno = EMFILE)"
    using fd by (simp add: Acceptor_handleRead_def Socket_accept_def)
  show ?thesis using listen_refused [OF pc c disjI2 [OF read]] read by blast
qed

end

sublocale listening_system \<subseteq> listening: transition_invariant "listen_start interest base s0 a"
    "listen_step ctl interest base loops wc inner a" listen_inv
proof unfold_locales
  fix L
  assume "listen_start interest base s0 a L"
  then show "listen_inv L"
    using listening_watches(4,5) [OF acceptor]
    by (auto simp: listen_start_def listen_inv_def listens_on_def loops_start_def system_start_def intro: reachable_start)
qed (rule listen_step_inv)

context listening_system
begin

lemma listen_facts:
  assumes "reachable (listen_start interest base s0 a) (listen_step ctl interest base loops wc inner a) L"
  shows "reachable (loops_start interest base s0) inner (ls_loops L)"
    "interest (pl_kernel (sy_pollers (sl_system (ls_loops L)) 0)) sockfd = Some (kReadEvent, pa)"
    "\<forall>conn \<in> set (sy_conns (sl_system (ls_loops L))). tc_channel conn \<noteq> pa"
    "ls_calls L \<noteq> [] \<Longrightarrow> ls_calls L = [ReadCallback] \<and> (\<exists>ps now. sl_pc (ls_loops L) 0 = InChannels ps now)"
proof -
  have inv: "listen_inv L" by (rule listening.reachable_inv [OF assms])
  then have on: "listens_on interest pa sockfd (sl_system (ls_loops L))" by (simp add: listen_inv_def)
  show "reachable (loops_start interest base s0) inner (ls_loops L)" using inv by (simp add: listen_inv_def)
  show "interest (pl_kernel (sy_pollers (sl_system (ls_loops L)) 0)) sockfd = Some (kReadEvent, pa)"
    using on by (intro watching_interest) (simp add: listens_on_def)
  show "\<forall>conn \<in> set (sy_conns (sl_system (ls_loops L))). tc_channel conn \<noteq> pa" using on by (auto simp: listens_on_def)
  assume "ls_calls L \<noteq> []"
  then show "ls_calls L = [ReadCallback] \<and> (\<exists>ps now. sl_pc (ls_loops L) 0 = InChannels ps now)"
    using inv by (cases "sl_pc (ls_loops L) 0") (auto simp: listen_inv_def)
qed

lemmas accept_served = accept_runs [OF listening.reachable_inv]
lemmas refusal_served = refusal_runs [OF listening.reachable_inv]

end

section \<open>The loops of the programs\<close>

lemma listening_systems:
  assumes "epoll_kernel ctl interest" and "started_server addr name n cb startLoop = Inr s0" and "n < 2 ^ 31"
    and "listening_acceptor ctl poller pa sockfd laddr reuse = Inr a" and "fresh_fd interest sockfd poller" and "sockfd \<in> base"
  shows "listening_system ctl interest base loops wc s0 (loop_step ctl interest base loops wc) poller pa sockfd laddr reuse a"
    "handler_system ctl interest s0 handler \<Longrightarrow>
       listening_system ctl interest base loops wc s0 (handler_step ctl interest base loops wc handler) poller pa sockfd laddr reuse a"
proof -
  show "listening_system ctl interest base loops wc s0 (loop_step ctl interest base loops wc) poller pa sockfd laddr reuse a"
    using started_system [OF assms(1-3)] assms(4-6)
    by (auto simp: listening_system_def listening_system_axioms_def)
  assume h: "handler_system ctl interest s0 handler"
  show "listening_system ctl interest base loops wc s0 (handler_step ctl interest base loops wc handler) poller pa sockfd laddr reuse a"
    by (intro listening_system.intro listening_system_axioms.intro started_system [OF assms(1-3)] assms(4-6))
       (blast intro: handler_other handler_system.handler_step_loops [OF h])+
qed

abbreviation listen_reachable ::
  "'k epoll_ctl \<Rightarrow> ('k \<Rightarrow> int \<rightharpoonup> epoll_event) \<Rightarrow> int set \<Rightarrow> (nat \<Rightarrow> conn_functor event_loop) \<Rightarrow> bool \<Rightarrow> tcp_server
    \<Rightarrow> ('k loops_system \<Rightarrow> 'k loops_system \<Rightarrow> bool) \<Rightarrow> 'k acceptor \<Rightarrow> 'k listening \<Rightarrow> bool"
where
  "listen_reachable ctl interest base loops wc s0 inner a \<equiv>
     reachable (listen_start interest base s0 a) (listen_step ctl interest base loops wc inner a)"

text \<open>The demonstration server with a listening socket.\<close>

abbreviation demo_poller :: "(int \<rightharpoonup> epoll_event) poller" where
  "demo_poller \<equiv> EPollPoller_new (\<lambda>_. Channel_new 0) Map.empty"

definition demo_acceptor :: "(int \<rightharpoonup> epoll_event) acceptor" where
  "demo_acceptor = (case listening_acceptor epoll_table_ctl demo_poller 9 3 (InetAddress_new 80 []) False of Inr a \<Rightarrow> a)"

lemma demo_acceptor_eq:
  "listening_acceptor epoll_table_ctl demo_poller 9 3 (InetAddress_new 80 []) False = Inr demo_acceptor"
  "fresh_fd (\<lambda>k. k) 3 demo_poller"
proof -
  show f: "fresh_fd (\<lambda>k. k) 3 demo_poller" by (simp add: fresh_fd_def EPollPoller_new_def)
  obtain a where a: "Acceptor_new demo_poller 9 3 0 (InetAddress_new 80 []) False = Inr a"
    by (simp add: Acceptor_new_def createNonblocking_def bindAddress_def)
  from tbl.accept_lifecycle [OF this f]
  show "listening_acceptor epoll_table_ctl demo_poller 9 3 (InetAddress_new 80 []) False = Inr demo_acceptor"
    by (auto simp: demo_acceptor_def listening_acceptor_def a)
qed

interpretation demo_listens: listening_system epoll_table_ctl "\<lambda>k. k" "{3}" loops wc srv_start
    "loop_step epoll_table_ctl (\<lambda>k. k) {3} loops wc" demo_poller 9 3 "InetAddress_new 80 []" False demo_acceptor for loops wc
  by (rule listening_systems(1) [OF tbl.epoll_kernel_axioms srv_start_eq _ demo_acceptor_eq]) simp_all

interpretation demo_listens_http: listening_system epoll_table_ctl "\<lambda>k. k" "{3}" demo_loops wc srv_start
    "handler_step epoll_table_ctl (\<lambda>k. k) {3} demo_loops wc demo_http" demo_poller 9 3 "InetAddress_new 80 []" False demo_acceptor for wc
  by (rule listening_systems(2) [OF tbl.epoll_kernel_axioms srv_start_eq _ demo_acceptor_eq])
     (simp_all add: demo_systems(1) [OF main_short_replies [OF table_order_lists]])

section \<open>Properties\<close>

text \<open>Claim C10. The HTTP server with its listening socket: accepting in the dispatch of the main loop only restricts when
  connections come, so every history is one of the loops with the handler. Throughout, whatever connections are
  opened, served and closed, the listening channel stays in the kernel's interest list for reading and belongs to no
  connection; and loop 0 does not leave its dispatch before it has served a reported listening channel.\<close>

theorem listening_refines_loops:
  assumes "epoll_kernel ctl interest" and "started_server addr name n cb startLoop = Inr s0" and "n < 2 ^ 31"
    and "short_replies iter httpCallback"
    and "listening_acceptor ctl poller pa sockfd laddr reuse = Inr a" and "fresh_fd interest sockfd poller" and "sockfd \<in> base"
    and "listen_reachable ctl interest base loops wc s0
      (handler_step ctl interest base loops wc (http_handler ctl iter httpCallback ptr)) a L"
  shows "handler_reachable ctl interest base loops wc s0 (http_handler ctl iter httpCallback ptr) (ls_loops L)
    \<and> interest (pl_kernel (sy_pollers (sl_system (ls_loops L)) 0)) sockfd = Some (kReadEvent, pa)
    \<and> (\<forall>conn \<in> set (sy_conns (sl_system (ls_loops L))). tc_channel conn \<noteq> pa)
    \<and> (ls_calls L \<noteq> [] \<longrightarrow> (\<exists>ps now. sl_pc (ls_loops L) 0 = InChannels ps now))"
proof -
  note sys = listening_systems(2) [OF assms(1-3,5-7) handler_systems(1) [OF assms(1-4)]]
  show ?thesis using listening_system.listen_facts [OF sys assms(8)] by blast
qed

text \<open>Claim C11. A pending connection is accepted: when loop 0 handles a reported listening channel, then \<open>handleRead\<close> is the one
  callback it calls, and for every descriptor that \<open>accept4\<close> returns it goes on to a server with one connection more, which has
  this descriptor, the peer \<open>accept4\<close> told, the channel allocated for it, and its name in the table. When \<open>accept4\<close>
  fails, for want of descriptors or otherwise, the server is as before.\<close>

theorem pending_accepted:
  assumes "epoll_kernel ctl interest" and "started_server addr name n cb startLoop = Inr s0" and "n < 2 ^ 31"
    and "short_replies iter httpCallback"
    and "listening_acceptor ctl poller pa sockfd laddr reuse = Inr a" and "fresh_fd interest sockfd poller" and "sockfd \<in> base"
    and "step = listen_step ctl interest base loops wc (handler_step ctl interest base loops wc (http_handler ctl iter httpCallback ptr)) a"
    and "reachable (listen_start interest base s0 a) step L"
    and "ls_calls L \<noteq> []" and "sl_pc (ls_loops L) 0 = InChannels ps None"
    and "sy = sl_system (ls_loops L)" and "c = length (sv_heap (sy_server sy))" and "c + 1 < 2 ^ 31 - 1"
  shows "ls_calls L = [ReadCallback]
    \<and> (\<forall>fd p sa loc. 0 \<le> fd \<and> may_accept base p fd sy \<and> p \<noteq> pa \<longrightarrow>
        (\<exists>sy'. step L \<lparr>ls_loops = (ls_loops L)\<lparr>sl_system := sy'\<rparr>, ls_calls = []\<rparr>
           \<and> length (sv_heap (sy_server sy')) = Suc c \<and> co_fd (sy_object sy' c) = fd
           \<and> co_peer (sy_object sy' c) = setSockAddr sa (InetAddress_new 0 ''127.0.0.1'') \<and> co_local (sy_object sy' c) = loc
           \<and> sv_connections (sy_server sy') (co_name (sy_object sy' c)) = Some c \<and> tc_channel (sy_conns sy' ! c) = p))
    \<and> (\<forall>fd sa errno. fd < 0 \<longrightarrow> Acceptor_handleRead fd sa errno a = AcceptFailed (errno = EMFILE)
        \<and> step L (L\<lparr>ls_calls := []\<rparr>))"
proof -
  note sys = listening_systems(2) [OF assms(1-3,5-7) handler_systems(1) [OF assms(1-4)]]
  note r = assms(9) [unfolded assms(8)]
  have "ls_calls L = [ReadCallback]" using listening_system.listen_facts(4) [OF sys r assms(10)] by blast
  then show ?thesis
    using listening_system.accept_served [OF sys r assms(10,11)] listening_system.refusal_served [OF sys r assms(10,11)] assms(14)
    unfolding assms(8,12,13) by blast
qed

text \<open>The demonstration server has started, and its listening channel is reported.\<close>

abbreviation demo_listening :: "(int \<rightharpoonup> epoll_event) listening \<Rightarrow> (int \<rightharpoonup> epoll_event) listening \<Rightarrow> bool" where
  "demo_listening \<equiv> listen_step epoll_table_ctl (\<lambda>k. k) {3} demo_loops False
     (handler_step epoll_table_ctl (\<lambda>k. k) {3} demo_loops False demo_http) demo_acceptor"

lemma demo_reported:
  "\<exists>L pl. reachable (listen_start (\<lambda>k. k) {3} srv_start demo_acceptor) demo_listening L \<and> ls_calls L = [ReadCallback]
    \<and> sl_pc (ls_loops L) 0 = InChannels [] None
    \<and> sl_system (ls_loops L) = sys_zero\<lparr>sy_pollers := (sy_pollers sys_zero)(0 := pl)\<rparr>"
proof -
  note A = tbl.listening_watches [OF demo_acceptor_eq]
  let ?pl = "ac_poller demo_acceptor" and ?wait = "\<lambda>_. (1, [(EPOLLIN, 9)])"
  let ?sy = "sys_zero\<lparr>sy_pollers := (sy_pollers sys_zero)(0 := ?pl)\<rparr>"
  let ?L = "\<lparr>ls_loops = \<lparr>sl_system = ?sy, sl_pc = (\<lambda>_. InPoll)\<rparr>, ls_calls = []\<rparr>"
  have "pl_channels (sy_pollers ?sy l) fd = None \<and> pl_kernel (sy_pollers ?sy l) fd = None" if "fd \<noteq> 3" for l fd
    using A(6) [OF that] by (simp add: sys_zero_def EPollPoller_new_def)
  then have start: "listen_start (\<lambda>k. k) {3} srv_start demo_acceptor ?L"
    by (simp add: listen_start_def loops_start_def system_start_def sys_zero_def)
  have pa: "ch_fd (pl_heap ?pl 9) = 3" "pl_kernel ?pl 3 = Some (kReadEvent, 9)"
    using A(4) watching_interest [OF A(4)] by (simp_all add: watching_def)
  obtain lg active pl where poll: "EPollPoller_poll ?wait False ?pl = (lg, active, pl)"
    by (cases "EPollPoller_poll ?wait False ?pl")
  then have a: "active = [9]" "pl_heap pl 9 = (pl_heap ?pl 9)\<lparr>ch_revents := EPOLLIN\<rparr>"
    by (auto simp: EPollPoller_poll_def fillActiveChannels_def size_of_int_def int_of_size_def Let_def split: if_splits)
  let ?L1 = "\<lparr>ls_loops = \<lparr>sl_system = ?sy\<lparr>sy_pollers := (sy_pollers ?sy)(0 := pl)\<rparr>,
      sl_pc = (\<lambda>_. InPoll)(0 := InChannels [] None)\<rparr>, ls_calls = [ReadCallback]\<rparr>"
  have calls: "Channel_handleEvent True (pl_heap pl 9) = [ReadCallback]"
    using A(5) by (simp add: reads_only_calls a(2) reads_only_def same_callbacks_def epoll_flags)
  have "reports (\<lambda>k. k) ?pl active" using pa by (simp add: reports_def a(1))
  from listen_poll [of "ls_loops ?L" ?L ?wait False lg active pl "\<lambda>k. k" epoll_table_ctl "{3}" demo_loops False
      "handler_step epoll_table_ctl (\<lambda>k. k) {3} demo_loops False demo_http" demo_acceptor] this poll
  have step: "demo_listening ?L ?L1"
    using A(1) a pa(1) calls by (simp add: conn_channels_def)
  have "reachable (listen_start (\<lambda>k. k) {3} srv_start demo_acceptor) demo_listening ?L" by (rule reachable_start) (rule start)
  then have "reachable (listen_start (\<lambda>k. k) {3} srv_start demo_acceptor) demo_listening ?L1" by (rule reachable_step) (rule step)
  then show ?thesis by (intro exI [of _ ?L1] exI [of _ pl]) simp
qed

theorem listening_refines_loops_witness:
  "\<exists>L :: (int \<rightharpoonup> epoll_event) listening. ls_calls L = [ReadCallback] \<and> pl_kernel (sy_pollers (sl_system (ls_loops L)) 0) 3 = Some (kReadEvent, 9)
    \<and> handler_reachable epoll_table_ctl (\<lambda>k. k) {3} demo_loops False srv_start demo_http (ls_loops L)"
proof -
  from demo_reported obtain L where
    L: "reachable (listen_start (\<lambda>k. k) {3} srv_start demo_acceptor) demo_listening L" "ls_calls L = [ReadCallback]" by blast
  have "(3::int) \<in> {3}" "(1::int) < 2 ^ 31" by simp_all
  from listening_refines_loops [OF tbl.epoll_kernel_axioms srv_start_eq this(2) main_short_replies [OF table_order_lists] demo_acceptor_eq this(1) L(1)] L(2)
  show ?thesis by (intro exI [of _ L]) simp
qed

theorem pending_accepted_witness:
  "\<exists>L sy'. demo_listening L \<lparr>ls_loops = (ls_loops L)\<lparr>sl_system := sy'\<rparr>, ls_calls = []\<rparr>
    \<and> sy_conns (sl_system (ls_loops L)) = [] \<and> length (sv_heap (sy_server sy')) = 1 \<and> co_fd (sy_object sy' 0) = 7
    \<and> sv_connections (sy_server sy') (co_name (sy_object sy' 0)) = Some 0 \<and> tc_channel (sy_conns sy' ! 0) = 1"
proof -
  from demo_reported obtain L pl where
    L: "reachable (listen_start (\<lambda>k. k) {3} srv_start demo_acceptor) demo_listening L" "ls_calls L = [ReadCallback]"
      "sl_pc (ls_loops L) 0 = InChannels [] None" "sl_system (ls_loops L) = sys_zero\<lparr>sy_pollers := (sy_pollers sys_zero)(0 := pl)\<rparr>"
    by blast
  have one: "(1::int) < 2 ^ 31" by simp
  have h: "(3::int) \<in> {3}" "ls_calls L \<noteq> []" "0 = length (sv_heap (sy_server (sl_system (ls_loops L))))" "sy_conns (sl_system (ls_loops L)) = []"
    using L(2,4) by (simp_all add: sys_zero_def srv_start_fields)
  have acc: "may_accept {3} 1 7 (sl_system (ls_loops L))" by (simp add: may_accept_def L(4) sys_zero_def srv_start_fields)
  note served = pending_accepted [OF tbl.epoll_kernel_axioms srv_start_eq one main_short_replies [OF table_order_lists] demo_acceptor_eq h(1) refl
      L(1) h(2) L(3) refl h(3), THEN conjunct2, THEN conjunct1, rule_format, of 7 1 "InetAddress_new 4000 []" "InetAddress_new 80 []"]
  obtain sy' where "demo_listening L \<lparr>ls_loops = (ls_loops L)\<lparr>sl_system := sy'\<rparr>, ls_calls = []\<rparr>"
    "length (sv_heap (sy_server sy')) = Suc 0" "co_fd (sy_object sy' 0) = 7"
    "sv_connections (sy_server sy') (co_name (sy_object sy' 0)) = Some 0" "tc_channel (sy_conns sy' ! 0) = 1"
    using served acc by auto
  then show ?thesis using h(4) by (intro exI [of _ L] exI [of _ sy']) simp
qed

end
