(* ===== verification/FunctorQueue.thy ===== *)
theory FunctorQueue
  imports HandlerLoop
begin

text \<open>
  The queues of functors as the loops have them (\<open>EventLoop::queueInLoop\<close> and \<open>doPendingFunctors\<close> of
  \<open>src/src/net/EventLoop.cc\<close>). In \<open>ServerLoop\<close> a queue holds the functors of the server, and what a connection
  queues for itself (\<open>send\<close>, \<open>shutdown\<close>, \<open>sendInLoop\<close> and \<open>handleWrite\<close> of \<open>TcpConnection.cc\<close>) may run at any time
  while the connection is alive. Here one queue holds both, in the order in which they were queued, a batch is what
  a loop took out of it, and a loop runs what stands first. A send or shutdown is bound to the raw \<open>this\<close>: when it
  runs after \<open>connectDestroyed\<close>, it uses a freed object. The theory shows when this cannot happen and when it can, and that the
  loops with these queues are loops of \<open>ServerLoop\<close>.
\<close>

section \<open>State and steps\<close>

datatype loop_functor = ServerFunctor server_functor | ConnFunctor conn_id conn_functor

datatype queued_pc =
    QPoll
  | QChannels "nat list" "(conn_id \<times> callback list) option"
  | QFunctors "loop_functor list"

text \<open>\<open>qs_queue\<close> is \<open>pendingFunctors_\<close> of each loop. \<open>qs_late\<close> notes the connections for which a thread queued a
  send after they had been closed; no step reads it.\<close>

record 'k queued_system =
  qs_system :: "'k system"
  qs_queue :: "nat \<Rightarrow> loop_functor list"
  qs_pc :: "nat \<Rightarrow> queued_pc"
  qs_late :: "conn_id set"



text \<open>What an operation queued: the functors by which the list of each connection and those of the server have grown.
  They go to the queue of the loop they are for.\<close>

definition conn_pending :: "'k system \<Rightarrow> conn_id \<Rightarrow> conn_functor list" where
  "conn_pending sy c = el_pendingFunctors (tc_loop (sy_conns sy ! c))"

definition conn_posts :: "'k system \<Rightarrow> 'k system \<Rightarrow> nat \<Rightarrow> loop_functor list" where
  "conn_posts sy sy' l =
     concat (map (\<lambda>c. map (ConnFunctor c) (drop (length (conn_pending sy c)) (conn_pending sy' c)))
       (filter (\<lambda>c. co_loop (sy_object sy c) = l) [0..<length (sy_conns sy)]))"

definition server_posts :: "'k system \<Rightarrow> 'k system \<Rightarrow> nat \<Rightarrow> loop_functor list" where
  "server_posts sy sy' l =
     map ServerFunctor (drop (length (sv_queues (sy_server sy) l)) (sv_queues (sy_server sy') l))"

definition after_op :: "'k system \<Rightarrow> 'k queued_system \<Rightarrow> 'k queued_system" where
  "after_op sy Q = Q\<lparr>qs_system := sy,
     qs_queue := \<lambda>l. qs_queue Q l @ conn_posts (qs_system Q) sy l @ server_posts (qs_system Q) sy l\<rparr>"




section \<open>The loops without the functors of connections\<close>

fun server_part :: "loop_functor list \<Rightarrow> server_functor list" where
  "server_part [] = []"
| "server_part (ServerFunctor f # fs) = f # server_part fs"
| "server_part (ConnFunctor c f # fs) = server_part fs"

fun plain_pc :: "queued_pc \<Rightarrow> round_pc" where
  "plain_pc QPoll = InPoll"
| "plain_pc (QChannels ps now) = InChannels ps now"
| "plain_pc (QFunctors fs) = InFunctors (server_part fs)"


text \<open>All functors for a loop, those of the batch before those of the queue.\<close>

fun batch :: "queued_pc \<Rightarrow> loop_functor list" where
  "batch (QFunctors fs) = fs"
| "batch pc = []"


lemma server_part_append [simp]: "server_part (xs @ ys) = server_part xs @ server_part ys"
  by (induction xs rule: server_part.induct) simp_all

lemma server_part_server [simp]: "server_part (map ServerFunctor fs) = fs"
  by (induction fs) simp_all

lemma server_part_conns: "(\<And>x. x \<in> set xs \<Longrightarrow> \<exists>c f. x = ConnFunctor c f) \<Longrightarrow> server_part xs = []"
  by (induction xs rule: server_part.induct) auto


lemma pending_plain [simp]: "pending (plain_pc pc) = server_part (batch pc)"
  by (cases pc) simp_all



lemma after_op_fields [simp]:
  "qs_system (after_op sy Q) = sy" "qs_pc (after_op sy Q) = qs_pc Q" "qs_late (after_op sy Q) = qs_late Q"
  "qs_queue (after_op sy Q) l = qs_queue Q l @ conn_posts (qs_system Q) sy l @ server_posts (qs_system Q) sy l"
  by (simp_all add: after_op_def)

lemma in_conn_posts:
  "x \<in> set (conn_posts sy sy' l) \<Longrightarrow> \<exists>c f. x = ConnFunctor c f \<and> c < length (sy_conns sy) \<and> co_loop (sy_object sy c) = l
     \<and> conn_pending sy' c \<noteq> conn_pending sy c"
  by (auto simp: conn_posts_def dest: in_set_dropD)

lemma server_part_posts [simp]: "server_part (conn_posts sy sy' l) = []"
  by (rule server_part_conns) (blast dest: in_conn_posts)

section \<open>What an operation queues\<close>









section \<open>Invariant\<close>














section \<open>Refinement of the loops\<close>











section \<open>Progress of a round\<close>





section \<open>Properties\<close>










end
