(* ===== verification/TimerQueue.thy ===== *)
theory TimerQueue
  imports Timestamp "HOL-Library.Product_Lexorder"
begin

text \<open>
  Timers (\<open>src/src/timer/Timer.h\<close>, \<open>Timer.cc\<close>, \<open>TimerQueue.h\<close>, \<open>TimerQueue.cc\<close>). Timer objects
  live in a heap; a freed or missing object is \<open>None\<close> and using it is an error. The
  \<open>std::set<pair<Timestamp, Timer*>>\<close> is the list of its elements in order, and \<open>timerfd\<close> is the
  expiration it was last armed for, with the \<open>timespec\<close> passed to the kernel. The clock readings
  and the addresses \<open>new\<close> returns are arguments; so is what a user callback does to the queue.
\<close>

section \<open>Timers\<close>

record 'c timer =
  tmr_callback :: 'c
  tmr_expiration :: timestamp
  tmr_interval :: seconds
  tmr_repeat :: bool

definition Timer_new :: "'c \<Rightarrow> timestamp \<Rightarrow> seconds \<Rightarrow> 'c timer" where
  "Timer_new cb when interval =
     \<lparr>tmr_callback = cb, tmr_expiration = when, tmr_interval = interval, tmr_repeat = (interval > 0)\<rparr>"

definition Timer_restart :: "(seconds \<Rightarrow> int) \<Rightarrow> timestamp \<Rightarrow> 'c timer \<Rightarrow> 'c timer" where
  "Timer_restart usec now t =
     (if tmr_repeat t then t\<lparr>tmr_expiration := addTime usec now (tmr_interval t)\<rparr>
      else t\<lparr>tmr_expiration := Timestamp_invalid\<rparr>)"

section \<open>The queue\<close>

type_synonym entry = "timestamp \<times> nat"

text \<open>Seconds and nanoseconds of the \<open>timespec\<close>.\<close>

type_synonym timespec = "int \<times> int"

record 'c timer_queue =
  tq_timers :: "entry list"
  tq_heap :: "nat \<rightharpoonup> 'c timer"
  tq_armed :: "(timestamp \<times> timespec) option"
  tq_callingExpiredTimers :: bool

text \<open>A failure of \<open>timerfd_create\<close> is logged only.\<close>

definition createTimerfd :: "int \<Rightarrow> int" where
  "createTimerfd timerfd_create = timerfd_create"

definition TimerQueue_new :: "'c timer_queue" where
  "TimerQueue_new = \<lparr>tq_timers = [], tq_heap = Map.empty, tq_armed = None,
     tq_callingExpiredTimers = False\<rparr>"

fun set_insert :: "'a::linorder \<Rightarrow> 'a list \<Rightarrow> 'a list" where
  "set_insert e [] = [e]"
| "set_insert e (x # xs) =
     (if e < x then e # x # xs else if e = x then x # xs else x # set_insert e xs)"

definition deref :: "'c timer_queue \<Rightarrow> nat \<Rightarrow> 'c timer res" where
  "deref q p = (case tq_heap q p of None \<Rightarrow> Inl UseAfterFree | Some t \<Rightarrow> Inr t)"

definition TimerQueue_insert :: "nat \<Rightarrow> 'c timer_queue \<Rightarrow> (bool \<times> 'c timer_queue) res" where
  "TimerQueue_insert p q =
     bindR (deref q p) (\<lambda>t.
       let when = tmr_expiration t;
           earliestChanged = (case tq_timers q of [] \<Rightarrow> True | x # _ \<Rightarrow> when < fst x)
       in Inr (earliestChanged, q\<lparr>tq_timers := set_insert (when, p) (tq_timers q)\<rparr>))"

definition timer_delay :: "timestamp \<Rightarrow> timestamp \<Rightarrow> int" where
  "timer_delay now expiration = (let dif = int64 (expiration - now) in if dif < 100 then 100 else dif)"

definition resetTimerfd :: "timestamp \<Rightarrow> timestamp \<Rightarrow> 'c timer_queue \<Rightarrow> 'c timer_queue" where
  "resetTimerfd now expiration q =
     (let d = timer_delay now expiration;
          ts = (d sdiv kMicroSecondsPerSecond, d smod kMicroSecondsPerSecond * 1000)
      in q\<lparr>tq_armed := Some (expiration, ts)\<rparr>)"

definition addTimerInLoop :: "timestamp \<Rightarrow> nat \<Rightarrow> 'c timer_queue \<Rightarrow> 'c timer_queue res" where
  "addTimerInLoop now p q =
     bindR (TimerQueue_insert p q) (\<lambda>(earliestChanged, q1).
       if earliestChanged
       then bindR (deref q1 p) (\<lambda>t. Inr (resetTimerfd now (tmr_expiration t) q1))
       else Inr q1)"

text \<open>\<open>addTimer\<close> called in the loop's thread: \<open>new\<close> returned the address \<open>p\<close>.\<close>

definition addTimer ::
  "timestamp \<Rightarrow> nat \<Rightarrow> 'c \<Rightarrow> timestamp \<Rightarrow> seconds \<Rightarrow> 'c timer_queue \<Rightarrow> 'c timer_queue res"
where
  "addTimer now p cb when interval q =
     addTimerInLoop now p (q\<lparr>tq_heap := (tq_heap q)(p \<mapsto> Timer_new cb when interval)\<rparr>)"

text \<open>The three entry points of \<open>EventLoop\<close>; \<open>now\<close> and \<open>now'\<close> are the readings of the clock for the expiration and
  for the arming.\<close>

definition runAt :: "timestamp \<Rightarrow> nat \<Rightarrow> timestamp \<Rightarrow> 'c \<Rightarrow> 'c timer_queue \<Rightarrow> 'c timer_queue res" where
  "runAt now p when cb q = addTimer now p cb when 0 q"

definition runAfter ::
  "(seconds \<Rightarrow> int) \<Rightarrow> timestamp \<Rightarrow> timestamp \<Rightarrow> nat \<Rightarrow> seconds \<Rightarrow> 'c \<Rightarrow> 'c timer_queue \<Rightarrow> 'c timer_queue res"
where
  "runAfter usec now now' p waitTime cb q = runAt now' p (addTime usec now waitTime) cb q"

definition runEvery ::
  "(seconds \<Rightarrow> int) \<Rightarrow> timestamp \<Rightarrow> timestamp \<Rightarrow> nat \<Rightarrow> seconds \<Rightarrow> 'c \<Rightarrow> 'c timer_queue \<Rightarrow> 'c timer_queue res"
where
  "runEvery usec now now' p interval cb q = addTimer now' p cb (addTime usec now interval) interval q"

text \<open>\<open>getExpired\<close>: the entries before \<open>lower_bound((now, UINTPTR_MAX))\<close>.\<close>

definition UINTPTR_MAX :: nat where
  "UINTPTR_MAX = 2 ^ 64 - 1"

definition getExpired :: "timestamp \<Rightarrow> 'c timer_queue \<Rightarrow> entry list \<times> 'c timer_queue" where
  "getExpired now q =
     (let sentry = (now, UINTPTR_MAX)
      in (takeWhile (\<lambda>e. e < sentry) (tq_timers q),
          q\<lparr>tq_timers := dropWhile (\<lambda>e. e < sentry) (tq_timers q)\<rparr>))"

text \<open>Reading the descriptor: it was armed without an interval, so it is disarmed once it fires.\<close>

definition ReadTimerFd :: "'c timer_queue \<Rightarrow> 'c timer_queue" where
  "ReadTimerFd q = q\<lparr>tq_armed := None\<rparr>"

text \<open>\<open>run_expired\<close>: the callbacks, in order, each with its effect on the queue.\<close>

fun run_expired ::
  "('c \<Rightarrow> 'c timer_queue \<Rightarrow> 'c timer_queue) \<Rightarrow> entry list \<Rightarrow> 'c timer_queue
    \<Rightarrow> ('c list \<times> 'c timer_queue) res"
where
  "run_expired exec [] q = Inr ([], q)"
| "run_expired exec ((_, p) # es) q =
     bindR (deref q p) (\<lambda>t.
       bindR (run_expired exec es (exec (tmr_callback t) q)) (\<lambda>(cbs, q').
         Inr (tmr_callback t # cbs, q')))"

definition rearm :: "timestamp \<Rightarrow> 'c timer_queue \<Rightarrow> 'c timer_queue res" where
  "rearm now q =
     (case tq_timers q of
        [] \<Rightarrow> Inr q
      | (_, p) # _ \<Rightarrow> bindR (deref q p) (\<lambda>t. Inr (resetTimerfd now (tmr_expiration t) q)))"

text \<open>The body of the loop of \<open>reset\<close> up to the re-arming: restart and re-insert, or free.\<close>

definition reset_entry ::
  "(seconds \<Rightarrow> int) \<Rightarrow> timestamp \<Rightarrow> nat \<Rightarrow> 'c timer \<Rightarrow> 'c timer_queue \<Rightarrow> 'c timer_queue res"
where
  "reset_entry usec now p t q =
     (if tmr_repeat t
      then bindR (TimerQueue_insert p (q\<lparr>tq_heap := (tq_heap q)(p \<mapsto> Timer_restart usec now t)\<rparr>))
             (\<lambda>(_, q1). Inr q1)
      else Inr (q\<lparr>tq_heap := (tq_heap q)(p := None)\<rparr>))"

text \<open>\<open>reset\<close>: \<open>clock\<close> gives the readings of \<open>Timestamp::now()\<close>, two per round.\<close>

fun TimerQueue_reset ::
  "(seconds \<Rightarrow> int) \<Rightarrow> (nat \<Rightarrow> timestamp) \<Rightarrow> nat \<Rightarrow> entry list \<Rightarrow> 'c timer_queue \<Rightarrow> 'c timer_queue res"
where
  "TimerQueue_reset usec clock i [] q = Inr q"
| "TimerQueue_reset usec clock i ((_, p) # es) q =
     bindR (deref q p) (\<lambda>t.
       bindR (reset_entry usec (clock (2 * i)) p t q) (\<lambda>q1.
         bindR (rearm (clock (2 * i + 1)) q1) (TimerQueue_reset usec clock (Suc i) es)))"

definition TimerQueue_handleRead ::
  "(seconds \<Rightarrow> int) \<Rightarrow> (nat \<Rightarrow> timestamp) \<Rightarrow> ('c \<Rightarrow> 'c timer_queue \<Rightarrow> 'c timer_queue) \<Rightarrow> timestamp
    \<Rightarrow> 'c timer_queue \<Rightarrow> ('c list \<times> 'c timer_queue) res"
where
  "TimerQueue_handleRead usec clock exec now q =
     (let q1 = ReadTimerFd q;
          (expired, q2) = getExpired now q1;
          q3 = q2\<lparr>tq_callingExpiredTimers := True\<rparr>
      in bindR (run_expired exec expired q3) (\<lambda>(cbs, q4).
           bindR (TimerQueue_reset usec clock 0 expired (q4\<lparr>tq_callingExpiredTimers := False\<rparr>)) (\<lambda>q5.
             Inr (cbs, q5))))"

text \<open>The destructor frees every timer still queued.\<close>

definition TimerQueue_destroy :: "'c timer_queue \<Rightarrow> 'c timer_queue" where
  "TimerQueue_destroy q =
     q\<lparr>tq_heap := (\<lambda>p. if p \<in> snd ` set (tq_timers q) then None else tq_heap q p), tq_armed := None\<rparr>"

section \<open>The ordered set\<close>

lemma set_set_insert: "set (set_insert e xs) = insert e (set xs)"
  by (induction xs) auto

lemma sorted_set_insert: "sorted_wrt (<) xs \<Longrightarrow> sorted_wrt (<) (set_insert e xs)"
  by (induction xs) (auto simp: set_set_insert intro: less_trans)

lemma hd_set_insert:
  "sorted_wrt (<) xs \<Longrightarrow> hd (set_insert e xs) = (if xs = [] then e else min e (hd xs))"
  by (cases xs) (auto simp: min_def)

lemma sorted_takeWhile_eq_filter:
  fixes e :: "'a::linorder"
  shows "sorted_wrt (<) xs \<Longrightarrow> takeWhile (\<lambda>x. x < e) xs = filter (\<lambda>x. x < e) xs
     \<and> dropWhile (\<lambda>x. x < e) xs = filter (\<lambda>x. \<not> x < e) xs"
proof (induction xs)
  case Nil
  then show ?case by simp
next
  case (Cons x xs)
  then have "\<not> x < e \<Longrightarrow> \<forall>y \<in> set xs. \<not> y < e" by force
  with Cons show ?case by (auto simp: filter_empty_conv)
qed

section \<open>Invariant\<close>

text \<open>Every queued entry carries the expiration of a live timer; addresses are below the sentinel.
  \<open>armed_ok\<close>: while timers are queued, the descriptor is armed for the first of them.\<close>

definition tq_ok :: "'c timer_queue \<Rightarrow> bool" where
  "tq_ok q \<longleftrightarrow> sorted_wrt (<) (tq_timers q)
     \<and> (\<forall>e \<in> set (tq_timers q). \<exists>t. tq_heap q (snd e) = Some t \<and> tmr_expiration t = fst e)
     \<and> (\<forall>p t. tq_heap q p = Some t \<longrightarrow> p < UINTPTR_MAX)"

definition armed_ok :: "'c timer_queue \<Rightarrow> bool" where
  "armed_ok q \<longleftrightarrow> (tq_timers q \<noteq> [] \<longrightarrow> (\<exists>ts. tq_armed q = Some (fst (hd (tq_timers q)), ts)))"

lemma tq_ok_new: "tq_ok TimerQueue_new" "armed_ok TimerQueue_new"
  by (simp_all add: tq_ok_def armed_ok_def TimerQueue_new_def)

lemma tq_ok_unique:
  "tq_ok q \<Longrightarrow> e \<in> set (tq_timers q) \<Longrightarrow> e' \<in> set (tq_timers q) \<Longrightarrow> snd e = snd e' \<Longrightarrow> e = e'"
  by (metis option.inject prod.expand tq_ok_def)

lemma tq_ok_distinct:
  assumes "tq_ok q"
  shows "distinct (map snd (tq_timers q))"
proof -
  have "distinct (tq_timers q)"
    using assms by (simp add: tq_ok_def strict_sorted_iff)
  moreover have "inj_on snd (set (tq_timers q))"
    using assms by (auto intro!: inj_onI dest: tq_ok_unique)
  ultimately show ?thesis by (simp add: distinct_map)
qed

lemma entry_before_sentry: "p < UINTPTR_MAX \<Longrightarrow> (t :: timestamp, p) < (now, UINTPTR_MAX) \<longleftrightarrow> t \<le> now"
  by (auto simp: order_le_less)

lemma getExpired_filter:
  assumes "tq_ok q"
  shows "getExpired now q = (filter (\<lambda>e. fst e \<le> now) (tq_timers q),
     q\<lparr>tq_timers := filter (\<lambda>e. now < fst e) (tq_timers q)\<rparr>)"
proof -
  have "snd e < UINTPTR_MAX" if "e \<in> set (tq_timers q)" for e
    using assms that by (auto simp: tq_ok_def)
  then have "e < (now, UINTPTR_MAX) \<longleftrightarrow> fst e \<le> now" if "e \<in> set (tq_timers q)" for e
    using entry_before_sentry [of "snd e" "fst e" now] that by simp
  then have "filter (\<lambda>e. e < (now, UINTPTR_MAX)) (tq_timers q) = filter (\<lambda>e. fst e \<le> now) (tq_timers q)"
    "filter (\<lambda>e. \<not> e < (now, UINTPTR_MAX)) (tq_timers q) = filter (\<lambda>e. now < fst e) (tq_timers q)"
    by (auto intro!: filter_cong)
  then show ?thesis
    using assms sorted_takeWhile_eq_filter [of "tq_timers q" "(now, UINTPTR_MAX)"]
    by (simp add: getExpired_def tq_ok_def)
qed

section \<open>Adding timers\<close>

lemma TimerQueue_insert_ok:
  assumes ok: "tq_ok q" and t: "tq_heap q p = Some t"
  shows "\<exists>c. TimerQueue_insert p q
      = Inr (c, q\<lparr>tq_timers := set_insert (tmr_expiration t, p) (tq_timers q)\<rparr>)
    \<and> tq_ok (q\<lparr>tq_timers := set_insert (tmr_expiration t, p) (tq_timers q)\<rparr>)
    \<and> (c \<longleftrightarrow> tq_timers q = [] \<or> tmr_expiration t < fst (hd (tq_timers q)))"
proof -
  have "tq_ok (q\<lparr>tq_timers := set_insert (tmr_expiration t, p) (tq_timers q)\<rparr>)"
    using ok t by (auto simp: tq_ok_def set_set_insert sorted_set_insert)
  then show ?thesis
    using t by (auto simp: TimerQueue_insert_def deref_def Let_def split: list.splits)
qed

lemma tq_ok_heap_new:
  "tq_ok q \<Longrightarrow> tq_heap q p = None \<Longrightarrow> p < UINTPTR_MAX \<Longrightarrow> tq_ok (q\<lparr>tq_heap := (tq_heap q)(p \<mapsto> t)\<rparr>)"
  by (fastforce simp: tq_ok_def)

lemma addTimerInLoop_ok:
  assumes ok: "tq_ok q" and t: "tq_heap q p = Some t"
  shows "\<exists>q'. addTimerInLoop now p q = Inr q' \<and> tq_ok q' \<and> (armed_ok q \<longrightarrow> armed_ok q')
    \<and> set (tq_timers q') = insert (tmr_expiration t, p) (set (tq_timers q)) \<and> tq_heap q' = tq_heap q"
proof -
  let ?when = "tmr_expiration t"
  let ?ts = "set_insert (?when, p) (tq_timers q)"
  have sorted: "sorted_wrt (<) (tq_timers q)" using ok by (simp add: tq_ok_def)
  from TimerQueue_insert_ok [OF ok t] obtain c where
    c: "TimerQueue_insert p q = Inr (c, q\<lparr>tq_timers := ?ts\<rparr>)" "tq_ok (q\<lparr>tq_timers := ?ts\<rparr>)"
      "c \<longleftrightarrow> tq_timers q = [] \<or> ?when < fst (hd (tq_timers q))"
    by auto
  have hd: "fst (hd ?ts) = (if c then ?when else fst (hd (tq_timers q)))"
    using hd_set_insert [OF sorted, of "(?when, p)"] c(3)
    by (cases "hd (tq_timers q)") (auto simp: min_def)
  have frame: "tq_ok (q\<lparr>tq_armed := a\<rparr>) = tq_ok q" for a and q :: "'c timer_queue" by (simp add: tq_ok_def)
  show ?thesis
  proof (cases c)
    case True
    then have "addTimerInLoop now p q = Inr (resetTimerfd now ?when (q\<lparr>tq_timers := ?ts\<rparr>))"
      using c(1) t by (simp add: addTimerInLoop_def deref_def)
    then show ?thesis
      using c(2) hd True frame by (auto simp: resetTimerfd_def armed_ok_def Let_def set_set_insert)
  next
    case False
    then have "addTimerInLoop now p q = Inr (q\<lparr>tq_timers := ?ts\<rparr>)"
      using c(1) by (simp add: addTimerInLoop_def)
    then show ?thesis
      using c hd False by (auto simp: armed_ok_def set_set_insert)
  qed
qed

lemma addTimer_ok:
  assumes "tq_ok q" and "tq_heap q p = None" and "p < UINTPTR_MAX"
  shows "\<exists>q'. addTimer now p cb when interval q = Inr q' \<and> tq_ok q' \<and> (armed_ok q \<longrightarrow> armed_ok q')
    \<and> set (tq_timers q') = insert (when, p) (set (tq_timers q))
    \<and> tq_heap q' = (tq_heap q)(p \<mapsto> Timer_new cb when interval)"
proof -
  let ?q1 = "q\<lparr>tq_heap := (tq_heap q)(p \<mapsto> Timer_new cb when interval)\<rparr>"
  have "tq_ok ?q1" using assms by (rule tq_ok_heap_new)
  moreover have "armed_ok ?q1 = armed_ok q" by (simp add: armed_ok_def)
  ultimately show ?thesis
    using addTimerInLoop_ok [of ?q1 p "Timer_new cb when interval" now] by (simp add: addTimer_def Timer_new_def)
qed

section \<open>Expiry\<close>

text \<open>What a user callback can do to the queue: add timers. It has no means to free or change one.\<close>

definition only_adds :: "('c \<Rightarrow> 'c timer_queue \<Rightarrow> 'c timer_queue) \<Rightarrow> bool" where
  "only_adds exec \<longleftrightarrow> (\<forall>cb q. tq_ok q \<longrightarrow> tq_ok (exec cb q)
     \<and> tq_heap q \<subseteq>\<^sub>m tq_heap (exec cb q)
     \<and> set (tq_timers q) \<subseteq> set (tq_timers (exec cb q))
     \<and> (\<forall>e \<in> set (tq_timers (exec cb q)). e \<in> set (tq_timers q) \<or> tq_heap q (snd e) = None))"

lemma run_expired_ok:
  "\<lbrakk>only_adds exec; tq_ok q; \<forall>e \<in> set es. tq_heap q (snd e) \<noteq> None\<rbrakk> \<Longrightarrow>
   \<exists>q'. run_expired exec es q = Inr (map (\<lambda>e. tmr_callback (the (tq_heap q (snd e)))) es, q')
     \<and> tq_ok q' \<and> tq_heap q \<subseteq>\<^sub>m tq_heap q' \<and> set (tq_timers q) \<subseteq> set (tq_timers q')
     \<and> (\<forall>e \<in> set (tq_timers q'). e \<in> set (tq_timers q) \<or> tq_heap q (snd e) = None)"
proof (induction es arbitrary: q)
  case Nil
  then show ?case by simp
next
  case (Cons e es)
  from Cons.prems(3) obtain t where t: "tq_heap q (snd e) = Some t" by auto
  let ?q1 = "exec (tmr_callback t) q"
  from Cons.prems(1,2) have q1: "tq_ok ?q1" "tq_heap q \<subseteq>\<^sub>m tq_heap ?q1"
      "set (tq_timers q) \<subseteq> set (tq_timers ?q1)"
      "\<forall>e \<in> set (tq_timers ?q1). e \<in> set (tq_timers q) \<or> tq_heap q (snd e) = None"
    by (auto simp: only_adds_def)
  have same: "tq_heap ?q1 (snd x) = tq_heap q (snd x)" if "x \<in> set es" for x
    using q1(2) Cons.prems(3) that by (auto simp: map_le_def dom_def)
  then have "\<forall>x \<in> set es. tq_heap ?q1 (snd x) \<noteq> None" using Cons.prems(3) by auto
  from Cons.IH [OF Cons.prems(1) q1(1) this] obtain q' where
    q': "run_expired exec es ?q1 = Inr (map (\<lambda>e. tmr_callback (the (tq_heap ?q1 (snd e)))) es, q')"
      "tq_ok q'" "tq_heap ?q1 \<subseteq>\<^sub>m tq_heap q'" "set (tq_timers ?q1) \<subseteq> set (tq_timers q')"
      "\<forall>e \<in> set (tq_timers q'). e \<in> set (tq_timers ?q1) \<or> tq_heap ?q1 (snd e) = None" by blast
  have "map (\<lambda>e. tmr_callback (the (tq_heap ?q1 (snd e)))) es
      = map (\<lambda>e. tmr_callback (the (tq_heap q (snd e)))) es"
    using same by simp
  moreover have "tq_heap q \<subseteq>\<^sub>m tq_heap q'" using q1(2) q'(3) by (rule map_le_trans)
  moreover have "tq_heap ?q1 p = None \<Longrightarrow> tq_heap q p = None" for p
    using q1(2) by (metis domIff map_le_def)
  then have "\<forall>e \<in> set (tq_timers q'). e \<in> set (tq_timers q) \<or> tq_heap q (snd e) = None"
    using q'(5) q1(4) by fastforce
  ultimately show ?case
    using t q'(1,2,4) q1(3) by (cases e) (auto simp: deref_def)
qed

lemma rearm_ok:
  assumes "tq_ok q"
  shows "\<exists>q'. rearm now q = Inr q' \<and> tq_ok q' \<and> armed_ok q'
    \<and> tq_timers q' = tq_timers q \<and> tq_heap q' = tq_heap q"
proof (cases "tq_timers q")
  case Nil
  then show ?thesis using assms by (simp add: rearm_def armed_ok_def)
next
  case (Cons e es)
  with assms obtain t where "tq_heap q (snd e) = Some t" "tmr_expiration t = fst e"
    by (auto simp: tq_ok_def)
  then show ?thesis
    using assms Cons
    by (cases e) (auto simp: rearm_def deref_def resetTimerfd_def armed_ok_def tq_ok_def Let_def)
qed

lemma tq_ok_heap_upd:
  assumes "tq_ok q" "p \<notin> snd ` set (tq_timers q)" "p < UINTPTR_MAX"
  shows "tq_ok (q\<lparr>tq_heap := (tq_heap q)(p := x)\<rparr>)"
  using assms by (fastforce simp: tq_ok_def)

lemma reset_round:
  assumes ok: "tq_ok q" and t: "tq_heap q p = Some t" and p: "p \<notin> snd ` set (tq_timers q)"
  shows "\<exists>q1. reset_entry usec now p t q = Inr q1 \<and> tq_ok q1
    \<and> set (tq_timers q) \<subseteq> set (tq_timers q1)
    \<and> snd ` set (tq_timers q1) \<subseteq> insert p (snd ` set (tq_timers q))
    \<and> (\<forall>x. x \<noteq> p \<longrightarrow> tq_heap q1 x = tq_heap q x)
    \<and> (if tmr_repeat t then (addTime usec now (tmr_interval t), p) \<in> set (tq_timers q1)
       else tq_heap q1 p = None)"
proof -
  have lt: "p < UINTPTR_MAX" using ok t by (simp add: tq_ok_def)
  show ?thesis
  proof (cases "tmr_repeat t")
    case True
    let ?t = "Timer_restart usec now t"
    let ?q = "q\<lparr>tq_heap := (tq_heap q)(p \<mapsto> ?t)\<rparr>"
    have "tq_ok ?q" using ok p lt by (rule tq_ok_heap_upd)
    from TimerQueue_insert_ok [OF this, of p ?t] obtain c where
      c: "TimerQueue_insert p ?q = Inr (c, ?q\<lparr>tq_timers := set_insert (tmr_expiration ?t, p) (tq_timers q)\<rparr>)"
      "tq_ok (?q\<lparr>tq_timers := set_insert (tmr_expiration ?t, p) (tq_timers q)\<rparr>)" by auto
    have "reset_entry usec now p t q
        = Inr (?q\<lparr>tq_timers := set_insert (tmr_expiration ?t, p) (tq_timers q)\<rparr>)"
      using True c(1) by (simp add: reset_entry_def)
    with True c(2) show ?thesis
      by (intro exI conjI) (assumption | auto simp: set_set_insert Timer_restart_def)+
  next
    case False
    then have "reset_entry usec now p t q = Inr (q\<lparr>tq_heap := (tq_heap q)(p := None)\<rparr>)"
      by (simp add: reset_entry_def)
    with False tq_ok_heap_upd [OF ok p lt] show ?thesis by auto
  qed
qed

text \<open>What becomes of an expired timer \<open>p\<close>: a repeating one is queued again, another one is deleted.\<close>

definition settled :: "(seconds \<Rightarrow> int) \<Rightarrow> (nat \<Rightarrow> timestamp) \<Rightarrow> 'cb timer_queue \<Rightarrow> 'cb timer_queue \<Rightarrow> nat \<Rightarrow> bool" where
  "settled usec clock q q' p \<longleftrightarrow> (let t = the (tq_heap q p) in
     if tmr_repeat t then \<exists>j. (addTime usec (clock j) (tmr_interval t), p) \<in> set (tq_timers q') else tq_heap q' p = None)"

lemma settled_later:
  "settled usec clock q q1 p \<Longrightarrow> set (tq_timers q1) \<subseteq> set (tq_timers q') \<Longrightarrow> tq_heap q' p = tq_heap q1 p \<Longrightarrow> settled usec clock q q' p"
  unfolding settled_def Let_def by (cases "tmr_repeat (the (tq_heap q p))") (simp, blast, simp)

lemma reset_first:
  assumes ok: "tq_ok q" and t: "tq_heap q p = Some t" and p: "p \<notin> snd ` set (tq_timers q)"
  shows "\<exists>q1 q2. reset_entry usec (clock (2 * i)) p t q = Inr q1 \<and> rearm (clock (2 * i + 1)) q1 = Inr q2 \<and> tq_ok q2 \<and> armed_ok q2
    \<and> set (tq_timers q) \<subseteq> set (tq_timers q2) \<and> snd ` set (tq_timers q2) \<subseteq> insert p (snd ` set (tq_timers q))
    \<and> (\<forall>x. x \<noteq> p \<longrightarrow> tq_heap q2 x = tq_heap q x) \<and> settled usec clock q q2 p"
proof -
  from reset_round [OF ok t p, of usec "clock (2 * i)"] obtain q1 where
    q1: "reset_entry usec (clock (2 * i)) p t q = Inr q1" "tq_ok q1" "set (tq_timers q) \<subseteq> set (tq_timers q1)"
      "snd ` set (tq_timers q1) \<subseteq> insert p (snd ` set (tq_timers q))" "\<forall>x. x \<noteq> p \<longrightarrow> tq_heap q1 x = tq_heap q x"
      "if tmr_repeat t then (addTime usec (clock (2 * i)) (tmr_interval t), p) \<in> set (tq_timers q1) else tq_heap q1 p = None" by blast
  from rearm_ok [OF q1(2)] obtain q2 where q2: "rearm (clock (2 * i + 1)) q1 = Inr q2" "tq_ok q2"
      "armed_ok q2" "tq_timers q2 = tq_timers q1" "tq_heap q2 = tq_heap q1" by blast
  have "settled usec clock q q2 p" using q1(6) q2(4,5) t by (auto simp: settled_def split: if_splits)
  then show ?thesis using q1 q2 by auto
qed

lemma TimerQueue_reset_ok:
  "\<lbrakk>tq_ok q; distinct (map snd es); \<forall>e \<in> set es. tq_heap q (snd e) \<noteq> None;
    \<forall>e \<in> set es. snd e \<notin> snd ` set (tq_timers q)\<rbrakk> \<Longrightarrow>
   \<exists>q'. TimerQueue_reset usec clock i es q = Inr q' \<and> tq_ok q' \<and> (es \<noteq> [] \<longrightarrow> armed_ok q')
     \<and> set (tq_timers q) \<subseteq> set (tq_timers q') \<and> (\<forall>p. p \<notin> snd ` set es \<longrightarrow> tq_heap q' p = tq_heap q p)
     \<and> (\<forall>e \<in> set es. settled usec clock q q' (snd e))"
proof (induction es arbitrary: q i)
  case Nil
  then show ?case by simp
next
  case (Cons e es)
  let ?p = "snd e"
  from Cons.prems(3) obtain t where t: "tq_heap q ?p = Some t" by auto
  have p: "?p \<notin> snd ` set es" "?p \<notin> snd ` set (tq_timers q)" using Cons.prems t by auto
  from reset_first [OF Cons.prems(1) t p(2), of usec clock i] obtain q1 q2 where
    q2: "reset_entry usec (clock (2 * i)) ?p t q = Inr q1" "rearm (clock (2 * i + 1)) q1 = Inr q2" "tq_ok q2" "armed_ok q2"
      "set (tq_timers q) \<subseteq> set (tq_timers q2)" "snd ` set (tq_timers q2) \<subseteq> insert ?p (snd ` set (tq_timers q))"
      "\<forall>x. x \<noteq> ?p \<longrightarrow> tq_heap q2 x = tq_heap q x" "settled usec clock q q2 ?p" by blast
  have ne: "snd x \<noteq> ?p" if "x \<in> set es" for x using p(1) that by (metis imageI)
  then have same: "tq_heap q2 (snd x) = tq_heap q (snd x)" if "x \<in> set es" for x using q2(7) that by blast
  have "distinct (map snd es)" "\<forall>x \<in> set es. tq_heap q2 (snd x) \<noteq> None" using Cons.prems(2,3) same by auto
  moreover have "snd x \<notin> snd ` set (tq_timers q2)" if "x \<in> set es" for x
    using Cons.prems(4) ne [OF that] q2(6) that by (meson insertE list.set_intros(2) subsetD)
  ultimately obtain q' where q': "TimerQueue_reset usec clock (Suc i) es q2 = Inr q'" "tq_ok q'"
      "es \<noteq> [] \<longrightarrow> armed_ok q'" "set (tq_timers q2) \<subseteq> set (tq_timers q')"
      "\<forall>p. p \<notin> snd ` set es \<longrightarrow> tq_heap q' p = tq_heap q2 p" "\<forall>e \<in> set es. settled usec clock q2 q' (snd e)"
    using Cons.IH [OF q2(3)] by blast
  have "TimerQueue_reset usec clock i (e # es) q = Inr q'"
    using t q2(1,2) q'(1) by (cases e) (simp add: deref_def)
  moreover have "armed_ok q'" using q' q2(4) by (cases es) auto
  moreover have "set (tq_timers q) \<subseteq> set (tq_timers q')" using q2(5) q'(4) by auto
  moreover have "\<forall>x. x \<notin> snd ` set (e # es) \<longrightarrow> tq_heap q' x = tq_heap q x" using q'(5) q2(7) by auto
  moreover have "settled usec clock q q' ?p" by (rule settled_later [OF q2(8) q'(4)]) (use q'(5) p(1) in blast)
  moreover have "\<forall>x \<in> set es. settled usec clock q q' (snd x)" using q'(6) same by (simp add: settled_def)
  ultimately show ?case using q'(2) by auto
qed

lemma tq_ok_filter: "tq_ok q \<Longrightarrow> tq_ok (q\<lparr>tq_timers := filter P (tq_timers q)\<rparr>)"
  by (simp add: tq_ok_def sorted_wrt_filter)

lemma tq_ok_flags [simp]:
  "tq_ok (q\<lparr>tq_armed := a\<rparr>) = tq_ok q" "tq_ok (q\<lparr>tq_callingExpiredTimers := b\<rparr>) = tq_ok q"
  by (simp_all add: tq_ok_def)

lemma timer_handleRead_ok:
  fixes now :: timestamp
  assumes ok: "tq_ok q" and adds: "only_adds exec"
  defines "expired \<equiv> filter (\<lambda>e. fst e \<le> now) (tq_timers q)"
  shows "\<exists>q'. TimerQueue_handleRead usec clock exec now q
      = Inr (map (\<lambda>e. tmr_callback (the (tq_heap q (snd e)))) expired, q')
    \<and> tq_ok q' \<and> (expired \<noteq> [] \<longrightarrow> armed_ok q')
    \<and> set (filter (\<lambda>e. now < fst e) (tq_timers q)) \<subseteq> set (tq_timers q')
    \<and> (\<forall>e \<in> set expired. let t = the (tq_heap q (snd e)) in
          if tmr_repeat t then \<exists>j. (addTime usec (clock j) (tmr_interval t), snd e) \<in> set (tq_timers q')
          else tq_heap q' (snd e) = None)"
proof -
  let ?late = "filter (\<lambda>e. now < fst e) (tq_timers q)"
  define q3 where "q3 = q\<lparr>tq_armed := None, tq_timers := ?late, tq_callingExpiredTimers := True\<rparr>"
  have ok3: "tq_ok q3"
    using tq_ok_filter [OF ok, of "\<lambda>e. now < fst e"] by (simp add: q3_def tq_ok_def)
  have live: "\<forall>e \<in> set expired. tq_heap q3 (snd e) \<noteq> None"
    using ok by (auto simp: q3_def expired_def tq_ok_def)
  from run_expired_ok [OF adds ok3 live] obtain q4 where
    q4: "run_expired exec expired q3 = Inr (map (\<lambda>e. tmr_callback (the (tq_heap q3 (snd e)))) expired, q4)"
      "tq_ok q4" "tq_heap q3 \<subseteq>\<^sub>m tq_heap q4" "set (tq_timers q3) \<subseteq> set (tq_timers q4)"
      "\<forall>e \<in> set (tq_timers q4). e \<in> set (tq_timers q3) \<or> tq_heap q3 (snd e) = None" by blast
  define q5 where "q5 = q4\<lparr>tq_callingExpiredTimers := False\<rparr>"
  have same: "tq_heap q5 (snd e) = tq_heap q (snd e)" if "e \<in> set expired" for e
    using q4(3) live that by (auto simp: q5_def q3_def map_le_def dom_def)
  have dist: "distinct (map snd expired)"
    using tq_ok_distinct [OF ok] by (simp add: expired_def distinct_map_filter)
  have sep: "\<forall>e \<in> set expired. snd e \<notin> snd ` set (tq_timers q5)"
  proof (rule ballI, rule notI)
    fix e assume e: "e \<in> set expired" and "snd e \<in> snd ` set (tq_timers q5)"
    then obtain x where x: "x \<in> set (tq_timers q4)" "snd x = snd e" by (auto simp: q5_def)
    with q4(5) live e have "x \<in> set (tq_timers q3)" by (metis (full_types))
    with e x(2) tq_ok_unique [OF ok, of e x] show False by (auto simp: q3_def expired_def)
  qed
  have "tq_ok q5" "\<forall>e \<in> set expired. tq_heap q5 (snd e) \<noteq> None"
    using q4(2) same live by (auto simp: q5_def q3_def)
  from TimerQueue_reset_ok [OF this(1) dist this(2) sep, of usec clock 0] obtain q' where
    q': "TimerQueue_reset usec clock 0 expired q5 = Inr q'" "tq_ok q'" "expired \<noteq> [] \<longrightarrow> armed_ok q'"
      "set (tq_timers q5) \<subseteq> set (tq_timers q')"
      "\<forall>e \<in> set expired. settled usec clock q5 q' (snd e)" by blast
  have "getExpired now (ReadTimerFd q) = (expired, q\<lparr>tq_armed := None, tq_timers := ?late\<rparr>)"
    using getExpired_filter [of "ReadTimerFd q" now] ok by (simp add: ReadTimerFd_def expired_def)
  then have "TimerQueue_handleRead usec clock exec now q
      = Inr (map (\<lambda>e. tmr_callback (the (tq_heap q (snd e)))) expired, q')"
    using q4(1) q'(1) by (simp add: TimerQueue_handleRead_def q3_def q5_def)
  moreover have "set ?late \<subseteq> set (tq_timers q')"
    using q'(4) q4(4) by (auto simp: q5_def q3_def)
  ultimately show ?thesis using q' same by (auto simp: settled_def)
qed

text \<open>Timers that are in no queue, and timers that the callbacks add.\<close>

lemma rearm_frame: "rearm now q = Inr q' \<Longrightarrow> tq_timers q' = tq_timers q \<and> tq_heap q' = tq_heap q"
  by (auto simp: rearm_def resetTimerfd_def bindR_Inr_iff Let_def split: list.splits)

lemma reset_entry_frame:
  assumes "reset_entry usec now p t q = Inr q'"
  shows "(\<forall>x. x \<noteq> p \<longrightarrow> tq_heap q' x = tq_heap q x) \<and> snd ` set (tq_timers q') \<subseteq> insert p (snd ` set (tq_timers q))
    \<and> set (tq_timers q) \<subseteq> set (tq_timers q') \<and> (tq_heap q' p \<noteq> None \<longrightarrow> p \<in> snd ` set (tq_timers q'))"
  using assms
  by (auto simp: reset_entry_def TimerQueue_insert_def deref_def bindR_Inr_iff Let_def set_set_insert split: if_splits)

lemma reset_frame:
  "TimerQueue_reset usec clock i es q = Inr q' \<Longrightarrow> distinct (map snd es) \<Longrightarrow>
   (\<forall>x. x \<notin> snd ` set es \<longrightarrow> tq_heap q' x = tq_heap q x)
   \<and> snd ` set (tq_timers q') \<subseteq> snd ` set (tq_timers q) \<union> snd ` set es \<and> set (tq_timers q) \<subseteq> set (tq_timers q')
   \<and> (\<forall>x \<in> snd ` set es. tq_heap q' x \<noteq> None \<longrightarrow> x \<in> snd ` set (tq_timers q'))"
proof (induction es arbitrary: q i)
  case Nil
  then show ?case by simp
next
  case (Cons e es)
  obtain w p where e: "e = (w, p)" by (cases e)
  from Cons.prems(1) obtain t q1 q2 where q: "reset_entry usec (clock (2 * i)) p t q = Inr q1"
    "rearm (clock (2 * i + 1)) q1 = Inr q2" "TimerQueue_reset usec clock (Suc i) es q2 = Inr q'"
    by (auto simp: e bindR_Inr_iff)
  have p: "p \<notin> snd ` set es" and d: "distinct (map snd es)" using Cons.prems(2) by (auto simp: e)
  note one = reset_entry_frame [OF q(1)] and same = rearm_frame [OF q(2)] and rest = Cons.IH [OF q(3) d]
  have heap_p: "tq_heap q' p = tq_heap q1 p" using rest same p by simp
  show ?case
  proof (intro conjI allI ballI impI)
    show "tq_heap q' x = tq_heap q x" if "x \<notin> snd ` set (e # es)" for x using that one same rest by (simp add: e)
    show "snd ` set (tq_timers q') \<subseteq> snd ` set (tq_timers q) \<union> snd ` set (e # es)"
    proof -
      have "snd ` set (tq_timers q') \<subseteq> snd ` set (tq_timers q1) \<union> snd ` set es" using rest same by simp
      moreover have "snd ` set (tq_timers q1) \<subseteq> insert p (snd ` set (tq_timers q))" using one by blast
      ultimately show ?thesis unfolding e list.set image_insert snd_conv by blast
    qed
    show "set (tq_timers q) \<subseteq> set (tq_timers q')" using one same rest by auto
    fix x assume "x \<in> snd ` set (e # es)" "tq_heap q' x \<noteq> None"
    then show "x \<in> snd ` set (tq_timers q')"
      using one same rest heap_p by (cases "x = p") (auto simp: e)
  qed
qed

section \<open>Properties\<close>

text \<open>\<open>getExpired\<close> removes from the queue exactly the timers whose expiration has been
  reached, in expiration order, and leaves exactly the others.\<close>

lemma getExpired_exact:
  assumes "tq_ok q"
  shows "\<exists>q'. getExpired now q = (filter (\<lambda>e. fst e \<le> now) (tq_timers q), q')
    \<and> tq_timers q' = filter (\<lambda>e. now < fst e) (tq_timers q) \<and> tq_ok q'"
  using getExpired_filter [OF assms, of now] tq_ok_filter [OF assms] by simp

definition sample_queue :: "nat timer_queue" where
  "sample_queue = \<lparr>tq_timers = [(5, 100), (9, 101)],
     tq_heap = [100 \<mapsto> Timer_new 1 5 2, 101 \<mapsto> Timer_new 2 9 0],
     tq_armed = Some (5, (0, 100000)), tq_callingExpiredTimers = False\<rparr>"

lemma sample_queue_ok: "tq_ok sample_queue" "armed_ok sample_queue"
  by (simp_all add: tq_ok_def armed_ok_def sample_queue_def Timer_new_def UINTPTR_MAX_def)

text \<open>Adding a timer in the loop's thread succeeds, inserts it in order, keeps every other
  timer, and leaves the descriptor armed for the earliest expiration.\<close>

lemma addTimer_correct:
  assumes "tq_ok q" and "armed_ok q" and "tq_heap q p = None" and "p < UINTPTR_MAX"
  shows "\<exists>q'. addTimer now p cb when interval q = Inr q' \<and> tq_ok q' \<and> armed_ok q'
    \<and> set (tq_timers q') = insert (when, p) (set (tq_timers q))"
  using addTimer_ok [OF assms(1,3,4)] assms(2) by blast

text \<open>Claim C24. When the descriptor fires, every expired timer's callback runs exactly once, in
  expiration order; a repeating timer is queued again one interval after a clock reading, a
  one-shot timer is freed; timers not yet due stay; no freed timer is used; and if anything
  expired the descriptor is armed again for the earliest timer.\<close>

theorem handleRead_correct:
  assumes "tq_ok q" and "only_adds exec"
  shows "\<exists>q'. TimerQueue_handleRead usec clock exec now q
      = Inr (map (\<lambda>e. tmr_callback (the (tq_heap q (snd e)))) (filter (\<lambda>e. fst e \<le> now) (tq_timers q)), q')
    \<and> tq_ok q' \<and> (filter (\<lambda>e. fst e \<le> now) (tq_timers q) \<noteq> [] \<longrightarrow> armed_ok q')
    \<and> set (filter (\<lambda>e. now < fst e) (tq_timers q)) \<subseteq> set (tq_timers q')
    \<and> (\<forall>e \<in> set (filter (\<lambda>e. fst e \<le> now) (tq_timers q)). let t = the (tq_heap q (snd e)) in
          if tmr_repeat t then \<exists>j. (addTime usec (clock j) (tmr_interval t), snd e) \<in> set (tq_timers q')
          else tq_heap q' (snd e) = None)"
  using timer_handleRead_ok [OF assms] by simp

theorem handleRead_correct_witness:
  "\<exists>q'. TimerQueue_handleRead (\<lambda>s. 2000000) (\<lambda>n. 6) (\<lambda>cb q. q) 9 sample_queue = Inr ([1, 2], q')
    \<and> tq_ok q' \<and> armed_ok q' \<and> (2000006, 100) \<in> set (tq_timers q') \<and> tq_heap q' 101 = None"
  using handleRead_correct
    [OF sample_queue_ok(1), of "\<lambda>cb q. q" "\<lambda>s. 2000000" "\<lambda>n. 6" 9]
  by (simp add: only_adds_def sample_queue_def Timer_new_def addTime_def Let_def)

text \<open>If the descriptor fires while the wall clock has not reached the first expiration
  (the two clocks differ), \<open>handleRead\<close> runs nothing and does not re-arm it: the queued timers are
  left with a disarmed descriptor.\<close>

lemma early_fire_disarms:
  assumes "tq_ok q" and "\<forall>e \<in> set (tq_timers q). now < fst e"
  shows "\<exists>q'. TimerQueue_handleRead usec clock exec now q = Inr ([], q')
    \<and> tq_timers q' = tq_timers q \<and> tq_armed q' = None"
proof -
  have "filter (\<lambda>e. fst e \<le> now) (tq_timers q) = []" "filter (\<lambda>e. now < fst e) (tq_timers q) = tq_timers q"
    using assms(2) by (auto simp: filter_empty_conv filter_id_conv)
  then show ?thesis
    using getExpired_filter [of "ReadTimerFd q" now] assms(1)
    by (simp add: TimerQueue_handleRead_def ReadTimerFd_def)
qed

text \<open>The \<open>timespec\<close> given to \<open>timerfd_settime\<close> is valid (nanoseconds within a second) and never zero.\<close>

definition timespec_ok :: "timespec \<Rightarrow> bool" where
  "timespec_ok ts \<longleftrightarrow> 0 \<le> fst ts \<and> 0 \<le> snd ts \<and> snd ts < 10 ^ 9 \<and> snd ts mod 1000 = 0 \<and> ts \<noteq> (0, 0)"

definition timespec_usec :: "timespec \<Rightarrow> int" where
  "timespec_usec ts = fst ts * kMicroSecondsPerSecond + snd ts div 1000"

lemma resetTimerfd_timespec:
  "\<exists>ts. resetTimerfd now expiration q = q\<lparr>tq_armed := Some (expiration, ts)\<rparr> \<and> timespec_ok ts
    \<and> timespec_usec ts = max 100 (int64 (expiration - now))"
proof -
  define d where "d = timer_delay now expiration"
  have d: "d = max 100 (int64 (expiration - now))" "0 < d"
    by (auto simp: d_def timer_delay_def Let_def max_def)
  have sd: "d sdiv kMicroSecondsPerSecond = d div kMicroSecondsPerSecond"
    "d smod kMicroSecondsPerSecond = d mod kMicroSecondsPerSecond"
    using d(2) by (simp_all add: signed_divide_int_def signed_modulo_int_def kMicroSecondsPerSecond_def
        minus_div_mult_eq_mod)
  let ?ts = "(d div kMicroSecondsPerSecond, d mod kMicroSecondsPerSecond * 1000)"
  have "resetTimerfd now expiration q = q\<lparr>tq_armed := Some (expiration, ?ts)\<rparr>"
    using sd by (simp add: resetTimerfd_def d_def [symmetric] Let_def)
  moreover have usec: "timespec_usec ?ts = d" by (simp add: timespec_usec_def kMicroSecondsPerSecond_def)
  moreover have "timespec_ok ?ts"
  proof -
    have "0 \<le> d div 1000000" using d(2) by (simp add: pos_imp_zdiv_nonneg_iff)
    moreover have "?ts \<noteq> (0, 0)"
    proof
      assume "?ts = (0, 0)"
      with usec have "timespec_usec (0, 0) = d" by metis
      then show False using d(2) by (simp add: timespec_usec_def)
    qed
    ultimately show ?thesis by (auto simp: timespec_ok_def kMicroSecondsPerSecond_def)
  qed
  ultimately show ?thesis using d(1) by blast
qed

text \<open>Claim C38. \<open>runAfter\<close> in the loop's thread, on clock readings and a delay that keep the sum and the difference
  inside \<open>int64_t\<close>: the timer is queued at the reading of the clock plus the delay; when it is now the first
  to expire, the descriptor is armed for it with a valid, nonzero \<open>timespec\<close> that denotes the time to the
  expiration at the second reading of the clock, in microseconds, but at least 100; when it is not, the descriptor
  stays armed as it was.\<close>

theorem runAfter_arms:
  assumes "tq_ok q" and "tq_heap q p = None" and "p < UINTPTR_MAX"
    and "- (2 ^ 63) \<le> now + usec waitTime" and "now + usec waitTime < 2 ^ 63"
    and "- (2 ^ 63) \<le> now + usec waitTime - now'" and "now + usec waitTime - now' < 2 ^ 63"
  shows "\<exists>q'. runAfter usec now now' p waitTime cb q = Inr q' \<and> tq_ok q'
    \<and> set (tq_timers q') = insert (now + usec waitTime, p) (set (tq_timers q))
    \<and> tq_heap q' = (tq_heap q)(p \<mapsto> Timer_new cb (now + usec waitTime) 0)
    \<and> (if tq_timers q = [] \<or> now + usec waitTime < fst (hd (tq_timers q))
       then \<exists>ts. tq_armed q' = Some (now + usec waitTime, ts) \<and> timespec_ok ts
              \<and> timespec_usec ts = max 100 (now + usec waitTime - now')
       else tq_armed q' = tq_armed q)"
proof -
  let ?w = "now + usec waitTime"
  let ?t = "Timer_new cb ?w 0" and ?q = "q\<lparr>tq_heap := (tq_heap q)(p \<mapsto> Timer_new cb ?w 0)\<rparr>"
  have w: "tmr_expiration ?t = ?w" by (simp add: Timer_new_def)
  have run: "runAfter usec now now' p waitTime cb q = addTimerInLoop now' p ?q"
    using assms(4,5) by (simp add: runAfter_def runAt_def addTimer_def addTime_def)
  have ok: "tq_ok ?q" using assms(1-3) by (rule tq_ok_heap_new)
  let ?q1 = "?q\<lparr>tq_timers := set_insert (?w, p) (tq_timers q)\<rparr>"
  obtain c where ins: "TimerQueue_insert p ?q = Inr (c, ?q1)" and ok1: "tq_ok ?q1"
    and c: "c \<longleftrightarrow> tq_timers q = [] \<or> ?w < fst (hd (tq_timers q))"
    using TimerQueue_insert_ok [OF ok, of p ?t] w by auto
  show ?thesis
  proof (cases c)
    case True
    have "addTimerInLoop now' p ?q = Inr (resetTimerfd now' ?w ?q1)"
      using ins True w by (simp add: addTimerInLoop_def deref_def)
    moreover obtain ts where "resetTimerfd now' ?w ?q1 = ?q1\<lparr>tq_armed := Some (?w, ts)\<rparr>" "timespec_ok ts"
      "timespec_usec ts = max 100 (?w - now')"
      using resetTimerfd_timespec [of now' ?w ?q1] int64_exact [OF assms(6,7)] by auto
    ultimately show ?thesis using run ok1 True c by (cases ts) (auto simp: set_set_insert)
  next
    case False
    then have "addTimerInLoop now' p ?q = Inr ?q1" using ins by (simp add: addTimerInLoop_def)
    then show ?thesis using run ok1 False c by (auto simp: set_set_insert)
  qed
qed

theorem runAfter_arms_witness:
  "\<exists>q' ts. runAfter (\<lambda>s. 2500000) 1 4 102 (5 / 2) (3 :: nat) TimerQueue_new = Inr q' \<and> tq_armed q' = Some (2500001, ts)
    \<and> timespec_ok ts \<and> timespec_usec ts = 2499997"
  using runAfter_arms [of "TimerQueue_new :: nat timer_queue" 102 1 "\<lambda>s. 2500000" "5 / 2" 4 3] tq_ok_new(1)
  by (auto simp: TimerQueue_new_def UINTPTR_MAX_def)

text \<open>Outside that range the clamp does not help: an expiration at the lowest \<open>int64_t\<close>, long past, is
  armed for the far future.\<close>

lemma delay_overflows: "timer_delay 1 (- (2 ^ 63)) = 2 ^ 63 - 1"
  by (simp add: timer_delay_def int64_def)

end
