(* ===== verification/Reactor.thy ===== *)
theory Reactor
  imports EventLoop Poller TimerQueue
begin

text \<open>
  The event loop with its poller, its eventfd and its timer queue in one piece
  (\<open>src/src/net/EventLoop.cc\<close>, \<open>src/src/timer/TimerQueue.cc\<close>): construction and destruction with the
  registration of both descriptors, timers that any thread adds, the rounds of \<open>loop()\<close> from \<open>poll\<close> over the
  dispatch of active channels to the pending functors. The composition refines the threads of the
  event loop; timer objects are owned by the queue or by a functor on its way to it.
\<close>

section \<open>State and operations\<close>

text \<open>A functor of the loop is \<open>TimerQueue::addTimerInLoop\<close>, bound to a timer object, or a task of a user.
  \<open>re_active\<close> holds the active channels still to be dispatched, \<open>re_ran\<close> the timer callbacks run so far;
  \<open>re_early\<close> records that the timer channel was last dispatched before the first expiration.\<close>

datatype 'u task = AddTimerInLoop nat | UserTask 'u

record ('u, 'k) reactor =
  re_threads :: "'u task threads"
  re_timers :: "'u timer_queue"
  re_poller :: "'k poller"
  re_timerfdChannel :: nat
  re_wakeupChannel :: nat
  re_active :: "nat list"
  re_ran :: "'u list"
  re_early :: bool

text \<open>A channel object at \<open>p\<close> with a read callback, registered for reading; and its removal.\<close>

definition open_reading :: "'k epoll_ctl \<Rightarrow> nat \<Rightarrow> int \<Rightarrow> 'k poller \<Rightarrow> 'k poller res" where
  "open_reading ctl p fd pl =
     Channel_set_mode ctl EnableReading p
       (pl\<lparr>pl_heap := (pl_heap pl)(p := (Channel_new fd)\<lparr>ch_readCallback := True\<rparr>)\<rparr>)"

definition close_reading :: "'k epoll_ctl \<Rightarrow> nat \<Rightarrow> 'k poller \<Rightarrow> 'k poller res" where
  "close_reading ctl p pl = bindR (Channel_set_mode ctl DisableAll p pl) (EPollPoller_removeChannel ctl p)"

text \<open>The constructor: the poller, the timer queue with its channel, then the eventfd with its own.\<close>

definition EventLoop_create ::
  "'k epoll_ctl \<Rightarrow> bool \<Rightarrow> nat \<Rightarrow> nat \<Rightarrow> int \<Rightarrow> nat \<Rightarrow> int \<Rightarrow> bool \<Rightarrow> (nat \<Rightarrow> channel) \<Rightarrow> 'k \<Rightarrow> ('u, 'k) reactor res"
where
  "EventLoop_create ctl usePoll tid pt timerfd pw evfd loopInThisThread heap k =
     bindR (case newDefaultPoller usePoll heap k of
              None \<Rightarrow> Inl NullDeref
            | Some poller \<Rightarrow> open_reading ctl pt (createTimerfd timerfd) poller) (\<lambda>pl.
     bindR (EventLoop_new tid evfd loopInThisThread) (\<lambda>l.
     bindR (open_reading ctl pw evfd pl) (\<lambda>pl'.
       Inr \<lparr>re_threads = \<lparr>ts_loop = l, ts_pc = Finished, ts_waking = {}, ts_queued = [], ts_done = []\<rparr>,
            re_timers = TimerQueue_new, re_poller = pl', re_timerfdChannel = pt, re_wakeupChannel = pw,
            re_active = [], re_ran = [], re_early = False\<rparr>)))"

text \<open>With the environment variable set, no loop can be made.\<close>

lemma no_default_poller: "EventLoop_create ctl True tid pt timerfd pw evfd loopInThisThread heap k = Inl NullDeref"
  by (simp add: EventLoop_create_def newDefaultPoller_def)

text \<open>The entry of \<open>loop()\<close>.\<close>

definition EventLoop_enter :: "('u, 'k) reactor \<Rightarrow> ('u, 'k) reactor" where
  "EventLoop_enter r = r\<lparr>re_threads := (re_threads r)\<lparr>ts_pc := AtHead,
     ts_loop := (ts_loop (re_threads r))\<lparr>el_looping := True, el_quit := False\<rparr>\<rparr>\<rparr>"

text \<open>The destructor, then those of the members: the functors vanish, the timer queue removes its channel
  and frees its timers.\<close>

definition EventLoop_destroy :: "'k epoll_ctl \<Rightarrow> ('u, 'k) reactor \<Rightarrow> ('u, 'k) reactor res" where
  "EventLoop_destroy ctl r =
     bindR (close_reading ctl (re_wakeupChannel r) (re_poller r)) (\<lambda>pl.
     bindR (close_reading ctl (re_timerfdChannel r) pl) (\<lambda>pl'.
       Inr (r\<lparr>re_threads := (re_threads r)\<lparr>ts_loop := (ts_loop (re_threads r))\<lparr>el_pendingFunctors := []\<rparr>\<rparr>,
              re_poller := pl', re_timers := TimerQueue_destroy (re_timers r)\<rparr>)))"

text \<open>\<open>addTimer\<close> called by another thread: the object is made at once, the rest is left to the loop.\<close>

definition addTimer_push :: "nat \<Rightarrow> nat \<Rightarrow> 'u \<Rightarrow> timestamp \<Rightarrow> seconds \<Rightarrow> ('u, 'k) reactor \<Rightarrow> ('u, 'k) reactor" where
  "addTimer_push t p cb when interval r =
     r\<lparr>re_timers := (re_timers r)\<lparr>tq_heap := (tq_heap (re_timers r))(p \<mapsto> Timer_new cb when interval)\<rparr>,
       re_threads := (re_threads r)\<lparr>ts_loop := queue_push (AddTimerInLoop p) (ts_loop (re_threads r)),
         ts_waking := insert t (ts_waking (re_threads r)), ts_queued := ts_queued (re_threads r) @ [AddTimerInLoop p]\<rparr>\<rparr>"

text \<open>What running a functor does to the timer queue.\<close>

fun run_task :: "timestamp \<Rightarrow> 'u task \<Rightarrow> 'u timer_queue \<Rightarrow> 'u timer_queue res" where
  "run_task now (AddTimerInLoop p) q = addTimerInLoop now p q"
| "run_task now (UserTask u) q = Inr q"

text \<open>Whether \<open>handleEvent\<close> of an active channel calls its read callback; neither channel is tied.\<close>

definition reads :: "nat \<Rightarrow> 'k poller \<Rightarrow> bool" where
  "reads p pl \<longleftrightarrow> ReadCallback \<in> set (Channel_handleEvent False (pl_heap pl p))"

text \<open>What timer callbacks do to the queue: they only add timers (\<open>only_adds\<close>), and in the loop's thread a
  new timer is queued at once.\<close>

definition timer_code :: "('u \<Rightarrow> 'u timer_queue \<Rightarrow> 'u timer_queue) \<Rightarrow> bool" where
  "timer_code exec \<longleftrightarrow> only_adds exec \<and> (\<forall>cb q p. tq_heap (exec cb q) p \<noteq> None \<longrightarrow>
     tq_heap q p \<noteq> None \<or> p \<in> snd ` set (tq_timers (exec cb q)))"

text \<open>Whether the wall clock has reached the first expiration when \<open>handleRead\<close> reads it. The descriptor runs on a
  monotonic clock, so nothing guarantees it.\<close>

definition fires_in_time :: "timestamp \<Rightarrow> 'u timer_queue \<Rightarrow> bool" where
  "fires_in_time now q \<longleftrightarrow> (tq_timers q \<noteq> [] \<longrightarrow> fst (hd (tq_timers q)) \<le> now)"

section \<open>Steps\<close>

abbreviation on_threads :: "('u task threads \<Rightarrow> 'u task threads) \<Rightarrow> ('u, 'k) reactor \<Rightarrow> ('u, 'k) reactor" where
  "on_threads f r \<equiv> r\<lparr>re_threads := f (re_threads r)\<rparr>"

inductive reactor_step ::
  "(seconds \<Rightarrow> int) \<Rightarrow> ('u \<Rightarrow> 'u timer_queue \<Rightarrow> 'u timer_queue) \<Rightarrow> ('u, 'k) reactor \<Rightarrow> ('u, 'k) reactor \<Rightarrow> bool"
  for usec exec
where
  queue_user: "may_call t (re_threads r) \<Longrightarrow>
    reactor_step usec exec r (on_threads (\<lambda>s. s\<lparr>ts_loop := queue_push (UserTask u) (ts_loop s),
      ts_waking := insert t (ts_waking s), ts_queued := ts_queued s @ [UserTask u]\<rparr>) r)"
| queue_timer: "may_call t (re_threads r) \<Longrightarrow> \<not> isInLoopThread t (ts_loop (re_threads r)) \<Longrightarrow>
    tq_heap (re_timers r) p = None \<Longrightarrow> p < UINTPTR_MAX \<Longrightarrow>
    reactor_step usec exec r (addTimer_push t p cb when interval r)"
| add_timer: "may_call t (re_threads r) \<Longrightarrow> isInLoopThread t (ts_loop (re_threads r)) \<Longrightarrow>
    tq_heap (re_timers r) p = None \<Longrightarrow> p < UINTPTR_MAX \<Longrightarrow>
    addTimer now p cb when interval (re_timers r) = Inr q \<Longrightarrow>
    reactor_step usec exec r (r\<lparr>re_timers := q\<rparr>)"
| call_wake: "t \<in> ts_waking (re_threads r) \<Longrightarrow>
    reactor_step usec exec r (on_threads (\<lambda>s. s\<lparr>ts_loop := queue_wake t (ts_loop s), ts_waking := ts_waking s - {t}\<rparr>) r)"
| call_quit: "may_call t (re_threads r) \<Longrightarrow>
    reactor_step usec exec r (on_threads (\<lambda>s. s\<lparr>ts_loop := EventLoop_quit t (ts_loop s)\<rparr>) r)"
| leave: "ts_pc (re_threads r) = AtHead \<Longrightarrow> el_quit (ts_loop (re_threads r)) \<Longrightarrow>
    reactor_step usec exec r
      (on_threads (\<lambda>s. s\<lparr>ts_pc := Finished, ts_loop := (ts_loop s)\<lparr>el_looping := False\<rparr>\<rparr>) r)"
| enter_poll: "ts_pc (re_threads r) = AtHead \<Longrightarrow> \<not> el_quit (ts_loop (re_threads r)) \<Longrightarrow>
    reactor_step usec exec r (on_threads (\<lambda>s. s\<lparr>ts_pc := InPoll\<rparr>) r)"
| poll_returns: "ts_pc (re_threads r) = InPoll \<Longrightarrow> EPollPoller_poll epoll_wait eintr (re_poller r) = (lg, active, pl) \<Longrightarrow>
    reactor_step usec exec r (on_threads (\<lambda>s. s\<lparr>ts_pc := Dispatching\<rparr>) (r\<lparr>re_poller := pl, re_active := active\<rparr>))"
| dispatch_wakeup: "ts_pc (re_threads r) = Dispatching \<Longrightarrow> loop_thread_free (re_threads r) \<Longrightarrow>
    re_active r = re_wakeupChannel r # ps \<Longrightarrow> reads (re_wakeupChannel r) (re_poller r) \<Longrightarrow>
    reactor_step usec exec r (on_threads (\<lambda>s. s\<lparr>ts_loop := EventLoop_handleRead (ts_loop s)\<rparr>) (r\<lparr>re_active := ps\<rparr>))"
| dispatch_timers: "ts_pc (re_threads r) = Dispatching \<Longrightarrow> loop_thread_free (re_threads r) \<Longrightarrow>
    re_active r = re_timerfdChannel r # ps \<Longrightarrow> reads (re_timerfdChannel r) (re_poller r) \<Longrightarrow>
    TimerQueue_handleRead usec clock exec now (re_timers r) = Inr (cbs, q) \<Longrightarrow>
    reactor_step usec exec r (r\<lparr>re_active := ps, re_timers := q, re_ran := re_ran r @ cbs,
      re_early := \<not> fires_in_time now (re_timers r)\<rparr>)"
| dispatch_other: "ts_pc (re_threads r) = Dispatching \<Longrightarrow> loop_thread_free (re_threads r) \<Longrightarrow>
    re_active r = p # ps \<Longrightarrow> p \<in> {re_wakeupChannel r, re_timerfdChannel r} \<longrightarrow> \<not> reads p (re_poller r) \<Longrightarrow>
    reactor_step usec exec r (r\<lparr>re_active := ps\<rparr>)"
| begin_functors: "ts_pc (re_threads r) = Dispatching \<Longrightarrow> loop_thread_free (re_threads r) \<Longrightarrow> re_active r = [] \<Longrightarrow>
    reactor_step usec exec r (on_threads (\<lambda>s. s\<lparr>ts_pc := BeforeSwap,
      ts_loop := (ts_loop s)\<lparr>el_callingPendingFunctors := True\<rparr>\<rparr>) r)"
| swap_functors: "ts_pc (re_threads r) = BeforeSwap \<Longrightarrow>
    reactor_step usec exec r (on_threads (\<lambda>s. s\<lparr>ts_pc := Draining (el_pendingFunctors (ts_loop s)),
      ts_loop := (ts_loop s)\<lparr>el_pendingFunctors := []\<rparr>\<rparr>) r)"
| run_functor: "ts_pc (re_threads r) = Draining (f # fs) \<Longrightarrow> loop_thread_free (re_threads r) \<Longrightarrow>
    run_task now f (re_timers r) = Inr q \<Longrightarrow>
    reactor_step usec exec r
      (on_threads (\<lambda>s. s\<lparr>ts_pc := Draining fs, ts_done := ts_done s @ [f]\<rparr>) (r\<lparr>re_timers := q\<rparr>))"
| end_functors: "ts_pc (re_threads r) = Draining [] \<Longrightarrow> loop_thread_free (re_threads r) \<Longrightarrow>
    reactor_step usec exec r (on_threads (\<lambda>s. s\<lparr>ts_pc := AtHead,
      ts_loop := (ts_loop s)\<lparr>el_callingPendingFunctors := False\<rparr>\<rparr>) r)"

definition reactor_start ::
  "'k epoll_ctl \<Rightarrow> nat \<Rightarrow> nat \<Rightarrow> int \<Rightarrow> nat \<Rightarrow> int \<Rightarrow> (nat \<Rightarrow> channel) \<Rightarrow> 'k \<Rightarrow> ('u, 'k) reactor \<Rightarrow> bool"
where
  "reactor_start ctl tid pt timerfd pw evfd heap k r \<longleftrightarrow>
     (\<exists>r0. EventLoop_create ctl False tid pt timerfd pw evfd False heap k = Inr r0 \<and> r = EventLoop_enter r0)"

text \<open>Every step of the reactor is a step of the loop's threads or leaves them alone.\<close>

lemma reactor_thread_step:
  "reactor_step usec exec r r' \<Longrightarrow> re_threads r' = re_threads r \<or> thread_step (re_threads r) (re_threads r')"
  by (induction rule: reactor_step.induct) (auto simp: addTimer_push_def intro: thread_step.intros)

lemma reactor_start_threads:
  "reactor_start ctl tid pt timerfd pw evfd heap k r \<Longrightarrow> re_threads r = threads_init tid"
  by (auto simp: reactor_start_def EventLoop_create_def newDefaultPoller_def createTimerfd_def EventLoop_new_def createEventfd_def EventLoop_enter_def
      threads_init_def bindR_Inr_iff split: if_splits)

section \<open>Ownership of timers\<close>

text \<open>\<open>ws\<close> are the timers that functors carry. Every timer object is carried by one functor or is in the queue,
  never both.\<close>

definition owns :: "nat list \<Rightarrow> 'u timer_queue \<Rightarrow> bool" where
  "owns ws q \<longleftrightarrow> tq_ok q \<and> distinct ws \<and> dom (tq_heap q) = set ws \<union> snd ` set (tq_timers q)
     \<and> set ws \<inter> snd ` set (tq_timers q) = {}"

lemma owns_new: "owns [] TimerQueue_new"
  using tq_ok_new by (simp add: owns_def TimerQueue_new_def)

lemma owns_push:
  assumes "owns ws q" "tq_heap q p = None" "p < UINTPTR_MAX"
  shows "owns (ws @ [p]) (q\<lparr>tq_heap := (tq_heap q)(p \<mapsto> t)\<rparr>)"
proof -
  have "p \<notin> set ws \<union> snd ` set (tq_timers q)" using assms(1,2) by (auto simp: owns_def)
  then show ?thesis
    using assms tq_ok_heap_new [OF _ assms(2,3), of t] by (auto simp: owns_def)
qed

lemma owns_add:
  assumes "owns ws q" "tq_heap q p = None" "p < UINTPTR_MAX"
  shows "\<exists>q'. addTimer now p cb when interval q = Inr q' \<and> owns ws q' \<and> (armed_ok q \<longrightarrow> armed_ok q')"
proof -
  have "p \<notin> set ws" using assms(1,2) by (auto simp: owns_def)
  moreover obtain q' where "addTimer now p cb when interval q = Inr q'" "tq_ok q'" "armed_ok q \<longrightarrow> armed_ok q'"
    "set (tq_timers q') = insert (when, p) (set (tq_timers q))" "tq_heap q' = (tq_heap q)(p \<mapsto> Timer_new cb when interval)"
    using addTimer_ok [of q p now cb "when" interval] assms by (auto simp: owns_def)
  ultimately show ?thesis using assms(1) by (auto simp: owns_def)
qed

lemma owns_run:
  assumes "owns (p # ws) q"
  shows "\<exists>q' t. addTimerInLoop now p q = Inr q' \<and> owns ws q' \<and> (armed_ok q \<longrightarrow> armed_ok q') \<and> tq_heap q p = Some t
    \<and> set (tq_timers q') = insert (tmr_expiration t, p) (set (tq_timers q))"
proof -
  have q: "tq_ok q" "p \<in> dom (tq_heap q)" "p \<notin> set ws" using assms by (auto simp: owns_def)
  then obtain t where t: "tq_heap q p = Some t" by blast
  obtain q' where q': "addTimerInLoop now p q = Inr q'" "tq_ok q'" "armed_ok q \<longrightarrow> armed_ok q'"
    "set (tq_timers q') = insert (tmr_expiration t, p) (set (tq_timers q))" "tq_heap q' = tq_heap q"
    using addTimerInLoop_ok [OF q(1) t] by blast
  then have "owns ws q'" using assms q(3) by (auto simp: owns_def)
  then show ?thesis using q' t by blast
qed

text \<open>Callbacks of timers keep what they do not know.\<close>

definition grown :: "'u timer_queue \<Rightarrow> 'u timer_queue \<Rightarrow> bool" where
  "grown q q' \<longleftrightarrow> tq_ok q' \<and> tq_heap q \<subseteq>\<^sub>m tq_heap q' \<and> set (tq_timers q) \<subseteq> set (tq_timers q')
     \<and> (\<forall>e \<in> set (tq_timers q'). e \<in> set (tq_timers q) \<or> tq_heap q (snd e) = None)
     \<and> (\<forall>x. tq_heap q' x \<noteq> None \<longrightarrow> tq_heap q x \<noteq> None \<or> x \<in> snd ` set (tq_timers q'))"

lemma grownD:
  assumes "grown q q'"
  shows "tq_ok q'" "tq_heap q \<subseteq>\<^sub>m tq_heap q'" "set (tq_timers q) \<subseteq> set (tq_timers q')"
    "e \<in> set (tq_timers q') \<Longrightarrow> e \<in> set (tq_timers q) \<or> tq_heap q (snd e) = None"
    "tq_heap q' x \<noteq> None \<Longrightarrow> tq_heap q x \<noteq> None \<or> x \<in> snd ` set (tq_timers q')"
    "tq_heap q' x = None \<Longrightarrow> tq_heap q x = None"
proof -
  show "tq_heap q' x = None \<Longrightarrow> tq_heap q x = None"
    using assms unfolding grown_def by (metis domIff map_le_def)
qed (use assms in \<open>simp_all add: grown_def\<close>)

lemma grown_trans:
  assumes "grown q q1" and "grown q1 q2"
  shows "grown q q2"
  unfolding grown_def
proof (intro conjI ballI allI impI)
  show "tq_ok q2" using grownD(1) [OF assms(2)] .
  show "tq_heap q \<subseteq>\<^sub>m tq_heap q2" using grownD(2) assms map_le_trans by blast
  show "set (tq_timers q) \<subseteq> set (tq_timers q2)" using grownD(3) [OF assms(1)] grownD(3) [OF assms(2)] by simp
  show "e \<in> set (tq_timers q) \<or> tq_heap q (snd e) = None" if "e \<in> set (tq_timers q2)" for e
    using grownD(4) [OF assms(2) that] grownD(4) [OF assms(1)] grownD(6) [OF assms(1)] by metis
  show "tq_heap q x \<noteq> None \<or> x \<in> snd ` set (tq_timers q2)" if "tq_heap q2 x \<noteq> None" for x
    using grownD(5) [OF assms(2) that] grownD(5) [OF assms(1)] grownD(3) [OF assms(2)] by (metis image_mono subsetD)
qed

lemma run_expired_grows:
  assumes "timer_code exec"
  shows "run_expired exec es q = Inr (cbs, q') \<Longrightarrow> tq_ok q \<Longrightarrow> grown q q'"
proof (induction es arbitrary: q cbs)
  case Nil
  then show ?case by (simp add: grown_def)
next
  case (Cons e es)
  obtain w p where e: "e = (w, p)" by (cases e)
  have "\<exists>cb cbs'. run_expired exec es (exec cb q) = Inr (cbs', q')"
    using Cons.prems(1) by (auto simp: e bindR_Inr_iff)
  then obtain cb cbs' where r: "run_expired exec es (exec cb q) = Inr (cbs', q')" by blast
  have one: "grown q (exec cb q)"
    using assms Cons.prems(2) by (simp add: timer_code_def only_adds_def grown_def)
  show ?case using grown_trans [OF one Cons.IH [OF r grownD(1) [OF one]]] .
qed

text \<open>The heap after the expired timers \<open>E\<close> ran: \<open>W\<close> are the timers of the functors, \<open>T3\<close> those that did not expire, \<open>T4\<close> with those
  that the callbacks added, \<open>T'\<close> with those that repeat.\<close>

lemma owned_after:
  assumes "dom h3 = W \<union> (E \<union> T3)" "W \<inter> (E \<union> T3) = {}"
    and "\<And>x. x \<in> dom h4 \<Longrightarrow> x \<in> dom h3 \<or> x \<in> T4" "\<And>x. x \<in> dom h3 \<Longrightarrow> x \<in> dom h4" "\<And>x. x \<in> T4 \<Longrightarrow> x \<in> T3 \<or> x \<notin> dom h3"
    and "\<And>x. x \<notin> E \<Longrightarrow> h' x = h4 x" "\<And>x. x \<in> E \<Longrightarrow> x \<in> dom h' \<Longrightarrow> x \<in> T'"
    and "T3 \<subseteq> T'" "T4 \<subseteq> T'" "T' \<subseteq> T4 \<union> E"
  shows "dom h' \<subseteq> W \<union> T'" "W \<subseteq> dom h'" "W \<inter> T' = {}"
proof -
  have out: "x \<in> dom h' \<longleftrightarrow> x \<in> dom h4" if "x \<notin> E" for x using assms(6) [OF that] by (simp add: domIff)
  show "dom h' \<subseteq> W \<union> T'" using out assms(1,3,7-9) by blast
  show "W \<subseteq> dom h'" using out assms(1,2,4) by blast
  show "W \<inter> T' = {}" using assms(1,2,5,10) by blast
qed

text \<open>A dispatch in its parts: the callbacks of the expired timers run on the queue without them, then \<open>reset\<close>.\<close>

definition dispatched :: "int \<Rightarrow> 'c timer_queue \<Rightarrow> 'c timer_queue" where
  "dispatched now q = q\<lparr>tq_armed := None, tq_timers := filter (\<lambda>e. now < fst e) (tq_timers q), tq_callingExpiredTimers := True\<rparr>"

lemma handleRead_parts:
  fixes now :: int
  assumes q: "tq_ok q" and exec: "timer_code exec"
  defines "expired \<equiv> filter (\<lambda>e. fst e \<le> now) (tq_timers q)" and "q3 \<equiv> dispatched now q"
  shows "\<exists>cbs q4 q'. TimerQueue_handleRead usec clock exec now q = Inr (cbs, q') \<and> tq_ok q' \<and> (expired \<noteq> [] \<longrightarrow> armed_ok q')
    \<and> run_expired exec expired q3 = Inr (cbs, q4)
    \<and> TimerQueue_reset usec clock 0 expired (q4\<lparr>tq_callingExpiredTimers := False\<rparr>) = Inr q' \<and> grown q3 q4"
proof -
  have adds: "only_adds exec" using exec by (simp add: timer_code_def)
  obtain cbs q' where run: "TimerQueue_handleRead usec clock exec now q = Inr (cbs, q')" "tq_ok q'" "expired \<noteq> [] \<longrightarrow> armed_ok q'"
    using timer_handleRead_ok [OF q adds] unfolding expired_def by blast
  have "getExpired now (ReadTimerFd q) = (expired, q\<lparr>tq_armed := None, tq_timers := filter (\<lambda>e. now < fst e) (tq_timers q)\<rparr>)"
    using getExpired_filter [of "ReadTimerFd q" now] q by (simp add: ReadTimerFd_def expired_def)
  with run(1) obtain q4 where q4: "run_expired exec expired q3 = Inr (cbs, q4)"
    "TimerQueue_reset usec clock 0 expired (q4\<lparr>tq_callingExpiredTimers := False\<rparr>) = Inr q'"
    by (auto simp: TimerQueue_handleRead_def bindR_Inr_iff q3_def dispatched_def)
  have ok3: "tq_ok q3" using tq_ok_filter [OF q, of "\<lambda>e. now < fst e"] by (simp add: q3_def dispatched_def tq_ok_def)
  show ?thesis using run q4 run_expired_grows [OF exec q4(1) ok3] by blast
qed

lemma owns_handleRead:
  assumes "owns ws q" "timer_code exec"
  shows "\<exists>cbs q'. TimerQueue_handleRead usec clock exec now q = Inr (cbs, q') \<and> owns ws q' \<and> (fires_in_time now q \<longrightarrow> armed_ok q')"
proof -
  define expired where "expired = filter (\<lambda>e. fst e \<le> now) (tq_timers q)"
  have q: "tq_ok q" "distinct ws" "dom (tq_heap q) = set ws \<union> snd ` set (tq_timers q)"
    "set ws \<inter> snd ` set (tq_timers q) = {}" using assms(1) by (auto simp: owns_def)
  define q3 where "q3 = dispatched now q"
  from handleRead_parts [OF q(1) assms(2), of usec clock now] obtain cbs q4 q' where
    run: "TimerQueue_handleRead usec clock exec now q = Inr (cbs, q')" "tq_ok q'" "expired \<noteq> [] \<longrightarrow> armed_ok q'" and
    q4: "run_expired exec expired q3 = Inr (cbs, q4)" "TimerQueue_reset usec clock 0 expired (q4\<lparr>tq_callingExpiredTimers := False\<rparr>) = Inr q'"
    and grows: "grown q3 q4" unfolding expired_def q3_def by blast
  note mid = grownD [OF grows]
  have dist: "distinct (map snd expired)" using tq_ok_distinct [OF q(1)] by (simp add: expired_def distinct_map_filter)
  note last = reset_frame [OF q4(2) dist]
  have kept: "tq_heap q' x = tq_heap q4 x" if "x \<notin> snd ` set expired" for x using last that by simp
  have last2: "snd ` set (tq_timers q') \<subseteq> snd ` set (tq_timers q4) \<union> snd ` set expired" "set (tq_timers q4) \<subseteq> set (tq_timers q')"
    using last by simp_all
  have up: "snd ` set (tq_timers q3) \<subseteq> snd ` set (tq_timers q')" "snd ` set (tq_timers q4) \<subseteq> snd ` set (tq_timers q')"
    using mid(3) last2(2) by (auto intro: image_mono)
  have again: "x \<in> snd ` set (tq_timers q')" if "x \<in> snd ` set expired" "tq_heap q' x \<noteq> None" for x
    using last that by blast
  have split: "snd ` set (tq_timers q) = snd ` set expired \<union> snd ` set (tq_timers q3)"
    by (force simp: expired_def q3_def dispatched_def)
  have sep: "snd ` set expired \<inter> snd ` set (tq_timers q3) = {}"
    using tq_ok_unique [OF q(1)] by (force simp: expired_def q3_def dispatched_def)
  have heap3: "dom (tq_heap q3) = set ws \<union> snd ` set (tq_timers q)" using q(3) by (simp add: q3_def dispatched_def)
  have "armed_ok q'" if "fires_in_time now q"
  proof (cases "expired = []")
    case True
    then have "tq_timers q = []" using that by (cases "tq_timers q") (auto simp: expired_def fires_in_time_def split: if_splits)
    then show ?thesis using q4 True by (auto simp: armed_ok_def q3_def dispatched_def)
  qed (use run(3) in blast)
  moreover have "dom (tq_heap q') \<subseteq> set ws \<union> snd ` set (tq_timers q')" "set ws \<subseteq> dom (tq_heap q')" "set ws \<inter> snd ` set (tq_timers q') = {}"
  proof -
    have d3: "dom (tq_heap q3) = set ws \<union> (snd ` set expired \<union> snd ` set (tq_timers q3))" using heap3 split by simp
    have w: "set ws \<inter> (snd ` set expired \<union> snd ` set (tq_timers q3)) = {}" using q(4) split by simp
    have m5: "x \<in> dom (tq_heap q3) \<or> x \<in> snd ` set (tq_timers q4)" if "x \<in> dom (tq_heap q4)" for x using mid(5) [of x] that by auto
    have m6: "x \<in> dom (tq_heap q4)" if "x \<in> dom (tq_heap q3)" for x using mid(6) [of x] that by (cases "tq_heap q4 x") auto
    have m4: "x \<in> snd ` set (tq_timers q3) \<or> x \<notin> dom (tq_heap q3)" if x: "x \<in> snd ` set (tq_timers q4)" for x
    proof -
      from x obtain e where "e \<in> set (tq_timers q4)" "x = snd e" by blast
      then show ?thesis using mid(4) [of e] by auto
    qed
    have ag: "x \<in> snd ` set (tq_timers q')" if "x \<in> snd ` set expired" "x \<in> dom (tq_heap q')" for x using again that by blast
    note oa = owned_after [of "tq_heap q3" "set ws" "snd ` set expired" "snd ` set (tq_timers q3)" "tq_heap q4" "snd ` set (tq_timers q4)"
        "tq_heap q'" "snd ` set (tq_timers q')", OF d3 w m5 m6 m4 kept ag up last2(1)]
    show "dom (tq_heap q') \<subseteq> set ws \<union> snd ` set (tq_timers q')" "set ws \<subseteq> dom (tq_heap q')" "set ws \<inter> snd ` set (tq_timers q') = {}"
      by (rule oa; assumption)+
  qed
  moreover have "snd ` set (tq_timers q') \<subseteq> dom (tq_heap q')" using run(2) by (force simp: tq_ok_def)
  ultimately show ?thesis using run(1,2) q(2) by (auto simp: owns_def)
qed

section \<open>Invariant\<close>

fun task_timer :: "'u task \<Rightarrow> nat list" where
  "task_timer (AddTimerInLoop p) = [p]"
| "task_timer (UserTask u) = []"

definition waiting_timers :: "'u task threads \<Rightarrow> nat list" where
  "waiting_timers s = concat (map task_timer (draining (ts_pc s) @ el_pendingFunctors (ts_loop s)))"

definition reactor_inv ::
  "('k \<Rightarrow> int \<rightharpoonup> epoll_event) \<Rightarrow> nat \<Rightarrow> int \<Rightarrow> nat \<Rightarrow> int \<Rightarrow> ('u, 'k) reactor \<Rightarrow> bool"
where
  "reactor_inv interest pt timerfd pw evfd r \<longleftrightarrow> owns (waiting_timers (re_threads r)) (re_timers r)
     \<and> (\<not> re_early r \<longrightarrow> armed_ok (re_timers r))
     \<and> re_timerfdChannel r = pt \<and> re_wakeupChannel r = pw
     \<and> watching interest pt timerfd (re_poller r) \<and> watching interest pw evfd (re_poller r)"

lemma waiting_same [simp]:
  "waiting_timers (s\<lparr>ts_waking := w\<rparr>) = waiting_timers s" "waiting_timers (s\<lparr>ts_queued := a\<rparr>) = waiting_timers s"
  "waiting_timers (s\<lparr>ts_done := a\<rparr>) = waiting_timers s"
  by (simp_all add: waiting_timers_def)

lemma waiting_push: "waiting_timers (s\<lparr>ts_loop := queue_push f (ts_loop s)\<rparr>) = waiting_timers s @ task_timer f"
  by (simp add: waiting_timers_def)

lemma reactor_step_inv:
  assumes "reactor_step usec exec r r'" and "timer_code exec" and inv: "reactor_inv interest pt timerfd pw evfd r"
  shows "reactor_inv interest pt timerfd pw evfd r'"
proof -
  have own: "owns (waiting_timers (re_threads r)) (re_timers r)" using inv by (simp add: reactor_inv_def)
  from assms(1) show ?thesis
  proof cases
    case (queue_user t u)
    then show ?thesis using inv by (simp add: reactor_inv_def waiting_timers_def)
  next
    case (queue_timer t p cb w i)
    then show ?thesis
      using inv owns_push [OF own queue_timer(4,5)] by (simp add: reactor_inv_def addTimer_push_def waiting_timers_def armed_ok_def)
  next
    case (add_timer t p now cb w i q)
    then have "owns (waiting_timers (re_threads r)) q \<and> (armed_ok (re_timers r) \<longrightarrow> armed_ok q)"
      using owns_add [OF own add_timer(4,5), of now cb w i] by auto
    then show ?thesis using inv add_timer(1) by (simp add: reactor_inv_def)
  next
    case (poll_returns wait ei lg active pl)
    then show ?thesis
      using inv poll_watching [OF poll_returns(3)] by (simp add: reactor_inv_def waiting_timers_def)
  next
    case (dispatch_timers ps clock now cbs q)
    then have "owns (waiting_timers (re_threads r)) q \<and> (fires_in_time now (re_timers r) \<longrightarrow> armed_ok q)"
      using owns_handleRead [OF own assms(2), of usec clock now] by auto
    then show ?thesis using inv dispatch_timers(1) by (simp add: reactor_inv_def)
  next
    case (run_functor f fs now q)
    have wait: "waiting_timers (re_threads r) = task_timer f @ concat (map task_timer (fs @ el_pendingFunctors (ts_loop (re_threads r))))"
      using run_functor(2) by (simp add: waiting_timers_def)
    have "owns (concat (map task_timer (fs @ el_pendingFunctors (ts_loop (re_threads r))))) q
        \<and> (armed_ok (re_timers r) \<longrightarrow> armed_ok q)"
    proof (cases f)
      case (AddTimerInLoop p)
      then show ?thesis using own wait run_functor(4) owns_run [of p _ "re_timers r" now] by fastforce
    qed (use own wait run_functor(4) in auto)
    then show ?thesis using inv run_functor(1) by (simp add: reactor_inv_def waiting_timers_def)
  qed (use inv in \<open>simp_all add: reactor_inv_def waiting_timers_def EventLoop_handleRead_def\<close>)
qed

section \<open>Construction and destruction\<close>

context epoll_kernel
begin

lemma open_reading_ok:
  assumes "pl_channels pl fd = None" "interest (pl_kernel pl) fd = None"
  shows "\<exists>pl'. open_reading ctl p fd pl = Inr pl' \<and> watching interest p fd pl'
    \<and> (\<forall>fd'. fd' \<noteq> fd \<longrightarrow> pl_channels pl' fd' = pl_channels pl fd' \<and> interest (pl_kernel pl') fd' = interest (pl_kernel pl) fd')
    \<and> (\<forall>q fd'. q \<noteq> p \<and> fd' \<noteq> fd \<and> watching interest q fd' pl \<longrightarrow> watching interest q fd' pl')"
proof -
  let ?pl = "pl\<lparr>pl_heap := (pl_heap pl)(p := (Channel_new fd)\<lparr>ch_readCallback := True\<rparr>)\<rparr>"
  have "chan_ok interest ?pl p" using assms by (simp add: chan_ok_def Channel_new_def index_defs)
  from set_mode_step [OF this, of EnableReading] obtain pl' where
    pl': "Channel_set_mode ctl EnableReading p ?pl = Inr pl'" "only_touches interest p ?pl pl'" "chan_ok interest pl' p"
      "ch_events (pl_heap pl' p) = mode_events EnableReading (ch_events (pl_heap ?pl p))"
      "ch_index (pl_heap pl' p) = kAdded \<or> mode_events EnableReading (ch_events (pl_heap ?pl p)) = kNoneEvent" by blast
  have "mode_events EnableReading (ch_events (pl_heap ?pl p)) = kReadEvent" "kReadEvent \<noteq> kNoneEvent"
    by (simp_all add: Channel_new_def kReadEvent_def kNoneEvent_def epoll_flags)
  moreover have "ch_readCallback (pl_heap pl' p)" using set_mode_callback [OF pl'(1), of p] by simp
  ultimately have "watching interest p fd pl'"
    using pl'(2-5) by (simp add: watching_def only_touches_def Channel_new_def)
  moreover have "watching interest q fd' pl'" if "watching interest q fd' pl" "q \<noteq> p" "fd' \<noteq> fd" for q fd'
  proof (rule watching_other [OF _ pl'(2) that(2)])
    show "watching interest q fd' ?pl" using that(1,2) by (simp add: watching_def chan_ok_def)
  qed (use that(3) in \<open>simp add: Channel_new_def\<close>)
  moreover have "\<forall>fd'. fd' \<noteq> fd \<longrightarrow> pl_channels pl' fd' = pl_channels pl fd' \<and> interest (pl_kernel pl') fd' = interest (pl_kernel pl) fd'"
    using pl'(2) by (simp add: only_touches_def Channel_new_def)
  ultimately show ?thesis using pl'(1) by (auto simp: open_reading_def)
qed

lemma close_reading_ok:
  assumes "watching interest p fd pl"
  shows "\<exists>pl'. close_reading ctl p pl = Inr pl' \<and> pl_channels pl' fd = None \<and> interest (pl_kernel pl') fd = None
    \<and> (\<forall>fd'. fd' \<noteq> fd \<longrightarrow> pl_channels pl' fd' = pl_channels pl fd' \<and> interest (pl_kernel pl') fd' = interest (pl_kernel pl) fd')
    \<and> (\<forall>q fd'. q \<noteq> p \<and> fd' \<noteq> fd \<and> watching interest q fd' pl \<longrightarrow> watching interest q fd' pl')"
proof -
  have ok: "chan_ok interest pl p" and fd: "ch_fd (pl_heap pl p) = fd" using assms by (simp_all add: watching_def)
  from set_mode_step [OF ok, of DisableAll] obtain pl1 where
    pl1: "Channel_set_mode ctl DisableAll p pl = Inr pl1" "only_touches interest p pl pl1" "chan_ok interest pl1 p" by blast
  have fd1: "ch_fd (pl_heap pl1 p) = fd" using pl1(2) fd by (simp add: only_touches_def)
  from remove_step [OF pl1(3)] obtain pl2 where
    pl2: "EPollPoller_removeChannel ctl p pl1 = Inr pl2" "only_touches interest p pl1 pl2" "chan_ok interest pl2 p"
      "ch_index (pl_heap pl2 p) = kNew" by blast
  have "ch_fd (pl_heap pl2 p) = fd" using pl2(2) fd1 by (simp add: only_touches_def)
  then have "pl_channels pl2 fd = None" "interest (pl_kernel pl2) fd = None"
    using pl2(3,4) by (auto simp: chan_ok_def index_defs Let_def)
  moreover have "watching interest q fd' pl2" if "watching interest q fd' pl" "q \<noteq> p" "fd' \<noteq> fd" for q fd'
    using watching_other [OF watching_other [OF that(1) pl1(2) that(2)] pl2(2) that(2)] that(3) fd fd1 by simp
  moreover have "\<forall>fd'. fd' \<noteq> fd \<longrightarrow> pl_channels pl2 fd' = pl_channels pl fd' \<and> interest (pl_kernel pl2) fd' = interest (pl_kernel pl) fd'"
    using pl1(2) pl2(2) fd fd1 by (simp add: only_touches_def)
  ultimately show ?thesis using pl1(1) pl2(1) by (auto simp: close_reading_def)
qed

end

text \<open>A loop on a kernel that honours \<open>epoll_kernel\<close>, with descriptors and channel objects of its own.\<close>

locale loop_reactor = epoll_kernel ctl interest
  for ctl :: "'k epoll_ctl" and interest :: "'k \<Rightarrow> int \<rightharpoonup> epoll_event" +
  fixes exec :: "'u \<Rightarrow> 'u timer_queue \<Rightarrow> 'u timer_queue" and pt pw :: nat and timerfd evfd :: int and k :: 'k
  assumes code: "timer_code exec"
    and apart: "pt \<noteq> pw" "timerfd \<noteq> evfd" "0 \<le> evfd"
    and empty_kernel: "interest k = Map.empty"
begin

lemma created:
  "\<exists>r0 :: ('u, 'k) reactor. EventLoop_create ctl False tid pt timerfd pw evfd False heap k = Inr r0 \<and> reactor_inv interest pt timerfd pw evfd (EventLoop_enter r0)"
proof -
  obtain pl1 where pl1: "open_reading ctl pt timerfd (EPollPoller_new heap k) = Inr pl1" "watching interest pt timerfd pl1"
    "pl_channels pl1 evfd = None" "interest (pl_kernel pl1) evfd = None"
    using open_reading_ok [of "EPollPoller_new heap k" timerfd pt] apart empty_kernel by (auto simp: EPollPoller_new_def)
  obtain pl2 where pl2: "open_reading ctl pw evfd pl1 = Inr pl2" "watching interest pw evfd pl2" "watching interest pt timerfd pl2"
    using open_reading_ok [OF pl1(3,4), of pw] pl1(2) apart by blast
  show ?thesis
    using pl1 pl2 apart owns_new tq_ok_new(2)
    by (simp add: EventLoop_create_def newDefaultPoller_def createTimerfd_def EventLoop_new_def createEventfd_def EventLoop_enter_def reactor_inv_def waiting_timers_def)
qed

lemma start_inv:
  fixes r :: "('u, 'k) reactor"
  shows "reactor_start ctl tid pt timerfd pw evfd heap k r \<Longrightarrow> reactor_inv interest pt timerfd pw evfd r"
  using created [of tid heap] by (auto simp: reactor_start_def)

lemma destroyed:
  assumes "reactor_inv interest pt timerfd pw evfd r"
  shows "\<exists>r'. EventLoop_destroy ctl r = Inr r' \<and> interest (pl_kernel (re_poller r')) timerfd = None
    \<and> interest (pl_kernel (re_poller r')) evfd = None \<and> re_timers r' = TimerQueue_destroy (re_timers r)"
proof -
  have w: "watching interest pt timerfd (re_poller r)" "watching interest pw evfd (re_poller r)"
    "re_timerfdChannel r = pt" "re_wakeupChannel r = pw" using assms by (simp_all add: reactor_inv_def)
  obtain pl1 where pl1: "close_reading ctl pw (re_poller r) = Inr pl1" "interest (pl_kernel pl1) evfd = None"
    "watching interest pt timerfd pl1"
    using close_reading_ok [OF w(2)] w(1) apart by blast
  obtain pl2 where pl2: "close_reading ctl pt pl1 = Inr pl2" "interest (pl_kernel pl2) timerfd = None"
    "interest (pl_kernel pl2) evfd = interest (pl_kernel pl1) evfd"
    using close_reading_ok [OF pl1(3)] apart by metis
  show ?thesis using pl1 pl2 w(3,4) by (simp add: EventLoop_destroy_def)
qed

end

sublocale loop_reactor \<subseteq> composed: refinement "reactor_start ctl tid pt timerfd pw evfd heap k" "reactor_step usec exec"
    "reactor_inv interest pt timerfd pw evfd" "\<lambda>s. s = threads_init tid" thread_step re_threads for tid heap usec
  by unfold_locales (blast intro: start_inv reactor_step_inv [OF _ code] dest: reactor_start_threads reactor_thread_step)+

abbreviation reactor_reachable ::
  "'k epoll_ctl \<Rightarrow> (seconds \<Rightarrow> int) \<Rightarrow> ('u \<Rightarrow> 'u timer_queue \<Rightarrow> 'u timer_queue) \<Rightarrow> nat \<Rightarrow> nat \<Rightarrow> int \<Rightarrow> nat \<Rightarrow> int
    \<Rightarrow> (nat \<Rightarrow> channel) \<Rightarrow> 'k \<Rightarrow> ('u, 'k) reactor \<Rightarrow> bool"
where
  "reactor_reachable ctl usec exec tid pt timerfd pw evfd heap k \<equiv>
     reachable (reactor_start ctl tid pt timerfd pw evfd heap k) (reactor_step usec exec)"

interpretation table_loop: loop_reactor epoll_table_ctl "\<lambda>k. k" "\<lambda>cb q. q" 1 2 5 6 Map.empty
  by unfold_locales (auto simp: timer_code_def only_adds_def)

section \<open>Properties\<close>

context loop_reactor
begin

lemma reactor_facts:
  assumes "reactor_reachable ctl usec exec tid pt timerfd pw evfd heap k r"
  shows "reactor_inv interest pt timerfd pw evfd r" "threads_inv (re_threads r)" "threads_reachable tid (re_threads r)"
  using composed.reachable_inv [OF assms] composed.reachable_abs [OF assms]
    threads_reachable_inv [OF composed.reachable_abs [OF assms]] by simp_all

end

text \<open>Claim C12. The loop, its timers and its poller together lose no wake-up: when the loop's thread is in \<open>epoll_wait\<close>
  with functors pending (timers from other threads among them) and every caller has returned, the eventfd is
  readable, the kernel watches it for reading on behalf of the wake-up channel, and that channel has its callback.\<close>

theorem reactor_wakes:
  assumes "loop_reactor ctl interest exec pt pw timerfd evfd k"
    and "reactor_reachable ctl usec exec tid pt timerfd pw evfd heap k r"
    and "ts_pc (re_threads r) = InPoll" and "el_pendingFunctors (ts_loop (re_threads r)) \<noteq> []" and "ts_waking (re_threads r) = {}"
  shows "0 < el_wakeupCount (ts_loop (re_threads r)) \<and> interest (pl_kernel (re_poller r)) evfd = Some (kReadEvent, pw)
    \<and> ch_readCallback (pl_heap (re_poller r) pw)"
proof -
  note facts = loop_reactor.reactor_facts [OF assms(1,2)]
  have "0 < el_wakeupCount (ts_loop (re_threads r))"
    using facts(2) assms(3-5) by (auto simp: threads_inv_def announced_def)
  moreover have "watching interest pw evfd (re_poller r)" using facts(1) by (simp add: reactor_inv_def)
  ultimately show ?thesis using watching_interest by (auto simp: watching_def)
qed

text \<open>Claim C25. Timer objects are never lost, shared or used after they are freed, whichever threads add them:
  each one that exists is in the queue or carried by exactly one functor on its way to it, never both. The
  next functor of a drain runs, and puts the timer it carries into the queue; \<open>handleRead\<close> runs whenever the
  descriptor fires. The descriptor is armed for the earliest queued timer unless its channel was last dispatched
  before the wall clock had reached the first expiration (the case of \<open>early_fire_disarms\<close>).\<close>

theorem timers_owned:
  assumes "loop_reactor ctl interest exec pt pw timerfd evfd k"
    and "reactor_reachable ctl usec exec tid pt timerfd pw evfd heap k r"
  shows "distinct (waiting_timers (re_threads r))
    \<and> dom (tq_heap (re_timers r)) = set (waiting_timers (re_threads r)) \<union> snd ` set (tq_timers (re_timers r))
    \<and> set (waiting_timers (re_threads r)) \<inter> snd ` set (tq_timers (re_timers r)) = {}
    \<and> (re_early r \<or> armed_ok (re_timers r))
    \<and> (\<forall>p fs now. ts_pc (re_threads r) = Draining (AddTimerInLoop p # fs) \<longrightarrow>
         (\<exists>q. run_task now (AddTimerInLoop p) (re_timers r) = Inr q \<and> p \<in> snd ` set (tq_timers q)))
    \<and> (\<forall>now clock. \<exists>cbs q. TimerQueue_handleRead usec clock exec now (re_timers r) = Inr (cbs, q)
         \<and> (fires_in_time now (re_timers r) \<longrightarrow> armed_ok q))"
proof -
  have own: "owns (waiting_timers (re_threads r)) (re_timers r)" and armed: "re_early r \<or> armed_ok (re_timers r)"
    using loop_reactor.reactor_facts(1) [OF assms] by (auto simp: reactor_inv_def)
  have code: "timer_code exec" by (rule loop_reactor.code [OF assms(1)])
  have "\<exists>q. run_task now (AddTimerInLoop p) (re_timers r) = Inr q \<and> p \<in> snd ` set (tq_timers q)"
    if "ts_pc (re_threads r) = Draining (AddTimerInLoop p # fs)" for p fs now
  proof -
    have "waiting_timers (re_threads r) = p # concat (map task_timer (fs @ el_pendingFunctors (ts_loop (re_threads r))))"
      using that by (simp add: waiting_timers_def)
    then have "owns (p # concat (map task_timer (fs @ el_pendingFunctors (ts_loop (re_threads r))))) (re_timers r)"
      using own by simp
    from owns_run [OF this, of now] show ?thesis by auto
  qed
  moreover have "\<exists>cbs q. TimerQueue_handleRead usec clock exec now (re_timers r) = Inr (cbs, q)
      \<and> (fires_in_time now (re_timers r) \<longrightarrow> armed_ok q)" for now clock
    using owns_handleRead [OF own code] by blast
  ultimately show ?thesis using own armed by (simp add: owns_def)
qed

text \<open>A loop in \<open>epoll_wait\<close> to which thread 9 has just added a timer.\<close>

definition loop_polling :: "(nat, int \<rightharpoonup> epoll_event) reactor" where
  "loop_polling = (case EventLoop_create epoll_table_ctl False 0 1 5 2 6 False (\<lambda>_. Channel_new 0) Map.empty of
     Inr r0 \<Rightarrow> on_threads (\<lambda>s. s\<lparr>ts_pc := InPoll\<rparr>) (EventLoop_enter r0))"

definition loop_added :: "(nat, int \<rightharpoonup> epoll_event) reactor" where
  "loop_added = on_threads (\<lambda>s. s\<lparr>ts_loop := queue_wake 9 (ts_loop s), ts_waking := ts_waking s - {9}\<rparr>)
     (addTimer_push 9 100 42 7 0 loop_polling)"

lemma loop_polling_facts:
  "reactor_reachable epoll_table_ctl usec (\<lambda>cb q. q) 0 1 5 2 6 (\<lambda>_. Channel_new 0) Map.empty loop_polling"
  "re_threads loop_polling = (threads_init 0)\<lparr>ts_pc := InPoll\<rparr>" "re_timers loop_polling = TimerQueue_new" "\<not> re_early loop_polling"
proof -
  obtain r0 :: "(nat, int \<rightharpoonup> epoll_event) reactor"
    where r0: "EventLoop_create epoll_table_ctl False 0 1 5 2 6 False (\<lambda>_. Channel_new 0) Map.empty = Inr r0"
    using table_loop.created by blast
  then have start: "reactor_start epoll_table_ctl 0 1 5 2 6 (\<lambda>_. Channel_new 0) Map.empty (EventLoop_enter r0)"
    by (auto simp: reactor_start_def)
  have T: "re_threads (EventLoop_enter r0) = threads_init 0" by (rule reactor_start_threads [OF start])
  have eq: "loop_polling = on_threads (\<lambda>s. s\<lparr>ts_pc := InPoll\<rparr>) (EventLoop_enter r0)" unfolding loop_polling_def r0 by simp
  show "re_threads loop_polling = (threads_init 0)\<lparr>ts_pc := InPoll\<rparr>" unfolding eq by (simp add: T)
  show "re_timers loop_polling = TimerQueue_new" "\<not> re_early loop_polling"
    using r0 unfolding eq by (auto simp: EventLoop_create_def newDefaultPoller_def createTimerfd_def EventLoop_enter_def bindR_Inr_iff)
  show "reactor_reachable epoll_table_ctl usec (\<lambda>cb q. q) 0 1 5 2 6 (\<lambda>_. Channel_new 0) Map.empty loop_polling"
    unfolding eq
  proof (rule reachable_step)
    show "reactor_reachable epoll_table_ctl usec (\<lambda>cb q. q) 0 1 5 2 6 (\<lambda>_. Channel_new 0) Map.empty (EventLoop_enter r0)"
      by (rule reachable_start) (rule start)
    show "reactor_step usec (\<lambda>cb q. q) (EventLoop_enter r0) (on_threads (\<lambda>s. s\<lparr>ts_pc := InPoll\<rparr>) (EventLoop_enter r0))"
      by (rule enter_poll) (simp_all add: T threads_init_def)
  qed
qed

lemma loop_added_facts:
  "reactor_reachable epoll_table_ctl usec (\<lambda>cb q. q) 0 1 5 2 6 (\<lambda>_. Channel_new 0) Map.empty loop_added"
  "ts_pc (re_threads loop_added) = InPoll" "el_pendingFunctors (ts_loop (re_threads loop_added)) = [AddTimerInLoop 100]"
  "ts_waking (re_threads loop_added) = {}" "waiting_timers (re_threads loop_added) = [100]" "\<not> re_early loop_added"
proof -
  note P = loop_polling_facts
  have "reactor_step usec (\<lambda>cb q. q) loop_polling (addTimer_push 9 100 42 7 0 loop_polling)"
    by (rule queue_timer) (simp_all add: P(2,3) may_call_def threads_init_def isInLoopThread_def TimerQueue_new_def UINTPTR_MAX_def)
  from reachable_step [OF P(1) this] have r: "reactor_reachable epoll_table_ctl usec (\<lambda>cb q. q) 0 1 5 2 6 (\<lambda>_. Channel_new 0) Map.empty
      (addTimer_push 9 100 42 7 0 loop_polling)" .
  have "9 \<in> ts_waking (re_threads (addTimer_push 9 100 42 7 0 loop_polling))" by (simp add: addTimer_push_def)
  then show "reactor_reachable epoll_table_ctl usec (\<lambda>cb q. q) 0 1 5 2 6 (\<lambda>_. Channel_new 0) Map.empty loop_added"
    unfolding loop_added_def by (rule reachable_step [OF r call_wake])
  show "ts_pc (re_threads loop_added) = InPoll" "el_pendingFunctors (ts_loop (re_threads loop_added)) = [AddTimerInLoop 100]"
    "ts_waking (re_threads loop_added) = {}" "waiting_timers (re_threads loop_added) = [100]" "\<not> re_early loop_added"
    by (simp_all add: loop_added_def addTimer_push_def P(2,4) threads_init_def waiting_timers_def)
qed

theorem reactor_wakes_witness:
  "0 < el_wakeupCount (ts_loop (re_threads loop_added)) \<and> pl_kernel (re_poller loop_added) 6 = Some (kReadEvent, 2)"
  using reactor_wakes [OF table_loop.loop_reactor_axioms loop_added_facts(1,2) _ loop_added_facts(4)] loop_added_facts(3) by simp

theorem timers_owned_witness:
  "dom (tq_heap (re_timers loop_added)) = {100} \<union> snd ` set (tq_timers (re_timers loop_added)) \<and> armed_ok (re_timers loop_added)"
  using timers_owned [OF table_loop.loop_reactor_axioms loop_added_facts(1)] loop_added_facts(5,6) by simp

text \<open>When the loop is destroyed after \<open>loop()\<close> has returned, both descriptors are out of the interest list and
  the queued timers are freed; but a timer whose functor is still pending is left allocated for good.\<close>

lemma destroy_leaks_pending_timers:
  assumes "loop_reactor ctl interest exec pt pw timerfd evfd k"
    and "reactor_reachable ctl usec exec tid pt timerfd pw evfd heap k r" and "ts_pc (re_threads r) = Finished"
  shows "\<exists>r'. EventLoop_destroy ctl r = Inr r' \<and> interest (pl_kernel (re_poller r')) timerfd = None
    \<and> interest (pl_kernel (re_poller r')) evfd = None
    \<and> dom (tq_heap (re_timers r')) = {p. AddTimerInLoop p \<in> set (el_pendingFunctors (ts_loop (re_threads r)))}"
proof -
  have inv: "reactor_inv interest pt timerfd pw evfd r" by (rule loop_reactor.reactor_facts(1) [OF assms(1,2)])
  obtain r' where r': "EventLoop_destroy ctl r = Inr r'" "interest (pl_kernel (re_poller r')) timerfd = None"
    "interest (pl_kernel (re_poller r')) evfd = None" "re_timers r' = TimerQueue_destroy (re_timers r)"
    using loop_reactor.destroyed [OF assms(1) inv] by blast
  have own: "owns (waiting_timers (re_threads r)) (re_timers r)" using inv by (simp add: reactor_inv_def)
  have "p \<in> set (task_timer f) \<longleftrightarrow> f = AddTimerInLoop p" for p and f :: "'b task" by (cases f) auto
  then have "set (waiting_timers (re_threads r)) = {p. AddTimerInLoop p \<in> set (el_pendingFunctors (ts_loop (re_threads r)))}"
    using assms(3) by (auto simp: waiting_timers_def)
  moreover have "dom (tq_heap (re_timers r')) = dom (tq_heap (re_timers r)) - snd ` set (tq_timers (re_timers r))"
    by (auto simp: r'(4) TimerQueue_destroy_def dom_def)
  ultimately have "dom (tq_heap (re_timers r')) = {p. AddTimerInLoop p \<in> set (el_pendingFunctors (ts_loop (re_threads r)))}"
    using own by (auto simp: owns_def)
  then show ?thesis using r'(1-3) by blast
qed

end
