(* ===== verification/RequestTypes.thy ===== *)
theory RequestTypes
  imports HttpContext "HOL-Library.Sublist"
begin

text \<open>
  What the fields of a parsed request can be (\<open>src/src/http/HttpRequest.h\<close>, \<open>HttpContext.cc\<close>): the types that the
  strings of the source stand for, kept by every setter and by the parser, on any input.
\<close>

section \<open>Types of the fields\<close>

abbreviation no_crlf :: "bytes \<Rightarrow> bool" where
  "no_crlf s \<equiv> \<not> sublist kCRLF s"

definition path_type :: "bytes \<Rightarrow> bool" where
  "path_type s \<longleftrightarrow> no_crlf s \<and> CHR '' '' \<notin> set s \<and> CHR ''?'' \<notin> set s"

definition query_type :: "bytes \<Rightarrow> bool" where
  "query_type s \<longleftrightarrow> no_crlf s \<and> CHR '' '' \<notin> set s \<and> (s = [] \<or> hd s = CHR ''?'')"

definition field_type :: "bytes \<Rightarrow> bool" where
  "field_type s \<longleftrightarrow> no_crlf s \<and> CHR '':'' \<notin> set s"

definition value_type :: "bytes \<Rightarrow> bool" where
  "value_type s \<longleftrightarrow> no_crlf s \<and> (s = [] \<or> (\<not> is_space (hd s) \<and> \<not> is_space (last s)))"

definition headers_type :: "(bytes \<rightharpoonup> bytes) \<Rightarrow> bool" where
  "headers_type h \<longleftrightarrow> (\<forall>f v. h f = Some v \<longrightarrow> field_type f \<and> value_type v)"

definition request_type :: "http_request \<Rightarrow> bool" where
  "request_type r \<longleftrightarrow> path_type (rq_path r) \<and> query_type (rq_query r) \<and> headers_type (rq_headers r)"

text \<open>Past the request line the method is one of the five and the version known.\<close>

definition line_parsed :: "http_request \<Rightarrow> bool" where
  "line_parsed r \<longleftrightarrow> rq_method r \<noteq> kInvalid \<and> rq_version r \<noteq> kUnknown"

definition context_type :: "http_context \<Rightarrow> bool" where
  "context_type c \<longleftrightarrow> request_type (cx_request c)
     \<and> (cx_state c \<noteq> kExpectRequestLine \<longrightarrow> line_parsed (cx_request c))"

section \<open>Parts of a line\<close>

lemma no_crlf_part: "sublist s t \<Longrightarrow> no_crlf t \<Longrightarrow> no_crlf s"
  by (meson sublist_order.order_trans)

lemma take_find: "c \<notin> set (take (std_find c s) s)"
  by (induction s) auto

lemma drop_find: "c \<in> set s \<Longrightarrow> drop (std_find c s) s \<noteq> [] \<and> hd (drop (std_find c s) s) = c"
  by (induction s) auto

lemma std_search_first: "pat \<noteq> [] \<Longrightarrow> \<not> sublist pat (take (std_search pat s) s)"
proof (induction s)
  case (Cons x s)
  show ?case
  proof (cases "is_prefix pat (x # s)")
    case False
    let ?t = "take (std_search pat s) s"
    have "\<not> prefix pat (x # ?t)"
    proof
      assume "prefix pat (x # ?t)"
      then obtain z where "x # ?t = pat @ z" by (auto simp: prefix_def)
      then have "x # s = pat @ z @ drop (std_search pat s) s"
        by (metis append_Cons append_assoc append_take_drop_id)
      with False show False by (simp add: is_prefix_iff)
    qed
    with False Cons show ?thesis by (simp add: sublist_Cons_right)
  qed (use Cons.prems in simp)
qed simp

lemma split_line_no_crlf: "split_line s = Some (l, s') \<Longrightarrow> no_crlf l"
  using std_search_first [of kCRLF s] by (auto simp: split_line_def Let_def kCRLF_def split: if_splits)

lemma trim_right_part: "sublist (trim_right s) s"
  by (simp add: trim_right_def sublist_rev_left)

lemma trim_right_last: "trim_right s \<noteq> [] \<Longrightarrow> \<not> is_space (last (trim_right s))"
  unfolding trim_right_def by (metis hd_dropWhile last_rev rev_is_Nil_conv)

lemma trim_right_hd: "trim_right s \<noteq> [] \<Longrightarrow> hd (trim_right s) = hd s"
proof -
  assume ne: "trim_right s \<noteq> []"
  obtain p where "rev s = p @ dropWhile is_space (rev s)" by (metis takeWhile_dropWhile_id)
  then have "s = trim_right s @ rev p" unfolding trim_right_def by (metis rev_append rev_rev_ident)
  with ne show ?thesis by (metis hd_append2)
qed

lemma trimmed_value:
  assumes "no_crlf s"
  shows "value_type (trim_right (dropWhile is_space s))"
proof -
  let ?d = "dropWhile is_space s"
  have "sublist (trim_right ?d) s" by (meson trim_right_part sublist_dropWhile sublist_order.order_trans)
  with assms have "no_crlf (trim_right ?d)" by (rule no_crlf_part [rotated])
  moreover have "\<not> is_space (hd (trim_right ?d))" if "trim_right ?d \<noteq> []"
    using that trim_right_hd [OF that] hd_dropWhile [of is_space s] by (cases ?d) (auto simp: trim_right_def)
  ultimately show ?thesis using trim_right_last [of ?d] by (auto simp: value_type_def)
qed

section \<open>Setters and parser\<close>

lemma HttpRequest_new_type: "request_type HttpRequest_new"
  by (simp add: request_type_def HttpRequest_new_def path_type_def query_type_def headers_type_def kCRLF_def)

lemma addHeader_type:
  assumes "request_type r" "no_crlf line"
  shows "request_type (addHeader line (std_find (CHR '':'') line) r)"
proof -
  let ?k = "std_find (CHR '':'') line"
  have "field_type (take ?k line)"
    using no_crlf_part [OF sublist_take assms(2)] take_find [of "CHR '':''" line] by (simp add: field_type_def)
  moreover have "value_type (trim_right (dropWhile is_space (drop (Suc ?k) line)))"
    using no_crlf_part [OF sublist_drop assms(2)] by (rule trimmed_value)
  ultimately show ?thesis using assms(1) by (auto simp: addHeader_def Let_def request_type_def headers_type_def)
qed

lemma processTarget_type:
  assumes "request_type r" "no_crlf target" "CHR '' '' \<notin> set target"
  shows "request_type (processTarget target r)"
proof -
  let ?k = "std_find (CHR ''?'') target"
  have p: "no_crlf (take ?k target)" "CHR ''?'' \<notin> set (take ?k target)" "CHR '' '' \<notin> set (take ?k target)"
    using no_crlf_part [OF sublist_take assms(2)] take_find [of "CHR ''?''" target] assms(3) by (auto dest: in_set_takeD)
  show ?thesis
  proof (cases "CHR ''?'' \<in> set target")
    case True
    have q: "no_crlf (drop ?k target)" "CHR '' '' \<notin> set (drop ?k target)" "hd (drop ?k target) = CHR ''?''"
      using no_crlf_part [OF sublist_drop assms(2)] drop_find [OF True] assms(3) by (auto dest: in_set_dropD)
    have "?k \<noteq> length target" using True std_find_length_iff [of "CHR ''?''" target] by simp
    with assms(1) p q show ?thesis
      by (auto simp: processTarget_def Let_def setQuery_def setPath_def request_type_def path_type_def query_type_def)
  next
    case False
    then show ?thesis using assms
      by (simp add: processTarget_def Let_def setPath_def request_type_def path_type_def)
  qed
qed

lemma processRequestLine_type:
  assumes "request_type r" "no_crlf line" "processRequestLine line r = (ok, r')"
  shows "request_type r' \<and> (ok \<longrightarrow> line_parsed r')"
proof -
  let ?sp = "std_find (CHR '' '') line"
  let ?r1 = "r\<lparr>rq_method := method_of (take ?sp line)\<rparr>" and ?rest = "drop (Suc ?sp) line"
  let ?t = "take (std_find (CHR '' '') ?rest) ?rest"
  have r1: "request_type ?r1" using assms(1) by (simp add: request_type_def)
  have "no_crlf ?t" using no_crlf_part [OF sublist_take no_crlf_part [OF sublist_drop assms(2)]] .
  with r1 have t: "request_type (processTarget ?t ?r1)" using take_find by (intro processTarget_type)
  have "request_type (snd (processVersion v q)) \<and> rq_method (snd (processVersion v q)) = rq_method q
      \<and> (fst (processVersion v q) \<longrightarrow> rq_version (snd (processVersion v q)) \<noteq> kUnknown)" if "request_type q" for v q
    using that by (auto simp: processVersion_def setVersion_def request_type_def)
  moreover have "rq_method (processTarget ?t ?r1) = rq_method ?r1"
    by (simp add: processTarget_def Let_def setQuery_def setPath_def)
  ultimately show ?thesis using assms r1 t
    by (auto simp: processRequestLine_def setMethod_def Let_def line_parsed_def split: if_splits) (metis fst_conv snd_conv)+
qed

lemma http_headers_type:
  "request_type r \<Longrightarrow> line_parsed r \<Longrightarrow> http_headers r s = (fin, r', s') \<Longrightarrow> request_type r' \<and> line_parsed r'"
proof (induction r s rule: http_headers.induct)
  case (1 r s)
  show ?case
  proof (cases "split_line s")
    case None
    with 1 show ?thesis by (simp add: http_headers.simps [of r s])
  next
    case (Some x)
    obtain line s1 where x: "split_line s = Some (line, s1)" using Some by (cases x) auto
    let ?k = "std_find (CHR '':'') line"
    show ?thesis
    proof (cases "?k = length line")
      case True
      with 1 x show ?thesis by (simp add: http_headers.simps [of r s] Let_def)
    next
      case False
      have "request_type (addHeader line ?k r)" "line_parsed (addHeader line ?k r)"
        using addHeader_type [OF "1.prems"(1) split_line_no_crlf [OF x]] "1.prems"(2)
        by (simp_all add: line_parsed_def addHeader_def Let_def)
      from "1.IH" [OF x refl refl False this] "1.prems"(3) x False show ?thesis
        by (simp add: http_headers.simps [of r s] Let_def)
    qed
  qed
qed

lemma http_parse_type: "request_type r \<Longrightarrow> context_type (fst (snd (http_parse t r s)))"
proof -
  assume r: "request_type r"
  show ?thesis
  proof (cases "split_line s")
    case None
    with r show ?thesis by (simp add: http_parse_def context_type_def)
  next
    case (Some x)
    obtain line s1 where x: "split_line s = Some (line, s1)" using Some by (cases x) auto
    obtain ok r1 where p: "processRequestLine line r = (ok, r1)" by fastforce
    note r1 = processRequestLine_type [OF r split_line_no_crlf [OF x] p]
    show ?thesis
    proof (cases ok)
      case True
      have "request_type (setReceiveTime t r1)" "line_parsed (setReceiveTime t r1)"
        using r1 True by (simp_all add: setReceiveTime_def request_type_def line_parsed_def)
      from http_headers_type [OF this, of s1] True x p show ?thesis
        by (cases "http_headers (setReceiveTime t r1) s1") (simp add: http_parse_def headers_context_def context_type_def)
    qed (use r1 x p in \<open>simp add: http_parse_def context_type_def\<close>)
  qed
qed

section \<open>Properties\<close>

text \<open>Claim C19. The parser keeps the types of a request on any bytes: from a context of the right type whose
  request is not complete, \<open>parseRequest\<close> returns, and in the context it leaves the path holds no blank, question mark or line
  end, the query is empty or begins with its question mark, header names hold no colon and header values
  neither begin nor end in white space, none of them holds a line end, and past the request line method and version are valid.\<close>

theorem parse_keeps_types:
  assumes "buf_ok b" and "context_type c" and "cx_state c = kExpectRequestLine \<or> cx_state c = kExpectHeaders"
  shows "\<exists>ok c' b'. parseRequest c b t = Some (ok, c', b') \<and> context_type c' \<and> buf_ok b'"
proof (cases "cx_state c = kExpectRequestLine")
  case True
  let ?p = "http_parse t (cx_request c) (contents b)"
  have c: "c = \<lparr>cx_state = kExpectRequestLine, cx_request = cx_request c\<rparr>" using True by (cases c) simp
  have "context_type (fst (snd ?p))" using http_parse_type assms(2) by (simp add: context_type_def)
  then show ?thesis using parse_loop_request [OF assms(1), of t "cx_request c"] c unfolding parseRequest_def by metis
next
  case False
  let ?h = "http_headers (cx_request c) (contents b)"
  have c: "c = \<lparr>cx_state = kExpectHeaders, cx_request = cx_request c\<rparr>" using False assms(3) by (cases c) simp
  have "context_type (fst (headers_context ?h))"
    using http_headers_type [of "cx_request c" "contents b"] assms(2) False
    by (cases ?h) (simp add: headers_context_def context_type_def)
  then show ?thesis using parse_loop_headers [OF assms(1) refl, of t False "cx_request c"] c unfolding parseRequest_def by metis
qed

theorem parse_keeps_types_witness:
  "\<exists>ok c b. parseRequest HttpContext_new sample_buffer 7 = Some (ok, c, b) \<and> context_type c \<and> buf_ok b"
proof (rule parse_keeps_types)
  show "buf_ok sample_buffer" by (simp add: sample_buffer_def Let_def buf_ok_def kCheapPrepend_def render_request_def render_request_line_def
      render_header_def kCRLF_def)
  show "context_type HttpContext_new" by (simp add: context_type_def HttpContext_new_def HttpRequest_new_type)
qed (simp add: HttpContext_new_def)

end
