(* ===== verification/MemoryPool.thy ===== *)
theory MemoryPool
  imports Prelude
begin

text \<open>
  The memory pool (\<open>src/src/memory/MemoryPool.h\<close>, \<open>MemoryPool.cc\<close>). Addresses are numbers, \<open>0\<close> is
  the null pointer. The node structures live in partial maps from addresses, so that a pointer to
  freed or foreign memory has no node, and \<open>pm_blocks\<close> are the live blocks of the C heap with their
  sizes. Each call of \<open>posix_memalign\<close> is an argument: the block it returned, if any, and the bytes it
  found there, since fields the code does not set keep what the memory held. A loop over a list that
  need not end is \<open>None\<close>. Structure sizes are those of the LP64 ABI.
\<close>

section \<open>State\<close>

record small_node =
  sn_end :: nat
  sn_last :: nat
  sn_quote :: nat
  sn_failed :: nat
  sn_next :: nat

record large_node =
  ln_address :: nat
  ln_size :: nat
  ln_next :: nat

record pool_mem =
  pm_pool :: nat
  pm_largeList :: nat
  pm_head :: nat
  pm_current :: nat
  pm_small :: "nat \<rightharpoonup> small_node"
  pm_large :: "nat \<rightharpoonup> large_node"
  pm_blocks :: "nat \<rightharpoonup> nat"

definition PAGE_SIZE :: nat where "PAGE_SIZE = 4096"
definition MP_ALIGNMENT :: nat where "MP_ALIGNMENT = 16"
definition sizeof_Pool :: nat where "sizeof_Pool = 24"
definition sizeof_SmallNode :: nat where "sizeof_SmallNode = 32"
definition sizeof_LargeNode :: nat where "sizeof_LargeNode = 24"

lemmas pool_sizes = PAGE_SIZE_def MP_ALIGNMENT_def sizeof_Pool_def sizeof_SmallNode_def sizeof_LargeNode_def

text \<open>Rounding up to a multiple of a power of two by masking.\<close>

definition mp_align_ptr :: "nat \<Rightarrow> nat \<Rightarrow> nat" where
  "mp_align_ptr p alignment = (p + (alignment - 1)) - (p + (alignment - 1)) mod alignment"

text \<open>Increments and decrements of \<open>unsigned int\<close> wrap.\<close>

definition uint_inc :: "nat \<Rightarrow> nat" where
  "uint_inc n = (n + 1) mod 2 ^ 32"

definition uint_dec :: "nat \<Rightarrow> nat" where
  "uint_dec n = (n + 2 ^ 32 - 1) mod 2 ^ 32"

text \<open>Reading a node through a pointer, and \<open>free\<close>.\<close>

definition derefS :: "pool_mem \<Rightarrow> nat \<Rightarrow> small_node res" where
  "derefS m p = (if p = 0 then Inl NullDeref else case pm_small m p of None \<Rightarrow> Inl UseAfterFree | Some n \<Rightarrow> Inr n)"

definition derefL :: "pool_mem \<Rightarrow> nat \<Rightarrow> large_node res" where
  "derefL m p = (if p = 0 then Inl NullDeref else case pm_large m p of None \<Rightarrow> Inl UseAfterFree | Some n \<Rightarrow> Inr n)"

definition free_block :: "nat \<Rightarrow> pool_mem \<Rightarrow> pool_mem res" where
  "free_block p m =
     (if p = 0 then Inr m
      else case pm_blocks m p of
             None \<Rightarrow> Inl UseAfterFree
           | Some n \<Rightarrow> Inr (m\<lparr>pm_blocks := (pm_blocks m)(p := None),
               pm_small := (\<lambda>q. if p \<le> q \<and> q < p + n then None else pm_small m q),
               pm_large := (\<lambda>q. if p \<le> q \<and> q < p + n then None else pm_large m q)\<rparr>))"

definition set_small :: "nat \<Rightarrow> small_node \<Rightarrow> pool_mem \<Rightarrow> pool_mem" where
  "set_small p n m = m\<lparr>pm_small := (pm_small m)(p \<mapsto> n)\<rparr>"

section \<open>Operations\<close>

text \<open>\<open>createPool\<close> does not set \<open>quote_\<close> and \<open>next_\<close> of the first node.\<close>

definition createPool :: "nat option \<Rightarrow> small_node \<Rightarrow> pool_mem \<Rightarrow> pool_mem" where
  "createPool a junk m =
     (case a of
        None \<Rightarrow> m
      | Some p \<Rightarrow>
          (let head = p + sizeof_Pool
           in m\<lparr>pm_pool := p, pm_largeList := 0, pm_head := head, pm_current := head,
                pm_small := (pm_small m)(head \<mapsto> junk\<lparr>sn_last := p + sizeof_Pool + sizeof_SmallNode,
                  sn_end := p + PAGE_SIZE, sn_failed := 0\<rparr>),
                pm_blocks := (pm_blocks m)(p \<mapsto> PAGE_SIZE)\<rparr>))"

text \<open>The loop of \<open>mallocSmallNode\<close> over the nodes from \<open>current_\<close>: it returns the last node and the
  new \<open>current_\<close>.\<close>

partial_function (option) find_tail ::
  "nat \<Rightarrow> nat \<Rightarrow> pool_mem \<Rightarrow> (nat \<times> nat \<times> pool_mem) res option"
where
  "find_tail cur current m =
     (case derefS m cur of
        Inl e \<Rightarrow> Some (Inl e)
      | Inr n \<Rightarrow>
          if sn_next n \<noteq> 0
          then find_tail (sn_next n) (if 5 \<le> sn_failed n then sn_next n else current)
                 (set_small cur (n\<lparr>sn_failed := uint_inc (sn_failed n)\<rparr>) m)
          else Some (Inr (cur, current, m)))"

text \<open>\<open>mallocSmallNode\<close> does not set \<open>failed_\<close> of the new node and increments whatever \<open>quote_\<close> held.\<close>

definition mallocSmallNode ::
  "nat \<Rightarrow> nat option \<Rightarrow> small_node \<Rightarrow> pool_mem \<Rightarrow> (nat \<times> pool_mem) res option"
where
  "mallocSmallNode sz a junk m =
     (case a of
        None \<Rightarrow> Some (Inr (0, m))
      | Some block \<Rightarrow>
          (let addr = mp_align_ptr (block + sizeof_SmallNode) MP_ALIGNMENT;
               m1 = set_small block (junk\<lparr>sn_end := block + PAGE_SIZE, sn_next := 0, sn_last := addr + sz,
                      sn_quote := uint_inc (sn_quote junk)\<rparr>)
                      (m\<lparr>pm_blocks := (pm_blocks m)(block \<mapsto> PAGE_SIZE)\<rparr>)
           in case find_tail (pm_current m1) (pm_current m1) m1 of
                None \<Rightarrow> None
              | Some r \<Rightarrow> Some (bindR r (\<lambda>(cur, current, m2).
                  bindR (derefS m2 cur) (\<lambda>n.
                    Inr (addr, set_small cur (n\<lparr>sn_next := block\<rparr>) (m2\<lparr>pm_current := current\<rparr>)))))))"

text \<open>The loop of \<open>malloc\<close>: the first node from \<open>cur\<close> with room. The difference of the pointers is
  compared as an unsigned number.\<close>

partial_function (option) find_room :: "nat \<Rightarrow> nat \<Rightarrow> pool_mem \<Rightarrow> (nat \<times> nat) option res option" where
  "find_room sz cur m =
     (if cur = 0 then Some (Inr None)
      else case derefS m cur of
        Inl e \<Rightarrow> Some (Inl e)
      | Inr n \<Rightarrow>
          (let addr = mp_align_ptr (sn_last n) MP_ALIGNMENT
           in if sz \<le> size_of_int (int (sn_end n) - int addr) then Some (Inr (Some (cur, addr)))
              else find_room sz (sn_next n) m))"

text \<open>The branch of \<open>malloc\<close> for small sizes.\<close>

definition malloc_small ::
  "nat \<Rightarrow> nat option \<Rightarrow> small_node \<Rightarrow> pool_mem \<Rightarrow> (nat \<times> pool_mem) res option"
where
  "malloc_small sz a junk m =
     (case find_room sz (pm_current m) m of
        None \<Rightarrow> None
      | Some (Inl e) \<Rightarrow> Some (Inl e)
      | Some (Inr None) \<Rightarrow> mallocSmallNode sz a junk m
      | Some (Inr (Some (cur, addr))) \<Rightarrow> Some (bindR (derefS m cur) (\<lambda>n.
          Inr (addr, set_small cur (n\<lparr>sn_quote := uint_inc (sn_quote n), sn_last := addr + sz\<rparr>) m))))"

text \<open>The search of \<open>mallocLargeNode\<close> for a node without a block looks at five nodes at most.\<close>

fun find_large :: "nat \<Rightarrow> nat \<Rightarrow> pool_mem \<Rightarrow> nat option res" where
  "find_large count p m =
     (if p = 0 then Inr None
      else bindR (derefL m p) (\<lambda>n.
        if ln_address n = 0 then Inr (Some p)
        else case count of 0 \<Rightarrow> Inr None | Suc k \<Rightarrow> find_large k (ln_next n) m))"

text \<open>\<open>mallocLargeNode\<close>: \<open>aL\<close> is its own block; the node itself comes from \<open>malloc(sizeof(LargeNode))\<close>,
  which takes the small branch with the block \<open>aS\<close>. The size is kept as \<open>unsigned int\<close>.\<close>

definition mallocLargeNode ::
  "nat \<Rightarrow> nat option \<Rightarrow> nat option \<Rightarrow> small_node \<Rightarrow> pool_mem \<Rightarrow> (nat \<times> pool_mem) res option"
where
  "mallocLargeNode sz aL aS junk m =
     (case aL of
        None \<Rightarrow> Some (Inr (0, m))
      | Some addr \<Rightarrow>
          (let m1 = m\<lparr>pm_blocks := (pm_blocks m)(addr \<mapsto> sz)\<rparr>
           in case find_large 4 (pm_largeList m1) m1 of
                Inl e \<Rightarrow> Some (Inl e)
              | Inr (Some p) \<Rightarrow> Some (bindR (derefL m1 p) (\<lambda>n.
                  Inr (addr, m1\<lparr>pm_large := (pm_large m1)
                         (p \<mapsto> n\<lparr>ln_size := sz mod 2 ^ 32, ln_address := addr\<rparr>)\<rparr>)))
              | Inr None \<Rightarrow>
                  (case malloc_small sizeof_LargeNode aS junk m1 of
                     None \<Rightarrow> None
                   | Some r \<Rightarrow> Some (bindR r (\<lambda>(node, m2).
                       if node = 0 then bindR (free_block addr m2) (\<lambda>m3. Inr (0, m3))
                       else Inr (addr, m2\<lparr>pm_large := (pm_large m2)(node \<mapsto>
                              \<lparr>ln_address = addr, ln_size = sz mod 2 ^ 32, ln_next = pm_largeList m2\<rparr>),
                              pm_largeList := node\<rparr>))))))"

definition pool_malloc ::
  "nat \<Rightarrow> nat option \<Rightarrow> nat option \<Rightarrow> small_node \<Rightarrow> pool_mem \<Rightarrow> (nat \<times> pool_mem) res option"
where
  "pool_malloc sz aL aS junk m =
     (if sz = 0 then Some (Inr (0, m))
      else if PAGE_SIZE - sizeof_SmallNode < sz then mallocLargeNode sz aL aS junk m
      else malloc_small sz aS junk m)"

text \<open>\<open>calloc\<close> returns the range it clears as well.\<close>

definition pool_calloc ::
  "nat \<Rightarrow> nat option \<Rightarrow> nat option \<Rightarrow> small_node \<Rightarrow> pool_mem \<Rightarrow> (nat \<times> (nat \<times> nat) option \<times> pool_mem) res option"
where
  "pool_calloc sz aL aS junk m =
     (case pool_malloc sz aL aS junk m of
        None \<Rightarrow> None
      | Some r \<Rightarrow> Some (bindR r (\<lambda>(addr, m').
          Inr (addr, if addr \<noteq> 0 then Some (addr, sz) else None, m'))))"

text \<open>\<open>freeMemory\<close>: the large list is searched first.\<close>

partial_function (option) free_large :: "nat \<Rightarrow> nat \<Rightarrow> pool_mem \<Rightarrow> pool_mem option res option" where
  "free_large p large m =
     (if large = 0 then Some (Inr None)
      else case derefL m large of
        Inl e \<Rightarrow> Some (Inl e)
      | Inr n \<Rightarrow>
          if ln_address n = p
          then Some (bindR (free_block (ln_address n) m) (\<lambda>m1.
            Inr (Some (m1\<lparr>pm_large := (pm_large m1)(large \<mapsto> n\<lparr>ln_size := 0, ln_address := 0\<rparr>)\<rparr>))))
          else free_large p (ln_next n) m)"

partial_function (option) free_small :: "nat \<Rightarrow> nat \<Rightarrow> pool_mem \<Rightarrow> pool_mem res option" where
  "free_small p small m =
     (if small = 0 then Some (Inr m)
      else case derefS m small of
        Inl e \<Rightarrow> Some (Inl e)
      | Inr n \<Rightarrow>
          if small \<le> p \<and> p \<le> sn_end n
          then let n1 = n\<lparr>sn_quote := uint_dec (sn_quote n)\<rparr>
               in Some (Inr (if sn_quote n1 = 0
                    then let last = (if small = pm_head m then pm_pool m + sizeof_Pool + sizeof_SmallNode
                                     else small + sizeof_SmallNode)
                         in (set_small small (n1\<lparr>sn_last := last, sn_failed := 0\<rparr>) m)\<lparr>pm_current := pm_head m\<rparr>
                    else set_small small n1 m))
          else free_small p (sn_next n) m)"

definition freeMemory :: "nat \<Rightarrow> pool_mem \<Rightarrow> pool_mem res option" where
  "freeMemory p m =
     (case free_large p (pm_largeList m) m of
        None \<Rightarrow> None
      | Some (Inl e) \<Rightarrow> Some (Inl e)
      | Some (Inr (Some m1)) \<Rightarrow> Some (Inr m1)
      | Some (Inr None) \<Rightarrow> free_small p (pm_head m) m)"

text \<open>\<open>resetPool\<close> frees the large blocks and empties every page.\<close>

partial_function (option) reset_large :: "nat \<Rightarrow> pool_mem \<Rightarrow> pool_mem res option" where
  "reset_large large m =
     (if large = 0 then Some (Inr m)
      else case derefL m large of
        Inl e \<Rightarrow> Some (Inl e)
      | Inr n \<Rightarrow>
          (case (if ln_address n \<noteq> 0 then free_block (ln_address n) m else Inr m) of
             Inl e \<Rightarrow> Some (Inl e)
           | Inr m1 \<Rightarrow> reset_large (ln_next n) m1))"

partial_function (option) reset_small :: "nat \<Rightarrow> pool_mem \<Rightarrow> pool_mem res option" where
  "reset_small small m =
     (if small = 0 then Some (Inr m)
      else case derefS m small of
        Inl e \<Rightarrow> Some (Inl e)
      | Inr n \<Rightarrow> reset_small (sn_next n)
          (set_small small (n\<lparr>sn_last := small + sizeof_SmallNode, sn_failed := 0, sn_quote := 0\<rparr>) m))"

definition resetPool :: "pool_mem \<Rightarrow> pool_mem res option" where
  "resetPool m =
     (let small = pm_head m
      in case reset_large (pm_largeList m) m of
           None \<Rightarrow> None
         | Some (Inl e) \<Rightarrow> Some (Inl e)
         | Some (Inr m1) \<Rightarrow> reset_small small (m1\<lparr>pm_largeList := 0, pm_current := pm_head m1\<rparr>))"

text \<open>\<open>destroyPool\<close>: the second loop reads \<open>cur->next_\<close> again after \<open>free(cur)\<close>.\<close>

partial_function (option) destroy_large :: "nat \<Rightarrow> pool_mem \<Rightarrow> pool_mem res option" where
  "destroy_large large m =
     (if large = 0 then Some (Inr m)
      else case derefL m large of
        Inl e \<Rightarrow> Some (Inl e)
      | Inr n \<Rightarrow>
          (case (if ln_address n \<noteq> 0
                 then bindR (free_block (ln_address n) m) (\<lambda>m1.
                   Inr (m1\<lparr>pm_large := (pm_large m1)(large \<mapsto> n\<lparr>ln_address := 0\<rparr>)\<rparr>))
                 else Inr m) of
             Inl e \<Rightarrow> Some (Inl e)
           | Inr m1 \<Rightarrow> destroy_large (ln_next n) m1))"

partial_function (option) destroy_small :: "nat \<Rightarrow> pool_mem \<Rightarrow> pool_mem res option" where
  "destroy_small cur m =
     (if cur = 0 then Some (Inr m)
      else case derefS m cur of
        Inl e \<Rightarrow> Some (Inl e)
      | Inr n \<Rightarrow>
          (case free_block cur m of
             Inl e \<Rightarrow> Some (Inl e)
           | Inr m1 \<Rightarrow>
               (case derefS m1 cur of
                  Inl e \<Rightarrow> Some (Inl e)
                | Inr n1 \<Rightarrow> destroy_small (sn_next n1) m1)))"

definition destroyPool :: "pool_mem \<Rightarrow> pool_mem res option" where
  "destroyPool m =
     (case destroy_large (pm_largeList m) m of
        None \<Rightarrow> None
      | Some (Inl e) \<Rightarrow> Some (Inl e)
      | Some (Inr m1) \<Rightarrow>
          (case derefS m1 (pm_head m1) of
             Inl e \<Rightarrow> Some (Inl e)
           | Inr h \<Rightarrow>
               (case destroy_small (sn_next h) m1 of
                  None \<Rightarrow> None
                | Some r \<Rightarrow> Some (bindR r (free_block (pm_pool m1))))))"

section \<open>Lists of pages\<close>

fun chain :: "(nat \<rightharpoonup> small_node) \<Rightarrow> nat \<Rightarrow> nat list \<Rightarrow> bool" where
  "chain h p [] \<longleftrightarrow> p = 0"
| "chain h p (q # qs) \<longleftrightarrow> p = q \<and> p \<noteq> 0 \<and> (\<exists>n. h p = Some n \<and> chain h (sn_next n) qs)"

lemma chain_cong: "(\<And>q. q \<in> set ns \<Longrightarrow> map_option sn_next (h' q) = map_option sn_next (h q)) \<Longrightarrow> chain h' p ns = chain h p ns"
proof (induction ns arbitrary: p)
  case Nil
  then show ?case by simp
next
  case (Cons q ns)
  have "map_option sn_next (h' q) = map_option sn_next (h q)" using Cons.prems by simp
  moreover have "chain h' p' ns = chain h p' ns" for p' using Cons by simp
  ultimately show ?case by (cases "h q"; cases "h' q") auto
qed

lemma chain_suffix: "chain h p (pre @ q # qs) \<Longrightarrow> chain h q (q # qs)"
  by (induction pre arbitrary: p) auto

lemma chain_nonzero: "chain h p ns \<Longrightarrow> q \<in> set ns \<Longrightarrow> q \<noteq> 0 \<and> (\<exists>n. h q = Some n)"
  by (induction ns arbitrary: p) auto

lemma chain_snoc:
  assumes "chain h p ns" "ns \<noteq> []" "distinct ns" "b \<notin> set ns" "b \<noteq> 0"
    and "h' b = Some nb" "sn_next nb = 0" "h' (last ns) = Some nl" "sn_next nl = b"
    and "\<And>q. q \<in> set (butlast ns) \<Longrightarrow> map_option sn_next (h' q) = map_option sn_next (h q)"
  shows "chain h' p (ns @ [b])"
  using assms
proof (induction ns arbitrary: p)
  case Nil
  then show ?case by simp
next
  case (Cons q qs)
  show ?case
  proof (cases "qs = []")
    case True
    then show ?thesis using Cons.prems by auto
  next
    case False
    from Cons.prems(1) obtain n where n: "p = q" "q \<noteq> 0" "h q = Some n" "chain h (sn_next n) qs" by auto
    have "map_option sn_next (h' q) = map_option sn_next (h q)" using Cons.prems(10) False by simp
    then obtain n' where n': "h' q = Some n'" "sn_next n' = sn_next n" using n(3) by (cases "h' q") auto
    have "chain h' (sn_next n) (qs @ [b])"
      using Cons.prems n(4) False by (intro Cons.IH) auto
    then show ?thesis using n n' by auto
  qed
qed

text \<open>The search for room, and the walk to the last page.\<close>

fun room :: "nat \<Rightarrow> (nat \<rightharpoonup> small_node) \<Rightarrow> nat list \<Rightarrow> (nat \<times> nat) option" where
  "room sz h [] = None"
| "room sz h (q # qs) =
     (case h q of
        None \<Rightarrow> None
      | Some n \<Rightarrow> (let addr = mp_align_ptr (sn_last n) MP_ALIGNMENT
          in if sz \<le> size_of_int (int (sn_end n) - int addr) then Some (q, addr) else room sz h qs))"

lemma find_room_chain: "chain (pm_small m) cur ns \<Longrightarrow> find_room sz cur m = Some (Inr (room sz (pm_small m) ns))"
proof (induction ns arbitrary: cur)
  case Nil
  then show ?case by (subst find_room.simps) simp
next
  case (Cons q qs)
  then show ?case by (subst find_room.simps) (auto simp: derefS_def Let_def)
qed

lemma room_Some: "room sz h ns = Some (q, addr) \<Longrightarrow> q \<in> set ns \<and>
   (\<exists>n. h q = Some n \<and> addr = mp_align_ptr (sn_last n) MP_ALIGNMENT \<and> sz \<le> size_of_int (int (sn_end n) - int addr))"
  by (induction ns) (auto simp: Let_def split: option.splits if_splits)

text \<open>The walk changes the failure counts only.\<close>

definition page_view :: "small_node \<Rightarrow> nat \<times> nat \<times> nat \<times> nat" where
  "page_view n = (sn_end n, sn_last n, sn_quote n, sn_next n)"

definition only_failed :: "(nat \<rightharpoonup> small_node) \<Rightarrow> (nat \<rightharpoonup> small_node) \<Rightarrow> bool" where
  "only_failed h h' \<longleftrightarrow> (\<forall>q. map_option page_view (h' q) = map_option page_view (h q))"

lemma only_failed_refl [simp]: "only_failed h h"
  by (simp add: only_failed_def)

lemma only_failed_trans: "only_failed h1 h2 \<Longrightarrow> only_failed h2 h3 \<Longrightarrow> only_failed h1 h3"
  by (simp add: only_failed_def)

lemma only_failedD:
  assumes "only_failed h h'" "h q = Some n"
  shows "\<exists>n'. h' q = Some n' \<and> sn_end n' = sn_end n \<and> sn_last n' = sn_last n \<and> sn_next n' = sn_next n"
  using assms by (cases "h' q") (auto simp: only_failed_def page_view_def dest!: spec [of _ q])

lemma chain_other: "q \<notin> set ns \<Longrightarrow> chain (h(q := x)) p ns = chain h p ns"
  by (rule chain_cong) auto

lemma find_tail_chain:
  "chain (pm_small m) cur ns \<Longrightarrow> ns \<noteq> [] \<Longrightarrow> distinct ns \<Longrightarrow>
   \<exists>current' h'. find_tail cur current m = Some (Inr (last ns, current', m\<lparr>pm_small := h'\<rparr>))
     \<and> (current' = current \<or> current' \<in> set ns) \<and> only_failed (pm_small m) h'"
proof (induction ns arbitrary: cur current m)
  case Nil
  then show ?case by simp
next
  case (Cons q qs)
  from Cons.prems(1) obtain n where n: "cur = q" "q \<noteq> 0" "pm_small m q = Some n" "chain (pm_small m) (sn_next n) qs"
    by auto
  show ?case
  proof (cases "qs = []")
    case True
    then show ?thesis
      using n by (subst find_tail.simps) (auto simp: derefS_def intro!: exI [of _ "pm_small m"])
  next
    case False
    let ?m1 = "set_small q (n\<lparr>sn_failed := uint_inc (sn_failed n)\<rparr>) m"
    have nz: "sn_next n \<noteq> 0" using n(4) False by (cases qs) auto
    have "chain (pm_small ?m1) (sn_next n) qs"
      using n(4) Cons.prems(3) by (simp add: set_small_def chain_other)
    from Cons.IH [OF this False, of "if 5 \<le> sn_failed n then sn_next n else current"] Cons.prems(3) obtain current' h' where
      r: "find_tail (sn_next n) (if 5 \<le> sn_failed n then sn_next n else current) ?m1
         = Some (Inr (last qs, current', ?m1\<lparr>pm_small := h'\<rparr>))"
      "current' = (if 5 \<le> sn_failed n then sn_next n else current) \<or> current' \<in> set qs" "only_failed (pm_small ?m1) h'"
      by auto
    have "sn_next n \<in> set qs" using n(4) False by (cases qs) auto
    moreover have "only_failed (pm_small m) (pm_small ?m1)"
      using n(3) by (simp add: only_failed_def set_small_def page_view_def)
    moreover have "find_tail cur current m = find_tail (sn_next n) (if 5 \<le> sn_failed n then sn_next n else current) ?m1"
      using n nz by (subst find_tail.simps) (simp add: derefS_def)
    ultimately show ?thesis
      using r False only_failed_trans by (auto simp: set_small_def split: if_splits)
  qed
qed

section \<open>Invariant of the pool\<close>

text \<open>The first page holds the \<open>Pool\<close> structure before its node.\<close>

definition page_base :: "pool_mem \<Rightarrow> nat \<Rightarrow> nat" where
  "page_base m p = (if p = pm_head m then pm_pool m else p)"

definition node_ok :: "pool_mem \<Rightarrow> nat \<Rightarrow> bool" where
  "node_ok m p \<longleftrightarrow> (\<exists>n. pm_small m p = Some n \<and> p + sizeof_SmallNode \<le> sn_last n \<and> sn_last n \<le> sn_end n
     \<and> sn_end n = page_base m p + PAGE_SIZE \<and> MP_ALIGNMENT dvd page_base m p \<and> sn_end n < 2 ^ 63)"

definition apart :: "nat \<Rightarrow> nat \<Rightarrow> bool" where
  "apart b c \<longleftrightarrow> b + PAGE_SIZE \<le> c \<or> c + PAGE_SIZE \<le> b"

definition pool_inv :: "pool_mem \<Rightarrow> nat list \<Rightarrow> bool" where
  "pool_inv m ns \<longleftrightarrow> chain (pm_small m) (pm_head m) ns \<and> distinct ns \<and> ns \<noteq> []
     \<and> pm_head m = pm_pool m + sizeof_Pool \<and> pm_pool m \<noteq> 0 \<and> pm_current m \<in> set ns
     \<and> (\<forall>p \<in> set ns. node_ok m p)
     \<and> (\<forall>p \<in> set ns. \<forall>q \<in> set ns. p \<noteq> q \<longrightarrow> apart (page_base m p) (page_base m q))"

text \<open>What \<open>posix_memalign\<close> promises: an aligned block that overlaps no page of the pool.\<close>

definition fresh_page :: "pool_mem \<Rightarrow> nat list \<Rightarrow> nat \<Rightarrow> bool" where
  "fresh_page m ns b \<longleftrightarrow> b \<noteq> 0 \<and> MP_ALIGNMENT dvd b \<and> b + PAGE_SIZE < 2 ^ 63 \<and> (\<forall>p \<in> set ns. apart (page_base m p) b)"

text \<open>The bytes of a page that have been handed out.\<close>

definition used :: "pool_mem \<Rightarrow> nat \<Rightarrow> nat set" where
  "used m p = (case pm_small m p of None \<Rightarrow> {} | Some n \<Rightarrow> {p + sizeof_SmallNode ..< sn_last n})"

lemma mp_align_dvd [simp]: "MP_ALIGNMENT dvd mp_align_ptr p MP_ALIGNMENT"
  by (simp add: mp_align_ptr_def MP_ALIGNMENT_def)

lemma mp_align_ge: "p \<le> mp_align_ptr p MP_ALIGNMENT"
proof -
  have "(p + 15) mod 16 \<le> 15" using mod_less_divisor [of 16 "p + 15"] by simp
  then show ?thesis by (simp add: mp_align_ptr_def MP_ALIGNMENT_def)
qed

lemma mp_align_le: "p \<le> e \<Longrightarrow> MP_ALIGNMENT dvd e \<Longrightarrow> mp_align_ptr p MP_ALIGNMENT \<le> e"
proof -
  assume "p \<le> e" "MP_ALIGNMENT dvd e"
  then obtain k where "e = 16 * k" by (auto simp: MP_ALIGNMENT_def)
  with \<open>p \<le> e\<close> have "(p + 15) div 16 \<le> k" by simp
  then have "16 * ((p + 15) div 16) \<le> e" using \<open>e = 16 * k\<close> by simp
  then show ?thesis by (simp add: mp_align_ptr_def MP_ALIGNMENT_def minus_mod_eq_mult_div)
qed

lemma used_page: "node_ok m p \<Longrightarrow> pool_inv m ns \<Longrightarrow> used m p \<subseteq> {page_base m p + sizeof_SmallNode ..< page_base m p + PAGE_SIZE}"
  by (auto simp: used_def node_ok_def pool_inv_def page_base_def split: option.splits)

text \<open>Handing out bytes of an existing page.\<close>

lemma take_room_inv:
  assumes inv: "pool_inv m ns" and q: "q \<in> set ns" "pm_small m q = Some n"
    and addr: "addr = mp_align_ptr (sn_last n) MP_ALIGNMENT" "sz \<le> size_of_int (int (sn_end n) - int addr)"
    and m': "m' = set_small q (n\<lparr>sn_quote := k, sn_last := addr + sz\<rparr>) m"
  shows "pool_inv m' ns" "addr + sz \<le> sn_end n" "q + sizeof_SmallNode \<le> addr"
    "used m' q = {q + sizeof_SmallNode ..< addr + sz}"
    "used m q \<subseteq> {q + sizeof_SmallNode ..< addr}" "\<And>p. p \<noteq> q \<Longrightarrow> used m' p = used m p"
proof -
  have "node_ok m q" using inv q(1) by (simp add: pool_inv_def)
  with q(2) have n: "q + sizeof_SmallNode \<le> sn_last n" "sn_last n \<le> sn_end n" "sn_end n < 2 ^ 63"
    "sn_end n = page_base m q + PAGE_SIZE" "MP_ALIGNMENT dvd page_base m q"
    by (simp_all add: node_ok_def)
  have "MP_ALIGNMENT dvd PAGE_SIZE" by (simp add: pool_sizes)
  then have "MP_ALIGNMENT dvd sn_end n" using n(4,5) by simp
  then have le: "addr \<le> sn_end n" using addr(1) n(2) by (simp add: mp_align_le)
  then have diff: "int (sn_end n) - int addr = int (sn_end n - addr)" by (rule of_nat_diff [symmetric])
  have "sn_end n - addr < 2 ^ 64" using n(3) by simp
  then have "sz \<le> sn_end n - addr" using addr(2) unfolding diff by (simp only: size_of_int_exact)
  then show hi: "addr + sz \<le> sn_end n" using le by simp
  have ge: "sn_last n \<le> addr" using addr(1) mp_align_ge by simp
  then show lo: "q + sizeof_SmallNode \<le> addr" using n(1) by simp
  show "used m' q = {q + sizeof_SmallNode ..< addr + sz}" by (simp add: used_def m' set_small_def)
  show "used m q \<subseteq> {q + sizeof_SmallNode ..< addr}" using q(2) ge by (auto simp: used_def)
  show "used m' p = used m p" if "p \<noteq> q" for p using that by (simp add: used_def m' set_small_def)
  have pb: "page_base m' = page_base m" by (simp add: page_base_def m' set_small_def fun_eq_iff)
  have "chain (pm_small m') (pm_head m) ns = chain (pm_small m) (pm_head m) ns"
    using q(2) by (intro chain_cong) (simp add: m' set_small_def)
  moreover have "node_ok m' p" if "p \<in> set ns" for p
  proof (cases "p = q")
    case True
    then show ?thesis using n hi lo unfolding node_ok_def pb by (simp add: m' set_small_def)
  next
    case False
    have "node_ok m p" using inv that by (simp add: pool_inv_def)
    then show ?thesis using False unfolding node_ok_def pb by (simp add: m' set_small_def)
  qed
  moreover have "pm_head m' = pm_head m" "pm_pool m' = pm_pool m" "pm_current m' = pm_current m"
    by (simp_all add: m' set_small_def)
  ultimately show "pool_inv m' ns" using inv pb by (auto simp: pool_inv_def)
qed

text \<open>Adding a page.\<close>

lemma fresh_page_new:
  assumes "pool_inv m ns" "fresh_page m ns b"
  shows "b \<notin> set ns" "b \<noteq> pm_head m" "b \<noteq> 0"
proof -
  have "pm_head m \<in> set ns" using assms(1) by (cases ns) (auto simp: pool_inv_def)
  then have "apart (pm_pool m) b" using assms(2) by (auto simp: fresh_page_def page_base_def)
  then show h: "b \<noteq> pm_head m" using assms(1) by (auto simp: pool_inv_def apart_def pool_sizes)
  show "b \<noteq> 0" using assms(2) by (simp add: fresh_page_def)
  show "b \<notin> set ns"
  proof
    assume "b \<in> set ns"
    then have "apart (page_base m b) b" using assms(2) by (simp add: fresh_page_def)
    then show False using h by (simp add: apart_def page_base_def pool_sizes)
  qed
qed

text \<open>A page linked behind the last one, the others keeping their limits.\<close>

lemma linked_page_inv:
  assumes inv: "pool_inv m ns" and b: "fresh_page m ns b"
    and nb: "pm_small m' b = Some nb" "sn_next nb = 0" "sn_end nb = b + PAGE_SIZE"
      "b + sizeof_SmallNode \<le> sn_last nb" "sn_last nb \<le> sn_end nb"
    and nl: "pm_small m' (last ns) = Some nl" "sn_next nl = b"
    and keep: "\<And>q n. q \<in> set ns \<Longrightarrow> pm_small m q = Some n \<Longrightarrow>
        \<exists>n'. pm_small m' q = Some n' \<and> sn_end n' = sn_end n \<and> sn_last n' = sn_last n
          \<and> (q \<in> set (butlast ns) \<longrightarrow> sn_next n' = sn_next n)"
    and same: "pm_head m' = pm_head m" "pm_pool m' = pm_pool m" "pm_current m' \<in> set ns"
  shows "pool_inv m' (ns @ [b])" "\<And>q. q \<in> set ns \<Longrightarrow> used m' q = used m q"
proof -
  note new = fresh_page_new [OF inv b]
  have ns: "chain (pm_small m) (pm_head m) ns" "ns \<noteq> []" "distinct ns"
    using inv unfolding pool_inv_def by blast+
  have pb: "page_base m' = page_base m" using same by (simp add: page_base_def fun_eq_iff)
  have "chain (pm_small m') (pm_head m') (ns @ [b])"
    unfolding same(1)
  proof (rule chain_snoc [OF ns(1-3) new(1,3) nb(1,2) nl])
    fix q assume q: "q \<in> set (butlast ns)"
    then have "q \<in> set ns" by (rule in_set_butlastD)
    with chain_nonzero [OF ns(1)] obtain n where "pm_small m q = Some n" by blast
    with keep [OF \<open>q \<in> set ns\<close> this] q show "map_option sn_next (pm_small m' q) = map_option sn_next (pm_small m q)"
      by auto
  qed
  moreover have "node_ok m' q" if "q \<in> set ns" for q
  proof -
    have "node_ok m q" using inv that by (simp add: pool_inv_def)
    then obtain n where "pm_small m q = Some n" "q + sizeof_SmallNode \<le> sn_last n" "sn_last n \<le> sn_end n"
      "sn_end n = page_base m q + PAGE_SIZE" "MP_ALIGNMENT dvd page_base m q" "sn_end n < 2 ^ 63"
      unfolding node_ok_def by blast
    then show ?thesis using keep [OF that] unfolding node_ok_def pb by fastforce
  qed
  moreover have "node_ok m' b"
    using nb b new(2) same(1) by (simp add: node_ok_def page_base_def fresh_page_def)
  moreover have "apart (page_base m q) b" "apart b (page_base m q)" if "q \<in> set ns" for q
    using b that by (auto simp: fresh_page_def apart_def)
  moreover have "page_base m b = b" using new(2) by (simp add: page_base_def)
  ultimately show "pool_inv m' (ns @ [b])"
    using inv new(1) same unfolding pool_inv_def pb by auto
  show "used m' q = used m q" if "q \<in> set ns" for q
  proof -
    from chain_nonzero [OF ns(1) that] obtain n where "pm_small m q = Some n" by blast
    with keep [OF that this] show ?thesis by (auto simp: used_def)
  qed
qed

text \<open>The new page, and what \<open>mallocSmallNode\<close> does to the others: it counts failures and links the last one to it.\<close>

definition new_node :: "small_node \<Rightarrow> nat \<Rightarrow> nat \<Rightarrow> small_node" where
  "new_node junk b sz = junk\<lparr>sn_end := b + PAGE_SIZE, sn_next := 0, sn_last := b + sizeof_SmallNode + sz,
     sn_quote := uint_inc (sn_quote junk)\<rparr>"

lemma mallocSmallNode_run:
  assumes inv: "pool_inv m ns" and b: "fresh_page m ns b"
  shows "\<exists>h' current' nl. mallocSmallNode sz (Some b) junk m = Some (Inr (b + sizeof_SmallNode,
      m\<lparr>pm_blocks := (pm_blocks m)(b \<mapsto> PAGE_SIZE), pm_small := h'(last ns \<mapsto> nl\<lparr>sn_next := b\<rparr>), pm_current := current'\<rparr>))
    \<and> only_failed ((pm_small m)(b \<mapsto> new_node junk b sz)) h' \<and> h' (last ns) = Some nl \<and> current' \<in> set ns"
proof -
  note new = fresh_page_new [OF inv b]
  have ns: "chain (pm_small m) (pm_head m) ns" "ns \<noteq> []" "distinct ns" "pm_current m \<in> set ns"
    using inv unfolding pool_inv_def by blast+
  have al: "mp_align_ptr (b + sizeof_SmallNode) MP_ALIGNMENT = b + sizeof_SmallNode"
    using b by (auto simp: fresh_page_def mp_align_ptr_def pool_sizes)
  define m1 where "m1 = set_small b (new_node junk b sz) (m\<lparr>pm_blocks := (pm_blocks m)(b \<mapsto> PAGE_SIZE)\<rparr>)"
  have m1: "pm_small m1 = (pm_small m)(b \<mapsto> new_node junk b sz)" "pm_current m1 = pm_current m"
    by (simp_all add: m1_def set_small_def)
  from ns(4) obtain pre qs where split: "ns = pre @ pm_current m # qs" by (meson split_list)
  have "chain (pm_small m1) (pm_current m) (pm_current m # qs)"
    using chain_suffix [OF ns(1) [unfolded split]] new(1) split
    by (simp add: m1(1) chain_other del: chain.simps)
  from find_tail_chain [OF this, of "pm_current m"] ns(3) split obtain current' h' where
    ft: "find_tail (pm_current m) (pm_current m) m1 = Some (Inr (last ns, current', m1\<lparr>pm_small := h'\<rparr>))"
      "current' = pm_current m \<or> current' \<in> set (pm_current m # qs)" "only_failed (pm_small m1) h'"
    by auto
  have last: "last ns \<in> set ns" "last ns \<noteq> b" "last ns \<noteq> 0"
    using ns(2) new(1) chain_nonzero [OF ns(1)] by (auto simp: last_in_set)
  from chain_nonzero [OF ns(1) last(1)] obtain n0 where "pm_small m1 (last ns) = Some n0" using last(2) by (auto simp: m1(1))
  from only_failedD [OF ft(3) this] obtain nl where nl: "h' (last ns) = Some nl" by blast
  have "mallocSmallNode sz (Some b) junk m
      = Some (Inr (b + sizeof_SmallNode, set_small (last ns) (nl\<lparr>sn_next := b\<rparr>) (m1\<lparr>pm_small := h', pm_current := current'\<rparr>)))"
    using ft(1) nl last(3) m1(2)
    by (simp add: mallocSmallNode_def al Let_def new_node_def [symmetric] m1_def [symmetric] derefS_def)
  moreover have "current' \<in> set ns" using ft(2) split by auto
  ultimately show ?thesis using ft(3) nl unfolding m1(1)
    by (intro exI [of _ h'] exI [of _ current'] exI [of _ nl]) (simp add: m1_def set_small_def)
qed

lemma mallocSmallNode_ok:
  assumes inv: "pool_inv m ns" and b: "fresh_page m ns b" and sz: "sz \<le> PAGE_SIZE - sizeof_SmallNode"
  shows "\<exists>m'. mallocSmallNode sz (Some b) junk m = Some (Inr (b + sizeof_SmallNode, m')) \<and> pool_inv m' (ns @ [b])
    \<and> (\<forall>q \<in> set ns. used m' q = used m q) \<and> used m' b = {b + sizeof_SmallNode ..< b + sizeof_SmallNode + sz}
    \<and> pm_blocks m' = (pm_blocks m)(b \<mapsto> PAGE_SIZE) \<and> pm_largeList m' = pm_largeList m"
proof -
  note new = fresh_page_new [OF inv b]
  have ns: "ns \<noteq> []" "distinct ns" using inv unfolding pool_inv_def by blast+
  from mallocSmallNode_run [OF inv b, of sz junk] obtain h' current' nl where
    run: "mallocSmallNode sz (Some b) junk m = Some (Inr (b + sizeof_SmallNode,
      m\<lparr>pm_blocks := (pm_blocks m)(b \<mapsto> PAGE_SIZE), pm_small := h'(last ns \<mapsto> nl\<lparr>sn_next := b\<rparr>), pm_current := current'\<rparr>))"
    and ft: "only_failed ((pm_small m)(b \<mapsto> new_node junk b sz)) h'" and nl: "h' (last ns) = Some nl" "current' \<in> set ns" by blast
  let ?m' = "m\<lparr>pm_blocks := (pm_blocks m)(b \<mapsto> PAGE_SIZE), pm_small := h'(last ns \<mapsto> nl\<lparr>sn_next := b\<rparr>), pm_current := current'\<rparr>"
  have last: "last ns \<noteq> b" using ns(1) new(1) last_in_set by blast
  from only_failedD [OF ft, of b "new_node junk b sz"] obtain nb' where
    nb': "h' b = Some nb'" "sn_end nb' = b + PAGE_SIZE" "sn_last nb' = b + sizeof_SmallNode + sz" "sn_next nb' = 0"
    by (auto simp: new_node_def)
  have keep: "\<exists>n'. pm_small ?m' q = Some n' \<and> sn_end n' = sn_end n \<and> sn_last n' = sn_last n
      \<and> (q \<in> set (butlast ns) \<longrightarrow> sn_next n' = sn_next n)" if "q \<in> set ns" "pm_small m q = Some n" for q n
  proof -
    have "((pm_small m)(b \<mapsto> new_node junk b sz)) q = Some n" using that new(1) by auto
    moreover have "last ns \<notin> set (butlast ns)"
      using ns by (metis append_butlast_last_id disjoint_iff distinct_append list.set_intros(1))
    ultimately show ?thesis using only_failedD [OF ft] nl(1) by fastforce
  qed
  then have "pool_inv ?m' (ns @ [b])" "\<And>q. q \<in> set ns \<Longrightarrow> used ?m' q = used m q"
    using linked_page_inv [OF inv b, of ?m' nb' "nl\<lparr>sn_next := b\<rparr>"] nb' sz last nl(2) by (auto simp: pool_sizes)
  moreover have "used ?m' b = {b + sizeof_SmallNode ..< b + sizeof_SmallNode + sz}"
    using nb' last by (simp add: used_def)
  ultimately show ?thesis using run by auto
qed

lemma pool_invD:
  assumes "pool_inv m ns"
  shows "chain (pm_small m) (pm_head m) ns" "pm_current m \<in> set ns" "p \<in> set ns \<Longrightarrow> node_ok m p"
    "p \<in> set ns \<Longrightarrow> q \<in> set ns \<Longrightarrow> p \<noteq> q \<Longrightarrow> apart (page_base m p) (page_base m q)"
  using assms unfolding pool_inv_def by blast+

text \<open>Every page but the first is a block of the C heap of its own.\<close>

definition backed :: "pool_mem \<Rightarrow> nat list \<Rightarrow> bool" where
  "backed m ns \<longleftrightarrow> (\<forall>q \<in> set ns. q \<noteq> pm_head m \<longrightarrow> pm_blocks m q = Some PAGE_SIZE)"

text \<open>The outcome of a small allocation that may take the page \<open>b\<close>.\<close>

definition small_taken :: "pool_mem \<Rightarrow> nat list \<Rightarrow> nat \<Rightarrow> nat \<Rightarrow> (nat \<times> pool_mem) res option \<Rightarrow> bool" where
  "small_taken m ns b sz x \<longleftrightarrow> (\<exists>addr m' ns'. x = Some (Inr (addr, m')) \<and> pool_inv m' ns'
    \<and> (ns' = ns \<or> ns' = ns @ [b]) \<and> pm_head m' = pm_head m \<and> pm_pool m' = pm_pool m
    \<and> (\<forall>q \<in> set ns. used m q \<subseteq> used m' q \<and> used m q \<inter> {addr ..< addr + sz} = {})
    \<and> (\<exists>p \<in> set ns'. {addr ..< addr + sz} \<subseteq> used m' p) \<and> MP_ALIGNMENT dvd addr
    \<and> pm_largeList m' = pm_largeList m \<and> (backed m ns \<longrightarrow> backed m' ns'))"

lemma malloc_small_page:
  assumes inv: "pool_inv m ns" and b: "fresh_page m ns b" and sz: "sz \<le> PAGE_SIZE - sizeof_SmallNode"
    and fr: "find_room sz (pm_current m) m = Some (Inr None)"
  shows "small_taken m ns b sz (malloc_small sz (Some b) junk m)"
proof -
  from mallocSmallNode_ok [OF inv b sz, of junk] obtain m' where
    m': "mallocSmallNode sz (Some b) junk m = Some (Inr (b + sizeof_SmallNode, m'))" "pool_inv m' (ns @ [b])"
      "\<forall>q \<in> set ns. used m' q = used m q" "used m' b = {b + sizeof_SmallNode ..< b + sizeof_SmallNode + sz}"
      "pm_blocks m' = (pm_blocks m)(b \<mapsto> PAGE_SIZE)" "pm_largeList m' = pm_largeList m" by blast
  have hp: "pm_head m' = pm_head m"
    using m'(2) inv by (cases ns) (auto simp: pool_inv_def)
  have "used m q \<inter> {b + sizeof_SmallNode ..< b + sizeof_SmallNode + sz} = {}" if "q \<in> set ns" for q
  proof -
    have "apart (page_base m q) b" using b that by (simp add: fresh_page_def)
    then show ?thesis using used_page [OF pool_invD(3) [OF inv that] inv] sz by (fastforce simp: apart_def pool_sizes)
  qed
  moreover have "MP_ALIGNMENT dvd b + sizeof_SmallNode" using b by (simp add: fresh_page_def pool_sizes)
  moreover have "pm_pool m' = pm_pool m" using hp m'(2) inv by (simp add: pool_inv_def)
  moreover have "backed m ns \<Longrightarrow> backed m' (ns @ [b])" using m'(5) hp by (auto simp: backed_def)
  ultimately show ?thesis using m' hp fr by (auto simp: malloc_small_def small_taken_def)
qed

lemma malloc_small_room:
  assumes inv: "pool_inv m ns" and r: "room sz (pm_small m) qs = Some (q, addr)" and suf: "set qs \<subseteq> set ns"
    and fr: "find_room sz (pm_current m) m = Some (Inr (Some (q, addr)))"
  shows "small_taken m ns b sz (malloc_small sz (Some b) junk m)"
proof -
  from room_Some [OF r] obtain n where q: "q \<in> set ns" "pm_small m q = Some n"
    and addr: "addr = mp_align_ptr (sn_last n) MP_ALIGNMENT" "sz \<le> size_of_int (int (sn_end n) - int addr)"
    using suf by auto
  let ?m' = "set_small q (n\<lparr>sn_quote := uint_inc (sn_quote n), sn_last := addr + sz\<rparr>) m"
  note t = take_room_inv [where k = "uint_inc (sn_quote n)", OF inv q addr refl]
  have "q \<noteq> 0" using chain_nonzero [OF pool_invD(1) [OF inv] q(1)] by simp
  then have run: "malloc_small sz (Some b) junk m = Some (Inr (addr, ?m'))"
    using fr q(2) by (simp add: malloc_small_def derefS_def)
  have page: "sn_end n = page_base m q + PAGE_SIZE" "page_base m q \<le> q"
    using pool_invD(3) [OF inv q(1)] q(2) inv by (auto simp: node_ok_def page_base_def pool_inv_def)
  have disj: "used m p \<inter> {addr ..< addr + sz} = {}" if "p \<in> set ns" for p
  proof (cases "p = q")
    case True
    then show ?thesis using t(5) by auto
  next
    case False
    have "apart (page_base m p) (page_base m q)" by (rule pool_invD(4) [OF inv that q(1) False])
    then show ?thesis
      using used_page [OF pool_invD(3) [OF inv that] inv] t(2,3) page by (fastforce simp: apart_def pool_sizes)
  qed
  have "used m p \<subseteq> used ?m' p" for p
    using t(4-6) by (cases "p = q") auto
  moreover have "{addr ..< addr + sz} \<subseteq> used ?m' q" using t(3,4) by auto
  moreover have "MP_ALIGNMENT dvd addr" using addr(1) by simp
  moreover have "pm_head ?m' = pm_head m" "pm_pool ?m' = pm_pool m" "pm_largeList ?m' = pm_largeList m" "backed ?m' ns = backed m ns"
    by (simp_all add: set_small_def backed_def)
  ultimately show ?thesis unfolding small_taken_def using run t(1) disj q(1) by blast
qed

lemma malloc_small_ok:
  assumes inv: "pool_inv m ns" and b: "fresh_page m ns b" and sz: "sz \<le> PAGE_SIZE - sizeof_SmallNode"
  shows "small_taken m ns b sz (malloc_small sz (Some b) junk m)"
proof -
  from pool_invD(2) [OF inv] obtain pre qs where split: "ns = pre @ pm_current m # qs" by (meson split_list)
  let ?suf = "pm_current m # qs"
  have fr: "find_room sz (pm_current m) m = Some (Inr (room sz (pm_small m) ?suf))"
    by (rule find_room_chain) (rule chain_suffix [OF pool_invD(1) [OF inv, unfolded split]])
  show ?thesis
  proof (cases "room sz (pm_small m) ?suf")
    case None
    then show ?thesis using malloc_small_page [OF inv b sz] fr by simp
  next
    case (Some r)
    then show ?thesis using malloc_small_room [OF inv, of sz ?suf "fst r" "snd r" b junk] fr split by (auto simp del: room.simps)
  qed
qed

text \<open>A run of small allocations, each with a page at hand should it need one.\<close>

fun mallocs :: "(nat \<times> nat \<times> small_node) list \<Rightarrow> pool_mem \<Rightarrow> ((nat \<times> nat) list \<times> pool_mem) res option" where
  "mallocs [] m = Some (Inr ([], m))"
| "mallocs ((sz, b, junk) # rs) m =
     (case pool_malloc sz None (Some b) junk m of
        None \<Rightarrow> None
      | Some (Inl e) \<Rightarrow> Some (Inl e)
      | Some (Inr (addr, m1)) \<Rightarrow>
          (case mallocs rs m1 of
             None \<Rightarrow> None
           | Some r \<Rightarrow> Some (bindR r (\<lambda>(ls, m'). Inr ((addr, sz) # ls, m')))))"

definition region :: "nat \<times> nat \<Rightarrow> nat set" where
  "region x = {fst x ..< fst x + snd x}"

lemma fresh_rest:
  assumes rs: "\<forall>(sz, b, junk) \<in> set ((sz0, b0, junk0) # rs). 0 < sz \<and> sz \<le> PAGE_SIZE - sizeof_SmallNode \<and> fresh_page m ns b"
    and ap: "sorted_wrt apart (map (\<lambda>(sz, b, junk). b) ((sz0, b0, junk0) # rs))"
    and m1: "ns1 = ns \<or> ns1 = ns @ [b0]" "page_base m1 = page_base m" "page_base m1 b0 = b0"
  shows "\<forall>(sz, b, junk) \<in> set rs. 0 < sz \<and> sz \<le> PAGE_SIZE - sizeof_SmallNode \<and> fresh_page m1 ns1 b"
proof (clarify, intro conjI)
  fix sz b junk assume x: "(sz, b, junk) \<in> set rs"
  then have "0 < sz \<and> sz \<le> PAGE_SIZE - sizeof_SmallNode \<and> fresh_page m ns b" using rs by auto
  moreover have "apart b0 b" using ap x by force
  ultimately show "0 < sz" "sz \<le> PAGE_SIZE - sizeof_SmallNode" "fresh_page m1 ns1 b"
    using m1 by (auto simp: fresh_page_def)
qed

lemma mallocs_ok:
  assumes "pool_inv m ns" "\<forall>(sz, b, junk) \<in> set rs. 0 < sz \<and> sz \<le> PAGE_SIZE - sizeof_SmallNode \<and> fresh_page m ns b"
    and "sorted_wrt apart (map (\<lambda>(sz, b, junk). b) rs)"
  shows "\<exists>ls m' ns'. mallocs rs m = Some (Inr (ls, m')) \<and> pool_inv m' ns' \<and> map snd ls = map fst rs
    \<and> (\<forall>x \<in> set ls. MP_ALIGNMENT dvd fst x \<and> (\<forall>q \<in> set ns. used m q \<inter> region x = {}))
    \<and> sorted_wrt (\<lambda>x y. region x \<inter> region y = {}) ls
    \<and> set ns \<subseteq> set ns' \<and> (\<forall>q \<in> set ns. used m q \<subseteq> used m' q) \<and> (\<forall>x \<in> set ls. \<exists>q \<in> set ns'. region x \<subseteq> used m' q)
    \<and> pm_largeList m' = pm_largeList m \<and> (backed m ns \<longrightarrow> backed m' ns')"
  using assms
proof (induction rs arbitrary: m ns)
  case Nil
  then show ?case by auto
next
  case (Cons r rs)
  obtain sz b junk where r: "r = (sz, b, junk)" by (cases r)
  with Cons.prems have sz: "0 < sz" "sz \<le> PAGE_SIZE - sizeof_SmallNode" and b: "fresh_page m ns b" by auto
  from malloc_small_ok [OF Cons.prems(1) b sz(2), of junk, unfolded small_taken_def] obtain addr m1 ns1 where
    m1: "malloc_small sz (Some b) junk m = Some (Inr (addr, m1))" "pool_inv m1 ns1" "ns1 = ns \<or> ns1 = ns @ [b]"
      "pm_head m1 = pm_head m" "pm_pool m1 = pm_pool m"
    and u: "\<forall>q \<in> set ns. used m q \<subseteq> used m1 q \<and> used m q \<inter> {addr ..< addr + sz} = {}"
      "\<exists>p \<in> set ns1. {addr ..< addr + sz} \<subseteq> used m1 p" "MP_ALIGNMENT dvd addr"
      "pm_largeList m1 = pm_largeList m" "backed m ns \<longrightarrow> backed m1 ns1" by blast
  have run1: "pool_malloc sz None (Some b) junk m = Some (Inr (addr, m1))"
    using sz m1(1) by (simp add: pool_malloc_def)
  have pb: "page_base m1 = page_base m" using m1(4,5) by (simp add: page_base_def fun_eq_iff)
  have bb: "page_base m1 b = b" using pb fresh_page_new(2) [OF Cons.prems(1) b] by (simp add: page_base_def)
  have "\<forall>(sz, b, junk) \<in> set rs. 0 < sz \<and> sz \<le> PAGE_SIZE - sizeof_SmallNode \<and> fresh_page m1 ns1 b"
    by (rule fresh_rest [OF Cons.prems(2,3) [unfolded r] m1(3) pb bb])
  moreover have "sorted_wrt apart (map (\<lambda>(sz, b, junk). b) rs)" using Cons.prems(3) by simp
  ultimately obtain ls m' ns' where
    ih: "mallocs rs m1 = Some (Inr (ls, m'))" "pool_inv m' ns'" "map snd ls = map fst rs"
      "\<forall>x \<in> set ls. MP_ALIGNMENT dvd fst x \<and> (\<forall>q \<in> set ns1. used m1 q \<inter> region x = {})"
      "sorted_wrt (\<lambda>x y. region x \<inter> region y = {}) ls"
      "set ns1 \<subseteq> set ns'" "\<forall>q \<in> set ns1. used m1 q \<subseteq> used m' q" "\<forall>x \<in> set ls. \<exists>q \<in> set ns'. region x \<subseteq> used m' q"
      "pm_largeList m' = pm_largeList m1" "backed m1 ns1 \<longrightarrow> backed m' ns'"
    using Cons.IH [OF m1(2)] by blast
  have "region (addr, sz) \<inter> region x = {}" if "x \<in> set ls" for x
    using ih(4) u(2) that by (fastforce simp: region_def)
  moreover have "used m q \<inter> region x = {}" if "x \<in> set ls" "q \<in> set ns" for x q
    using ih(4) u(1) that m1(3) by fastforce
  moreover have "set ns \<subseteq> set ns1" using m1(3) by auto
  moreover from this have "set ns \<subseteq> set ns'" "\<forall>q \<in> set ns. used m q \<subseteq> used m' q" using ih(6,7) u(1) by blast+
  moreover have "\<exists>q \<in> set ns'. region (addr, sz) \<subseteq> used m' q" using u(2) ih(6,7) by (fastforce simp: region_def)
  moreover have "mallocs (r # rs) m = Some (Inr ((addr, sz) # ls, m'))" using run1 ih(1) r by simp
  moreover have "\<forall>q \<in> set ns. used m q \<inter> region (addr, sz) = {}" using u(1) by (simp add: region_def)
  moreover have "map snd ((addr, sz) # ls) = map fst (r # rs)" using ih(3) r by simp
  ultimately show ?case
    using ih(2,4,5,8-10) u(3-5) by (intro exI [of _ "(addr, sz) # ls"] exI [of _ m'] exI [of _ ns']) (simp del: mallocs.simps)
qed

section \<open>Freeing and resetting\<close>

lemma update_node_inv:
  assumes inv: "pool_inv m ns" and q: "q \<in> set ns" "pm_small m q = Some n"
    and n': "sn_end n' = sn_end n" "sn_next n' = sn_next n" "q + sizeof_SmallNode \<le> sn_last n'" "sn_last n' \<le> sn_end n"
    and c: "c \<in> set ns"
  shows "pool_inv ((set_small q n' m)\<lparr>pm_current := c\<rparr>) ns"
proof -
  let ?m' = "(set_small q n' m)\<lparr>pm_current := c\<rparr>"
  have pb: "page_base ?m' = page_base m" by (simp add: page_base_def set_small_def fun_eq_iff)
  have "chain (pm_small ?m') (pm_head m) ns = chain (pm_small m) (pm_head m) ns"
    using q(2) n'(2) by (intro chain_cong) (simp add: set_small_def)
  moreover have "node_ok ?m' p" if "p \<in> set ns" for p
  proof -
    have "node_ok m p" using inv that by (simp add: pool_inv_def)
    then show ?thesis using q(2) n' unfolding node_ok_def pb by (auto simp: set_small_def)
  qed
  moreover have "pm_head ?m' = pm_head m" "pm_pool ?m' = pm_pool m" "pm_current ?m' = c"
    by (simp_all add: set_small_def)
  ultimately show ?thesis using inv pb c by (auto simp: pool_inv_def)
qed

lemma node_ends:
  assumes "pool_inv m ns" "q \<in> set ns" "pm_small m q = Some n"
  shows "q + sizeof_SmallNode \<le> sn_last n" "sn_last n \<le> sn_end n"
    "(if q = pm_head m then pm_pool m + sizeof_Pool + sizeof_SmallNode else q + sizeof_SmallNode) = q + sizeof_SmallNode"
proof -
  have "node_ok m q" using assms by (simp add: pool_inv_def)
  then show "q + sizeof_SmallNode \<le> sn_last n" "sn_last n \<le> sn_end n" using assms(3) by (auto simp: node_ok_def)
  show "(if q = pm_head m then pm_pool m + sizeof_Pool + sizeof_SmallNode else q + sizeof_SmallNode) = q + sizeof_SmallNode"
    using assms(1) by (auto simp: pool_inv_def)
qed

lemma free_small_inv:
  assumes inv: "pool_inv m ns" and "chain (pm_small m) small qs" "set qs \<subseteq> set ns"
  shows "\<exists>m'. free_small p small m = Some (Inr m') \<and> pool_inv m' ns \<and> (\<forall>q. used m' q \<subseteq> used m q)"
  using assms(2,3)
proof (induction qs arbitrary: small)
  case Nil
  then show ?case using inv by (subst free_small.simps) auto
next
  case (Cons q qs)
  then obtain n where n: "small = q" "q \<noteq> 0" "pm_small m q = Some n" "chain (pm_small m) (sn_next n) qs" by auto
  have q: "q \<in> set ns" using Cons.prems(2) by simp
  note e = node_ends [OF inv q n(3)]
  have hd: "pm_head m \<in> set ns" using inv by (cases ns) (auto simp: pool_inv_def)
  have hp: "pm_pool m + sizeof_Pool = pm_head m" using inv by (simp add: pool_inv_def)
  show ?case
  proof (cases "q \<le> p \<and> p \<le> sn_end n")
    case False
    then have "free_small p small m = free_small p (sn_next n) m"
      using n by (subst free_small.simps) (auto simp: derefS_def)
    then show ?thesis using Cons.IH [OF n(4)] Cons.prems(2) by simp
  next
    case True
    let ?k = "uint_dec (sn_quote n)"
    let ?n1 = "n\<lparr>sn_quote := ?k\<rparr>" and ?n2 = "n\<lparr>sn_quote := ?k, sn_last := q + sizeof_SmallNode, sn_failed := 0\<rparr>"
    let ?m' = "if ?k = 0 then (set_small q ?n2 m)\<lparr>pm_current := pm_head m\<rparr> else set_small q ?n1 m"
    have "free_small p small m = Some (Inr ?m')"
      using True n hp by (subst free_small.simps) (simp add: derefS_def Let_def)
    moreover have "pool_inv ?m' ns"
      using update_node_inv [OF inv q n(3), of ?n2 "pm_head m"] update_node_inv [OF inv q n(3), of ?n1 "pm_current m"]
        e(1,2) hd inv
      by (auto simp: pool_inv_def set_small_def)
    moreover have "used ?m' r \<subseteq> used m r" for r
      using n(3) by (auto simp: used_def set_small_def)
    ultimately show ?thesis by blast
  qed
qed

lemma reset_small_inv:
  assumes "pool_inv m ns" "chain (pm_small m) small qs" "set qs \<subseteq> set ns" "distinct qs"
  shows "\<exists>m'. reset_small small m = Some (Inr m') \<and> pool_inv m' ns \<and> (\<forall>q \<in> set qs. used m' q = {})
    \<and> (\<forall>q. q \<notin> set qs \<longrightarrow> pm_small m' q = pm_small m q)"
  using assms
proof (induction qs arbitrary: small m)
  case Nil
  then show ?case by (subst reset_small.simps) auto
next
  case (Cons q qs)
  then obtain n where n: "small = q" "q \<noteq> 0" "pm_small m q = Some n" "chain (pm_small m) (sn_next n) qs" by auto
  have q: "q \<in> set ns" and cur: "pm_current m \<in> set ns" using Cons.prems by (simp_all add: pool_inv_def)
  note e = node_ends [OF Cons.prems(1) q n(3)]
  let ?n = "n\<lparr>sn_last := q + sizeof_SmallNode, sn_failed := 0, sn_quote := 0\<rparr>"
  let ?m1 = "set_small q ?n m"
  have "pool_inv ?m1 ns"
    using update_node_inv [OF Cons.prems(1) q n(3), of ?n "pm_current m"] e cur by (simp add: set_small_def)
  moreover have "chain (pm_small ?m1) (sn_next n) qs"
    using n(4) Cons.prems(4) by (simp add: set_small_def chain_other)
  ultimately obtain m' where m': "reset_small (sn_next n) ?m1 = Some (Inr m')" "pool_inv m' ns"
    "\<forall>q \<in> set qs. used m' q = {}" "\<forall>q. q \<notin> set qs \<longrightarrow> pm_small m' q = pm_small ?m1 q"
    using Cons.IH [of ?m1 "sn_next n"] Cons.prems(3,4) by auto
  have "used m' q = {}" using m'(4) Cons.prems(4) by (simp add: used_def set_small_def)
  moreover have "reset_small small m = Some (Inr m')"
    using n m'(1) by (subst reset_small.simps) (simp add: derefS_def)
  ultimately show ?case using m' by (auto simp: set_small_def)
qed

section \<open>Properties\<close>

text \<open>Claim C26. Small allocations never fail while pages are available, are aligned to 16 bytes, and
  no two of them overlap, nor any bytes handed out before: through any run of \<open>malloc\<close> the pool stays
  well formed.\<close>

theorem allocations_disjoint:
  assumes "pool_inv m ns"
    and "\<forall>(sz, b, junk) \<in> set rs. 0 < sz \<and> sz \<le> PAGE_SIZE - sizeof_SmallNode \<and> fresh_page m ns b"
    and "sorted_wrt apart (map (\<lambda>(sz, b, junk). b) rs)"
  shows "\<exists>ls m'. mallocs rs m = Some (Inr (ls, m')) \<and> (\<exists>ns'. pool_inv m' ns') \<and> map snd ls = map fst rs
    \<and> (\<forall>x \<in> set ls. MP_ALIGNMENT dvd fst x \<and> (\<forall>q \<in> set ns. used m q \<inter> region x = {}))
    \<and> sorted_wrt (\<lambda>x y. region x \<inter> region y = {}) ls"
  using mallocs_ok [OF assms] by blast

definition zero_node :: small_node where
  "zero_node = \<lparr>sn_end = 0, sn_last = 0, sn_quote = 0, sn_failed = 0, sn_next = 0\<rparr>"

definition no_pool :: pool_mem where
  "no_pool = \<lparr>pm_pool = 0, pm_largeList = 0, pm_head = 0, pm_current = 0, pm_small = Map.empty,
     pm_large = Map.empty, pm_blocks = Map.empty\<rparr>"

lemma createPool_inv:
  assumes "sn_next junk = 0" "p \<noteq> 0" "MP_ALIGNMENT dvd p" "p + PAGE_SIZE < 2 ^ 63"
  shows "pool_inv (createPool (Some p) junk m) [p + sizeof_Pool]"
  using assms
  by (simp add: createPool_def Let_def pool_inv_def node_ok_def page_base_def pool_sizes)

theorem allocations_disjoint_witness:
  "\<exists>ls m'. mallocs [(4000, 16384, zero_node), (100, 32768, zero_node)] (createPool (Some 4096) zero_node no_pool)
     = Some (Inr (ls, m')) \<and> map snd ls = [4000, 100] \<and> sorted_wrt (\<lambda>x y. region x \<inter> region y = {}) ls"
proof -
  have inv: "pool_inv (createPool (Some 4096) zero_node no_pool) [4096 + sizeof_Pool]"
    by (rule createPool_inv) (simp_all add: zero_node_def pool_sizes)
  have "fresh_page (createPool (Some 4096) zero_node no_pool) [4096 + sizeof_Pool] b" if "b \<in> {16384, 32768}" for b
    using that by (auto simp: fresh_page_def createPool_def page_base_def apart_def pool_sizes Let_def)
  then show ?thesis
    using allocations_disjoint [OF inv, of "[(4000, 16384, zero_node), (100, 32768, zero_node)]"]
    by (auto simp: pool_sizes apart_def simp del: mallocs.simps)
qed

text \<open>Freeing memory of a page and resetting the pool keep it well formed: a free never
  extends what is in use, and after a reset no byte of any page is in use.\<close>

lemma free_and_reset_keep_pool:
  assumes "pool_inv m ns" and "pm_largeList m = 0"
  shows "(\<exists>m'. freeMemory p m = Some (Inr m') \<and> pool_inv m' ns \<and> (\<forall>q. used m' q \<subseteq> used m q))
    \<and> (\<exists>m'. resetPool m = Some (Inr m') \<and> pool_inv m' ns \<and> (\<forall>q \<in> set ns. used m' q = {}))"
proof -
  have ns: "chain (pm_small m) (pm_head m) ns" "distinct ns" and hd: "pm_head m \<in> set ns"
    using assms(1) by (cases ns; auto simp: pool_inv_def)+
  let ?m1 = "m\<lparr>pm_largeList := 0, pm_current := pm_head m\<rparr>"
  have "page_base ?m1 = page_base m" by (simp add: page_base_def fun_eq_iff)
  then have "node_ok ?m1 = node_ok m" by (simp add: node_ok_def fun_eq_iff)
  with \<open>page_base ?m1 = page_base m\<close> have inv1: "pool_inv ?m1 ns"
    using assms(1) hd by (auto simp: pool_inv_def)
  have "reset_large 0 m = Some (Inr m)" "free_large p 0 m = Some (Inr None)"
    by (subst reset_large.simps free_large.simps, simp)+
  then show ?thesis
    using free_small_inv [OF assms(1) ns(1) order_refl, of p]
      reset_small_inv [OF inv1 _ order_refl ns(2), of "pm_head m"] ns(1) assms(2)
    by (auto simp: freeMemory_def resetPool_def)
qed

text \<open>\<open>destroyPool\<close> of a pool with a second page reads that page's link after freeing it.\<close>

lemma destroyPool_use_after_free:
  assumes "pool_inv m (h # q # qs)" and "pm_largeList m = 0" and "pm_blocks m q = Some PAGE_SIZE"
  shows "destroyPool m = Some (Inl UseAfterFree)"
proof -
  from assms(1) obtain n nq where h: "pm_head m = h" "h \<noteq> 0" "pm_small m h = Some n" "sn_next n = q"
    and q: "q \<noteq> 0" "pm_small m q = Some nq"
    by (auto simp: pool_inv_def)
  have "destroy_large 0 m = Some (Inr m)" by (subst destroy_large.simps) simp
  moreover have "destroy_small q m = Some (Inl UseAfterFree)"
    using q assms(3) by (subst destroy_small.simps) (simp add: derefS_def free_block_def PAGE_SIZE_def)
  ultimately show ?thesis
    using assms(2) h by (simp add: destroyPool_def derefS_def)
qed

definition two_pages :: pool_mem where
  "two_pages = (case mallocSmallNode 100 (Some 16384) zero_node (createPool (Some 4096) zero_node no_pool) of
     Some (Inr (a, m)) \<Rightarrow> m)"

lemma two_pages_facts:
  "pool_inv two_pages [4096 + sizeof_Pool, 16384]" "pm_largeList two_pages = 0" "pm_blocks two_pages 16384 = Some PAGE_SIZE"
proof -
  let ?m = "createPool (Some 4096) zero_node no_pool"
  have inv: "pool_inv ?m [4096 + sizeof_Pool]"
    by (rule createPool_inv) (simp_all add: zero_node_def pool_sizes)
  have b: "fresh_page ?m [4096 + sizeof_Pool] 16384"
    by (simp add: fresh_page_def createPool_def page_base_def apart_def pool_sizes Let_def)
  from mallocSmallNode_ok [OF inv b, of 100 zero_node] show "pool_inv two_pages [4096 + sizeof_Pool, 16384]"
    by (auto simp: two_pages_def pool_sizes)
  show "pm_largeList two_pages = 0" "pm_blocks two_pages 16384 = Some PAGE_SIZE"
    unfolding two_pages_def mallocSmallNode_def
    by (simp_all add: find_tail.simps createPool_def Let_def set_small_def derefS_def zero_node_def no_pool_def pool_sizes)
qed

lemma two_pages_destroyed: "destroyPool two_pages = Some (Inl UseAfterFree)"
  by (rule destroyPool_use_after_free [OF two_pages_facts])

text \<open>\<open>createPool\<close> leaves the link of its first page as it found the memory: when that is not
  null, an allocation that does not fit the first page follows it to memory that is no page.\<close>

lemma uninitialised_link_followed:
  assumes "MP_ALIGNMENT dvd p" and "0 < p" and "p + PAGE_SIZE < 2 ^ 63" and "4032 < sz" and "sz \<le> PAGE_SIZE - sizeof_SmallNode"
    and "sn_next junk \<noteq> 0" and "sn_next junk \<noteq> p + sizeof_Pool" and "pm_small m (sn_next junk) = None"
  shows "pool_malloc sz aL aS junk2 (createPool (Some p) junk m) = Some (Inl UseAfterFree)"
proof -
  let ?m = "createPool (Some p) junk m" and ?h = "p + sizeof_Pool"
  let ?n = "junk\<lparr>sn_last := p + sizeof_Pool + sizeof_SmallNode, sn_end := p + PAGE_SIZE, sn_failed := 0\<rparr>"
  have m: "pm_current ?m = ?h" "pm_small ?m = (pm_small m)(?h \<mapsto> ?n)"
    by (simp_all add: createPool_def Let_def)
  obtain k where k: "p = 16 * k" using assms(1) by (auto simp: MP_ALIGNMENT_def)
  have "(16 * k + 71) mod 16 = 7" by presburger
  then have al: "mp_align_ptr (sn_last ?n) MP_ALIGNMENT = p + 64" using k by (simp add: mp_align_ptr_def pool_sizes)
  have "int (sn_end ?n) - int (p + 64) = int 4032" by (simp add: pool_sizes)
  moreover have "size_of_int (int 4032) = 4032" by (rule size_of_int_exact) simp
  ultimately have "size_of_int (int (sn_end ?n) - int (p + 64)) = 4032" by (simp only:)
  then have "\<not> sz \<le> size_of_int (int (sn_end ?n) - int (mp_align_ptr (sn_last ?n) MP_ALIGNMENT))"
    using assms(4) unfolding al by simp
  then have "find_room sz ?h ?m = find_room sz (sn_next junk) ?m"
    by (subst find_room.simps) (simp add: derefS_def m Let_def pool_sizes)
  also have "\<dots> = Some (Inl UseAfterFree)"
    using assms(6-8) by (subst find_room.simps) (simp add: derefS_def m)
  finally show ?thesis using assms(4,5) by (simp add: pool_malloc_def malloc_small_def m(1))
qed

end
