(* ===== verification/LargeBlocks.thy ===== *)
theory LargeBlocks
  imports MemoryPool
begin

text \<open>
  The large blocks of the memory pool: the list of \<open>LargeNode\<close> structures, which live in the pages of the
  pool, and the blocks of the C heap they own. Allocation, freeing and resetting with both kinds of
  memory in use.
\<close>

section \<open>The list of large nodes\<close>

fun lchain :: "(nat \<rightharpoonup> large_node) \<Rightarrow> nat \<Rightarrow> nat list \<Rightarrow> bool" where
  "lchain h p [] \<longleftrightarrow> p = 0"
| "lchain h p (q # qs) \<longleftrightarrow> p = q \<and> p \<noteq> 0 \<and> (\<exists>n. h p = Some n \<and> lchain h (ln_next n) qs)"

lemma lchain_cong:
  "(\<And>q. q \<in> set ls \<Longrightarrow> map_option ln_next (h' q) = map_option ln_next (h q)) \<Longrightarrow> lchain h' p ls = lchain h p ls"
proof (induction ls arbitrary: p)
  case (Cons q ls)
  have "map_option ln_next (h' q) = map_option ln_next (h q)" using Cons.prems by simp
  moreover have "lchain h' p' ls = lchain h p' ls" for p' using Cons by simp
  ultimately show ?case by (cases "h q"; cases "h' q") auto
qed simp

lemma lchain_nonzero: "lchain h p ls \<Longrightarrow> q \<in> set ls \<Longrightarrow> q \<noteq> 0 \<and> (\<exists>n. h q = Some n)"
  by (induction ls arbitrary: p) auto

definition page_of :: "pool_mem \<Rightarrow> nat \<Rightarrow> nat set" where
  "page_of m q = {page_base m q ..< page_base m q + PAGE_SIZE}"

definition block_range :: "pool_mem \<Rightarrow> nat \<Rightarrow> nat set" where
  "block_range m a = (case pm_blocks m a of None \<Rightarrow> {} | Some k \<Rightarrow> {a ..< a + k})"

text \<open>The address a node holds; \<open>0\<close> when the node is free.\<close>

definition node_addr :: "pool_mem \<Rightarrow> nat \<Rightarrow> nat" where
  "node_addr m p = (case pm_large m p of None \<Rightarrow> 0 | Some n \<Rightarrow> ln_address n)"

text \<open>Two nodes hold blocks of the C heap that do not overlap.\<close>

definition ranges_apart :: "pool_mem \<Rightarrow> nat list \<Rightarrow> bool" where
  "ranges_apart m ls \<longleftrightarrow> (\<forall>p \<in> set ls. \<forall>q \<in> set ls. p \<noteq> q \<and> node_addr m p \<noteq> 0 \<and> node_addr m q \<noteq> 0 \<longrightarrow>
     block_range m (node_addr m p) \<inter> block_range m (node_addr m q) = {})"

definition large_ok :: "pool_mem \<Rightarrow> nat list \<Rightarrow> nat \<Rightarrow> nat list \<Rightarrow> bool" where
  "large_ok m ns start ls \<longleftrightarrow> lchain (pm_large m) start ls \<and> distinct ls
     \<and> (\<forall>p \<in> set ls. \<exists>q \<in> set ns. p \<in> used m q)
     \<and> (\<forall>p \<in> set ls. node_addr m p \<noteq> 0 \<longrightarrow> pm_blocks m (node_addr m p) \<noteq> None
          \<and> (\<forall>q \<in> set ns. block_range m (node_addr m p) \<inter> page_of m q = {}))
     \<and> (\<forall>p \<in> set ls. \<forall>q \<in> set ls. p \<noteq> q \<and> node_addr m p = node_addr m q \<longrightarrow> node_addr m p = 0)
     \<and> ranges_apart m ls"

abbreviation large_inv :: "pool_mem \<Rightarrow> nat list \<Rightarrow> nat list \<Rightarrow> bool" where
  "large_inv m ns ls \<equiv> large_ok m ns (pm_largeList m) ls"

definition live_large :: "pool_mem \<Rightarrow> nat list \<Rightarrow> nat set" where
  "live_large m ls = node_addr m ` set ls - {0}"

lemma large_okD:
  assumes "large_ok m ns start ls"
  shows "lchain (pm_large m) start ls" "distinct ls"
    "p \<in> set ls \<Longrightarrow> \<exists>q \<in> set ns. p \<in> used m q"
    "p \<in> set ls \<Longrightarrow> node_addr m p \<noteq> 0 \<Longrightarrow> \<exists>k. pm_blocks m (node_addr m p) = Some k"
    "p \<in> set ls \<Longrightarrow> node_addr m p \<noteq> 0 \<Longrightarrow> q \<in> set ns \<Longrightarrow> block_range m (node_addr m p) \<inter> page_of m q = {}"
    "p \<in> set ls \<Longrightarrow> q \<in> set ls \<Longrightarrow> p \<noteq> q \<Longrightarrow> node_addr m p = node_addr m q \<Longrightarrow> node_addr m p = 0"
    "ranges_apart m ls"
  using assms by (auto simp: large_ok_def)

lemma ranges_apart_frame:
  assumes "ranges_apart m ls" and "\<And>p. p \<in> set ls' \<Longrightarrow> node_addr m' p \<noteq> 0 \<Longrightarrow>
    p \<in> set ls \<and> node_addr m' p = node_addr m p \<and> block_range m' (node_addr m p) = block_range m (node_addr m p)"
  shows "ranges_apart m' ls'"
  unfolding ranges_apart_def
proof (intro ballI impI)
  fix p q assume "p \<in> set ls'" "q \<in> set ls'" "p \<noteq> q \<and> node_addr m' p \<noteq> 0 \<and> node_addr m' q \<noteq> 0"
  then show "block_range m' (node_addr m' p) \<inter> block_range m' (node_addr m' q) = {}"
    using assms(1) assms(2) [of p] assms(2) [of q] by (simp add: ranges_apart_def)
qed

text \<open>The live blocks of a well-formed pool are apart from each other and from every page.\<close>

lemma live_large_apart:
  assumes "large_ok m ns start ls" and "x \<in> live_large m ls"
  shows "y \<in> live_large m ls \<Longrightarrow> x \<noteq> y \<Longrightarrow> block_range m x \<inter> block_range m y = {}"
    and "q \<in> set ns \<Longrightarrow> block_range m x \<inter> page_of m q = {}"
proof -
  from assms(2) obtain p where p: "p \<in> set ls" "x = node_addr m p" "node_addr m p \<noteq> 0" by (auto simp: live_large_def)
  show "block_range m x \<inter> block_range m y = {}" if y: "y \<in> live_large m ls" "x \<noteq> y"
  proof -
    from y(1) obtain q where q: "q \<in> set ls" "y = node_addr m q" "node_addr m q \<noteq> 0" by (auto simp: live_large_def)
    then have "p \<noteq> q" using p y(2) by auto
    then show ?thesis using large_okD(7) [OF assms(1)] p q by (simp add: ranges_apart_def)
  qed
  show "block_range m x \<inter> page_of m q = {}" if "q \<in> set ns" using large_okD(5) [OF assms(1) p(1,3) that] p(2) by simp
qed

lemma node_in_page: "pool_inv m ns \<Longrightarrow> q \<in> set ns \<Longrightarrow> q \<in> page_of m q"
  by (auto simp: pool_inv_def page_of_def page_base_def pool_sizes)

lemma used_in_page: "pool_inv m ns \<Longrightarrow> q \<in> set ns \<Longrightarrow> used m q \<subseteq> page_of m q"
  using used_page [of m q ns] by (fastforce simp: page_of_def pool_inv_def)

text \<open>What the two sides depend on.\<close>

definition same_pages :: "nat list \<Rightarrow> pool_mem \<Rightarrow> pool_mem \<Rightarrow> bool" where
  "same_pages ns m m' \<longleftrightarrow> pm_head m' = pm_head m \<and> pm_pool m' = pm_pool m \<and> pm_current m' = pm_current m
     \<and> (\<forall>q \<in> set ns. pm_small m' q = pm_small m q)"

lemma same_pages_page_of: "same_pages ns m m' \<Longrightarrow> page_of m' q = page_of m q"
  by (simp add: same_pages_def page_of_def page_base_def)

lemma same_pages_used: "same_pages ns m m' \<Longrightarrow> q \<in> set ns \<Longrightarrow> used m' q = used m q"
  by (simp add: same_pages_def used_def)

lemma same_pages_trans: "same_pages ns m m1 \<Longrightarrow> same_pages ns m1 m2 \<Longrightarrow> same_pages ns m m2"
  by (simp add: same_pages_def)

lemma pool_inv_frame:
  assumes "pool_inv m ns" and "same_pages ns m m'"
  shows "pool_inv m' ns"
proof -
  have pb: "page_base m' = page_base m" using assms(2) by (simp add: same_pages_def page_base_def fun_eq_iff)
  have "chain (pm_small m') (pm_head m) ns = chain (pm_small m) (pm_head m) ns"
    by (rule chain_cong) (use assms(2) in \<open>simp add: same_pages_def\<close>)
  then show ?thesis using assms pb by (auto simp: pool_inv_def node_ok_def same_pages_def)
qed

lemma large_ok_frame:
  assumes ok: "large_ok m ns start ls" and pages: "\<And>q. page_of m' q = page_of m q"
    and mono: "\<And>q. q \<in> set ns \<Longrightarrow> used m q \<subseteq> used m' q"
    and nodes: "\<And>p. p \<in> set ls' \<Longrightarrow> pm_large m' p = pm_large m p"
    and sub: "set ls' \<subseteq> set ls" "distinct ls'" "lchain (pm_large m) start' ls'"
    and blocks: "\<And>p. p \<in> set ls' \<Longrightarrow> node_addr m p \<noteq> 0 \<Longrightarrow> pm_blocks m' (node_addr m p) = pm_blocks m (node_addr m p)"
  shows "large_ok m' ns start' ls'"
proof -
  have addr: "node_addr m' p = node_addr m p" if "p \<in> set ls'" for p using nodes [OF that] by (simp add: node_addr_def)
  have "lchain (pm_large m') start' ls' = lchain (pm_large m) start' ls'" by (rule lchain_cong) (simp add: nodes)
  moreover have "block_range m' (node_addr m p) = block_range m (node_addr m p)"
    if "p \<in> set ls'" "node_addr m p \<noteq> 0" for p using blocks [OF that] by (simp add: block_range_def)
  moreover have "\<forall>p \<in> set ls'. \<forall>q \<in> set ls'. p \<noteq> q \<and> node_addr m' p = node_addr m' q \<longrightarrow> node_addr m' p = 0"
    using addr large_okD(6) [OF ok] sub(1) by (metis subsetD)
  moreover have "\<forall>p \<in> set ls'. \<exists>q \<in> set ns. p \<in> used m' q" using large_okD(3) [OF ok] sub(1) mono by blast
  moreover have "ranges_apart m' ls'"
    by (rule ranges_apart_frame [OF large_okD(7) [OF ok]]) (use sub(1) addr blocks in \<open>auto simp: block_range_def\<close>)
  ultimately show ?thesis
    unfolding large_ok_def using sub addr blocks pages large_okD(4,5) [OF ok] by (auto simp: subset_iff)
qed

text \<open>Freeing a large block: no node of either list is in it.\<close>

lemma free_large_block:
  assumes inv: "pool_inv m ns" and ok: "large_ok m ns start ls" and p: "p \<in> set ls" "node_addr m p \<noteq> 0"
  shows "\<exists>m1. free_block (node_addr m p) m = Inr m1 \<and> same_pages ns m m1 \<and> pm_largeList m1 = pm_largeList m
    \<and> pm_blocks m1 = (pm_blocks m)(node_addr m p := None) \<and> (\<forall>l \<in> set ls. pm_large m1 l = pm_large m l)"
proof -
  from large_okD(4) [OF ok p] obtain k where k: "pm_blocks m (node_addr m p) = Some k" by blast
  let ?a = "node_addr m p"
  have off: "x \<notin> {?a ..< ?a + k}" if "x \<in> page_of m q" "q \<in> set ns" for x q
    using large_okD(5) [OF ok p that(2)] that(1) k by (auto simp: block_range_def)
  have "\<not> (?a \<le> q \<and> q < ?a + k)" if "q \<in> set ns" for q using off [OF node_in_page [OF inv that] that] by simp
  moreover have "\<not> (?a \<le> l \<and> l < ?a + k)" if "l \<in> set ls" for l
    using large_okD(3) [OF ok that] off used_in_page [OF inv] by fastforce
  ultimately show ?thesis using p(2) k by (auto simp: free_block_def same_pages_def)
qed

lemma large_ok_freed:
  assumes ok: "large_ok m ns start ls" and p: "p \<in> set ls" and m1: "same_pages ns m m1"
      "pm_blocks m1 = (pm_blocks m)(node_addr m p := None)" "\<forall>l \<in> set ls. pm_large m1 l = pm_large m l"
    and sub: "set ls' \<subseteq> set ls" "distinct ls'" "lchain (pm_large m) start' ls'" "p \<notin> set ls'"
  shows "large_ok m1 ns start' ls'"
proof (rule large_ok_frame [OF ok])
  fix l
  assume l: "l \<in> set ls'" "node_addr m l \<noteq> 0"
  then have "node_addr m l \<noteq> node_addr m p" using large_okD(6) [OF ok, of l p] p sub(1,4) by auto
  then show "pm_blocks m1 (node_addr m l) = pm_blocks m (node_addr m l)" using m1(2) by simp
qed (use m1 sub same_pages_page_of same_pages_used in auto)

section \<open>The loops over the list\<close>

lemma free_large_found:
  assumes "lchain (pm_large m) start qs" and "p \<in> set qs" and "node_addr m p = a"
    and "\<And>l. l \<in> set qs \<Longrightarrow> node_addr m l = a \<Longrightarrow> l = p" and "pm_large m p = Some n"
  shows "free_large a start m = Some (bindR (free_block a m) (\<lambda>m1.
     Inr (Some (m1\<lparr>pm_large := (pm_large m1)(p \<mapsto> n\<lparr>ln_size := 0, ln_address := 0\<rparr>)\<rparr>))))"
  using assms
proof (induction qs arbitrary: start)
  case (Cons q qs)
  from Cons.prems(1) obtain nq where
    q: "start = q" "q \<noteq> 0" "pm_large m q = Some nq" "lchain (pm_large m) (ln_next nq) qs" by auto
  show ?case
  proof (cases "q = p")
    case True
    then show ?thesis using q Cons.prems(3,5) by (subst free_large.simps) (auto simp: derefL_def node_addr_def)
  next
    case False
    then have "node_addr m q \<noteq> a" using Cons.prems(4) by fastforce
    then have "ln_address nq \<noteq> a" using q(3) by (simp add: node_addr_def)
    then have "free_large a start m = free_large a (ln_next nq) m"
      using q(1-3) by (subst free_large.simps) (simp add: derefL_def)
    also have "\<dots> = Some (bindR (free_block a m) (\<lambda>m1.
        Inr (Some (m1\<lparr>pm_large := (pm_large m1)(p \<mapsto> n\<lparr>ln_size := 0, ln_address := 0\<rparr>)\<rparr>))))"
      by (rule Cons.IH [OF q(4)]) (use Cons.prems(2-5) False in simp_all)
    finally show ?thesis .
  qed
qed simp

lemma free_large_absent:
  "lchain (pm_large m) start qs \<Longrightarrow> \<forall>l \<in> set qs. node_addr m l \<noteq> a \<Longrightarrow> free_large a start m = Some (Inr None)"
proof (induction qs arbitrary: start)
  case Nil
  then show ?case by (subst free_large.simps) simp
next
  case (Cons q qs)
  then obtain nq where "start = q" "q \<noteq> 0" "pm_large m q = Some nq" "lchain (pm_large m) (ln_next nq) qs" "ln_address nq \<noteq> a"
    by (auto simp: node_addr_def)
  then show ?case using Cons.IH Cons.prems(2) by (subst free_large.simps) (simp add: derefL_def)
qed

lemma reset_large_ok:
  "pool_inv m ns \<Longrightarrow> large_ok m ns start ls \<Longrightarrow>
   \<exists>m'. reset_large start m = Some (Inr m') \<and> same_pages ns m m'
     \<and> pm_blocks m' = (\<lambda>a. if a \<in> live_large m ls then None else pm_blocks m a)"
proof (induction ls arbitrary: start m)
  case Nil
  then show ?case by (subst reset_large.simps) (simp add: large_ok_def live_large_def same_pages_def)
next
  case (Cons p ls)
  from large_okD(1,2) [OF Cons.prems(2)] obtain n where
    n: "start = p" "p \<noteq> 0" "pm_large m p = Some n" "lchain (pm_large m) (ln_next n) ls" "p \<notin> set ls" "distinct ls" by auto
  have a: "node_addr m p = ln_address n" using n(3) by (simp add: node_addr_def)
  show ?case
  proof (cases "ln_address n = 0")
    case True
    have "large_ok m ns (ln_next n) ls" by (rule large_ok_frame [OF Cons.prems(2)]) (use n(4,6) in auto)
    from Cons.IH [OF Cons.prems(1) this] show ?thesis
      using True n a by (subst reset_large.simps) (auto simp: derefL_def live_large_def)
  next
    case False
    then have nz: "node_addr m p \<noteq> 0" using a by simp
    have p: "p \<in> set (p # ls)" by simp
    from free_large_block [OF Cons.prems p nz] obtain m1 where
      m1: "free_block (node_addr m p) m = Inr m1" "same_pages ns m m1" "pm_blocks m1 = (pm_blocks m)(node_addr m p := None)"
        "\<forall>l \<in> set (p # ls). pm_large m1 l = pm_large m l" by blast
    have "large_ok m1 ns (ln_next n) ls"
      by (rule large_ok_freed [OF Cons.prems(2) p m1(2-4)]) (use n(4-6) in auto)
    from Cons.IH [OF pool_inv_frame [OF Cons.prems(1) m1(2)] this] obtain m' where
      m': "reset_large (ln_next n) m1 = Some (Inr m')" "same_pages ns m1 m'"
        "pm_blocks m' = (\<lambda>a. if a \<in> live_large m1 ls then None else pm_blocks m1 a)" by blast
    have "live_large m1 ls = live_large m ls" using m1(4) by (auto simp: live_large_def node_addr_def image_iff)
    then have "pm_blocks m' = (\<lambda>a. if a \<in> live_large m (p # ls) then None else pm_blocks m a)"
      using m'(3) m1(3) nz by (auto simp: live_large_def fun_eq_iff)
    moreover have "reset_large start m = Some (Inr m')"
      using n m1(1) m'(1) False a by (subst reset_large.simps) (simp add: derefL_def)
    ultimately show ?thesis using same_pages_trans [OF m1(2) m'(2)] by blast
  qed
qed

text \<open>The loops over the pages leave the large side alone.\<close>

definition same_large :: "pool_mem \<Rightarrow> pool_mem \<Rightarrow> bool" where
  "same_large m m' \<longleftrightarrow> pm_largeList m' = pm_largeList m \<and> pm_blocks m' = pm_blocks m \<and> pm_large m' = pm_large m"

lemma same_large_set_small: "same_large (set_small p n m) m' = same_large m m'"
  by (simp add: same_large_def set_small_def)

lemma reset_small_frame:
  assumes "reset_small small m = Some (Inr m')"
  shows "same_large m m'"
proof -
  have "\<forall>m'. Inr m' = r \<longrightarrow> same_large m m'" if "reset_small small m = Some r" for r
  proof (rule reset_small.raw_induct [where P = "\<lambda>small m r. \<forall>m'. Inr m' = r \<longrightarrow> same_large m m'", OF _ that])
    fix f small m r
    assume IH: "\<And>small m r. f small m = Some r \<Longrightarrow> \<forall>m'. Inr m' = r \<longrightarrow> same_large m m'"
      and eq: "(if small = 0 then Some (Inr m)
        else case derefS m small of Inl e \<Rightarrow> Some (Inl e)
          | Inr n \<Rightarrow> f (sn_next n) (set_small small (n\<lparr>sn_last := small + sizeof_SmallNode, sn_failed := 0, sn_quote := 0\<rparr>) m)) = Some r"
    show "\<forall>m'. Inr m' = r \<longrightarrow> same_large m m'"
    proof (cases "small = 0")
      case True
      then show ?thesis using eq by (auto simp: same_large_def)
    next
      case False
      then show ?thesis using eq
        by (cases "derefS m small") (auto dest!: IH simp: same_large_set_small)
    qed
  qed
  then show ?thesis using assms by blast
qed

section \<open>Freeing\<close>

lemma freeMemory_large:
  assumes inv: "pool_inv m ns" and ok: "large_inv m ns ls" and a: "a \<in> live_large m ls"
  shows "\<exists>m'. freeMemory a m = Some (Inr m') \<and> pool_inv m' ns \<and> large_inv m' ns ls
    \<and> live_large m' ls = live_large m ls - {a} \<and> pm_blocks m' = (pm_blocks m)(a := None)
    \<and> (\<forall>q \<in> set ns. used m' q = used m q)"
proof -
  from a obtain p where p: "p \<in> set ls" "node_addr m p = a" "a \<noteq> 0" by (auto simp: live_large_def)
  have nz: "node_addr m p \<noteq> 0" using p by simp
  from lchain_nonzero [OF large_okD(1) [OF ok] p(1)] obtain n where n: "pm_large m p = Some n" by blast
  from free_large_block [OF inv ok p(1) nz] obtain m1 where
    m1: "free_block a m = Inr m1" "same_pages ns m m1" "pm_largeList m1 = pm_largeList m" "pm_blocks m1 = (pm_blocks m)(a := None)"
      "\<forall>l \<in> set ls. pm_large m1 l = pm_large m l" unfolding p(2) by blast
  let ?m' = "m1\<lparr>pm_large := (pm_large m1)(p \<mapsto> n\<lparr>ln_size := 0, ln_address := 0\<rparr>)\<rparr>"
  have "free_large a (pm_largeList m) m = Some (Inr (Some ?m'))"
    using free_large_found [OF large_okD(1) [OF ok] p(1,2) _ n] large_okD(6) [OF ok, of _ p] p m1(1) by fastforce
  then have run: "freeMemory a m = Some (Inr ?m')" by (simp add: freeMemory_def)
  have same: "same_pages ns m ?m'" using m1(2) by (simp add: same_pages_def)
  have addr: "node_addr ?m' l = (if l = p then 0 else node_addr m l)" if "l \<in> set ls" for l
    using m1(5) that by (simp add: node_addr_def)
  have "lchain (pm_large ?m') (pm_largeList m) ls = lchain (pm_large m) (pm_largeList m) ls"
    by (rule lchain_cong) (use m1(5) n in auto)
  moreover have "node_addr m l \<noteq> a" if "l \<in> set ls" "l \<noteq> p" for l using large_okD(6) [OF ok that(1) p(1) that(2)] p by auto
  then have "pm_blocks ?m' (node_addr m l) = pm_blocks m (node_addr m l)" if "l \<in> set ls" "l \<noteq> p" for l
    using that m1(4) by simp
  moreover from this have "ranges_apart ?m' ls"
    by (intro ranges_apart_frame [OF large_okD(7) [OF ok]]) (use addr in \<open>auto simp: block_range_def split: if_splits\<close>)
  ultimately have "large_inv ?m' ns ls"
    unfolding large_ok_def using large_okD(1-6) [OF ok] addr same_pages_page_of [OF same] same_pages_used [OF same] m1(3)
    by (auto simp: block_range_def)
  moreover have "live_large ?m' ls = live_large m ls - {a}"
    using addr \<open>\<And>l. l \<in> set ls \<Longrightarrow> l \<noteq> p \<Longrightarrow> node_addr m l \<noteq> a\<close> p by (auto simp: live_large_def)
  ultimately show ?thesis
    using run pool_inv_frame [OF inv same] same_pages_used [OF same] m1(4) by auto
qed

lemma resetPool_all:
  assumes inv: "pool_inv m ns" and ok: "large_inv m ns ls"
  shows "\<exists>m'. resetPool m = Some (Inr m') \<and> pool_inv m' ns \<and> pm_largeList m' = 0 \<and> (\<forall>q \<in> set ns. used m' q = {})
    \<and> pm_blocks m' = (\<lambda>a. if a \<in> live_large m ls then None else pm_blocks m a)"
proof -
  from reset_large_ok [OF inv ok] obtain m1 where
    m1: "reset_large (pm_largeList m) m = Some (Inr m1)" "same_pages ns m m1"
      "pm_blocks m1 = (\<lambda>a. if a \<in> live_large m ls then None else pm_blocks m a)" by blast
  let ?m2 = "m1\<lparr>pm_largeList := 0, pm_current := pm_head m1\<rparr>"
  have ns: "chain (pm_small m1) (pm_head m1) ns" "distinct ns" "pm_head m1 \<in> set ns"
    using pool_inv_frame [OF inv m1(2)] by (cases ns; auto simp: pool_inv_def)+
  have "same_pages ns (m\<lparr>pm_current := pm_head m\<rparr>) ?m2" using m1(2) by (simp add: same_pages_def)
  moreover have "pool_inv (m\<lparr>pm_current := pm_head m\<rparr>) ns"
  proof -
    have "pm_head m \<in> set ns" using inv by (cases ns) (auto simp: pool_inv_def)
    moreover have "page_base (m\<lparr>pm_current := pm_head m\<rparr>) = page_base m" by (simp add: page_base_def fun_eq_iff)
    ultimately show ?thesis using inv by (auto simp: pool_inv_def node_ok_def)
  qed
  ultimately have "pool_inv ?m2 ns" by (rule pool_inv_frame [rotated])
  from reset_small_inv [OF this _ order_refl ns(2), of "pm_head m1"] ns(1) obtain m' where
    m': "reset_small (pm_head m1) ?m2 = Some (Inr m')" "pool_inv m' ns" "\<forall>q \<in> set ns. used m' q = {}" by auto
  have "pm_largeList m' = 0 \<and> pm_blocks m' = pm_blocks m1" using reset_small_frame [OF m'(1)] by (simp add: same_large_def)
  moreover have "resetPool m = Some (Inr m')"
    using m1(1,2) m'(1) by (simp add: resetPool_def same_pages_def)
  ultimately show ?thesis using m' m1(3) by auto
qed

section \<open>Allocating\<close>

lemma find_tail_frame:
  assumes "find_tail cur current m = Some (Inr (c, cu, m'))"
  shows "same_large m m'"
proof -
  have "\<forall>c cu m'. Inr (c, cu, m') = r \<longrightarrow> same_large m m'" if "find_tail cur current m = Some r" for r
  proof (rule find_tail.raw_induct [where P = "\<lambda>cur current m r. \<forall>c cu m'. Inr (c, cu, m') = r \<longrightarrow> same_large m m'", OF _ that])
    fix f cur current m r
    assume IH: "\<And>cur current m r. f cur current m = Some r \<Longrightarrow> \<forall>c cu m'. Inr (c, cu, m') = r \<longrightarrow> same_large m m'"
      and eq: "(case derefS m cur of Inl e \<Rightarrow> Some (Inl e)
        | Inr n \<Rightarrow> if sn_next n \<noteq> 0
            then f (sn_next n) (if 5 \<le> sn_failed n then sn_next n else current)
                   (set_small cur (n\<lparr>sn_failed := uint_inc (sn_failed n)\<rparr>) m)
            else Some (Inr (cur, current, m))) = Some r"
    show "\<forall>c cu m'. Inr (c, cu, m') = r \<longrightarrow> same_large m m'"
      using eq by (cases "derefS m cur")
        (auto dest!: IH simp: same_large_set_small same_large_def [of m m] split: if_splits)
  qed
  then show ?thesis using assms by blast
qed

lemma malloc_small_frame:
  assumes "malloc_small sz (Some b) junk m = Some (Inr (addr, m'))"
  shows "pm_large m' = pm_large m" "pm_largeList m' = pm_largeList m"
    "pm_blocks m' = pm_blocks m \<or> pm_blocks m' = (pm_blocks m)(b \<mapsto> PAGE_SIZE)"
proof -
  have node: "pm_large m' = pm_large m \<and> pm_largeList m' = pm_largeList m \<and> pm_blocks m' = (pm_blocks m)(b \<mapsto> PAGE_SIZE)"
    if "mallocSmallNode sz (Some b) junk m = Some (Inr (addr, m'))"
    using that
    by (auto simp: mallocSmallNode_def Let_def bindR_Inr_iff set_small_def same_large_def
        split: option.splits dest!: find_tail_frame)
  have "pm_large m' = pm_large m \<and> pm_largeList m' = pm_largeList m
    \<and> (pm_blocks m' = pm_blocks m \<or> pm_blocks m' = (pm_blocks m)(b \<mapsto> PAGE_SIZE))"
    using assms node
    by (auto simp: malloc_small_def bindR_Inr_iff set_small_def split: option.splits sum.splits)
  then show "pm_large m' = pm_large m" "pm_largeList m' = pm_largeList m"
    "pm_blocks m' = pm_blocks m \<or> pm_blocks m' = (pm_blocks m)(b \<mapsto> PAGE_SIZE)" by blast+
qed

lemma find_large_ok:
  "lchain (pm_large m) start ls \<Longrightarrow>
    \<exists>r. find_large k start m = Inr r \<and> (\<forall>p. r = Some p \<longrightarrow> p \<in> set ls \<and> node_addr m p = 0)"
proof (induction ls arbitrary: start k)
  case (Cons q ls)
  then obtain n where n: "start = q" "q \<noteq> 0" "pm_large m q = Some n" "lchain (pm_large m) (ln_next n) ls" by auto
  show ?case
  proof (cases "ln_address n = 0 \<or> k = 0")
    case True
    then show ?thesis using n by (subst find_large.simps) (auto simp: derefL_def node_addr_def)
  next
    case False
    then obtain k' where "k = Suc k'" by (cases k) auto
    then show ?thesis using Cons.IH [OF n(4), of k'] False n by (subst find_large.simps) (auto simp: derefL_def)
  qed
qed (simp add: find_large.simps)

text \<open>What \<open>posix_memalign\<close> promises for a large block \<open>a\<close> and a page \<open>b\<close>: they overlap nothing in use.\<close>

definition fresh_large :: "pool_mem \<Rightarrow> nat list \<Rightarrow> nat list \<Rightarrow> nat \<Rightarrow> nat \<Rightarrow> nat \<Rightarrow> bool" where
  "fresh_large m ns ls a sz b \<longleftrightarrow> a \<noteq> 0 \<and> 0 < sz \<and> pm_blocks m a = None \<and> pm_blocks m b = None \<and> fresh_page m ns b
     \<and> (\<forall>q \<in> set ns. {a ..< a + sz} \<inter> page_of m q = {}) \<and> {a ..< a + sz} \<inter> {b ..< b + PAGE_SIZE} = {}
     \<and> (\<forall>p \<in> set ls. node_addr m p \<noteq> 0 \<longrightarrow> block_range m (node_addr m p) \<inter> {b ..< b + PAGE_SIZE} = {}
          \<and> block_range m (node_addr m p) \<inter> {a ..< a + sz} = {})"

text \<open>A node takes the new block: it is one of the list, or a new one in front of it.\<close>

lemma large_ok_taken:
  assumes ok: "large_ok m ns start ls" and fresh: "fresh_large m ns ls a sz b"
    and pages: "set ns \<subseteq> set ns'" "set ns' \<subseteq> insert b (set ns)" "\<And>q. page_of m' q = page_of m q"
      "page_of m b = {b ..< b + PAGE_SIZE}" "\<And>q. q \<in> set ns \<Longrightarrow> used m q \<subseteq> used m' q"
    and blocks: "pm_blocks m' a = Some sz" "\<And>x. x \<noteq> a \<Longrightarrow> x \<noteq> b \<Longrightarrow> pm_blocks m' x = pm_blocks m x"
    and nodes: "node_addr m' p = a" "\<And>l. l \<in> set ls \<Longrightarrow> l \<noteq> p \<Longrightarrow> node_addr m' l = node_addr m l"
    and ls': "lchain (pm_large m') start' ls'" "distinct ls'" "set ls' = insert p (set ls)" "\<exists>q \<in> set ns'. p \<in> used m' q"
  shows "large_ok m' ns' start' ls'"
proof -
  note D = large_okD [OF ok]
  have other: "node_addr m l \<noteq> a" "pm_blocks m' (node_addr m l) = pm_blocks m (node_addr m l)"
    if "l \<in> set ls" "node_addr m l \<noteq> 0" for l
  proof -
    have "pm_blocks m (node_addr m l) \<noteq> None" using D(4) [OF that] by auto
    then have "node_addr m l \<noteq> a \<and> node_addr m l \<noteq> b" using fresh by (auto simp: fresh_large_def)
    then show "node_addr m l \<noteq> a" "pm_blocks m' (node_addr m l) = pm_blocks m (node_addr m l)" using blocks(2) by auto
  qed
  have nz: "a \<noteq> 0" using fresh by (simp add: fresh_large_def)
  have "pm_blocks m' (node_addr m' l) \<noteq> None \<and> (\<forall>q \<in> set ns'. block_range m' (node_addr m' l) \<inter> page_of m' q = {})"
    if l: "l \<in> set ls'" "node_addr m' l \<noteq> 0" for l
  proof (cases "l = p")
    case True
    have "{a ..< a + sz} \<inter> page_of m q = {}" if "q \<in> set ns'" for q
    proof (cases "q = b")
      case True
      then show ?thesis using pages(4) fresh unfolding fresh_large_def by blast
    next
      case False
      then show ?thesis using that pages(2) fresh by (auto simp: fresh_large_def)
    qed
    then show ?thesis using True nodes(1) blocks(1) pages(3) by (simp add: block_range_def)
  next
    case False
    then have ll: "l \<in> set ls" "node_addr m' l = node_addr m l" using l ls'(3) nodes(2) by auto
    then have "block_range m' (node_addr m l) = block_range m (node_addr m l)" using l(2) other(2) by (simp add: block_range_def)
    moreover have "block_range m (node_addr m l) \<inter> page_of m q = {}" if "q \<in> set ns'" for q
    proof (cases "q = b")
      case True
      then show ?thesis using pages(4) ll l(2) fresh unfolding fresh_large_def by metis
    next
      case False
      then show ?thesis using that pages(2) D(5) [of l q] ll l(2) by auto
    qed
    ultimately show ?thesis using ll l(2) other D(4) [of l] pages(3) by auto
  qed
  moreover have "node_addr m' l = 0" if "l \<in> set ls'" "q \<in> set ls'" "l \<noteq> q" "node_addr m' l = node_addr m' q" for l q
  proof (cases "l = p \<or> q = p")
    case True
    then show ?thesis using that nodes ls'(3) other(1) nz by (metis insert_iff)
  next
    case False
    then show ?thesis using that nodes(2) ls'(3) D(6) [of l q] by auto
  qed
  moreover have "ranges_apart m' ls'"
  proof -
    have mine: "block_range m' a = {a ..< a + sz}" using blocks(1) by (simp add: block_range_def)
    have theirs: "block_range m' (node_addr m' l) = block_range m (node_addr m l) \<and> node_addr m l \<noteq> 0 \<and> l \<in> set ls
        \<and> block_range m (node_addr m l) \<inter> {a ..< a + sz} = {}"
      if "l \<in> set ls'" "l \<noteq> p" "node_addr m' l \<noteq> 0" for l
    proof -
      have l: "l \<in> set ls" "node_addr m' l = node_addr m l" using that ls'(3) nodes(2) by auto
      then show ?thesis using other(2) [OF l(1)] that(3) fresh by (simp add: block_range_def fresh_large_def)
    qed
    show ?thesis unfolding ranges_apart_def
    proof (intro ballI impI)
      fix l q assume lq: "l \<in> set ls'" "q \<in> set ls'" "l \<noteq> q \<and> node_addr m' l \<noteq> 0 \<and> node_addr m' q \<noteq> 0"
      consider "l = p" | "q = p" | "l \<noteq> p" "q \<noteq> p" by blast
      then show "block_range m' (node_addr m' l) \<inter> block_range m' (node_addr m' q) = {}"
      proof cases
        case 1
        then show ?thesis using theirs [of q] lq mine nodes(1) by auto
      next
        case 2
        then show ?thesis using theirs [of l] lq mine nodes(1) by auto
      next
        case 3
        then show ?thesis using theirs [of l] theirs [of q] lq D(7) by (auto simp: ranges_apart_def)
      qed
    qed
  qed
  moreover have "\<forall>l \<in> set ls'. \<exists>q \<in> set ns'. l \<in> used m' q"
    unfolding ls'(3) using ls'(4) D(3) pages(1,5) by blast
  ultimately show ?thesis unfolding large_ok_def using ls'(1,2) by blast
qed

lemma fresh_large_facts:
  assumes "pool_inv m ns" "fresh_large m ns ls a sz b"
  shows "a \<noteq> b" "page_of m b = {b ..< b + PAGE_SIZE}"
proof -
  have "a \<in> {a ..< a + sz}" using assms(2) by (simp add: fresh_large_def)
  then show "a \<noteq> b" using assms(2) by (auto simp: fresh_large_def PAGE_SIZE_def)
  have "b \<noteq> pm_head m" using fresh_page_new(2) [OF assms(1)] assms(2) by (simp add: fresh_large_def)
  then show "page_of m b = {b ..< b + PAGE_SIZE}" by (simp add: page_of_def page_base_def)
qed

lemma live_large_insert:
  assumes "large_ok m ns start ls" "node_addr m' p = a" "a \<noteq> 0" "\<And>l. l \<in> set ls \<Longrightarrow> l \<noteq> p \<Longrightarrow> node_addr m' l = node_addr m l"
    "set ls' = insert p (set ls)" "p \<in> set ls \<Longrightarrow> node_addr m p = 0"
  shows "live_large m' ls' = insert a (live_large m ls)"
proof -
  have "node_addr m' ` set ls' = insert a (node_addr m ` (set ls - {p}))"
    using assms(2,4,5) by (auto simp: image_iff) (metis)+
  then show ?thesis using assms(3,6) by (auto simp: live_large_def)
qed

text \<open>The outcome of a large allocation at \<open>a\<close>.\<close>

definition large_added :: "pool_mem \<Rightarrow> nat list \<Rightarrow> nat list \<Rightarrow> nat \<Rightarrow> nat \<Rightarrow> (nat \<times> pool_mem) res option \<Rightarrow> bool" where
  "large_added m ns ls a sz x \<longleftrightarrow> (\<exists>m' ns' ls'. x = Some (Inr (a, m')) \<and> pool_inv m' ns' \<and> large_inv m' ns' ls'
    \<and> live_large m' ls' = insert a (live_large m ls) \<and> pm_blocks m' a = Some sz
    \<and> set ns \<subseteq> set ns' \<and> (\<forall>q \<in> set ns. used m q \<subseteq> used m' q))"

text \<open>A node whose block was freed is used again.\<close>

lemma mallocLarge_reuse:
  assumes inv: "pool_inv m ns" and ok: "large_inv m ns ls" and fresh: "fresh_large m ns ls a sz b"
    and r: "find_large 4 (pm_largeList m) (m\<lparr>pm_blocks := (pm_blocks m)(a \<mapsto> sz)\<rparr>) = Inr (Some p)"
    and p: "p \<in> set ls" "node_addr m p = 0"
  shows "large_added m ns ls a sz (mallocLargeNode sz (Some a) (Some b) junk m)"
proof -
  note F = fresh_large_facts [OF inv fresh]
  let ?m1 = "m\<lparr>pm_blocks := (pm_blocks m)(a \<mapsto> sz)\<rparr>"
  have nz: "a \<noteq> 0" using fresh by (simp add: fresh_large_def)
  from lchain_nonzero [OF large_okD(1) [OF ok] p(1)] obtain n where n: "p \<noteq> 0" "pm_large m p = Some n" by blast
  let ?m' = "?m1\<lparr>pm_large := (pm_large m)(p \<mapsto> n\<lparr>ln_size := sz mod 2 ^ 32, ln_address := a\<rparr>)\<rparr>"
  have run: "mallocLargeNode sz (Some a) (Some b) junk m = Some (Inr (a, ?m'))"
    using r n by (simp add: mallocLargeNode_def derefL_def Let_def del: find_large.simps)
  have addr: "node_addr ?m' p = a" "\<And>l. l \<noteq> p \<Longrightarrow> node_addr ?m' l = node_addr m l" by (simp_all add: node_addr_def)
  have "lchain (pm_large ?m') (pm_largeList m) ls = lchain (pm_large m) (pm_largeList m) ls"
    by (rule lchain_cong) (use n in simp)
  then have "large_inv ?m' ns ls"
    using large_okD [OF ok] p(1) addr F
    by (intro large_ok_taken [OF ok fresh, where p = p]) (auto simp: page_of_def page_base_def used_def)
  moreover have "same_pages ns m ?m'" by (simp add: same_pages_def)
  moreover have "live_large ?m' ls = insert a (live_large m ls)"
    by (rule live_large_insert [OF ok addr(1) nz]) (use addr(2) p in auto)
  ultimately show ?thesis unfolding large_added_def
    using run pool_inv_frame [OF inv] same_pages_used by (intro exI [of _ ?m'] exI [of _ ns] exI [of _ ls]) auto
qed

text \<open>A new node is allocated from the pages and put in front.\<close>

lemma mallocLarge_new:
  assumes inv: "pool_inv m ns" and ok: "large_inv m ns ls" and fresh: "fresh_large m ns ls a sz b"
    and r: "find_large 4 (pm_largeList m) (m\<lparr>pm_blocks := (pm_blocks m)(a \<mapsto> sz)\<rparr>) = Inr None"
  shows "large_added m ns ls a sz (mallocLargeNode sz (Some a) (Some b) junk m)"
proof -
  note F = fresh_large_facts [OF inv fresh]
  let ?m1 = "m\<lparr>pm_blocks := (pm_blocks m)(a \<mapsto> sz)\<rparr>"
  have nz: "a \<noteq> 0" using fresh by (simp add: fresh_large_def)
  have inv1: "pool_inv ?m1 ns" by (rule pool_inv_frame [OF inv]) (simp add: same_pages_def)
  have fp: "fresh_page ?m1 ns b" using fresh by (auto simp: fresh_large_def fresh_page_def page_base_def)
  have szl: "sizeof_LargeNode \<le> PAGE_SIZE - sizeof_SmallNode" by (simp add: pool_sizes)
  have "used ?m1 = used m" "pm_head ?m1 = pm_head m" "pm_pool ?m1 = pm_pool m" by (simp_all add: used_def fun_eq_iff)
  note ms = malloc_small_ok [OF inv1 fp, of sizeof_LargeNode junk, unfolded small_taken_def this]
  obtain node m2 ns' where
    m2: "malloc_small sizeof_LargeNode (Some b) junk ?m1 = Some (Inr (node, m2))" "pool_inv m2 ns'" "ns' = ns \<or> ns' = ns @ [b]"
      "pm_head m2 = pm_head m" "pm_pool m2 = pm_pool m"
      "\<forall>q \<in> set ns. used m q \<subseteq> used m2 q \<and> used m q \<inter> {node ..< node + sizeof_LargeNode} = {}"
      "\<exists>p \<in> set ns'. {node ..< node + sizeof_LargeNode} \<subseteq> used m2 p"
    using ms [OF szl] by blast
  note fr = malloc_small_frame [OF m2(1)]
  have reg: "node \<in> {node ..< node + sizeof_LargeNode}" by (simp add: pool_sizes)
  obtain p where p: "p \<in> set ns'" "node \<in> used m2 p" using m2(7) reg by blast
  then have "node \<noteq> 0" by (auto simp: used_def sizeof_SmallNode_def split: option.splits)
  have new: "node \<notin> set ls" using large_okD(3) [OF ok] m2(6) reg by blast
  let ?m' = "m2\<lparr>pm_large := (pm_large m2)(node \<mapsto> \<lparr>ln_address = a, ln_size = sz mod 2 ^ 32, ln_next = pm_largeList m2\<rparr>),
     pm_largeList := node\<rparr>"
  have run: "mallocLargeNode sz (Some a) (Some b) junk m = Some (Inr (a, ?m'))"
    using r m2(1) \<open>node \<noteq> 0\<close> by (simp add: mallocLargeNode_def Let_def del: find_large.simps)
  have addr: "node_addr ?m' node = a" "\<And>l. l \<noteq> node \<Longrightarrow> node_addr ?m' l = node_addr m l"
    using fr(1) by (simp_all add: node_addr_def)
  have used: "used ?m' q = used m2 q" for q by (simp add: used_def)
  have pg: "page_of ?m' q = page_of m q" for q using m2(4,5) by (simp add: page_of_def page_base_def)
  have "lchain (pm_large ?m') (pm_largeList m) ls = lchain (pm_large m) (pm_largeList m) ls"
    by (rule lchain_cong) (use fr(1) new in auto)
  then have ch: "lchain (pm_large ?m') node (node # ls)"
    using large_okD(1) [OF ok] \<open>node \<noteq> 0\<close> fr(2) by simp
  have bl: "pm_blocks ?m' a = Some sz" "\<And>x. x \<noteq> a \<Longrightarrow> x \<noteq> b \<Longrightarrow> pm_blocks ?m' x = pm_blocks m x"
    using fr(3) F(1) by auto
  have "large_ok ?m' ns' (pm_largeList ?m') (node # ls)"
  proof (rule large_ok_taken [OF ok fresh, where p = node])
    show "lchain (pm_large ?m') (pm_largeList ?m') (node # ls)" using ch by simp
    show "distinct (node # ls)" using new large_okD(2) [OF ok] by simp
    show "\<exists>q \<in> set ns'. node \<in> used ?m' q" using p used by auto
    show "used m q \<subseteq> used ?m' q" if "q \<in> set ns" for q using m2(6) that used by simp
    show "pm_blocks ?m' a = Some sz" by (rule bl(1))
    show "pm_blocks ?m' x = pm_blocks m x" if "x \<noteq> a" "x \<noteq> b" for x by (rule bl(2) [OF that])
  qed (use m2(3) pg F(2) addr in auto)
  moreover have "live_large ?m' (node # ls) = insert a (live_large m ls)"
    by (rule live_large_insert [OF ok addr(1) nz]) (use addr(2) new in auto)
  moreover have "pool_inv ?m' ns'" by (rule pool_inv_frame [OF m2(2)]) (simp add: same_pages_def)
  ultimately show ?thesis unfolding large_added_def
    using run m2(3,6) used bl(1) by (intro exI [of _ ?m'] exI [of _ ns'] exI [of _ "node # ls"]) auto
qed

lemma mallocLargeNode_ok:
  assumes inv: "pool_inv m ns" and ok: "large_inv m ns ls" and fresh: "fresh_large m ns ls a sz b"
  shows "large_added m ns ls a sz (mallocLargeNode sz (Some a) (Some b) junk m)"
proof -
  let ?m1 = "m\<lparr>pm_blocks := (pm_blocks m)(a \<mapsto> sz)\<rparr>"
  from find_large_ok [of ?m1 "pm_largeList m" ls 4] large_okD(1) [OF ok] obtain r where
    r: "find_large 4 (pm_largeList m) ?m1 = Inr r" "\<And>p. r = Some p \<Longrightarrow> p \<in> set ls \<and> node_addr m p = 0"
    by (auto simp: node_addr_def)
  then show ?thesis
    using mallocLarge_new [OF inv ok fresh] mallocLarge_reuse [OF inv ok fresh] by (cases r) blast+
qed

section \<open>Properties\<close>

text \<open>Claim C29. Large blocks are owned by exactly one node each, and overlap neither each other nor a page: an
  allocation at an address where \<open>posix_memalign\<close> found free memory adds its block to the live ones, which stay
  apart; freeing a live block returns exactly this block to the C heap and keeps every other one and every
  small allocation; and a reset returns all large blocks, each once, and empties every page. None of the three
  fails or leaves the well-formed states, with any number of blocks of both kinds in use.\<close>

theorem large_blocks_owned:
  assumes "pool_inv m ns" and "large_inv m ns ls"
  shows "(\<forall>a sz b junk. PAGE_SIZE - sizeof_SmallNode < sz \<and> fresh_large m ns ls a sz b \<longrightarrow>
        (\<exists>m' ns' ls'. pool_malloc sz (Some a) (Some b) junk m = Some (Inr (a, m')) \<and> pool_inv m' ns' \<and> large_inv m' ns' ls'
           \<and> live_large m' ls' = insert a (live_large m ls) \<and> block_range m' a = {a ..< a + sz}
           \<and> (\<forall>x \<in> live_large m' ls'. (\<forall>y \<in> live_large m' ls' - {x}. block_range m' x \<inter> block_range m' y = {})
                \<and> (\<forall>q \<in> set ns'. block_range m' x \<inter> page_of m' q = {}))
           \<and> set ns \<subseteq> set ns' \<and> (\<forall>q \<in> set ns. used m q \<subseteq> used m' q)))
    \<and> (\<forall>a \<in> live_large m ls. \<exists>m'. freeMemory a m = Some (Inr m') \<and> pool_inv m' ns \<and> large_inv m' ns ls
           \<and> live_large m' ls = live_large m ls - {a} \<and> pm_blocks m' = (pm_blocks m)(a := None)
           \<and> (\<forall>q \<in> set ns. used m' q = used m q))
    \<and> (\<exists>m'. resetPool m = Some (Inr m') \<and> pool_inv m' ns \<and> large_inv m' ns [] \<and> (\<forall>q \<in> set ns. used m' q = {})
           \<and> pm_blocks m' = (\<lambda>a. if a \<in> live_large m ls then None else pm_blocks m a))"
proof (intro conjI allI impI ballI)
  fix a sz b junk
  assume "PAGE_SIZE - sizeof_SmallNode < sz \<and> fresh_large m ns ls a sz b"
  then obtain m' ns' ls' where m': "pool_malloc sz (Some a) (Some b) junk m = Some (Inr (a, m'))" "pool_inv m' ns'"
    "large_inv m' ns' ls'" "live_large m' ls' = insert a (live_large m ls)" "pm_blocks m' a = Some sz"
    "set ns \<subseteq> set ns'" "\<forall>q \<in> set ns. used m q \<subseteq> used m' q"
    using mallocLargeNode_ok [OF assms, of a sz b junk] by (auto simp: pool_malloc_def large_added_def)
  have "block_range m' a = {a ..< a + sz}" using m'(5) by (simp add: block_range_def)
  moreover have "(\<forall>y \<in> live_large m' ls' - {x}. block_range m' x \<inter> block_range m' y = {})
      \<and> (\<forall>q \<in> set ns'. block_range m' x \<inter> page_of m' q = {})" if "x \<in> live_large m' ls'" for x
    using live_large_apart [OF m'(3) that] by blast
  ultimately show "\<exists>m' ns' ls'. pool_malloc sz (Some a) (Some b) junk m = Some (Inr (a, m')) \<and> pool_inv m' ns'
      \<and> large_inv m' ns' ls' \<and> live_large m' ls' = insert a (live_large m ls) \<and> block_range m' a = {a ..< a + sz}
      \<and> (\<forall>x \<in> live_large m' ls'. (\<forall>y \<in> live_large m' ls' - {x}. block_range m' x \<inter> block_range m' y = {})
           \<and> (\<forall>q \<in> set ns'. block_range m' x \<inter> page_of m' q = {}))
      \<and> set ns \<subseteq> set ns' \<and> (\<forall>q \<in> set ns. used m q \<subseteq> used m' q)"
    using m' by blast
next
  show "\<exists>m'. resetPool m = Some (Inr m') \<and> pool_inv m' ns \<and> large_inv m' ns [] \<and> (\<forall>q \<in> set ns. used m' q = {})
      \<and> pm_blocks m' = (\<lambda>a. if a \<in> live_large m ls then None else pm_blocks m a)"
    using resetPool_all [OF assms] by (auto simp: large_ok_def ranges_apart_def)
qed (rule freeMemory_large [OF assms])

text \<open>A pool after a first large allocation, at 65536, whose node is the first thing in the page; a second one
  follows.\<close>

definition sample_large :: pool_mem where
  "sample_large = \<lparr>pm_pool = 4096, pm_largeList = 4160, pm_head = 4120, pm_current = 4120,
     pm_small = [4120 \<mapsto> \<lparr>sn_end = 8192, sn_last = 4184, sn_quote = 1, sn_failed = 0, sn_next = 0\<rparr>],
     pm_large = [4160 \<mapsto> \<lparr>ln_address = 65536, ln_size = 5000, ln_next = 0\<rparr>],
     pm_blocks = [4096 \<mapsto> 4096, 65536 \<mapsto> 5000]\<rparr>"

lemma sample_large_first:
  "pool_malloc 5000 (Some 65536) (Some 16384) zero_node (createPool (Some 4096) zero_node no_pool) = Some (Inr (65536, sample_large))"
proof -
  let ?m = "(createPool (Some 4096) zero_node no_pool)\<lparr>pm_blocks := [4096 \<mapsto> 4096, 65536 \<mapsto> 5000]\<rparr>"
  have "find_room sizeof_LargeNode 4120 ?m = Some (Inr (Some (4120, 4160)))"
    by (subst find_room.simps)
      (simp add: createPool_def zero_node_def no_pool_def derefS_def mp_align_ptr_def size_of_int_def pool_sizes Let_def)
  then show ?thesis
    by (simp add: pool_malloc_def mallocLargeNode_def malloc_small_def createPool_def zero_node_def no_pool_def derefS_def
        set_small_def uint_inc_def pool_sizes Let_def sample_large_def)
qed

lemma sample_large_inv: "pool_inv sample_large [4120]" "large_inv sample_large [4120] [4160]"
  by (simp_all add: sample_large_def pool_inv_def node_ok_def large_ok_def ranges_apart_def page_base_def page_of_def
      used_def node_addr_def block_range_def pool_sizes)

theorem large_blocks_owned_witness:
  "\<exists>m'. pool_malloc 8000 (Some 131072) (Some 16384) zero_node sample_large = Some (Inr (131072, m'))
    \<and> block_range m' 65536 \<inter> block_range m' 131072 = {} \<and> (\<exists>m''. freeMemory 65536 sample_large = Some (Inr m''))"
proof -
  note main = large_blocks_owned [OF sample_large_inv]
  have live: "live_large sample_large [4160] = {65536}" by (simp add: sample_large_def live_large_def node_addr_def)
  have "fresh_large sample_large [4120] [4160] 131072 8000 16384"
    by (simp add: sample_large_def fresh_large_def fresh_page_def page_of_def page_base_def apart_def node_addr_def
        block_range_def pool_sizes)
  then have fits: "PAGE_SIZE - sizeof_SmallNode < 8000 \<and> fresh_large sample_large [4120] [4160] 131072 8000 16384"
    by (simp add: pool_sizes)
  from main [THEN conjunct1, THEN spec, THEN spec, THEN spec, THEN spec [of _ zero_node], THEN mp, OF fits] obtain m' ns' ls' where
    m': "pool_malloc 8000 (Some 131072) (Some 16384) zero_node sample_large = Some (Inr (131072, m'))"
      "live_large m' ls' = insert 131072 (live_large sample_large [4160])"
      "\<forall>x \<in> live_large m' ls'. (\<forall>y \<in> live_large m' ls' - {x}. block_range m' x \<inter> block_range m' y = {})
        \<and> (\<forall>q \<in> set ns'. block_range m' x \<inter> page_of m' q = {})"
    by (elim exE conjE) (rule that, assumption+)
  have "65536 \<in> live_large m' ls'" "131072 \<in> live_large m' ls' - {65536}" unfolding m'(2) live by simp_all
  then have "block_range m' 65536 \<inter> block_range m' 131072 = {}"
    using bspec [OF conjunct1 [OF bspec [OF m'(3)]]] by blast
  moreover have "\<exists>m''. freeMemory 65536 sample_large = Some (Inr m'')"
    using bspec [OF conjunct1 [OF conjunct2 [OF main]], of 65536] unfolding live by auto
  ultimately show ?thesis using m'(1) by blast
qed

end
