(* ===== verification/PoolPrograms.thy ===== *)
theory PoolPrograms
  imports LargeBlocks
begin

text \<open>
  The test program of the memory pool (\<open>src/src/memory/test/MemoryPoolTest.cc\<close>): \<open>test2\<close>, which \<open>main\<close> runs, takes a
  million small blocks from a pool and destroys it. The calls of the C library's \<open>malloc\<close> that it is compared with and the
  printed times are left out.
\<close>

section \<open>The program\<close>

definition ALLOCATE_COUNT :: nat where "ALLOCATE_COUNT = 1000000"
definition ALLOCATE_SIZE :: nat where "ALLOCATE_SIZE = 10"

text \<open>The pool's part of \<open>test2\<close>: \<open>createPool\<close> gets the page \<open>p\<close> that held \<open>junk\<close>, and call \<open>i\<close> of \<open>malloc\<close> would get
  \<open>pages ! i\<close> from \<open>posix_memalign\<close>.\<close>

definition test2 :: "nat \<Rightarrow> small_node \<Rightarrow> (nat \<times> small_node) list \<Rightarrow> pool_mem \<Rightarrow> pool_mem res option" where
  "test2 p junk pages m =
     (case mallocs (map (\<lambda>(b, junk). (ALLOCATE_SIZE, b, junk)) pages) (createPool (Some p) junk m) of
        None \<Rightarrow> None
      | Some (Inl e) \<Rightarrow> Some (Inl e)
      | Some (Inr (memory, m1)) \<Rightarrow> destroyPool m1)"

section \<open>Counting bytes\<close>

lemma region_card: "finite (region x)" "card (region x) = snd x"
  by (simp_all add: region_def)

text \<open>Disjoint regions inside a set of bytes are no longer together than the set.\<close>

lemma regions_fit:
  "sorted_wrt (\<lambda>x y. region x \<inter> region y = {}) ls \<Longrightarrow> \<forall>x \<in> set ls. region x \<subseteq> A \<Longrightarrow> finite A \<Longrightarrow>
    sum_list (map snd ls) \<le> card A"
proof (induction ls arbitrary: A)
  case (Cons x ls)
  have "\<forall>y \<in> set ls. region y \<subseteq> A - region x" using Cons.prems(1,2) by auto
  then have "sum_list (map snd ls) \<le> card (A - region x)" using Cons by simp
  also have "\<dots> = card A - snd x" using Cons.prems(2) region_card [of x] by (simp add: card_Diff_subset)
  finally have "sum_list (map snd ls) \<le> card A - snd x" .
  moreover have "snd x \<le> card A" using card_mono [OF Cons.prems(3), of "region x"] Cons.prems(2) region_card(2) [of x] by simp
  ultimately show ?case by simp
qed simp

lemma used_card: "pool_inv m ns \<Longrightarrow> q \<in> set ns \<Longrightarrow> finite (used m q) \<and> card (used m q) < PAGE_SIZE"
proof -
  assume inv: "pool_inv m ns" and q: "q \<in> set ns"
  let ?A = "{page_base m q + sizeof_SmallNode ..< page_base m q + PAGE_SIZE}"
  have sub: "used m q \<subseteq> ?A" by (rule used_page [OF pool_invD(3) [OF inv q] inv])
  then have "card (used m q) \<le> card ?A" by (intro card_mono) simp_all
  then show ?thesis using finite_subset [OF sub] by (simp add: pool_sizes)
qed

section \<open>What destroying a pool does\<close>

text \<open>A pool of one page is given back to the C heap.\<close>

lemma destroyPool_single:
  assumes "pool_inv m [h]" and "pm_largeList m = 0" and "pm_blocks m (pm_pool m) = Some PAGE_SIZE"
  shows "\<exists>m'. destroyPool m = Some (Inr m') \<and> pm_blocks m' = (pm_blocks m)(pm_pool m := None)"
proof -
  from assms(1) obtain n where h: "pm_head m = h" "h \<noteq> 0" "pm_small m h = Some n" "sn_next n = 0" "pm_pool m \<noteq> 0"
    by (auto simp: pool_inv_def)
  have "destroy_large 0 m = Some (Inr m)" "destroy_small 0 m = Some (Inr m)"
    by (subst destroy_large.simps destroy_small.simps, simp)+
  then show ?thesis using assms(2,3) h by (simp add: destroyPool_def derefS_def free_block_def)
qed

text \<open>A pool of more pages is not.\<close>

lemma destroyPool_many:
  assumes "pool_inv m ns" and "backed m ns" and "pm_largeList m = 0" and "length ns \<noteq> 1"
  shows "destroyPool m = Some (Inl UseAfterFree)"
proof -
  obtain h q qs where ns: "ns = h # q # qs"
    using assms(1,4) by (cases ns rule: remdups_adj.cases) (auto simp: pool_inv_def)
  then have "pm_head m = h" "q \<noteq> h" using assms(1) by (auto simp: pool_inv_def)
  then have "pm_blocks m q = Some PAGE_SIZE" using assms(2) ns by (simp add: backed_def)
  then show ?thesis using destroyPool_use_after_free assms(1,3) ns by simp
qed

text \<open>More bytes than a page has need a second page.\<close>

lemma mallocs_pages:
  assumes "pool_inv m ns" "\<forall>(sz, b, junk) \<in> set rs. 0 < sz \<and> sz \<le> PAGE_SIZE - sizeof_SmallNode \<and> fresh_page m ns b"
    and "sorted_wrt apart (map (\<lambda>(sz, b, junk). b) rs)" and "backed m ns" and many: "PAGE_SIZE \<le> sum_list (map fst rs)"
  shows "\<exists>ls m' ns'. mallocs rs m = Some (Inr (ls, m')) \<and> pool_inv m' ns' \<and> backed m' ns' \<and> pm_largeList m' = pm_largeList m
    \<and> length ns' \<noteq> 1 \<and> map snd ls = map fst rs \<and> sorted_wrt (\<lambda>x y. region x \<inter> region y = {}) ls"
proof -
  from mallocs_ok [OF assms(1-3)] assms(4) obtain ls m' ns' where
    ok: "mallocs rs m = Some (Inr (ls, m'))" "pool_inv m' ns'" "map snd ls = map fst rs"
      "sorted_wrt (\<lambda>x y. region x \<inter> region y = {}) ls" "\<forall>x \<in> set ls. \<exists>q \<in> set ns'. region x \<subseteq> used m' q"
      "pm_largeList m' = pm_largeList m" "backed m' ns'" by blast
  have "length ns' \<noteq> 1"
  proof
    assume "length ns' = 1"
    then obtain q where q: "ns' = [q]" by (cases ns') auto
    have "sum_list (map snd ls) \<le> card (used m' q)"
      using regions_fit [OF ok(4), of "used m' q"] ok(5) used_card [OF ok(2), of q] q by simp
    also have "\<dots> < PAGE_SIZE" using used_card [OF ok(2), of q] q by simp
    finally show False using many unfolding ok(3) by simp
  qed
  then show ?thesis using ok by blast
qed

section \<open>Properties\<close>

text \<open>Claim C30. The pool's own test never finishes cleanly: when the first page holds a null pointer where \<open>createPool\<close>
  leaves the link unset, then on whatever pages \<open>posix_memalign\<close> gives afterwards all its million allocations succeed,
  but they need more than one page, and destroying a pool of more than one page reads the link of a page it has
  just freed. (With anything else in that place the allocations go astray: \<open>uninitialised_link_followed\<close>.)\<close>

theorem test2_use_after_free:
  assumes "sn_next junk = 0" and "p \<noteq> 0" and "MP_ALIGNMENT dvd p" and "p + PAGE_SIZE < 2 ^ 63"
    and "length pages = ALLOCATE_COUNT"
    and "\<forall>(b, junk') \<in> set pages. b \<noteq> 0 \<and> MP_ALIGNMENT dvd b \<and> b + PAGE_SIZE < 2 ^ 63 \<and> apart p b"
    and "sorted_wrt apart (map fst pages)" and "pm_largeList m = 0"
  shows "\<exists>memory m1. mallocs (map (\<lambda>(b, junk). (ALLOCATE_SIZE, b, junk)) pages) (createPool (Some p) junk m) = Some (Inr (memory, m1))
    \<and> map snd memory = replicate ALLOCATE_COUNT ALLOCATE_SIZE \<and> sorted_wrt (\<lambda>x y. region x \<inter> region y = {}) memory
    \<and> destroyPool m1 = Some (Inl UseAfterFree) \<and> test2 p junk pages m = Some (Inl UseAfterFree)"
proof -
  let ?m = "createPool (Some p) junk m" and ?ns = "[p + sizeof_Pool]"
  let ?rs = "map (\<lambda>(b, junk). (ALLOCATE_SIZE, b, junk)) pages"
  have inv: "pool_inv ?m ?ns" by (rule createPool_inv [OF assms(1-4)])
  have pool: "pm_head ?m = p + sizeof_Pool" "pm_pool ?m = p" "pm_largeList ?m = 0" by (simp_all add: createPool_def Let_def)
  have "\<forall>(sz, b, junk') \<in> set ?rs. 0 < sz \<and> sz \<le> PAGE_SIZE - sizeof_SmallNode \<and> fresh_page ?m ?ns b"
    using assms(6) pool by (fastforce simp: fresh_page_def page_base_def ALLOCATE_SIZE_def pool_sizes)
  moreover have "sorted_wrt apart (map (\<lambda>(sz, b, junk). b) ?rs)" using assms(7) by (simp add: case_prod_beta' comp_def)
  moreover have sizes: "map fst ?rs = replicate ALLOCATE_COUNT ALLOCATE_SIZE"
    using assms(5) by (simp add: case_prod_beta' comp_def map_replicate_const)
  then have "PAGE_SIZE \<le> sum_list (map fst ?rs)"
    by (simp add: sum_list_replicate ALLOCATE_COUNT_def ALLOCATE_SIZE_def PAGE_SIZE_def)
  moreover have "backed ?m ?ns" using pool by (simp add: backed_def)
  ultimately obtain memory m' ns' where
    run: "mallocs ?rs ?m = Some (Inr (memory, m'))" "pool_inv m' ns'" "backed m' ns'" "pm_largeList m' = pm_largeList ?m" "length ns' \<noteq> 1"
    "map snd memory = map fst ?rs" "sorted_wrt (\<lambda>x y. region x \<inter> region y = {}) memory"
    using mallocs_pages [OF inv, of ?rs] by blast
  have "destroyPool m' = Some (Inl UseAfterFree)"
    by (rule destroyPool_many [OF run(2,3) _ run(5)]) (simp add: run(4) pool(3))
  then show ?thesis using run(1,6,7) sizes by (auto simp: test2_def)
qed

text \<open>Pages one behind the other, as the C heap might give them out.\<close>

definition heap_pages :: "nat \<Rightarrow> (nat \<times> small_node) list" where
  "heap_pages n = map (\<lambda>i. (1048576 + 4096 * i, zero_node)) [0..<n]"

lemma heap_pages_apart: "sorted_wrt apart (map fst (heap_pages n))"
proof -
  have "apart (1048576 + 4096 * i) (1048576 + 4096 * j)" if "i < j" for i j :: nat using that by (simp add: apart_def pool_sizes)
  then show ?thesis
    unfolding heap_pages_def map_map comp_def fst_conv sorted_wrt_map by (rule sorted_wrt_mono_rel [OF _ sorted_wrt_upt]) blast
qed

lemma heap_pages_fresh:
  assumes "n \<le> ALLOCATE_COUNT"
  shows "\<forall>(b, junk') \<in> set (heap_pages n). b \<noteq> 0 \<and> MP_ALIGNMENT dvd b \<and> b + PAGE_SIZE < 2 ^ 63 \<and> apart 4096 b"
proof -
  have "(16::nat) dvd 1048576 + 4096 * i" for i
  proof -
    have "1048576 + 4096 * i = 16 * (65536 + 256 * i)" by simp
    then show ?thesis by (metis dvd_triv_left)
  qed
  moreover have "1048576 + 4096 * i + 4096 < (2::nat) ^ 63" if "i < n" for i
    using that assms by (simp add: ALLOCATE_COUNT_def)
  ultimately show ?thesis unfolding heap_pages_def by (simp add: apart_def pool_sizes)
qed

theorem test2_use_after_free_witness:
  "\<exists>memory m1. mallocs (map (\<lambda>(b, junk). (ALLOCATE_SIZE, b, junk)) (heap_pages ALLOCATE_COUNT)) (createPool (Some 4096) zero_node no_pool)
      = Some (Inr (memory, m1)) \<and> map snd memory = replicate ALLOCATE_COUNT ALLOCATE_SIZE
    \<and> sorted_wrt (\<lambda>x y. region x \<inter> region y = {}) memory \<and> destroyPool m1 = Some (Inl UseAfterFree)
    \<and> test2 4096 zero_node (heap_pages ALLOCATE_COUNT) no_pool = Some (Inl UseAfterFree)"
  by (rule test2_use_after_free [OF _ _ _ _ _ heap_pages_fresh [OF order_refl] heap_pages_apart])
     (simp_all add: zero_node_def no_pool_def pool_sizes heap_pages_def)

end
