(* ===== verification/LogStream.thy ===== *)
theory LogStream
  imports Timestamp
begin

text \<open>
  Log buffers and the stream of one log line (\<open>src/src/logger/FixedBuffer.h\<close>, \<open>LogStream.h\<close>,
  \<open>LogStream.cc\<close>). A fixed buffer is its array and the offset of \<open>cur_\<close>; a new array holds arbitrary
  bytes.
\<close>

section \<open>Fixed buffers\<close>

record fixed_buffer =
  fb_data :: bytes
  fb_cur :: nat

definition kSmallBuffer :: nat where "kSmallBuffer = 4000"
definition kLargeBuffer :: nat where "kLargeBuffer = 4000 * 1000"

definition FixedBuffer_new :: "bytes \<Rightarrow> fixed_buffer" where
  "FixedBuffer_new junk = \<lparr>fb_data = junk, fb_cur = 0\<rparr>"

definition fb_avail :: "fixed_buffer \<Rightarrow> int" where
  "fb_avail b = int (length (fb_data b)) - int (fb_cur b)"

definition fb_append :: "bytes \<Rightarrow> fixed_buffer \<Rightarrow> fixed_buffer" where
  "fb_append buf b =
     (if length buf < size_of_int (fb_avail b)
      then b\<lparr>fb_data := overwrite (fb_data b) (fb_cur b) buf, fb_cur := fb_cur b + length buf\<rparr>
      else b)"

definition fb_length :: "fixed_buffer \<Rightarrow> nat" where
  "fb_length b = length (fb_data b)"

definition fb_add :: "nat \<Rightarrow> fixed_buffer \<Rightarrow> fixed_buffer" where
  "fb_add len b = b\<lparr>fb_cur := fb_cur b + len\<rparr>"

definition fb_reset :: "fixed_buffer \<Rightarrow> fixed_buffer" where
  "fb_reset b = b\<lparr>fb_cur := 0\<rparr>"

definition fb_bzero :: "fixed_buffer \<Rightarrow> fixed_buffer" where
  "fb_bzero b = b\<lparr>fb_data := replicate (length (fb_data b)) (CHR 0x00)\<rparr>"

definition fb_toString :: "fixed_buffer \<Rightarrow> bytes" where
  "fb_toString b = take (fb_length b) (fb_data b)"

section \<open>The stream\<close>

type_synonym log_stream = fixed_buffer

definition kMaxNumericSize :: int where "kMaxNumericSize = 48"

text \<open>The table \<open>digits\<close>, indexed from its middle by the remainder of a division that truncates.\<close>

definition digits :: bytes where
  "digits = ''9876543210123456789''"

function int_digits :: "int \<Rightarrow> bytes" where
  "int_digits num =
     (let c = digits ! nat (9 + num smod 10);
          num' = num sdiv 10
      in if num' \<noteq> 0 then c # int_digits num' else [c])"
  by pat_completeness auto
termination
proof (relation "measure (\<lambda>n. nat \<bar>n\<bar>)")
  fix num num' :: int and c
  assume "num' = num sdiv 10" "num' \<noteq> 0"
  then show "(num', num) \<in> measure (\<lambda>n. nat \<bar>n\<bar>)"
    by (auto simp: signed_divide_int_def sgn_if split: if_splits)
qed simp

declare int_digits.simps [simp del]

definition formatInteger :: "int \<Rightarrow> log_stream \<Rightarrow> log_stream" where
  "formatInteger num b =
     (if kMaxNumericSize \<le> fb_avail b
      then let cs = int_digits num @ (if num < 0 then ''-'' else []);
               b1 = b\<lparr>fb_data := overwrite (fb_data b) (fb_cur b) (rev cs @ [CHR 0x00])\<rparr>
           in fb_add (length cs) b1
      else b)"

text \<open>\<open>operator<<(double)\<close>: \<open>out\<close> is what \<open>%.12g\<close> prints; without room the function ends without a
  return value.\<close>

definition stream_double :: "bytes \<Rightarrow> log_stream \<Rightarrow> log_stream res" where
  "stream_double out b =
     (if kMaxNumericSize \<le> fb_avail b
      then Inr (fb_add (length out)
             (b\<lparr>fb_data := overwrite (fb_data b) (fb_cur b) (snprintf_buf 48 out @ [CHR 0x00])\<rparr>))
      else Inl NoReturn)"

definition stream_char :: "char \<Rightarrow> log_stream \<Rightarrow> log_stream" where
  "stream_char c b = fb_append [c] b"

definition stream_cstr :: "bytes option \<Rightarrow> log_stream \<Rightarrow> log_stream" where
  "stream_cstr str b = (case str of Some s \<Rightarrow> fb_append (c_str s) b | None \<Rightarrow> fb_append ''(null)'' b)"

definition stream_string :: "bytes \<Rightarrow> log_stream \<Rightarrow> log_stream" where
  "stream_string str b = fb_append str b"

definition stream_buffer :: "fixed_buffer \<Rightarrow> log_stream \<Rightarrow> log_stream" where
  "stream_buffer buf b = stream_string (fb_toString buf) b"

text \<open>\<open>GeneralTemplate(data, len)\<close>.\<close>

definition stream_general :: "bytes \<Rightarrow> nat \<Rightarrow> log_stream \<Rightarrow> log_stream res" where
  "stream_general data len b = (if len \<le> length data then Inr (fb_append (take len data) b) else Inl OutOfBounds)"

section \<open>Text of a buffer\<close>

definition fb_ok :: "fixed_buffer \<Rightarrow> bool" where
  "fb_ok b \<longleftrightarrow> fb_cur b \<le> length (fb_data b) \<and> length (fb_data b) < 2 ^ 31"

definition fb_text :: "fixed_buffer \<Rightarrow> bytes" where
  "fb_text b = take (fb_cur b) (fb_data b)"

abbreviation fb_room :: "fixed_buffer \<Rightarrow> nat" where
  "fb_room b \<equiv> length (fb_data b) - fb_cur b"

lemma fb_avail_size: "fb_ok b \<Longrightarrow> size_of_int (fb_avail b) = fb_room b"
proof -
  assume ok: "fb_ok b"
  then have "fb_avail b = int (fb_room b)" by (simp add: fb_avail_def fb_ok_def of_nat_diff)
  moreover have "fb_room b < 2 ^ 64" using ok by (auto simp: fb_ok_def)
  ultimately show ?thesis by (simp only: size_of_int_exact)
qed

lemma fb_write:
  assumes "fb_ok b" "length s \<le> fb_room b" "k \<le> length s"
    and "b' = b\<lparr>fb_data := overwrite (fb_data b) (fb_cur b) s, fb_cur := fb_cur b + k\<rparr>"
  shows "fb_ok b'" "fb_text b' = fb_text b @ take k s" "length (fb_data b') = length (fb_data b)"
    "fb_cur b' = fb_cur b + k"
proof -
  have fit: "fb_cur b + length s \<le> length (fb_data b)" using assms(1,2) by (auto simp: fb_ok_def)
  then have len: "length (overwrite (fb_data b) (fb_cur b) s) = length (fb_data b)" by (rule length_overwrite)
  show "fb_ok b'" using assms fit len by (simp add: fb_ok_def)
  show "length (fb_data b') = length (fb_data b)" "fb_cur b' = fb_cur b + k"
    using len by (simp_all add: assms(4))
  show "fb_text b' = fb_text b @ take k s"
    using assms(1,3) fit by (simp add: fb_text_def assms(4) overwrite_def fb_ok_def min_def)
qed

lemma fb_append_ok:
  assumes "fb_ok b"
  shows "fb_ok (fb_append s b)" "length (fb_data (fb_append s b)) = length (fb_data b)"
    "fb_text (fb_append s b) = (if length s < fb_room b then fb_text b @ s else fb_text b)"
    "fb_cur (fb_append s b) = (if length s < fb_room b then fb_cur b + length s else fb_cur b)"
proof -
  let ?b = "fb_append s b"
  have "fb_ok ?b \<and> length (fb_data ?b) = length (fb_data b)
    \<and> fb_text ?b = (if length s < fb_room b then fb_text b @ s else fb_text b)
    \<and> fb_cur ?b = (if length s < fb_room b then fb_cur b + length s else fb_cur b)"
  proof (cases "length s < fb_room b")
    case True
    then have e: "?b = b\<lparr>fb_data := overwrite (fb_data b) (fb_cur b) s, fb_cur := fb_cur b + length s\<rparr>"
      by (simp add: fb_append_def fb_avail_size [OF assms])
    have "length s \<le> fb_room b" using True by simp
    from fb_write [OF assms this order_refl e] show ?thesis using True by simp
  next
    case False
    then have "?b = b" by (simp add: fb_append_def fb_avail_size [OF assms])
    then show ?thesis using False assms by simp
  qed
  then show "fb_ok ?b" "length (fb_data ?b) = length (fb_data b)"
    "fb_text ?b = (if length s < fb_room b then fb_text b @ s else fb_text b)"
    "fb_cur ?b = (if length s < fb_room b then fb_cur b + length s else fb_cur b)" by blast+
qed

text \<open>Digits of signed numbers.\<close>

lemma smod_abs: "nat \<bar>num smod 10\<bar> = nat \<bar>num\<bar> mod 10" "num < 0 \<Longrightarrow> num smod 10 \<le> 0" "0 \<le> num \<Longrightarrow> 0 \<le> num smod (10::int)"
proof -
  have e: "num smod 10 = sgn num * (\<bar>num\<bar> mod 10)" for num :: int
    by (simp add: signed_modulo_int_def)
  show "nat \<bar>num smod 10\<bar> = nat \<bar>num\<bar> mod 10"
    by (cases "num = 0") (simp_all add: e abs_mult nat_mod_distrib abs_sgn_eq)
  show "num < 0 \<Longrightarrow> num smod 10 \<le> 0" "0 \<le> num \<Longrightarrow> 0 \<le> num smod (10::int)"
    by (auto simp: e sgn_if)
qed

lemma sdiv_abs: "nat \<bar>num sdiv 10\<bar> = nat \<bar>num :: int\<bar> div 10"
  by (cases "num = 0") (simp_all add: signed_divide_int_def abs_mult nat_div_distrib abs_sgn_eq)

lemma digits_table: "k < 10 \<Longrightarrow> digits ! (9 + k) = digit_char k \<and> digits ! (9 - k) = digit_char k"
proof -
  assume "k < 10"
  then have "k = 0 \<or> k = 1 \<or> k = 2 \<or> k = 3 \<or> k = 4 \<or> k = 5 \<or> k = 6 \<or> k = 7 \<or> k = 8 \<or> k = 9" by arith
  then show ?thesis by (elim disjE) (simp_all add: digits_def)
qed

lemma digit_of_remainder: "digits ! nat (9 + num smod 10) = digit_char (nat \<bar>num\<bar> mod 10)"
proof -
  have k: "nat \<bar>num\<bar> mod 10 < 10" by simp
  have "nat (9 + num smod 10) = (if num < 0 then 9 - nat \<bar>num\<bar> mod 10 else 9 + nat \<bar>num\<bar> mod 10)"
  proof (cases "num < 0")
    case True
    then have "num smod 10 = - int (nat \<bar>num\<bar> mod 10)"
      using smod_abs(1,2) [of num] by (simp only: smod_abs(1) [symmetric]) simp
    then show ?thesis using True by (simp add: nat_diff_distrib)
  next
    case False
    then have "num smod 10 = int (nat \<bar>num\<bar> mod 10)"
      using smod_abs(1,3) [of num] by (simp only: smod_abs(1) [symmetric]) simp
    then show ?thesis using False by (simp add: nat_add_distrib)
  qed
  then show ?thesis using digits_table [OF k] by presburger
qed

lemma rev_int_digits: "rev (int_digits num) = fmt_nat (nat \<bar>num\<bar>)"
proof (induction num rule: int_digits.induct)
  case (1 num)
  have z: "num sdiv 10 = 0 \<longleftrightarrow> nat \<bar>num\<bar> < 10" using sdiv_abs [of num] by (auto simp: div_eq_0_iff)
  show ?case
  proof (cases "num sdiv 10 = 0")
    case True
    then show ?thesis using z by (subst int_digits.simps, subst fmt_nat.simps) (simp add: digit_of_remainder)
  next
    case False
    then have "rev (int_digits (num sdiv 10)) = fmt_nat (nat \<bar>num\<bar> div 10)" using "1.IH" sdiv_abs [of num] by simp
    then show ?thesis using False z
      by (subst int_digits.simps, subst fmt_nat.simps) (simp add: digit_of_remainder)
  qed
qed

lemma formatInteger_ok:
  assumes ok: "fb_ok b" and room: "48 \<le> fb_room b" and num: "\<bar>num\<bar> < 2 ^ 64"
  shows "fb_ok (formatInteger num b)" "fb_text (formatInteger num b) = fb_text b @ fmt_int num"
    "length (fb_data (formatInteger num b)) = length (fb_data b)"
    "fb_cur (formatInteger num b) = fb_cur b + length (fmt_int num)" "length (fmt_int num) \<le> 21"
proof -
  let ?cs = "int_digits num @ (if num < 0 then ''-'' else [])"
  have rev: "rev ?cs = fmt_int num" by (simp add: rev_int_digits fmt_int_def)
  have "nat \<bar>num\<bar> < 10 ^ 20" using num by simp
  then have "length (fmt_nat (nat \<bar>num\<bar>)) \<le> 20" by (intro length_fmt_nat_le) simp_all
  then show len: "length (fmt_int num) \<le> 21" by (auto simp: fmt_int_def)
  have cs: "length ?cs = length (fmt_int num)" by (metis rev length_rev)
  have "fb_avail b = int (fb_room b)" using ok by (simp add: fb_avail_def fb_ok_def of_nat_diff)
  then have e: "formatInteger num b = b\<lparr>fb_data := overwrite (fb_data b) (fb_cur b) (fmt_int num @ [CHR 0x00]),
      fb_cur := fb_cur b + length (fmt_int num)\<rparr>"
    using room unfolding formatInteger_def Let_def rev cs by (simp add: kMaxNumericSize_def fb_add_def)
  have "length (fmt_int num @ [CHR 0x00]) \<le> fb_room b" using len room by simp
  from fb_write [OF ok this _ e] show "fb_ok (formatInteger num b)"
    "fb_text (formatInteger num b) = fb_text b @ fmt_int num"
    "length (fb_data (formatInteger num b)) = length (fb_data b)"
    "fb_cur (formatInteger num b) = fb_cur b + length (fmt_int num)" by simp_all
qed

section \<open>Text of a line\<close>

text \<open>A step of a line adds a text to a stream that has room for it.\<close>

definition adds :: "bytes \<Rightarrow> log_stream \<Rightarrow> log_stream \<Rightarrow> bool" where
  "adds t b b' \<longleftrightarrow> fb_ok b' \<and> fb_text b' = fb_text b @ t \<and> length (fb_data b') = length (fb_data b)
     \<and> fb_cur b' = fb_cur b + length t"

lemma adds_trans: "adds t b b1 \<Longrightarrow> adds u b1 b2 \<Longrightarrow> adds (t @ u) b b2"
  by (simp add: adds_def)

lemma adds_append: "fb_ok b \<Longrightarrow> length t < fb_room b \<Longrightarrow> adds t b (fb_append t b)"
  by (simp add: adds_def fb_append_ok)

lemma adds_cstr: "fb_ok b \<Longrightarrow> length t < fb_room b \<Longrightarrow> CHR 0x00 \<notin> set t \<Longrightarrow> adds t b (stream_cstr (Some t) b)"
proof -
  assume "fb_ok b" "length t < fb_room b" "CHR 0x00 \<notin> set t"
  then show ?thesis by (simp add: stream_cstr_def c_str_id adds_append)
qed

lemma adds_int: "fb_ok b \<Longrightarrow> 48 \<le> fb_room b \<Longrightarrow> \<bar>num\<bar> < 2 ^ 64 \<Longrightarrow> adds (fmt_int num) b (formatInteger num b)"
  by (simp add: adds_def formatInteger_ok)

lemma adds_general:
  "fb_ok b \<Longrightarrow> n < fb_room b \<Longrightarrow> n \<le> length d \<Longrightarrow> \<exists>b'. stream_general d n b = Inr b' \<and> adds (take n d) b b'"
  by (simp add: stream_general_def adds_append)

section \<open>Properties\<close>

text \<open>\<open>formatInteger\<close> appends the decimal text of any integer of at most 64 bits, signed or
  not, the most negative ones included, whenever 48 bytes are free.\<close>

lemma formatInteger_prints:
  assumes "fb_ok b" and "48 \<le> fb_room b" and "\<bar>num\<bar> < 2 ^ 64"
  shows "fb_text (formatInteger num b) = fb_text b @ fmt_int num \<and> fb_ok (formatInteger num b)"
  using formatInteger_ok(1,2) [OF assms] by blast

end
