(* ===== verification/Logging.thy ===== *)
theory Logging
  imports LogStream
begin

text \<open>
  The front end of the logger (\<open>src/src/logger/Logging.h\<close>, \<open>Logging.cc\<close>): levels, the text of a line, and
  the global level and output functions that the macros use. The clock, \<open>localtime\<close> and \<open>strerror_r\<close> are
  arguments.
\<close>

section \<open>A log line\<close>

datatype LogLevel = TRACE | DEBUG | INFO | WARN | ERROR | FATAL

fun level_rank :: "LogLevel \<Rightarrow> nat" where
  "level_rank TRACE = 0" | "level_rank DEBUG = 1" | "level_rank INFO = 2"
| "level_rank WARN = 3" | "level_rank ERROR = 4" | "level_rank FATAL = 5"

text \<open>Levels compare as the constants of their enumeration.\<close>

lemma level_rank_inj: "level_rank a = level_rank b \<longleftrightarrow> a = b"
  by (cases a; cases b) simp_all

instantiation LogLevel :: linorder
begin

definition less_eq_LogLevel :: "LogLevel \<Rightarrow> LogLevel \<Rightarrow> bool" where
  "less_eq_LogLevel a b \<longleftrightarrow> level_rank a \<le> level_rank b"

definition less_LogLevel :: "LogLevel \<Rightarrow> LogLevel \<Rightarrow> bool" where
  "less_LogLevel a b \<longleftrightarrow> level_rank a < level_rank b"

instance
  by standard (auto simp: less_eq_LogLevel_def less_LogLevel_def level_rank_inj)

end

fun getLevelName :: "LogLevel \<Rightarrow> bytes" where
  "getLevelName TRACE = ''TRACE ''" | "getLevelName DEBUG = ''DEBUG ''" | "getLevelName INFO = ''INFO  ''"
| "getLevelName WARN = ''WARN  ''" | "getLevelName ERROR = ''ERROR ''" | "getLevelName FATAL = ''FATAL ''"

text \<open>\<open>SourceFile\<close> keeps what follows the last slash.\<close>

definition SourceFile :: "bytes \<Rightarrow> bytes" where
  "SourceFile filename =
     (if CHR ''/'' \<in> set filename then rev (takeWhile (\<lambda>c. c \<noteq> CHR ''/'') (rev filename)) else filename)"

record logger =
  lg_stream :: log_stream
  lg_level :: LogLevel
  lg_line :: int
  lg_basename :: bytes

text \<open>A character array after \<open>snprintf\<close>; the bytes behind the text are cleared.\<close>

definition c_array :: "nat \<Rightarrow> bytes \<Rightarrow> bytes" where
  "c_array n s = (let out = snprintf_buf n s in out @ replicate (n - length out) (CHR 0x00))"

definition formatTime :: "(int \<Rightarrow> tm) \<Rightarrow> timestamp \<Rightarrow> log_stream \<Rightarrow> log_stream res" where
  "formatTime localtime now b =
     (let seconds = now sdiv kMicroSecondsPerSecond;
          microseconds = now smod kMicroSecondsPerSecond;
          t_time = c_array 64 (fmt_date (localtime seconds));
          buf = c_array 32 (fmt_zero 6 microseconds @ '' '')
      in bindR (stream_general t_time 17 b) (stream_general buf 7))"

text \<open>\<open>Impl::Impl\<close>: the array of the stream's buffer is not initialised.\<close>

definition Impl_new ::
  "(int \<Rightarrow> tm) \<Rightarrow> (int \<Rightarrow> bytes) \<Rightarrow> bytes \<Rightarrow> timestamp \<Rightarrow> LogLevel \<Rightarrow> int \<Rightarrow> bytes \<Rightarrow> int \<Rightarrow> logger res"
where
  "Impl_new localtime strerror junk now level savedErrno file line =
     bindR (formatTime localtime now (FixedBuffer_new junk)) (\<lambda>b.
     bindR (stream_general (getLevelName level) 6 b) (\<lambda>b1.
       let b2 = (if savedErrno \<noteq> 0
                 then stream_cstr (Some '') '') (formatInteger savedErrno
                        (stream_cstr (Some '' (errno='') (stream_cstr (Some (strerror savedErrno)) b1)))
                 else b1)
       in Inr \<lparr>lg_stream = b2, lg_level = level, lg_line = line, lg_basename = SourceFile file\<rparr>))"

definition Impl_finish :: "logger \<Rightarrow> logger res" where
  "Impl_finish l =
     bindR (stream_general (lg_basename l) (length (lg_basename l)) (stream_cstr (Some '' - '') (lg_stream l))) (\<lambda>b.
       Inr (l\<lparr>lg_stream := stream_char (CHR 0x0A) (formatInteger (lg_line l) (stream_char (CHR '':'') b))\<rparr>))"

text \<open>The three constructors.\<close>

definition Logger_new ::
  "(int \<Rightarrow> tm) \<Rightarrow> bytes \<Rightarrow> timestamp \<Rightarrow> bytes \<Rightarrow> int \<Rightarrow> LogLevel \<Rightarrow> bytes option \<Rightarrow> logger res"
where
  "Logger_new localtime junk now file line level func =
     bindR (Impl_new localtime (\<lambda>_. []) junk now level 0 file line) (\<lambda>l.
       Inr (case func of
              None \<Rightarrow> l
            | Some f \<Rightarrow> l\<lparr>lg_stream := stream_char (CHR '' '') (stream_cstr (Some f) (lg_stream l))\<rparr>))"

section \<open>The global logger\<close>

text \<open>The globals of \<open>Logging.cc\<close>: a \<open>std::function\<close> is a function on the part \<open>'w\<close> of the world it works on.\<close>

record 'w log_globals =
  g_logLevel :: LogLevel
  g_output :: "bytes \<Rightarrow> 'w \<Rightarrow> 'w res"
  g_flush :: "'w \<Rightarrow> 'w res"

definition initLogLevel :: LogLevel where
  "initLogLevel = INFO"

text \<open>Standard output: what was printed, and how much of it was flushed. \<open>fwrite\<close> says how much is accepted.\<close>

record std_out =
  so_text :: bytes
  so_flushed :: nat

definition defaultOutput :: "(bytes \<Rightarrow> nat) \<Rightarrow> bytes \<Rightarrow> 'a std_out_scheme \<Rightarrow> 'a std_out_scheme res" where
  "defaultOutput fwrite data w = Inr (w\<lparr>so_text := so_text w @ take (fwrite data) data\<rparr>)"

definition defaultFlush :: "'a std_out_scheme \<Rightarrow> 'a std_out_scheme res" where
  "defaultFlush w = Inr (w\<lparr>so_flushed := length (so_text w)\<rparr>)"

definition log_start :: "(bytes \<Rightarrow> nat) \<Rightarrow> 'a std_out_scheme log_globals" where
  "log_start fwrite = \<lparr>g_logLevel = initLogLevel, g_output = defaultOutput fwrite, g_flush = defaultFlush\<rparr>"

definition setLogLevel :: "LogLevel \<Rightarrow> 'w log_globals \<Rightarrow> 'w log_globals" where
  "setLogLevel level g = g\<lparr>g_logLevel := level\<rparr>"

definition setOutput :: "(bytes \<Rightarrow> 'w \<Rightarrow> 'w res) \<Rightarrow> 'w log_globals \<Rightarrow> 'w log_globals" where
  "setOutput out g = g\<lparr>g_output := out\<rparr>"

definition setFlush :: "('w \<Rightarrow> 'w res) \<Rightarrow> 'w log_globals \<Rightarrow> 'w log_globals" where
  "setFlush flush g = g\<lparr>g_flush := flush\<rparr>"

text \<open>The destructor puts the line out; the second component says that the program aborts.\<close>

definition Logger_destroy :: "'w log_globals \<Rightarrow> logger \<Rightarrow> 'w \<Rightarrow> ('w \<times> bool) res" where
  "Logger_destroy g l w =
     bindR (Impl_finish l) (\<lambda>l1.
       let buf = lg_stream l1
       in bindR (g_output g (take (fb_length buf) (fb_data buf)) w) (\<lambda>w1.
            if lg_level l1 = FATAL then bindR (g_flush g w1) (\<lambda>w2. Inr (w2, True)) else Inr (w1, False)))"

text \<open>The macros \<open>LOG_DEBUG\<close> and \<open>LOG_INFO\<close> test the level, the others always log; only \<open>LOG_DEBUG\<close> passes
  the function. A statement is at a place of the source, and \<open>body\<close> is its chain of \<open><<\<close>.\<close>

definition log_enabled :: "LogLevel \<Rightarrow> LogLevel \<Rightarrow> bool" where
  "log_enabled level0 level \<longleftrightarrow>
     (if level \<in> {DEBUG, INFO} then level0 \<le> level else True)"

record log_site =
  at_file :: bytes
  at_line :: int
  at_func :: bytes

definition log_stmt ::
  "(int \<Rightarrow> tm) \<Rightarrow> bytes \<Rightarrow> timestamp \<Rightarrow> LogLevel \<Rightarrow> log_site \<Rightarrow> (log_stream \<Rightarrow> log_stream) \<Rightarrow> 'w log_globals \<Rightarrow> 'w
    \<Rightarrow> ('w \<times> bool) res"
where
  "log_stmt localtime junk now level site body g w =
     (if log_enabled (g_logLevel g) level
      then bindR (Logger_new localtime junk now (at_file site) (at_line site) level
             (if level = DEBUG then Some (at_func site) else None)) (\<lambda>l.
           Logger_destroy g (l\<lparr>lg_stream := body (lg_stream l)\<rparr>) w)
      else Inr (w, False))"

lemma log_enabled_mono: "log_enabled g2 level \<Longrightarrow> g1 \<le> g2 \<Longrightarrow> log_enabled g1 level"
  by (auto simp: log_enabled_def split: if_splits)

lemma take_c_array: "length s < n \<Longrightarrow> m \<le> length s \<Longrightarrow> take m (c_array n s) = take m s"
  by (simp add: c_array_def snprintf_buf_def Let_def)

lemma length_c_array: "0 < n \<Longrightarrow> length (c_array n s) = n"
  by (simp add: c_array_def snprintf_buf_def Let_def)

text \<open>The time stamp of a line: the date cut after 17 characters, and the microseconds.\<close>

definition time_text :: "(int \<Rightarrow> tm) \<Rightarrow> timestamp \<Rightarrow> bytes" where
  "time_text localtime now = take 17 (fmt_date (localtime (now sdiv kMicroSecondsPerSecond)))
     @ fmt_zero 6 (now smod kMicroSecondsPerSecond) @ '' ''"

lemma length_micros:
  assumes "0 \<le> now"
  shows "length (fmt_zero 6 (now smod kMicroSecondsPerSecond)) = 6"
proof (rule length_fmt_zero)
  have "now smod kMicroSecondsPerSecond = now mod kMicroSecondsPerSecond"
    using assms by (simp add: signed_modulo_int_def kMicroSecondsPerSecond_def sgn_if)
  then show "0 \<le> now smod kMicroSecondsPerSecond" "now smod kMicroSecondsPerSecond < 10 ^ 6"
    by (simp_all add: kMicroSecondsPerSecond_def)
qed simp

lemma formatTime_ok:
  assumes ok: "fb_ok b" "100 \<le> fb_room b" and now: "0 \<le> now"
    and tm: "valid_tm (localtime (now sdiv kMicroSecondsPerSecond))"
  shows "\<exists>b'. formatTime localtime now b = Inr b' \<and> adds (time_text localtime now) b b'"
    "length (time_text localtime now) = 24"
proof -
  let ?d = "fmt_date (localtime (now sdiv kMicroSecondsPerSecond))" and ?u = "fmt_zero 6 (now smod kMicroSecondsPerSecond) @ '' ''"
  have d: "length ?d = 19" by (rule length_fmt_date [OF tm])
  have u: "length ?u = 7" using length_micros [OF now] by simp
  show "length (time_text localtime now) = 24" using d u by (simp add: time_text_def)
  have td: "take 17 (c_array 64 ?d) = take 17 ?d" using d by (simp add: take_c_array)
  have tu: "take 7 (c_array 32 ?u) = ?u" using u take_c_array [of ?u 32 7] by simp
  from adds_general [OF ok(1), of 17 "c_array 64 ?d"] ok(2) obtain b1 where
    b1: "stream_general (c_array 64 ?d) 17 b = Inr b1" "adds (take 17 ?d) b b1"
    by (auto simp: length_c_array td)
  then have "fb_ok b1" "7 < fb_room b1" using ok(2) d by (simp_all add: adds_def)
  from adds_general [OF this, of "c_array 32 ?u"] obtain b2 where
    b2: "stream_general (c_array 32 ?u) 7 b1 = Inr b2" "adds ?u b1 b2"
    by (auto simp: length_c_array tu)
  show "\<exists>b'. formatTime localtime now b = Inr b' \<and> adds (time_text localtime now) b b'"
    using b1(1) b2(1) adds_trans [OF b1(2) b2(2)] by (simp add: formatTime_def Let_def time_text_def)
qed

text \<open>The text of a whole line.\<close>

definition line_text :: "(int \<Rightarrow> tm) \<Rightarrow> timestamp \<Rightarrow> LogLevel \<Rightarrow> bytes \<Rightarrow> bytes \<Rightarrow> int \<Rightarrow> bytes" where
  "line_text localtime now level msg file line =
     time_text localtime now @ getLevelName level @ msg @ '' - '' @ SourceFile file @ '':'' @ fmt_int line @ [CHR 0x0A]"

lemma length_SourceFile: "length (SourceFile f) \<le> length f"
  using length_takeWhile_le [of "\<lambda>c. c \<noteq> CHR ''/''" "rev f"] by (simp add: SourceFile_def)

lemma length_getLevelName [simp]: "length (getLevelName l) = 6"
  by (cases l) simp_all

text \<open>What a statement prints between level and file name.\<close>

definition msg_text :: "LogLevel \<Rightarrow> log_site \<Rightarrow> bytes \<Rightarrow> bytes" where
  "msg_text level site msg = (if level = DEBUG then at_func site @ '' '' else []) @ msg"

text \<open>A chain of \<open><<\<close> prints a text when it appends it to every stream with some room to spare.\<close>

definition prints :: "(log_stream \<Rightarrow> log_stream) \<Rightarrow> bytes \<Rightarrow> bool" where
  "prints body t \<longleftrightarrow> (\<forall>b. fb_ok b \<and> length t + 100 \<le> fb_room b \<longrightarrow> adds t b (body b))"

lemma prints_cstr: "CHR 0x00 \<notin> set t \<Longrightarrow> prints (stream_cstr (Some t)) t"
  by (simp add: prints_def adds_cstr)

lemma prints_string: "prints (stream_string t) t"
  by (simp add: prints_def stream_string_def adds_append)

lemma prints_int: "\<bar>num\<bar> < 2 ^ 64 \<Longrightarrow> prints (formatInteger num) (fmt_int num)"
  by (simp add: prints_def adds_int)

lemma prints_comp: "prints f s \<Longrightarrow> prints g t \<Longrightarrow> prints (\<lambda>b. g (f b)) (s @ t)"
  unfolding prints_def
proof (intro allI impI)
  fix b
  assume f: "\<forall>b. fb_ok b \<and> length s + 100 \<le> fb_room b \<longrightarrow> adds s b (f b)"
    and g: "\<forall>b. fb_ok b \<and> length t + 100 \<le> fb_room b \<longrightarrow> adds t b (g b)"
    and b: "fb_ok b \<and> length (s @ t) + 100 \<le> fb_room b"
  then have s: "adds s b (f b)" by simp
  then have "fb_ok (f b)" "length t + 100 \<le> fb_room (f b)" using b by (auto simp: adds_def)
  with g have "adds t (f b) (g (f b))" by blast
  with s show "adds (s @ t) b (g (f b))" by (rule adds_trans)
qed

lemma Impl_new_ok:
  assumes "length junk = kSmallBuffer" "0 \<le> now" "valid_tm (localtime (now sdiv kMicroSecondsPerSecond))"
  shows "\<exists>l. Impl_new localtime strerror junk now level 0 file line = Inr l \<and> lg_level l = level \<and> lg_line l = line
    \<and> lg_basename l = SourceFile file
    \<and> adds (time_text localtime now @ getLevelName level) (FixedBuffer_new junk) (lg_stream l)"
proof -
  let ?b = "FixedBuffer_new junk"
  have ok: "fb_ok ?b" "100 \<le> fb_room ?b"
    using assms(1) by (simp_all add: FixedBuffer_new_def fb_ok_def kSmallBuffer_def)
  from formatTime_ok [where localtime = localtime, OF ok assms(2,3)] obtain b1 where
    b1: "formatTime localtime now ?b = Inr b1" "adds (time_text localtime now) ?b b1"
    and len: "length (time_text localtime now) = 24" by blast
  then have "fb_ok b1" "6 < fb_room b1" using ok(2) by (simp_all add: adds_def)
  from adds_general [OF this, of "getLevelName level"] obtain b2 where
    b2: "stream_general (getLevelName level) 6 b1 = Inr b2" "adds (getLevelName level) b1 b2" by auto
  then show ?thesis using b1 adds_trans [OF b1(2) b2(2)] by (simp add: Impl_new_def Let_def)
qed

text \<open>The stream of a new logger, the name of the function included, and the body after it.\<close>

lemma log_body_ok:
  assumes "length junk = kSmallBuffer" "0 \<le> now" "valid_tm (localtime (now sdiv kMicroSecondsPerSecond))"
    and "prints body msg" "CHR 0x00 \<notin> set (at_func site)" "length msg + length (at_func site) + 200 \<le> kSmallBuffer"
  shows "\<exists>l. Logger_new localtime junk now (at_file site) (at_line site) level (if level = DEBUG then Some (at_func site) else None) = Inr l
    \<and> lg_level l = level \<and> lg_line l = at_line site \<and> lg_basename l = SourceFile (at_file site)
    \<and> adds (time_text localtime now @ getLevelName level @ msg_text level site msg) (FixedBuffer_new junk) (body (lg_stream l))"
proof -
  let ?b = "FixedBuffer_new junk" and ?t = "time_text localtime now @ getLevelName level"
  have ok: "fb_ok ?b" "fb_room ?b = 4000"
    using assms(1) by (simp_all add: FixedBuffer_new_def fb_ok_def kSmallBuffer_def)
  from Impl_new_ok [where localtime = localtime, OF assms(1-3)] obtain l where
    l: "Impl_new localtime (\<lambda>_. []) junk now level 0 (at_file site) (at_line site) = Inr l" "lg_level l = level"
      "lg_line l = at_line site" "lg_basename l = SourceFile (at_file site)" "adds ?t ?b (lg_stream l)" by blast
  have "length (time_text localtime now) = 24"
    using formatTime_ok(2) [where localtime = localtime, OF ok(1) _ assms(2,3)] ok(2) by simp
  then have room: "fb_ok (lg_stream l)" "fb_room (lg_stream l) = 3970" using l(5) ok by (simp_all add: adds_def)
  show ?thesis
  proof (cases "level = DEBUG")
    case True
    have "prints (\<lambda>b. body (stream_string '' '' (stream_cstr (Some (at_func site)) b))) ((at_func site @ '' '') @ msg)"
      by (rule prints_comp [OF prints_comp [OF prints_cstr prints_string] assms(4)]) (rule assms(5))
    then have "adds ((at_func site @ '' '') @ msg) (lg_stream l) (body (stream_string '' '' (stream_cstr (Some (at_func site)) (lg_stream l))))"
      using room assms(6) by (simp add: prints_def kSmallBuffer_def)
    from adds_trans [OF l(5) this] show ?thesis using l True
      by (simp add: Logger_new_def msg_text_def stream_char_def stream_string_def)
  next
    case False
    have "adds msg (lg_stream l) (body (lg_stream l))"
      using assms(4,6) room by (simp add: prints_def kSmallBuffer_def)
    from adds_trans [OF l(5) this] show ?thesis using l False by (simp add: Logger_new_def msg_text_def)
  qed
qed

lemma Impl_finish_ok:
  assumes ok: "fb_ok (lg_stream l)" "length (lg_basename l) + 100 \<le> fb_room (lg_stream l)" and line: "\<bar>lg_line l\<bar> < 2 ^ 31"
  shows "\<exists>l'. Impl_finish l = Inr l' \<and> lg_level l' = lg_level l
    \<and> adds ('' - '' @ lg_basename l @ '':'' @ fmt_int (lg_line l) @ [CHR 0x0A]) (lg_stream l) (lg_stream l')"
proof -
  let ?b0 = "lg_stream l"
  have a1: "adds '' - '' ?b0 (stream_cstr (Some '' - '') ?b0)" (is "adds _ _ ?b1")
    using ok by (intro adds_cstr) auto
  then have "fb_ok ?b1" "length (lg_basename l) < fb_room ?b1" using ok(2) by (simp_all add: adds_def)
  from adds_general [OF this order_refl] obtain b2 where
    b2: "stream_general (lg_basename l) (length (lg_basename l)) ?b1 = Inr b2" "adds (lg_basename l) ?b1 b2" by auto
  have r2: "fb_ok b2" "90 \<le> fb_room b2" using b2(2) a1 ok(2) by (simp_all add: adds_def)
  have a3: "adds '':'' b2 (stream_char (CHR '':'') b2)" (is "adds _ _ ?b3")
    using r2 unfolding stream_char_def by (intro adds_append) simp_all
  have num: "\<bar>lg_line l\<bar> < 2 ^ 64" using line by simp
  have a4: "adds (fmt_int (lg_line l)) ?b3 (formatInteger (lg_line l) ?b3)" (is "adds _ _ ?b4")
    using a3 r2 num by (intro adds_int) (simp_all add: adds_def)
  have "length (fmt_int (lg_line l)) \<le> 21"
    using a3 r2 num formatInteger_ok(5) [of ?b3] by (simp add: adds_def)
  then have a5: "adds [CHR 0x0A] ?b4 (stream_char (CHR 0x0A) ?b4)"
    using a3 a4 r2 unfolding stream_char_def by (intro adds_append) (simp_all add: adds_def)
  have "adds ('' - '' @ lg_basename l @ '':'' @ fmt_int (lg_line l) @ [CHR 0x0A]) ?b0 (stream_char (CHR 0x0A) ?b4)"
    by (rule adds_trans [OF a1 adds_trans [OF b2(2) adds_trans [OF a3 adds_trans [OF a4 a5]]]])
  then show ?thesis using b2(1) by (simp add: Impl_finish_def)
qed

text \<open>A statement that is enabled and whose line fits the buffer calls the output function once, with the
  time, level, message, file name and line number in this order, but always 4000 bytes: \<open>FixedBuffer::length\<close>
  returns the capacity, so the line is followed by whatever the array held. A fatal statement then
  flushes and aborts.\<close>

lemma log_line_output:
  fixes g :: "'w log_globals"
  assumes "length junk = kSmallBuffer" and "0 \<le> now" and "valid_tm (localtime (now sdiv kMicroSecondsPerSecond))"
    and "prints body msg" and "CHR 0x00 \<notin> set (at_func site)"
    and "length msg + length (at_func site) + length (at_file site) + 300 \<le> kSmallBuffer" and "\<bar>at_line site\<bar> < 2 ^ 31"
    and "log_enabled (g_logLevel g) level"
    and t: "t = line_text localtime now level (msg_text level site msg) (at_file site) (at_line site)"
  shows "\<exists>out. length out = 4000 \<and> take (length t) out = t
    \<and> log_stmt localtime junk now level site body g w =
        bindR (g_output g out w) (\<lambda>w1. if level = FATAL then bindR (g_flush g w1) (\<lambda>w2. Inr (w2, True)) else Inr (w1, False))"
proof -
  let ?b = "FixedBuffer_new junk"
  have ok: "fb_ok ?b" "fb_room ?b = 4000" "fb_text ?b = []"
    using assms(1) by (simp_all add: FixedBuffer_new_def fb_ok_def kSmallBuffer_def fb_text_def)
  have "length msg + length (at_func site) + 200 \<le> kSmallBuffer" using assms(6) by simp
  from log_body_ok [where localtime = localtime and level = level, OF assms(1-5) this] obtain l where
    l: "Logger_new localtime junk now (at_file site) (at_line site) level (if level = DEBUG then Some (at_func site) else None) = Inr l"
      "lg_level l = level" "lg_line l = at_line site" "lg_basename l = SourceFile (at_file site)"
      "adds (time_text localtime now @ getLevelName level @ msg_text level site msg) ?b (body (lg_stream l))" by blast
  let ?l = "l\<lparr>lg_stream := body (lg_stream l)\<rparr>"
  have "length (time_text localtime now) = 24"
    using formatTime_ok(2) [where localtime = localtime, OF ok(1) _ assms(2,3)] ok(2) by simp
  then have "fb_ok (lg_stream ?l)" "length (lg_basename ?l) + 100 \<le> fb_room (lg_stream ?l)" "\<bar>lg_line ?l\<bar> < 2 ^ 31"
    using l(3-5) ok(2) assms(6,7) length_SourceFile [of "at_file site"] by (auto simp: adds_def msg_text_def kSmallBuffer_def)
  from Impl_finish_ok [OF this] obtain l' where l': "Impl_finish ?l = Inr l'" "lg_level l' = level"
    "adds ('' - '' @ SourceFile (at_file site) @ '':'' @ fmt_int (at_line site) @ [CHR 0x0A]) (lg_stream ?l) (lg_stream l')"
    using l(2-4) by auto
  have "adds t ?b (lg_stream l')"
    using adds_trans [OF l(5), of _ "lg_stream l'"] l'(3) by (simp add: t line_text_def)
  then have "fb_text (lg_stream l') = t" "fb_cur (lg_stream l') = length t" "length (fb_data (lg_stream l')) = 4000"
    using ok(3) assms(1) by (simp_all add: adds_def FixedBuffer_new_def kSmallBuffer_def)
  then have "take (length t) (fb_data (lg_stream l')) = t" "length (fb_data (lg_stream l')) = 4000"
    unfolding fb_text_def by metis+
  then show ?thesis using l(1) l'(1,2) assms(8)
    by (intro exI [of _ "fb_data (lg_stream l')"]) (simp add: log_stmt_def Logger_destroy_def Let_def fb_length_def)
qed

lemma log_stmt_disabled: "\<not> log_enabled (g_logLevel g) level \<Longrightarrow> log_stmt localtime junk now level site body g w = Inr (w, False)"
  by (simp add: log_stmt_def)

text \<open>The date is cut after 17 of its 19 characters: log lines of the same minute carry no
  seconds, so two moments that differ only in their seconds get the same time stamp.\<close>

lemma log_time_without_seconds:
  assumes "valid_tm (localtime (t1 sdiv kMicroSecondsPerSecond))" and "valid_tm (localtime (t2 sdiv kMicroSecondsPerSecond))"
    and "(localtime (t1 sdiv kMicroSecondsPerSecond))\<lparr>tm_sec := 0\<rparr> = (localtime (t2 sdiv kMicroSecondsPerSecond))\<lparr>tm_sec := 0\<rparr>"
    and "t1 smod kMicroSecondsPerSecond = t2 smod kMicroSecondsPerSecond"
    and "0 \<le> t1" and "0 \<le> t2" and "fb_ok b" and "100 \<le> fb_room b"
  shows "\<exists>b1 b2. formatTime localtime t1 b = Inr b1 \<and> formatTime localtime t2 b = Inr b2 \<and> fb_text b1 = fb_text b2"
proof -
  let ?m1 = "localtime (t1 sdiv kMicroSecondsPerSecond)" and ?m2 = "localtime (t2 sdiv kMicroSecondsPerSecond)"
  have "tm_year ?m1 = tm_year ?m2" "tm_mon ?m1 = tm_mon ?m2" "tm_mday ?m1 = tm_mday ?m2" "tm_hour ?m1 = tm_hour ?m2"
    "tm_min ?m1 = tm_min ?m2"
    using assms(3) by (metis (no_types, lifting) tm.select_convs(1-5) tm.surjective tm.update_convs(6))+
  then have "time_text localtime t1 = time_text localtime t2"
    using assms(4) by (simp add: time_text_def fmt_date_prefix [OF assms(1)] fmt_date_prefix [OF assms(2)])
  then show ?thesis
    using formatTime_ok(1) [where localtime = localtime, OF assms(7,8,5,1)] formatTime_ok(1) [where localtime = localtime, OF assms(7,8,6,2)] by (auto simp: adds_def)
qed

end
