(* ===== verification/LogFile.thy ===== *)
theory LogFile
  imports Logging
begin

text \<open>
  Log files and the asynchronous logger (\<open>src/src/logger/FileUtil.h\<close>, \<open>FileUtil.cc\<close>, \<open>LogFile.h\<close>,
  \<open>LogFile.cc\<close>, \<open>AsyncLogging.h\<close>, \<open>AsyncLogging.cc\<close>). The C library is the environment: \<open>fwrite\<close>
  gives the number of bytes its \<open>n\<close>-th call accepts, \<open>time\<close> the clock at its \<open>n\<close>-th call. A disk is
  the list of the streams opened so far, each with the bytes it accepted and how many of them were
  flushed. \<open>None\<close> is a run that does not return.
\<close>

section \<open>The environment\<close>

record stdio_env =
  e_fwrite :: "nat \<Rightarrow> nat \<Rightarrow> nat"
  e_fopen :: "bytes \<Rightarrow> bool"
  e_time :: "nat \<Rightarrow> int"
  e_localtime :: "int \<Rightarrow> tm"

record log_out =
  lo_name :: bytes
  lo_data :: bytes
  lo_flushed :: nat

record world =
  w_writes :: nat
  w_times :: nat
  w_disk :: "log_out list"

definition disk_update :: "nat \<Rightarrow> (log_out \<Rightarrow> log_out) \<Rightarrow> world \<Rightarrow> world" where
  "disk_update fp f w = (if fp < length (w_disk w) then w\<lparr>w_disk := (w_disk w)[fp := f (w_disk w ! fp)]\<rparr> else w)"

definition flush_out :: "log_out \<Rightarrow> log_out" where
  "flush_out s = s\<lparr>lo_flushed := length (lo_data s)\<rparr>"

definition read_clock :: "stdio_env \<Rightarrow> world \<Rightarrow> int \<times> world" where
  "read_clock e w = (e_time e (w_times w), w\<lparr>w_times := Suc (w_times w)\<rparr>)"

section \<open>\<open>FileUtil\<close>\<close>

record file_util =
  fu_fp :: nat
  fu_writtenBytes :: int

text \<open>When \<open>fopen\<close> fails, \<open>setbuffer\<close> gets a null stream.\<close>

definition FileUtil_new :: "stdio_env \<Rightarrow> bytes \<Rightarrow> world \<Rightarrow> (file_util \<times> world) res" where
  "FileUtil_new e fileName w =
     (if e_fopen e fileName
      then Inr (\<lparr>fu_fp = length (w_disk w), fu_writtenBytes = 0\<rparr>,
                w\<lparr>w_disk := w_disk w @ [\<lparr>lo_name = fileName, lo_data = [], lo_flushed = 0\<rparr>]\<rparr>)
      else Inl NullDeref)"

definition FileUtil_destroy :: "file_util \<Rightarrow> world \<Rightarrow> world" where
  "FileUtil_destroy u = disk_update (fu_fp u) flush_out"

definition fu_flush :: "file_util \<Rightarrow> world \<Rightarrow> world" where
  "fu_flush u = disk_update (fu_fp u) flush_out"

definition fu_write :: "stdio_env \<Rightarrow> file_util \<Rightarrow> bytes \<Rightarrow> world \<Rightarrow> nat \<times> world" where
  "fu_write e u data w =
     (let n = e_fwrite e (w_writes w) (length data)
      in (n, disk_update (fu_fp u) (\<lambda>s. s\<lparr>lo_data := lo_data s @ take n data\<rparr>) (w\<lparr>w_writes := Suc (w_writes w)\<rparr>)))"

text \<open>The loop of \<open>append\<close>; a short write only prints a message.\<close>

partial_function (option) fu_append_loop ::
  "stdio_env \<Rightarrow> file_util \<Rightarrow> bytes \<Rightarrow> nat \<Rightarrow> world \<Rightarrow> (nat \<times> world) option"
where
  "fu_append_loop e u data written w =
     (if written = length data then Some (written, w)
      else let (n, w1) = fu_write e u (drop written data) w
           in fu_append_loop e u data (written + n) w1)"

definition fu_append :: "stdio_env \<Rightarrow> file_util \<Rightarrow> bytes \<Rightarrow> world \<Rightarrow> (file_util \<times> world) option" where
  "fu_append e u data w =
     (case fu_append_loop e u data 0 w of
        None \<Rightarrow> None
      | Some (written, w1) \<Rightarrow> Some (u\<lparr>fu_writtenBytes := fu_writtenBytes u + int written\<rparr>, w1))"

section \<open>\<open>LogFile\<close>\<close>

record log_file =
  lf_basename :: bytes
  lf_rollSize :: int
  lf_flushInterval :: int
  lf_checkEveryN :: int
  lf_count :: int
  lf_startOfPeriod :: int
  lf_lastRoll :: int
  lf_lastFlush :: int
  lf_file :: "file_util option"

definition kRollPerSeconds :: int where "kRollPerSeconds = 60 * 60 * 24"

text \<open>\<open>strftime\<close> with \<open>.%Y%m%d-%H%M%S\<close>.\<close>

definition strftime_roll :: "tm \<Rightarrow> bytes" where
  "strftime_roll m =
     ''.'' @ fmt_int (tm_year m + 1900) @ fmt_zero 2 (tm_mon m + 1) @ fmt_zero 2 (tm_mday m) @ ''-''
     @ fmt_zero 2 (tm_hour m) @ fmt_zero 2 (tm_min m) @ fmt_zero 2 (tm_sec m)"

definition getLogFileName :: "stdio_env \<Rightarrow> bytes \<Rightarrow> world \<Rightarrow> bytes \<times> int \<times> world" where
  "getLogFileName e basename w =
     (let (now, w1) = read_clock e w
      in (basename @ strftime_roll (e_localtime e now) @ ''.log'', now, w1))"

text \<open>\<open>file_.reset\<close> opens the new file before the old one is closed.\<close>

definition rollFile :: "stdio_env \<Rightarrow> log_file \<Rightarrow> world \<Rightarrow> (bool \<times> log_file \<times> world) res" where
  "rollFile e f w =
     (let (filename, now, w1) = getLogFileName e (lf_basename f) w;
          start = now sdiv kRollPerSeconds * kRollPerSeconds
      in if lf_lastRoll f < now
         then bindR (FileUtil_new e filename w1) (\<lambda>(u, w2).
                let w3 = (case lf_file f of None \<Rightarrow> w2 | Some u0 \<Rightarrow> FileUtil_destroy u0 w2)
                in Inr (True, f\<lparr>lf_lastRoll := now, lf_lastFlush := now, lf_startOfPeriod := start,
                               lf_file := Some u\<rparr>, w3))
         else Inr (False, f, w1))"

definition LogFile_new :: "stdio_env \<Rightarrow> bytes \<Rightarrow> int \<Rightarrow> int \<Rightarrow> int \<Rightarrow> world \<Rightarrow> (log_file \<times> world) res" where
  "LogFile_new e basename rollSize flushInterval checkEveryN w =
     bindR (rollFile e \<lparr>lf_basename = basename, lf_rollSize = rollSize, lf_flushInterval = flushInterval,
              lf_checkEveryN = checkEveryN, lf_count = 0, lf_startOfPeriod = 0, lf_lastRoll = 0,
              lf_lastFlush = 0, lf_file = None\<rparr> w) (\<lambda>(_, f, w1). Inr (f, w1))"

definition lf_flush :: "log_file \<Rightarrow> world \<Rightarrow> world res" where
  "lf_flush f w = (case lf_file f of None \<Rightarrow> Inl NullDeref | Some u \<Rightarrow> Inr (fu_flush u w))"

text \<open>What \<open>appendInLock\<close> does once the data is in the file.\<close>

definition lf_after_write :: "stdio_env \<Rightarrow> file_util \<Rightarrow> log_file \<Rightarrow> world \<Rightarrow> (log_file \<times> world) res" where
  "lf_after_write e u f w =
     (if lf_rollSize f < fu_writtenBytes u
      then bindR (rollFile e f w) (\<lambda>(_, f1, w1). Inr (f1, w1))
      else if lf_count f + 1 < lf_checkEveryN f then Inr (f\<lparr>lf_count := lf_count f + 1\<rparr>, w)
      else let f0 = f\<lparr>lf_count := 0\<rparr>;
               (now, w1) = read_clock e w;
               thisPeriod = now sdiv kRollPerSeconds * kRollPerSeconds
           in if thisPeriod \<noteq> lf_startOfPeriod f
              then bindR (rollFile e f0 w1) (\<lambda>(_, f1, w2). Inr (f1, w2))
              else if lf_flushInterval f < now - lf_lastFlush f
              then Inr (f0\<lparr>lf_lastFlush := now\<rparr>, fu_flush u w1)
              else Inr (f0, w1))"

definition lf_append :: "stdio_env \<Rightarrow> bytes \<Rightarrow> log_file \<times> world \<Rightarrow> (log_file \<times> world) res option" where
  "lf_append e data fw =
     (case lf_file (fst fw) of
        None \<Rightarrow> Some (Inl NullDeref)
      | Some u \<Rightarrow>
          (case fu_append e u data (snd fw) of
             None \<Rightarrow> None
           | Some (u1, w1) \<Rightarrow> Some (lf_after_write e u1 ((fst fw)\<lparr>lf_file := Some u1\<rparr>) w1)))"

section \<open>What the C library promises\<close>

text \<open>\<open>fwrite\<close> accepts at most what it is given, and errors do not last forever; files can be opened;
  the clock is after the epoch.\<close>

locale stdio =
  fixes e :: stdio_env
  assumes fwrite_le: "e_fwrite e i n \<le> n"
    and fwrite_progress: "\<exists>j. \<forall>n. 0 < n \<longrightarrow> 0 < e_fwrite e (i + j) n"
    and fopen_ok: "e_fopen e name"
    and clock_pos: "0 < e_time e i"

definition out_append :: "bytes \<Rightarrow> log_out \<Rightarrow> log_out" where
  "out_append d s = s\<lparr>lo_data := lo_data s @ d\<rparr>"

lemma out_append_simps [simp]:
  "out_append [] s = s" "out_append b (out_append a s) = out_append (a @ b) s"
  "lo_name (out_append d s) = lo_name s" "lo_data (out_append d s) = lo_data s @ d"
  "lo_flushed (out_append d s) = lo_flushed s"
  by (simp_all add: out_append_def)

lemma fu_write_disk:
  "fu_fp u < length (w_disk w) \<Longrightarrow>
   fu_write e u d w = (let n = e_fwrite e (w_writes w) (length d)
     in (n, w\<lparr>w_writes := Suc (w_writes w), w_disk := (w_disk w)[fu_fp u := out_append (take n d) (w_disk w ! fu_fp u)]\<rparr>))"
  by (simp add: fu_write_def disk_update_def out_append_def Let_def)

text \<open>The state of a log file: the streams closed so far, the current one and its handle.\<close>

definition lf_at :: "log_file \<Rightarrow> world \<Rightarrow> log_out list \<Rightarrow> log_out \<Rightarrow> file_util \<Rightarrow> bool" where
  "lf_at f w old cur u \<longleftrightarrow> lf_file f = Some u \<and> w_disk w = old @ [cur] \<and> fu_fp u = length old
     \<and> fu_writtenBytes u = int (length (lo_data cur)) \<and> (\<forall>s \<in> set old. lo_flushed s = length (lo_data s))"

definition lf_inv :: "log_file \<times> world \<Rightarrow> bool" where
  "lf_inv fw \<longleftrightarrow> (\<exists>old cur u. lf_at (fst fw) (snd fw) old cur u)"

definition disk_content :: "log_file \<times> world \<Rightarrow> bytes" where
  "disk_content fw = concat (map lo_data (w_disk (snd fw)))"

definition all_flushed :: "world \<Rightarrow> bool" where
  "all_flushed w \<longleftrightarrow> (\<forall>s \<in> set (w_disk w). lo_flushed s = length (lo_data s))"

definition log_name :: "stdio_env \<Rightarrow> log_file \<Rightarrow> int \<Rightarrow> bytes" where
  "log_name e f now = lf_basename f @ strftime_roll (e_localtime e now) @ ''.log''"

lemma flush_at:
  "lf_at f w old cur u \<Longrightarrow> fu_flush u w = w\<lparr>w_disk := old @ [flush_out cur]\<rparr>"
  by (simp add: lf_at_def fu_flush_def disk_update_def)

context stdio
begin

text \<open>The loop of \<open>append\<close> ends with all of the data in the stream: \<open>k\<close> counts the calls until one of
  them accepts something.\<close>

lemma append_loop_step:
  assumes "written < length data" "fu_fp u < length (w_disk w)"
  shows "fu_append_loop e u data written w =
    (let n = e_fwrite e (w_writes w) (length data - written)
     in fu_append_loop e u data (written + n) (w\<lparr>w_writes := Suc (w_writes w),
          w_disk := (w_disk w)[fu_fp u := out_append (take n (drop written data)) (w_disk w ! fu_fp u)]\<rparr>))"
  using assms by (subst fu_append_loop.simps) (simp add: fu_write_disk Let_def)

lemma append_loop_returns:
  assumes "written \<le> length data" "fu_fp u < length (w_disk w)"
  shows "\<exists>m. fu_append_loop e u data written w = Some (length data, w\<lparr>w_writes := m,
    w_disk := (w_disk w)[fu_fp u := out_append (drop written data) (w_disk w ! fu_fp u)]\<rparr>)"
  using assms
proof (induction "length data - written" arbitrary: written w rule: less_induct)
  case less
  let ?goal = "\<lambda>w. \<exists>m. fu_append_loop e u data written w = Some (length data, w\<lparr>w_writes := m,
    w_disk := (w_disk w)[fu_fp u := out_append (drop written data) (w_disk w ! fu_fp u)]\<rparr>)"
  show ?case
  proof (cases "written = length data")
    case True
    then show ?thesis by (subst fu_append_loop.simps) (auto intro!: exI [of _ "w_writes w"])
  next
    case False
    then have lt: "written < length data" using less.prems by simp
    let ?n = "\<lambda>w. e_fwrite e (w_writes w) (length data - written)"
    have advance: "?goal w'" if "0 < ?n w'" "fu_fp u < length (w_disk w')" for w'
    proof -
      have n: "?n w' \<le> length data - written" by (rule fwrite_le)
      let ?w = "w'\<lparr>w_writes := Suc (w_writes w'),
          w_disk := (w_disk w')[fu_fp u := out_append (take (?n w') (drop written data)) (w_disk w' ! fu_fp u)]\<rparr>"
      have "take (?n w') (drop written data) @ drop (written + ?n w') data = drop written data"
        by (metis append_take_drop_id drop_drop add.commute)
      then show ?thesis
        using less.hyps [of "written + ?n w'" ?w] n lt that append_loop_step [OF lt that(2)] by (simp add: Let_def)
    qed
    have retry: "?goal w'" if "\<forall>n. 0 < n \<longrightarrow> 0 < e_fwrite e (w_writes w' + k) n" "fu_fp u < length (w_disk w')" for k w'
      using that
    proof (induction k arbitrary: w')
      case (0 w')
      then show ?case using lt by (intro advance) auto
    next
      case (Suc k w')
      show ?case
      proof (cases "?n w' = 0")
        case True
        then have e: "fu_append_loop e u data written w' = fu_append_loop e u data written (w'\<lparr>w_writes := Suc (w_writes w')\<rparr>)"
          using append_loop_step [OF lt Suc.prems(2)] by (simp add: Let_def)
        show ?thesis using Suc.IH [of "w'\<lparr>w_writes := Suc (w_writes w')\<rparr>"] Suc.prems unfolding e by simp
      next
        case False
        then show ?thesis using Suc.prems(2) by (intro advance) auto
      qed
    qed
    obtain k where "\<forall>n. 0 < n \<longrightarrow> 0 < e_fwrite e (w_writes w + k) n" using fwrite_progress by blast
    then show ?thesis using retry less.prems(2) by blast
  qed
qed

lemma fu_append_at:
  assumes "lf_at f w old cur u"
  shows "\<exists>m u'. fu_append e u data w = Some (u', w\<lparr>w_writes := m, w_disk := old @ [out_append data cur]\<rparr>)
    \<and> lf_at (f\<lparr>lf_file := Some u'\<rparr>) (w\<lparr>w_writes := m, w_disk := old @ [out_append data cur]\<rparr>) old (out_append data cur) u'"
proof -
  have "fu_fp u < length (w_disk w)" "w_disk w ! fu_fp u = cur"
    "\<And>x. (w_disk w)[fu_fp u := x] = old @ [x]" using assms by (simp_all add: lf_at_def)
  with append_loop_returns [of 0 data u w] obtain m where
    "fu_append_loop e u data 0 w = Some (length data, w\<lparr>w_writes := m, w_disk := old @ [out_append data cur]\<rparr>)" by auto
  then show ?thesis using assms by (auto simp: fu_append_def lf_at_def)
qed

lemma rollFile_at:
  assumes "lf_at f w old cur u" "lf_lastRoll f < e_time e (w_times w)"
  shows "\<exists>f' w' u'. rollFile e f w = Inr (True, f', w') \<and> lf_lastRoll f' = e_time e (w_times w)
    \<and> lf_at f' w' (old @ [flush_out cur]) \<lparr>lo_name = log_name e f (e_time e (w_times w)), lo_data = [], lo_flushed = 0\<rparr> u'"
  using assms fopen_ok
  by (simp add: rollFile_def getLogFileName_def read_clock_def Let_def FileUtil_new_def FileUtil_destroy_def disk_update_def
      lf_at_def log_name_def flush_out_def nth_append list_update_append)

lemma rollFile_keeps:
  assumes "lf_inv (f, w)"
  shows "\<exists>b f' w'. rollFile e f w = Inr (b, f', w') \<and> lf_inv (f', w') \<and> disk_content (f', w') = disk_content (f, w)"
proof -
  from assms obtain old cur u where at: "lf_at f w old cur u" by (auto simp: lf_inv_def)
  show ?thesis
  proof (cases "lf_lastRoll f < e_time e (w_times w)")
    case True
    from rollFile_at [OF at this] show ?thesis
      using at by (fastforce simp: lf_inv_def disk_content_def lf_at_def flush_out_def)
  next
    case False
    then have "rollFile e f w = Inr (False, f, w\<lparr>w_times := Suc (w_times w)\<rparr>)"
      by (simp add: rollFile_def getLogFileName_def read_clock_def Let_def)
    then show ?thesis using at by (auto simp: lf_inv_def disk_content_def lf_at_def)
  qed
qed

lemma after_write_keeps:
  assumes "lf_at f w old cur u"
  shows "\<exists>f' w'. lf_after_write e u f w = Inr (f', w') \<and> lf_inv (f', w') \<and> disk_content (f', w') = disk_content (f, w)"
proof -
  have inv: "lf_inv (f\<lparr>lf_count := c\<rparr>, w\<lparr>w_times := t\<rparr>)" "lf_inv (f, w)" "lf_inv (f\<lparr>lf_count := c\<rparr>, w)"
    "disk_content (f\<lparr>lf_count := c\<rparr>, w\<lparr>w_times := t\<rparr>) = disk_content (f, w)"
    "disk_content (f\<lparr>lf_count := c\<rparr>, w) = disk_content (f, w)" for c t
    using assms by (auto simp: lf_inv_def lf_at_def disk_content_def)
  have at': "lf_at (f\<lparr>lf_count := c\<rparr>) (w\<lparr>w_times := t\<rparr>) old cur u" for c t using assms by (simp add: lf_at_def)
  have fl: "lf_inv (f\<lparr>lf_count := c, lf_lastFlush := n\<rparr>, fu_flush u (w\<lparr>w_times := t\<rparr>))
      \<and> disk_content (f\<lparr>lf_count := c, lf_lastFlush := n\<rparr>, fu_flush u (w\<lparr>w_times := t\<rparr>)) = disk_content (f, w)" for c n t
    using assms unfolding flush_at [OF at'] lf_inv_def lf_at_def disk_content_def flush_out_def
    by (auto intro!: exI [of _ old])
  let ?keeps = "\<lambda>r. \<exists>f' w'. r = Inr (f', w') \<and> lf_inv (f', w') \<and> disk_content (f', w') = disk_content (f, w)"
  have roll: "?keeps (bindR (rollFile e f1 w1) (\<lambda>(_, f2, w2). Inr (f2, w2)))"
    if "lf_inv (f1, w1)" "disk_content (f1, w1) = disk_content (f, w)" for f1 w1
    using rollFile_keeps [OF that(1)] that(2) by auto
  let ?r = "lf_after_write e u f w"
  have "?keeps ?r"
  proof -
    consider "?r = bindR (rollFile e f w) (\<lambda>(_, f2, w2). Inr (f2, w2))" | c where "?r = Inr (f\<lparr>lf_count := c\<rparr>, w)"
      | c t where "?r = bindR (rollFile e (f\<lparr>lf_count := c\<rparr>) (w\<lparr>w_times := t\<rparr>)) (\<lambda>(_, f2, w2). Inr (f2, w2))"
      | c n t where "?r = Inr (f\<lparr>lf_count := c, lf_lastFlush := n\<rparr>, fu_flush u (w\<lparr>w_times := t\<rparr>))"
      | c t where "?r = Inr (f\<lparr>lf_count := c\<rparr>, w\<lparr>w_times := t\<rparr>)"
      unfolding lf_after_write_def Let_def read_clock_def prod.case by (metis (full_types))
    then show ?thesis
      by cases (use roll inv fl in \<open>simp_all del: bindR.simps\<close>)
  qed
  then show ?thesis .
qed

lemma lf_append_ok:
  assumes "lf_inv fw"
  shows "\<exists>fw'. lf_append e data fw = Some (Inr fw') \<and> lf_inv fw' \<and> disk_content fw' = disk_content fw @ data"
proof -
  obtain f w where fw: "fw = (f, w)" by (cases fw)
  from assms fw obtain old cur u where at: "lf_at f w old cur u" by (auto simp: lf_inv_def)
  let ?w = "\<lambda>m. w\<lparr>w_writes := m, w_disk := old @ [out_append data cur]\<rparr>"
  from fu_append_at [OF at, of data] obtain m u' where a: "fu_append e u data w = Some (u', ?w m)"
    and at': "lf_at (f\<lparr>lf_file := Some u'\<rparr>) (?w m) old (out_append data cur) u'" by blast
  have u: "lf_file f = Some u" "w_disk w = old @ [cur]" using at by (simp_all add: lf_at_def)
  from after_write_keeps [OF at'] show ?thesis
    using a u by (auto simp: lf_append_def fw disk_content_def)
qed

lemma lf_flush_ok:
  assumes "lf_inv (f, w)"
  shows "\<exists>w'. lf_flush f w = Inr w' \<and> lf_inv (f, w') \<and> disk_content (f, w') = disk_content (f, w) \<and> all_flushed w'"
proof -
  from assms obtain old cur u where at: "lf_at f w old cur u" by (auto simp: lf_inv_def)
  then have "lf_flush f w = Inr (w\<lparr>w_disk := old @ [flush_out cur]\<rparr>)"
    using flush_at [OF at] by (simp add: lf_flush_def lf_at_def)
  then show ?thesis using at
    by (auto simp: lf_inv_def lf_at_def disk_content_def all_flushed_def flush_out_def)
qed

lemma LogFile_new_ok:
  "\<exists>f. LogFile_new e base rollSize interval n \<lparr>w_writes = 0, w_times = 0, w_disk = []\<rparr> = Inr f
    \<and> lf_inv f \<and> disk_content f = []"
  using clock_pos [of 0] fopen_ok
  by (simp add: LogFile_new_def rollFile_def getLogFileName_def read_clock_def Let_def FileUtil_new_def lf_inv_def lf_at_def
      disk_content_def)

end

section \<open>The interface the writers rely on\<close>

text \<open>A run of appends: it stops at the first call that fails or does not return.\<close>

primrec append_each :: "(bytes \<Rightarrow> 's \<Rightarrow> 's res option) \<Rightarrow> bytes list \<Rightarrow> 's \<Rightarrow> 's res option" where
  "append_each app [] s = Some (Inr s)"
| "append_each app (d # ds) s =
     (case app d s of
        None \<Rightarrow> None
      | Some (Inl err) \<Rightarrow> Some (Inl err)
      | Some (Inr s1) \<Rightarrow> append_each app ds s1)"

locale log_sink =
  fixes app :: "bytes \<Rightarrow> 's \<Rightarrow> 's res option" and ok :: "'s \<Rightarrow> bool" and content :: "'s \<Rightarrow> bytes"
  assumes app_ok: "ok s \<Longrightarrow> \<exists>s'. app d s = Some (Inr s') \<and> ok s' \<and> content s' = content s @ d"
begin

lemma append_each_ok:
  "ok s \<Longrightarrow> \<exists>s'. append_each app ds s = Some (Inr s') \<and> ok s' \<and> content s' = content s @ concat ds"
proof (induction ds arbitrary: s)
  case (Cons d ds)
  from app_ok [OF Cons.prems, of d] obtain s1 where
    s1: "app d s = Some (Inr s1)" "ok s1" "content s1 = content s @ d" by blast
  from Cons.IH [OF s1(2)] show ?case using s1 by auto
qed simp

end

sublocale stdio \<subseteq> log_sink "lf_append e" lf_inv disk_content
  by unfold_locales (rule lf_append_ok)

context stdio
begin

lemma LogFile_appends:
  "\<exists>fw0 fw. LogFile_new e base rollSize interval n \<lparr>w_writes = 0, w_times = 0, w_disk = []\<rparr> = Inr fw0
    \<and> append_each (lf_append e) ds fw0 = Some (Inr fw) \<and> lf_inv fw \<and> disk_content fw = concat ds"
  using LogFile_new_ok [of base rollSize interval n] append_each_ok [of _ ds] by fastforce

end

text \<open>An instance: every call accepts all of the data and the clock ticks with every call.\<close>

definition sample_tm :: "int \<Rightarrow> tm" where
  "sample_tm secs = \<lparr>tm_year = 122, tm_mon = 9, tm_mday = 26, tm_hour = 10, tm_min = 30, tm_sec = secs mod 60\<rparr>"

definition steady_io :: stdio_env where
  "steady_io = \<lparr>e_fwrite = \<lambda>i n. n, e_fopen = \<lambda>_. True, e_time = \<lambda>i. int i + 1, e_localtime = sample_tm\<rparr>"

interpretation steady: stdio steady_io
  by unfold_locales (simp_all add: steady_io_def)

section \<open>Properties\<close>

text \<open>Whatever is appended to a log file reaches the disk completely and in order, across all
  the files it is spread over, however short the writes are and wherever the clock makes it roll.\<close>

lemma log_file_in_order:
  assumes "stdio e"
  shows "\<exists>fw0 fw. LogFile_new e base rollSize interval n \<lparr>w_writes = 0, w_times = 0, w_disk = []\<rparr> = Inr fw0
    \<and> append_each (lf_append e) ds fw0 = Some (Inr fw) \<and> disk_content fw = concat ds"
  using stdio.LogFile_appends [OF assms, of base rollSize interval n ds] by blast

text \<open>An append that makes the current file longer than \<open>rollSize_\<close> rolls it when the clock has
  moved since the last roll: the old file holds all of its data, flushed, and a new empty file named
  after the clock is open.\<close>

lemma oversized_file_rolls:
  assumes "stdio e" and "lf_at f w old cur u" and "lf_rollSize f < int (length (lo_data cur) + length data)"
    and "lf_lastRoll f < e_time e (w_times w)"
  shows "\<exists>f' w'. lf_append e data (f, w) = Some (Inr (f', w'))
    \<and> w_disk w' = old @ [cur\<lparr>lo_data := lo_data cur @ data, lo_flushed := length (lo_data cur @ data)\<rparr>,
        \<lparr>lo_name = log_name e f (e_time e (w_times w)), lo_data = [], lo_flushed = 0\<rparr>]
    \<and> lf_inv (f', w') \<and> lf_lastRoll f' = e_time e (w_times w)"
proof -
  let ?w = "\<lambda>m. w\<lparr>w_writes := m, w_disk := old @ [out_append data cur]\<rparr>"
  from stdio.fu_append_at [OF assms(1,2), of data] obtain m u' where a: "fu_append e u data w = Some (u', ?w m)"
    and at: "lf_at (f\<lparr>lf_file := Some u'\<rparr>) (?w m) old (out_append data cur) u'" by blast
  have "lf_lastRoll (f\<lparr>lf_file := Some u'\<rparr>) < e_time e (w_times (?w m))" using assms(4) by simp
  from stdio.rollFile_at [OF assms(1) at this] obtain f1 w1 u1 where
    r: "rollFile e (f\<lparr>lf_file := Some u'\<rparr>) (?w m) = Inr (True, f1, w1)" "lf_lastRoll f1 = e_time e (w_times w)"
      "lf_at f1 w1 (old @ [flush_out (out_append data cur)])
         \<lparr>lo_name = log_name e f (e_time e (w_times w)), lo_data = [], lo_flushed = 0\<rparr> u1"
    by (auto simp: log_name_def)
  have u: "lf_file f = Some u" using assms(2) by (simp add: lf_at_def)
  have "lf_rollSize f < fu_writtenBytes u'" using at assms(3) by (simp add: lf_at_def)
  then have "lf_append e data (f, w) = Some (Inr (f1, w1))"
    using a r(1) u by (simp add: lf_append_def lf_after_write_def)
  then show ?thesis using r(2,3) by (auto simp: lf_inv_def lf_at_def flush_out_def out_append_def)
qed

text \<open>When \<open>fwrite\<close> keeps failing, for instance on a full disk, \<open>FileUtil::append\<close> never
  returns: it prints a message and tries again.\<close>

lemma append_spins_on_error:
  assumes "\<And>i n. e_fwrite e i n = 0" and "data \<noteq> []"
  shows "fu_append e u data w = None"
proof -
  have "fu_append_loop e u data 0 w = Some r \<Longrightarrow> (\<forall>i n. e_fwrite e i n = 0) \<longrightarrow> 0 = length data" for r
  proof (rule fu_append_loop.raw_induct
      [where P = "\<lambda>e u data written w r. (\<forall>i n. e_fwrite e i n = 0) \<longrightarrow> written = length data"])
    fix loop e u data written w r
    assume IH: "\<And>e u data written w r. loop e u data written w = Some r \<Longrightarrow> (\<forall>i n. e_fwrite e i n = 0) \<longrightarrow> written = length data"
      and r: "(if written = length data then Some (written, w)
        else let (n, w1) = fu_write e u (drop written data) w in loop e u data (written + n) w1) = Some r"
    show "(\<forall>i n. e_fwrite e i n = 0) \<longrightarrow> written = length data"
    proof (intro impI)
      assume z: "\<forall>i n. e_fwrite e i n = 0"
      show "written = length data"
      proof (rule ccontr)
        assume "written \<noteq> length data"
        with r z have "loop e u data written (snd (fu_write e u (drop written data) w)) = Some r"
          by (simp add: fu_write_def Let_def)
        from IH [OF this] z \<open>written \<noteq> length data\<close> show False by blast
      qed
    qed
  qed simp
  with assms show ?thesis by (cases "fu_append_loop e u data 0 w") (auto simp: fu_append_def)
qed

end
