(* ===== verification/AsyncLogging.thy ===== *)
theory AsyncLogging
  imports LogFile Transitions
begin

text \<open>
  The asynchronous logger (\<open>src/src/logger/AsyncLogging.h\<close>, \<open>AsyncLogging.cc\<close>). Front-end threads and
  the writer thread interleave at the mutex: \<open>append\<close> and the critical section of \<open>threadFunc\<close> are one
  step each, and so are the test of \<open>running_\<close> and the part of a round outside the lock, which works on
  the writer's own variables. \<open>wait_for\<close> may return at any time, so its step is always enabled. A
  \<open>unique_ptr\<close> is an option. The size of a buffer is a parameter of the template.
\<close>

record async_logging =
  al_flushInterval :: int
  al_running :: bool
  al_basename :: bytes
  al_rollSize :: int
  al_current :: "fixed_buffer option"
  al_next :: "fixed_buffer option"
  al_buffers :: "fixed_buffer option list"

definition AsyncLogging_new :: "bytes \<Rightarrow> bytes \<Rightarrow> bytes \<Rightarrow> int \<Rightarrow> int \<Rightarrow> async_logging" where
  "AsyncLogging_new junk1 junk2 basename rollSize flushInterval =
     \<lparr>al_flushInterval = flushInterval, al_running = False, al_basename = basename, al_rollSize = rollSize,
      al_current = Some (fb_bzero (FixedBuffer_new junk1)), al_next = Some (fb_bzero (FixedBuffer_new junk2)),
      al_buffers = []\<rparr>"

definition al_start :: "async_logging \<Rightarrow> async_logging" where
  "al_start a = a\<lparr>al_running := True\<rparr>"

definition al_stop :: "async_logging \<Rightarrow> async_logging" where
  "al_stop a = a\<lparr>al_running := False\<rparr>"

definition AsyncLogging_destroy :: "async_logging \<Rightarrow> async_logging" where
  "AsyncLogging_destroy a = (if al_running a then al_stop a else a)"

text \<open>\<open>append\<close>; \<open>junk\<close> is the array of a buffer allocated here.\<close>

definition al_append :: "bytes \<Rightarrow> bytes \<Rightarrow> async_logging \<Rightarrow> async_logging res" where
  "al_append junk logline a =
     (case al_current a of
        None \<Rightarrow> Inl NullDeref
      | Some cur \<Rightarrow>
          (if int (length logline) < fb_avail cur
           then Inr (a\<lparr>al_current := Some (fb_append logline cur)\<rparr>)
           else let fresh = (case al_next a of Some b \<Rightarrow> b | None \<Rightarrow> FixedBuffer_new junk)
                in Inr (a\<lparr>al_buffers := al_buffers a @ [Some cur], al_next := None,
                          al_current := Some (fb_append logline fresh)\<rparr>)))"

text \<open>The local variables of \<open>threadFunc\<close>.\<close>

record writer =
  wr_output :: "log_file \<times> world"
  wr_newBuffer1 :: "fixed_buffer option"
  wr_newBuffer2 :: "fixed_buffer option"
  wr_toWrite :: "fixed_buffer option list"

definition writer_start ::
  "stdio_env \<Rightarrow> bytes \<Rightarrow> bytes \<Rightarrow> async_logging \<Rightarrow> world \<Rightarrow> writer res"
where
  "writer_start e junk1 junk2 a w =
     bindR (LogFile_new e (al_basename a) (al_rollSize a) 0 1024 w) (\<lambda>output.
       Inr \<lparr>wr_output = output, wr_newBuffer1 = Some (fb_bzero (FixedBuffer_new junk1)),
            wr_newBuffer2 = Some (fb_bzero (FixedBuffer_new junk2)), wr_toWrite = []\<rparr>)"

text \<open>The critical section of a round.\<close>

definition al_swap :: "async_logging \<Rightarrow> writer \<Rightarrow> async_logging \<times> writer" where
  "al_swap a wr =
     (let full = al_buffers a @ [al_current a];
          a1 = a\<lparr>al_current := wr_newBuffer1 wr, al_buffers := wr_toWrite wr\<rparr>;
          wr1 = wr\<lparr>wr_newBuffer1 := None, wr_toWrite := full\<rparr>
      in if al_next a = None
         then (a1\<lparr>al_next := wr_newBuffer2 wr\<rparr>, wr1\<lparr>wr_newBuffer2 := None\<rparr>)
         else (a1, wr1))"

primrec write_buffers ::
  "stdio_env \<Rightarrow> fixed_buffer option list \<Rightarrow> log_file \<times> world \<Rightarrow> (log_file \<times> world) res option"
where
  "write_buffers e [] out = Some (Inr out)"
| "write_buffers e (p # ps) out =
     (case p of
        None \<Rightarrow> Some (Inl NullDeref)
      | Some b \<Rightarrow>
          (case lf_append e (take (fb_length b) (fb_data b)) out of
             None \<Rightarrow> None
           | Some (Inl err) \<Rightarrow> Some (Inl err)
           | Some (Inr out1) \<Rightarrow> write_buffers e ps out1))"

text \<open>Giving a buffer back: \<open>back\<close> of an empty vector is undefined.\<close>

definition take_back ::
  "fixed_buffer option \<Rightarrow> fixed_buffer option list \<Rightarrow> (fixed_buffer option \<times> fixed_buffer option list) res"
where
  "take_back new bufs =
     (if new \<noteq> None then Inr (new, bufs)
      else if bufs = [] then Inl OutOfBounds
      else case last bufs of
             None \<Rightarrow> Inl NullDeref
           | Some b \<Rightarrow> Inr (Some (fb_reset b), butlast bufs))"

definition wr_recycle :: "writer \<Rightarrow> writer res" where
  "wr_recycle wr =
     bindR (take_back (wr_newBuffer1 wr) (if 2 < length (wr_toWrite wr) then take 2 (wr_toWrite wr) else wr_toWrite wr))
       (\<lambda>(n1, bufs1).
     bindR (take_back (wr_newBuffer2 wr) bufs1) (\<lambda>(n2, bufs2).
     bindR (lf_flush (fst (wr_output wr)) (snd (wr_output wr))) (\<lambda>w.
       Inr (wr\<lparr>wr_newBuffer1 := n1, wr_newBuffer2 := n2, wr_toWrite := [], wr_output := (fst (wr_output wr), w)\<rparr>))))"

definition wr_round :: "stdio_env \<Rightarrow> writer \<Rightarrow> writer res option" where
  "wr_round e wr =
     (case write_buffers e (wr_toWrite wr) (wr_output wr) of
        None \<Rightarrow> None
      | Some (Inl err) \<Rightarrow> Some (Inl err)
      | Some (Inr out) \<Rightarrow> Some (wr_recycle (wr\<lparr>wr_output := out\<rparr>)))"

section \<open>The two sides together\<close>

text \<open>Where the writer is: at the test of the loop, before the critical section, after it, or past the
  loop. The state also records the history: the lines appended and the buffers written.\<close>

datatype writer_pc = Test | Lock | Write | Finished

record al_sys =
  ls_front :: async_logging
  ls_writer :: writer
  ls_pc :: writer_pc
  ls_lines :: "bytes list"
  ls_written :: "fixed_buffer list"

inductive al_step :: "stdio_env \<Rightarrow> nat \<Rightarrow> al_sys \<Rightarrow> al_sys \<Rightarrow> bool" for e sz where
  step_append: "al_append junk line (ls_front s) = Inr a \<Longrightarrow> length junk = sz \<Longrightarrow>
    al_step e sz s (s\<lparr>ls_front := a, ls_lines := ls_lines s @ [line]\<rparr>)"
| step_stop: "al_step e sz s (s\<lparr>ls_front := al_stop (ls_front s)\<rparr>)"
| step_again: "ls_pc s = Test \<Longrightarrow> al_running (ls_front s) \<Longrightarrow> al_step e sz s (s\<lparr>ls_pc := Lock\<rparr>)"
| step_leave: "ls_pc s = Test \<Longrightarrow> \<not> al_running (ls_front s) \<Longrightarrow>
    lf_flush (fst (wr_output (ls_writer s))) (snd (wr_output (ls_writer s))) = Inr w \<Longrightarrow>
    al_step e sz s (s\<lparr>ls_pc := Finished,
      ls_writer := (ls_writer s)\<lparr>wr_output := (fst (wr_output (ls_writer s)), w)\<rparr>\<rparr>)"
| step_swap: "ls_pc s = Lock \<Longrightarrow> al_swap (ls_front s) (ls_writer s) = (a, wr) \<Longrightarrow>
    al_step e sz s (s\<lparr>ls_pc := Write, ls_front := a, ls_writer := wr\<rparr>)"
| step_write: "ls_pc s = Write \<Longrightarrow> wr_round e (ls_writer s) = Some (Inr wr) \<Longrightarrow>
    al_step e sz s (s\<lparr>ls_pc := Test, ls_writer := wr,
      ls_written := ls_written s @ List.map_filter id (wr_toWrite (ls_writer s))\<rparr>)"

inductive_cases al_stepE: "al_step e sz s s'"

definition al_initial :: "stdio_env \<Rightarrow> nat \<Rightarrow> al_sys \<Rightarrow> bool" where
  "al_initial e sz s \<longleftrightarrow>
     (\<exists>j1 j2 j3 j4 base rollSize interval wr. length j1 = sz \<and> length j2 = sz \<and> length j3 = sz \<and> length j4 = sz
        \<and> writer_start e j3 j4 (al_start (AsyncLogging_new j1 j2 base rollSize interval)) \<lparr>w_writes = 0, w_times = 0, w_disk = []\<rparr> = Inr wr
        \<and> s = \<lparr>ls_front = al_start (AsyncLogging_new j1 j2 base rollSize interval), ls_writer = wr, ls_pc = Test,
               ls_lines = [], ls_written = []\<rparr>)"

abbreviation al_reach :: "stdio_env \<Rightarrow> nat \<Rightarrow> al_sys \<Rightarrow> bool" where
  "al_reach e sz \<equiv> reachable (al_initial e sz) (al_step e sz)"

section \<open>The invariant\<close>

definition some_ok :: "nat \<Rightarrow> fixed_buffer option \<Rightarrow> bool" where
  "some_ok sz p \<longleftrightarrow> (\<exists>b. p = Some b \<and> fb_ok b \<and> length (fb_data b) = sz)"

definition some_empty :: "nat \<Rightarrow> fixed_buffer option \<Rightarrow> bool" where
  "some_empty sz p \<longleftrightarrow> some_ok sz p \<and> fb_cur (the p) = 0"

definition texts :: "fixed_buffer option list \<Rightarrow> bytes" where
  "texts ps = concat (map (\<lambda>p. fb_text (the p)) ps)"

definition front_ok :: "nat \<Rightarrow> async_logging \<Rightarrow> bool" where
  "front_ok sz a \<longleftrightarrow> some_ok sz (al_current a) \<and> (al_next a \<noteq> None \<longrightarrow> some_empty sz (al_next a))
     \<and> (\<forall>p \<in> set (al_buffers a). some_ok sz p) \<and> (al_next a = None \<longrightarrow> al_buffers a \<noteq> [])"

text \<open>In the middle of a round the first buffer was handed over, and with the second one at least two
  buffers came back.\<close>

definition writer_ok :: "nat \<Rightarrow> writer_pc \<Rightarrow> writer \<Rightarrow> bool" where
  "writer_ok sz pc wr \<longleftrightarrow> lf_inv (wr_output wr) \<and>
     (if pc = Write
      then wr_newBuffer1 wr = None \<and> wr_toWrite wr \<noteq> [] \<and> (\<forall>p \<in> set (wr_toWrite wr). some_ok sz p)
        \<and> (if wr_newBuffer2 wr = None then 2 \<le> length (wr_toWrite wr) else some_empty sz (wr_newBuffer2 wr))
      else some_empty sz (wr_newBuffer1 wr) \<and> some_empty sz (wr_newBuffer2 wr) \<and> wr_toWrite wr = [])"

definition al_inv :: "nat \<Rightarrow> al_sys \<Rightarrow> bool" where
  "al_inv sz s \<longleftrightarrow> front_ok sz (ls_front s) \<and> writer_ok sz (ls_pc s) (ls_writer s)
     \<and> (\<forall>b \<in> set (ls_written s). length (fb_data b) = sz)
     \<and> disk_content (wr_output (ls_writer s)) = concat (map fb_data (ls_written s))"

text \<open>Buffers carry groups of lines: each holds the lines of its group, whole.\<close>

definition carries :: "bytes list list \<Rightarrow> fixed_buffer option list \<Rightarrow> bool" where
  "carries gs ps \<longleftrightarrow> map (\<lambda>p. fb_text (the p)) ps = map concat gs"

definition held :: "al_sys \<Rightarrow> bytes list list \<Rightarrow> bytes list list \<Rightarrow> bytes list list \<Rightarrow> bytes list \<Rightarrow> bool" where
  "held s gw gt gb gc \<longleftrightarrow> ls_lines s = concat gw @ concat gt @ concat gb @ gc
     \<and> map fb_text (ls_written s) = map concat gw \<and> carries gt (wr_toWrite (ls_writer s))
     \<and> carries gb (al_buffers (ls_front s)) \<and> fb_text (the (al_current (ls_front s))) = concat gc"

definition in_order :: "al_sys \<Rightarrow> bool" where
  "in_order s \<longleftrightarrow> (\<exists>gw gt gb gc. held s gw gt gb gc)"

lemma carries_append: "carries gs ps \<Longrightarrow> carries hs qs \<Longrightarrow> carries (gs @ hs) (ps @ qs)"
  by (simp add: carries_def)

lemma carries_Nil [simp]: "carries [] []" "carries gs [] \<longleftrightarrow> gs = []" "carries [g] [p] \<longleftrightarrow> fb_text (the p) = concat g"
  by (auto simp: carries_def)

lemma concat_concat: "concat (concat gs) = concat (map concat gs)"
  by (induction gs) simp_all

lemma carries_texts: "carries gs ps \<Longrightarrow> concat (concat gs) = texts ps"
  by (simp add: carries_def texts_def concat_concat)

lemma texts_append [simp]: "texts (ps @ qs) = texts ps @ texts qs" "texts [] = []"
  by (simp_all add: texts_def)

lemma texts_map_filter: "(\<forall>p \<in> set ps. some_ok sz p) \<Longrightarrow> map fb_text (List.map_filter id ps) = map (\<lambda>p. fb_text (the p)) ps"
  by (induction ps) (auto simp: some_ok_def map_filter_simps)

lemma fb_text_empty: "fb_cur b = 0 \<Longrightarrow> fb_text b = []"
  by (simp add: fb_text_def)

lemma fresh_ok: "length junk = sz \<Longrightarrow> sz < 2 ^ 31 \<Longrightarrow> some_empty sz (Some (FixedBuffer_new junk))"
  by (simp add: some_empty_def some_ok_def fb_ok_def FixedBuffer_new_def)

lemma bzero_ok: "length junk = sz \<Longrightarrow> sz < 2 ^ 31 \<Longrightarrow> some_empty sz (Some (fb_bzero (FixedBuffer_new junk)))"
  by (simp add: some_empty_def some_ok_def fb_ok_def FixedBuffer_new_def fb_bzero_def)

lemma fb_append_some:
  assumes "some_ok sz (Some b)"
  shows "some_ok sz (Some (fb_append l b))" "length l < fb_room b \<Longrightarrow> fb_text (fb_append l b) = fb_text b @ l"
  using assms fb_append_ok [of b l] by (auto simp: some_ok_def)

lemma al_append_ok:
  assumes ok: "front_ok sz a" and sz: "sz < 2 ^ 31" "length junk = sz"
  shows "\<exists>a'. al_append junk line a = Inr a' \<and> front_ok sz a' \<and> al_running a' = al_running a
    \<and> (length line < sz \<longrightarrow>
        (al_buffers a' = al_buffers a \<and> fb_text (the (al_current a')) = fb_text (the (al_current a)) @ line)
        \<or> (al_buffers a' = al_buffers a @ [al_current a] \<and> fb_text (the (al_current a')) = line))"
proof -
  from ok obtain cur where cur: "al_current a = Some cur" "fb_ok cur" "length (fb_data cur) = sz"
    by (auto simp: front_ok_def some_ok_def)
  then have sc: "some_ok sz (Some cur)" by (simp add: some_ok_def)
  have avail: "fb_avail cur = int (fb_room cur)" using cur(2) by (simp add: fb_avail_def fb_ok_def of_nat_diff)
  show ?thesis
  proof (cases "length line < fb_room cur")
    case True
    then show ?thesis using ok cur avail fb_append_some [OF sc, of line]
      by (auto simp: al_append_def front_ok_def)
  next
    case False
    define fresh where "fresh = (case al_next a of Some b \<Rightarrow> b | None \<Rightarrow> FixedBuffer_new junk)"
    have fr: "some_empty sz (Some fresh)"
      using ok fresh_ok [OF sz(2,1)] by (auto simp: fresh_def front_ok_def split: option.splits)
    then have "fb_room fresh = sz" "fb_text fresh = []" "some_ok sz (Some fresh)"
      by (auto simp: some_empty_def some_ok_def fb_text_empty)
    moreover have "al_append junk line a = Inr (a\<lparr>al_buffers := al_buffers a @ [Some cur], al_next := None,
        al_current := Some (fb_append line fresh)\<rparr>)"
      using False avail cur(1) by (simp add: al_append_def fresh_def Let_def)
    ultimately show ?thesis using ok sc cur(1) fb_append_some [of sz fresh line]
      by (auto simp: front_ok_def texts_def)
  qed
qed

lemma al_swap_ok:
  assumes "front_ok sz a" "writer_ok sz Lock wr" "al_swap a wr = (a', wr')"
  shows "front_ok sz a'" "writer_ok sz Write wr'" "wr_output wr' = wr_output wr"
    "wr_toWrite wr' = al_buffers a @ [al_current a]"
    "al_buffers a' = []" "fb_text (the (al_current a')) = []"
proof -
  have n: "some_empty sz (wr_newBuffer1 wr)" "some_empty sz (wr_newBuffer2 wr)" "wr_toWrite wr = []" "lf_inv (wr_output wr)"
    using assms(2) by (simp_all add: writer_ok_def)
  note sw = assms(3) [unfolded al_swap_def Let_def]
  show "front_ok sz a'" "wr_output wr' = wr_output wr" "al_buffers a' = []" "fb_text (the (al_current a')) = []"
    "wr_toWrite wr' = al_buffers a @ [al_current a]"
    using assms(1) n sw by (auto simp: front_ok_def some_empty_def texts_def fb_text_empty some_ok_def split: if_splits)
  have "\<forall>p \<in> set (al_buffers a @ [al_current a]). some_ok sz p" "al_next a = None \<longrightarrow> 2 \<le> length (al_buffers a @ [al_current a])"
    using assms(1) by (auto simp: front_ok_def Suc_le_eq)
  then show "writer_ok sz Write wr'"
    using n sw by (auto simp: writer_ok_def some_empty_def some_ok_def split: if_splits)
qed

lemma take_back_ok:
  assumes "\<forall>p \<in> set bufs. some_ok sz p" "new = None \<longrightarrow> bufs \<noteq> []" "new \<noteq> None \<longrightarrow> some_empty sz new"
  shows "\<exists>n. take_back new bufs = Inr (n, if new = None then butlast bufs else bufs) \<and> some_empty sz n"
proof (cases "new = None")
  case True
  then have "some_ok sz (last bufs)" using assms(1,2) by simp
  then show ?thesis using True assms(2)
    by (auto simp: take_back_def some_ok_def some_empty_def fb_reset_def fb_ok_def)
qed (use assms(3) in \<open>auto simp: take_back_def\<close>)

lemma write_buffers_append_each:
  "\<forall>p \<in> set ps. some_ok sz p \<Longrightarrow> write_buffers e ps out = append_each (lf_append e) (map fb_data (List.map_filter id ps)) out"
  by (induction ps arbitrary: out) (auto simp: some_ok_def map_filter_simps fb_length_def split: option.splits sum.splits)

context stdio
begin

lemma wr_round_ok:
  assumes "writer_ok sz Write wr"
  shows "\<exists>wr'. wr_round e wr = Some (Inr wr') \<and> writer_ok sz Test wr' \<and> all_flushed (snd (wr_output wr'))
    \<and> disk_content (wr_output wr') = disk_content (wr_output wr) @ concat (map fb_data (List.map_filter id (wr_toWrite wr)))"
proof -
  let ?ps = "wr_toWrite wr"
  have ps: "\<forall>p \<in> set ?ps. some_ok sz p" "?ps \<noteq> []" "wr_newBuffer1 wr = None" "lf_inv (wr_output wr)"
    "wr_newBuffer2 wr = None \<longrightarrow> 2 \<le> length ?ps" "wr_newBuffer2 wr \<noteq> None \<longrightarrow> some_empty sz (wr_newBuffer2 wr)"
    using assms by (auto simp: writer_ok_def split: if_splits)
  from append_each_ok [OF ps(4)] obtain out where out: "write_buffers e ?ps (wr_output wr) = Some (Inr out)" "lf_inv out"
    "disk_content out = disk_content (wr_output wr) @ concat (map fb_data (List.map_filter id ?ps))"
    unfolding write_buffers_append_each [OF ps(1)] by blast
  let ?bufs = "if 2 < length ?ps then take 2 ?ps else ?ps"
  have b: "\<forall>p \<in> set ?bufs. some_ok sz p" "?bufs \<noteq> []" using ps(1,2) by (auto dest: in_set_takeD)
  from take_back_ok [of ?bufs sz None] b obtain n1 where
    n1: "take_back None ?bufs = Inr (n1, butlast ?bufs)" "some_empty sz n1" by auto
  have b2: "\<forall>p \<in> set (butlast ?bufs). some_ok sz p" using b(1) by (meson in_set_butlastD)
  have "wr_newBuffer2 wr = None \<longrightarrow> length (butlast ?bufs) = 1" using ps(5) by auto
  then have b3: "wr_newBuffer2 wr = None \<longrightarrow> butlast ?bufs \<noteq> []" by (metis list.size(3) zero_neq_one)
  from take_back_ok [OF b2 b3 ps(6)] obtain n2 bufs where
    n2: "take_back (wr_newBuffer2 wr) (butlast ?bufs) = Inr (n2, bufs)" "some_empty sz n2" by blast
  from lf_flush_ok [of "fst out" "snd out"] out(2) obtain w where
    w: "lf_flush (fst out) (snd out) = Inr w" "lf_inv (fst out, w)" "disk_content (fst out, w) = disk_content out"
      "all_flushed w" by auto
  have "wr_round e wr = Some (Inr (wr\<lparr>wr_output := (fst out, w), wr_newBuffer1 := n1, wr_newBuffer2 := n2, wr_toWrite := []\<rparr>))"
    unfolding wr_round_def using out(1) n1(1) n2(1) w(1) ps(3) by (cases "2 < length ?ps") (simp_all add: wr_recycle_def)
  then show ?thesis using n1(2) n2(2) w out(3) by (auto simp: writer_ok_def)
qed

lemma al_initial_inv: "al_initial e sz s \<Longrightarrow> sz < 2 ^ 31 \<Longrightarrow> al_inv sz s \<and> in_order s"
proof -
  assume "al_initial e sz s" and sz: "sz < 2 ^ 31"
  then obtain j1 j2 j3 j4 base rollSize interval wr where
    j: "length j1 = sz" "length j2 = sz" "length j3 = sz" "length j4 = sz"
    and wr: "writer_start e j3 j4 (al_start (AsyncLogging_new j1 j2 base rollSize interval)) \<lparr>w_writes = 0, w_times = 0, w_disk = []\<rparr> = Inr wr"
    and s: "s = \<lparr>ls_front = al_start (AsyncLogging_new j1 j2 base rollSize interval), ls_writer = wr, ls_pc = Test,
      ls_lines = [], ls_written = []\<rparr>" by (auto simp: al_initial_def)
  obtain f where "LogFile_new e base rollSize 0 1024 \<lparr>w_writes = 0, w_times = 0, w_disk = []\<rparr> = Inr f" "lf_inv f" "disk_content f = []"
    using LogFile_new_ok by blast
  then have "wr = \<lparr>wr_output = f, wr_newBuffer1 = Some (fb_bzero (FixedBuffer_new j3)),
      wr_newBuffer2 = Some (fb_bzero (FixedBuffer_new j4)), wr_toWrite = []\<rparr>" "lf_inv f" "disk_content f = []"
    using wr by (simp_all add: writer_start_def al_start_def AsyncLogging_new_def)
  then show ?thesis using bzero_ok [OF j(1) sz] bzero_ok [OF j(2) sz] bzero_ok [OF j(3) sz] bzero_ok [OF j(4) sz]
    by (simp add: s al_inv_def in_order_def held_def al_start_def AsyncLogging_new_def front_ok_def writer_ok_def some_empty_def fb_text_empty)
qed

text \<open>An appended line joins the current buffer or starts the next one; a swap and a round of writing move whole
  groups of lines on.\<close>

lemma in_order_append:
  assumes "in_order s"
    and "(al_buffers a = al_buffers (ls_front s) \<and> fb_text (the (al_current a)) = fb_text (the (al_current (ls_front s))) @ line)
      \<or> (al_buffers a = al_buffers (ls_front s) @ [al_current (ls_front s)] \<and> fb_text (the (al_current a)) = line)"
  shows "in_order (s\<lparr>ls_front := a, ls_lines := ls_lines s @ [line]\<rparr>)"
proof -
  from assms(1) obtain gw gt gb gc where "held s gw gt gb gc" by (auto simp: in_order_def)
  then have "held (s\<lparr>ls_front := a, ls_lines := ls_lines s @ [line]\<rparr>) gw gt gb (gc @ [line])
      \<or> held (s\<lparr>ls_front := a, ls_lines := ls_lines s @ [line]\<rparr>) gw gt (gb @ [gc]) [line]"
    using assms(2) by (auto simp: held_def carries_append)
  then show ?thesis by (auto simp: in_order_def)
qed

lemma in_order_swap:
  assumes "in_order s" "wr_toWrite (ls_writer s) = []"
    and "wr_toWrite wr = al_buffers (ls_front s) @ [al_current (ls_front s)]" "al_buffers a = []" "fb_text (the (al_current a)) = []"
  shows "in_order (s\<lparr>ls_pc := Write, ls_front := a, ls_writer := wr\<rparr>)"
proof -
  from assms(1) obtain gw gt gb gc where "held s gw gt gb gc" by (auto simp: in_order_def)
  then have "held (s\<lparr>ls_pc := Write, ls_front := a, ls_writer := wr\<rparr>) gw (gb @ [gc]) [] []"
    using assms(2-) by (simp add: held_def carries_append)
  then show ?thesis by (auto simp: in_order_def)
qed

lemma in_order_write:
  assumes "in_order s" "wr_toWrite wr = []" "\<forall>p \<in> set (wr_toWrite (ls_writer s)). some_ok sz p"
  shows "in_order (s\<lparr>ls_pc := Test, ls_writer := wr, ls_written := ls_written s @ List.map_filter id (wr_toWrite (ls_writer s))\<rparr>)"
proof -
  from assms(1) obtain gw gt gb gc where "held s gw gt gb gc" by (auto simp: in_order_def)
  then have "held (s\<lparr>ls_pc := Test, ls_writer := wr, ls_written := ls_written s @ List.map_filter id (wr_toWrite (ls_writer s))\<rparr>)
      (gw @ gt) [] gb gc" using assms(2) texts_map_filter [OF assms(3)] by (simp add: held_def carries_def)
  then show ?thesis by (auto simp: in_order_def)
qed

lemma al_step_inv:
  assumes "al_step e sz s s'" "al_inv sz s" "sz < 2 ^ 31"
  shows "al_inv sz s' \<and> (in_order s \<and> (\<forall>l \<in> set (ls_lines s'). length l < sz) \<longrightarrow> in_order s')
    \<and> set (ls_lines s) \<subseteq> set (ls_lines s')"
  using assms(1)
proof cases
  case (step_append junk line a)
  from al_append_ok [of sz "ls_front s" junk line] step_append assms(2,3) have
    a: "front_ok sz a" "length line < sz \<Longrightarrow>
        (al_buffers a = al_buffers (ls_front s) \<and> fb_text (the (al_current a)) = fb_text (the (al_current (ls_front s))) @ line)
        \<or> (al_buffers a = al_buffers (ls_front s) @ [al_current (ls_front s)] \<and> fb_text (the (al_current a)) = line)"
    by (auto simp: al_inv_def)
  then show ?thesis using step_append(1) in_order_append [of s a line] assms(2) by (auto simp: al_inv_def)
next
  case step_stop
  with assms(2) show ?thesis by (auto simp: al_inv_def in_order_def held_def al_stop_def front_ok_def)
next
  case step_again
  with assms(2) show ?thesis by (auto simp: al_inv_def in_order_def held_def writer_ok_def)
next
  case (step_leave w)
  from assms(2) have "lf_inv (wr_output (ls_writer s))" by (simp add: al_inv_def writer_ok_def)
  with lf_flush_ok [of "fst (wr_output (ls_writer s))" "snd (wr_output (ls_writer s))"] step_leave(4)
  have "lf_inv (fst (wr_output (ls_writer s)), w)"
    "disk_content (fst (wr_output (ls_writer s)), w) = disk_content (wr_output (ls_writer s))" by auto
  with assms(2) step_leave show ?thesis by (auto simp: al_inv_def in_order_def held_def writer_ok_def)
next
  case (step_swap a wr)
  have "front_ok sz (ls_front s)" "writer_ok sz Lock (ls_writer s)" "wr_toWrite (ls_writer s) = []"
    using assms(2) step_swap by (auto simp: al_inv_def writer_ok_def)
  with al_swap_ok [OF this(1,2) step_swap(3)] show ?thesis
    using in_order_swap [of s wr a] assms(2) step_swap(1) by (auto simp: al_inv_def)
next
  case (step_write wr)
  have w: "writer_ok sz Write (ls_writer s)" using assms(2) step_write(2) by (simp add: al_inv_def)
  then have ps: "\<forall>p \<in> set (wr_toWrite (ls_writer s)). some_ok sz p" by (simp add: writer_ok_def)
  then have "\<forall>b \<in> set (List.map_filter id (wr_toWrite (ls_writer s))). length (fb_data b) = sz"
    by (auto simp: map_filter_def some_ok_def)
  moreover have "writer_ok sz Test wr" "disk_content (wr_output wr) = disk_content (wr_output (ls_writer s))
      @ concat (map fb_data (List.map_filter id (wr_toWrite (ls_writer s))))" "wr_toWrite wr = []"
    using wr_round_ok [OF w] step_write(3) by (auto simp: writer_ok_def)
  ultimately show ?thesis using assms(2) step_write(1) in_order_write [OF _ _ ps] by (auto simp: al_inv_def)
qed

end

text \<open>A logger whose buffers have a size that fits an \<open>int\<close>.\<close>

locale async_logger = stdio e for e +
  fixes sz :: nat
  assumes size_fits: "sz < 2 ^ 31"

sublocale async_logger \<subseteq> logger: transition_invariant "al_initial e sz" "al_step e sz"
    "\<lambda>s. al_inv sz s \<and> ((\<forall>l \<in> set (ls_lines s). length l < sz) \<longrightarrow> in_order s)"
proof unfold_locales
  fix s
  assume "al_initial e sz s"
  then show "al_inv sz s \<and> ((\<forall>l \<in> set (ls_lines s). length l < sz) \<longrightarrow> in_order s)"
    using al_initial_inv size_fits by blast
next
  fix s s'
  assume step: "al_step e sz s s'" and "al_inv sz s \<and> ((\<forall>l \<in> set (ls_lines s). length l < sz) \<longrightarrow> in_order s)"
  then show "al_inv sz s' \<and> ((\<forall>l \<in> set (ls_lines s'). length l < sz) \<longrightarrow> in_order s')"
    using al_step_inv [OF step _ size_fits] by blast
qed

context async_logger
begin

lemma al_reach_inv:
  "al_reach e sz s \<Longrightarrow> al_inv sz s \<and> ((\<forall>l \<in> set (ls_lines s). length l < sz) \<longrightarrow> in_order s)"
  by (rule logger.reachable_inv)

end

text \<open>The loggers of the program have buffers of \<open>kLargeBuffer\<close> bytes.\<close>

interpretation large_buffers: async_logger steady_io kLargeBuffer
  by unfold_locales (simp add: kLargeBuffer_def)

lemmas reach_inv = async_logger.al_reach_inv [OF async_logger.intro, OF _ async_logger_axioms.intro]

text \<open>A round of the writer from the test of its loop leaves nothing in memory.\<close>

lemma writer_round:
  assumes "stdio e" "al_inv sz s" "ls_pc s = Test" "al_running (ls_front s)"
  shows "\<exists>s1 s2 s3. al_step e sz s s1 \<and> al_step e sz s1 s2 \<and> al_step e sz s2 s3 \<and> ls_pc s3 = Test
    \<and> ls_lines s1 = ls_lines s \<and> ls_lines s2 = ls_lines s \<and> ls_lines s3 = ls_lines s \<and> wr_toWrite (ls_writer s3) = []
    \<and> al_buffers (ls_front s3) = [] \<and> fb_text (the (al_current (ls_front s3))) = []
    \<and> all_flushed (snd (wr_output (ls_writer s3)))"
proof -
  let ?s1 = "s\<lparr>ls_pc := Lock\<rparr>"
  have s1: "al_step e sz s ?s1" by (rule step_again) (use assms(3,4) in simp_all)
  obtain f wr where sw: "al_swap (ls_front ?s1) (ls_writer ?s1) = (f, wr)" by fastforce
  have ok: "front_ok sz (ls_front ?s1)" "writer_ok sz Lock (ls_writer ?s1)"
    using assms(2,3) by (simp_all add: al_inv_def writer_ok_def)
  note swap = al_swap_ok [OF ok sw]
  let ?s2 = "?s1\<lparr>ls_pc := Write, ls_front := f, ls_writer := wr\<rparr>"
  have s2: "al_step e sz ?s1 ?s2" by (rule step_swap) (use sw in simp_all)
  from stdio.wr_round_ok [OF assms(1) swap(2)] obtain wr' where
    wr': "wr_round e wr = Some (Inr wr')" "writer_ok sz Test wr'" "all_flushed (snd (wr_output wr'))" by blast
  let ?s3 = "?s2\<lparr>ls_pc := Test, ls_writer := wr', ls_written := ls_written ?s2 @ List.map_filter id (wr_toWrite wr)\<rparr>"
  have s3: "al_step e sz ?s2 ?s3" using step_write [of ?s2 e wr'] wr'(1) by simp
  show ?thesis
    by (rule exI [of _ ?s1], rule exI [of _ ?s2], rule exI [of _ ?s3])
      (use s1 s2 s3 swap(5,6) wr'(2,3) in \<open>simp add: writer_ok_def\<close>)
qed

section \<open>Properties\<close>

text \<open>Claim C21. In every interleaving of the threads that log and the thread that writes, no line shorter
  than a buffer is lost, duplicated, reordered or cut: the lines appended so far are a part \<open>gs\<close>, grouped
  by the buffers written, each of which holds the lines of its group, and a rest that the buffers being written,
  the waiting ones and the current one hold in order. The disk holds the arrays of the written buffers,
  whole: each begins with its text, and whatever the array held behind it follows, because \<open>length()\<close>
  is the capacity.\<close>

theorem async_lines_in_order:
  assumes "stdio e" and "sz < 2 ^ 31" and "al_reach e sz s" and "\<forall>l \<in> set (ls_lines s). length l < sz"
  shows "(\<exists>gs rest. ls_lines s = concat gs @ rest \<and> map fb_text (ls_written s) = map concat gs
      \<and> concat rest = texts (wr_toWrite (ls_writer s)) @ texts (al_buffers (ls_front s))
          @ fb_text (the (al_current (ls_front s))))
    \<and> disk_content (wr_output (ls_writer s)) = concat (map fb_data (ls_written s))
    \<and> length (disk_content (wr_output (ls_writer s))) = length (ls_written s) * sz"
proof -
  have inv: "al_inv sz s" "in_order s" using reach_inv [OF assms(1-3)] assms(4) by blast+
  from inv(2) obtain gw gt gb gc where g: "held s gw gt gb gc" by (auto simp: in_order_def)
  then have "concat (concat gt @ concat gb @ gc) = texts (wr_toWrite (ls_writer s)) @ texts (al_buffers (ls_front s))
          @ fb_text (the (al_current (ls_front s)))" by (auto simp: held_def carries_texts)
  then have "\<exists>gs rest. ls_lines s = concat gs @ rest \<and> map fb_text (ls_written s) = map concat gs
      \<and> concat rest = texts (wr_toWrite (ls_writer s)) @ texts (al_buffers (ls_front s))
          @ fb_text (the (al_current (ls_front s)))" using g unfolding held_def by blast
  moreover from inv(1) have "\<forall>b \<in> set (ls_written s). length (fb_data b) = sz" by (simp add: al_inv_def)
  then have "length (concat (map fb_data bs)) = length bs * sz" if "set bs \<subseteq> set (ls_written s)" for bs
    using that by (induction bs) auto
  ultimately show ?thesis using inv(1) by (auto simp: al_inv_def)
qed

definition sample_front :: async_logging where
  "sample_front = al_start (AsyncLogging_new (replicate 8 (CHR ''?'')) (replicate 8 (CHR ''?'')) ''log'' 100 3)"

definition sample_out :: "log_file \<times> world" where
  "sample_out = (\<lparr>lf_basename = ''log'', lf_rollSize = 100, lf_flushInterval = 0, lf_checkEveryN = 1024, lf_count = 0,
       lf_startOfPeriod = 0, lf_lastRoll = 1, lf_lastFlush = 1, lf_file = Some \<lparr>fu_fp = 0, fu_writtenBytes = 0\<rparr>\<rparr>,
     \<lparr>w_writes = 0, w_times = 1,
       w_disk = [\<lparr>lo_name = ''log'' @ strftime_roll (sample_tm 1) @ ''.log'', lo_data = [], lo_flushed = 0\<rparr>]\<rparr>)"

definition sample_sys :: al_sys where
  "sample_sys = \<lparr>ls_front = sample_front,
     ls_writer = \<lparr>wr_output = sample_out, wr_newBuffer1 = Some (fb_bzero (FixedBuffer_new (replicate 8 (CHR ''?'')))),
       wr_newBuffer2 = Some (fb_bzero (FixedBuffer_new (replicate 8 (CHR ''?'')))), wr_toWrite = []\<rparr>,
     ls_pc = Test, ls_lines = [], ls_written = []\<rparr>"

lemma sample_initial: "al_reach steady_io 8 sample_sys"
proof (rule reachable_start)
  have "writer_start steady_io (replicate 8 (CHR ''?'')) (replicate 8 (CHR ''?'')) sample_front
      \<lparr>w_writes = 0, w_times = 0, w_disk = []\<rparr> = Inr (ls_writer sample_sys)"
    by (simp add: writer_start_def LogFile_new_def rollFile_def getLogFileName_def read_clock_def Let_def FileUtil_new_def
        steady_io_def sample_front_def al_start_def AsyncLogging_new_def sample_sys_def sample_out_def kRollPerSeconds_def
        signed_divide_int_def)
  then show "al_initial steady_io 8 sample_sys" unfolding al_initial_def
    by (intro exI [of _ "replicate 8 (CHR ''?'')"] exI [of _ "''log''"] exI [of _ "100 :: int"] exI [of _ "3 :: int"]
        exI [of _ "ls_writer sample_sys"]) (simp add: sample_sys_def sample_front_def)
qed

definition sample_logged :: al_sys where
  "sample_logged = sample_sys\<lparr>ls_lines := [''abc''],
     ls_front := sample_front\<lparr>al_current := Some \<lparr>fb_data = ''abc'' @ replicate 5 (CHR 0x00), fb_cur = 3\<rparr>\<rparr>\<rparr>"

lemma sample_logged_reach: "al_reach steady_io 8 sample_logged"
proof (rule reachable_step [OF sample_initial])
  let ?b = "fb_bzero (FixedBuffer_new (replicate 8 (CHR ''?'')))"
  have "fb_append ''abc'' ?b = \<lparr>fb_data = ''abc'' @ replicate 5 (CHR 0x00), fb_cur = 3\<rparr>"
    by (simp add: fb_append_def fb_avail_def fb_bzero_def FixedBuffer_new_def size_of_int_def overwrite_def numeral_eq_Suc)
  moreover have "int (length ''abc'') < fb_avail ?b" by (simp add: fb_avail_def fb_bzero_def FixedBuffer_new_def)
  ultimately have "al_append (replicate 8 (CHR ''?'')) ''abc'' sample_front = Inr (ls_front sample_logged)"
    by (simp add: al_append_def sample_front_def sample_logged_def al_start_def AsyncLogging_new_def)
  then show "al_step steady_io 8 sample_sys sample_logged"
    using step_append [of "replicate 8 (CHR ''?'')" "''abc''" sample_sys "ls_front sample_logged" 8 steady_io]
    by (simp add: sample_sys_def sample_logged_def)
qed

theorem async_lines_in_order_witness:
  "concat (ls_lines sample_logged) = ''abc'' \<and> fb_text (the (al_current (ls_front sample_logged))) = ''abc''
    \<and> length (disk_content (wr_output (ls_writer sample_logged))) = 0"
  using async_lines_in_order [OF steady.stdio_axioms _ sample_logged_reach]
  by (simp add: sample_logged_def sample_sys_def sample_front_def al_start_def AsyncLogging_new_def texts_def fb_text_def)

text \<open>No thread of the logger faults or hangs: an append always finds a buffer, a round of the
  writer never dereferences a moved-from pointer nor calls \<open>back()\<close> on an empty vector, returns, and
  leaves every byte it wrote flushed.\<close>

lemma async_no_fault:
  assumes "stdio e" and "sz < 2 ^ 31" and "al_reach e sz s" and "length junk = sz"
  shows "(\<exists>a. al_append junk line (ls_front s) = Inr a)
    \<and> (if ls_pc s = Write then \<exists>wr. wr_round e (ls_writer s) = Some (Inr wr) \<and> all_flushed (snd (wr_output wr)) else True)"
proof -
  have "front_ok sz (ls_front s)" "writer_ok sz (ls_pc s) (ls_writer s)"
    using reach_inv [OF assms(1-3)] by (auto simp: al_inv_def)
  then show ?thesis
    using al_append_ok [of sz "ls_front s" junk line] stdio.wr_round_ok [OF assms(1), of sz "ls_writer s"] assms(2,4)
    by (auto split: if_splits)
qed

text \<open>Lines are lost at the end: when the logger is stopped while the writer is at the test of
  its loop, the writer leaves with the lines of the current and the waiting buffers unwritten.\<close>

lemma async_stop_loses_lines:
  assumes "stdio e" and "sz < 2 ^ 31" and "al_reach e sz s" and "ls_pc s = Test"
  shows "\<exists>s1 s2. al_step e sz s s1 \<and> al_step e sz s1 s2 \<and> ls_pc s2 = Finished
    \<and> ls_written s2 = ls_written s \<and> disk_content (wr_output (ls_writer s2)) = concat (map fb_data (ls_written s))
    \<and> al_current (ls_front s2) = al_current (ls_front s)"
proof -
  let ?s1 = "s\<lparr>ls_front := al_stop (ls_front s)\<rparr>" and ?out = "wr_output (ls_writer s)"
  have inv: "al_inv sz s" using reach_inv [OF assms(1-3)] by blast
  then have "lf_inv (fst ?out, snd ?out)" by (simp add: al_inv_def writer_ok_def)
  from stdio.lf_flush_ok [OF assms(1) this] obtain w where
    w: "lf_flush (fst ?out) (snd ?out) = Inr w" "disk_content (fst ?out, w) = disk_content ?out" by auto
  let ?s2 = "?s1\<lparr>ls_pc := Finished, ls_writer := (ls_writer ?s1)\<lparr>wr_output := (fst (wr_output (ls_writer ?s1)), w)\<rparr>\<rparr>"
  have "al_step e sz ?s1 ?s2" by (rule step_leave) (use assms(4) w(1) in \<open>simp_all add: al_stop_def\<close>)
  moreover have "al_step e sz s ?s1" by (rule step_stop)
  moreover have "ls_pc ?s2 = Finished \<and> ls_written ?s2 = ls_written s \<and> al_current (ls_front ?s2) = al_current (ls_front s)
    \<and> disk_content (wr_output (ls_writer ?s2)) = concat (map fb_data (ls_written s))"
    using inv w(2) by (simp add: al_inv_def al_stop_def)
  ultimately show ?thesis by blast
qed

end
