(* ===== verification/LogPrograms.thy ===== *)
theory LogPrograms
  imports AsyncLogging Programs
begin

text \<open>
  The programs that log through \<open>AsyncLogging\<close>: the asynchronous echo server (\<open>src/example/echoServerAsync.cc\<close>)
  and others built like it. They join the front end of \<open>Logging\<close> with
  the threads of \<open>AsyncLogging\<close>: the way of a statement from its macro to the bytes of the log file.
\<close>

section \<open>The asynchronous echo server\<close>

definition kRollSize :: int where
  "kRollSize = 500 * 1000 * 1000"

text \<open>What the output functions work on: standard output and the global \<open>g_asyncLog\<close>.\<close>

record log_world = std_out +
  lw_async :: "async_logging option"

text \<open>\<open>asyncOutput\<close>; \<open>junk\<close> is the array of a buffer that \<open>append\<close> may allocate.\<close>

definition asyncOutput :: "bytes \<Rightarrow> bytes \<Rightarrow> log_world \<Rightarrow> log_world res" where
  "asyncOutput junk msg w =
     (case lw_async w of
        None \<Rightarrow> Inl NullDeref
      | Some a \<Rightarrow> bindR (al_append junk msg a) (\<lambda>a'. Inr (w\<lparr>lw_async := Some a'\<rparr>)))"

text \<open>\<open>strncpy\<close> into an array of \<open>n\<close> bytes pads with zeros, and writes no terminator when the string does not fit.
  \<open>::basename\<close> is what follows the last slash; reading a string with no terminator leaves its array.\<close>

definition strncpy :: "nat \<Rightarrow> bytes \<Rightarrow> bytes" where
  "strncpy n src = (let s = c_str src in take n s @ replicate (n - length s) (CHR 0x00))"

definition gnu_basename :: "bytes \<Rightarrow> bytes res" where
  "gnu_basename arr =
     (if CHR 0x00 \<in> set arr then Inr (rev (takeWhile (\<lambda>c. c \<noteq> CHR ''/'') (rev (c_str arr)))) else Inl OutOfBounds)"

definition setLogging ::
  "bytes \<Rightarrow> bytes \<Rightarrow> bytes \<Rightarrow> bytes \<Rightarrow> log_world log_globals \<times> log_world \<Rightarrow> (log_world log_globals \<times> log_world) res"
where
  "setLogging junk j1 j2 argv0 gw =
     (let g = setOutput (asyncOutput junk) (fst gw)
      in bindR (gnu_basename (strncpy 256 argv0)) (\<lambda>base.
           Inr (g, (snd gw)\<lparr>lw_async := Some (al_start (AsyncLogging_new j1 j2 base kRollSize 3))\<rparr>)))"

text \<open>The log lines of the connection callback.\<close>

definition Async_onConnection :: "'k tcp_connection \<Rightarrow> (log_stream \<Rightarrow> log_stream) res" where
  "Async_onConnection conn = bindR (toIpPort (tc_peerAddr conn)) (\<lambda>ip.
     Inr (\<lambda>b. stream_cstr (Some ip) (stream_cstr (Some (if connected conn then ''Connection UP : '' else ''Connection DOWN : '')) b)))"

text \<open>\<open>main\<close> up to the loop: the log, its first line, and the server.\<close>

definition async_main ::
  "(int \<Rightarrow> tm) \<Rightarrow> bytes \<Rightarrow> bytes \<Rightarrow> bytes \<Rightarrow> bytes \<Rightarrow> timestamp \<Rightarrow> int \<Rightarrow> bytes \<Rightarrow> (nat \<Rightarrow> nat)
    \<Rightarrow> log_world log_globals \<times> log_world \<Rightarrow> (log_world \<times> tcp_server) res"
where
  "async_main localtime arr junk j1 j2 now pid argv0 startLoop gw =
     bindR (setLogging junk j1 j2 argv0 gw) (\<lambda>(g, w).
     bindR (log_stmt localtime arr now INFO \<lparr>at_file = ''echoServerAsync.cc'', at_line = 81, at_func = ''main''\<rparr>
              (\<lambda>b. formatInteger pid (stream_cstr (Some ''pid = '') b)) g w) (\<lambda>(w1, _).
     bindR (echo_main startLoop) (\<lambda>s. Inr (w1, s))))"

section \<open>Statements and the writer together\<close>

text \<open>A statement whose line fits the buffer of its logger.\<close>

definition line_fits :: "(int \<Rightarrow> tm) \<Rightarrow> bytes \<Rightarrow> timestamp \<Rightarrow> log_site \<Rightarrow> (log_stream \<Rightarrow> log_stream) \<Rightarrow> bytes \<Rightarrow> bool" where
  "line_fits localtime arr now site body msg \<longleftrightarrow>
     length arr = kSmallBuffer \<and> 0 \<le> now \<and> valid_tm (localtime (now sdiv kMicroSecondsPerSecond)) \<and> prints body msg
     \<and> CHR 0x00 \<notin> set (at_func site)
     \<and> length msg + length (at_func site) + length (at_file site) + 300 \<le> kSmallBuffer \<and> \<bar>at_line site\<bar> < 2 ^ 31"

definition site_text :: "(int \<Rightarrow> tm) \<Rightarrow> timestamp \<Rightarrow> LogLevel \<Rightarrow> log_site \<Rightarrow> bytes \<Rightarrow> bytes" where
  "site_text localtime now level site msg =
     line_text localtime now level (msg_text level site msg) (at_file site) (at_line site)"

text \<open>The program: its threads log, and the writer of the logger and \<open>stop\<close> take their steps between the
  statements. The texts are those of the statements executed.\<close>

record log_app =
  la_world :: log_world
  la_writer :: writer
  la_pc :: writer_pc
  la_texts :: "bytes list"
  la_written :: "fixed_buffer list"

definition al_of :: "bytes list \<Rightarrow> log_app \<Rightarrow> al_sys" where
  "al_of lines p = \<lparr>ls_front = the (lw_async (la_world p)), ls_writer = la_writer p, ls_pc = la_pc p,
     ls_lines = lines, ls_written = la_written p\<rparr>"

inductive app_step :: "stdio_env \<Rightarrow> (int \<Rightarrow> tm) \<Rightarrow> log_app \<Rightarrow> log_app \<Rightarrow> bool" for e localtime where
  app_log: "log_stmt localtime arr now level site body (setOutput (asyncOutput junk) g) (la_world p) = Inr (w, False) \<Longrightarrow>
    log_enabled (g_logLevel g) level \<Longrightarrow> line_fits localtime arr now site body msg \<Longrightarrow> length junk = kLargeBuffer \<Longrightarrow>
    app_step e localtime p (p\<lparr>la_world := w, la_texts := la_texts p @ [site_text localtime now level site msg]\<rparr>)"
| app_back: "al_step e kLargeBuffer (al_of [] p) s \<Longrightarrow> ls_lines s = [] \<Longrightarrow>
    app_step e localtime p (p\<lparr>la_world := (la_world p)\<lparr>lw_async := Some (ls_front s)\<rparr>, la_writer := ls_writer s,
      la_pc := ls_pc s, la_written := ls_written s\<rparr>)"

inductive_cases app_stepE: "app_step e localtime p p'"

definition app_initial :: "stdio_env \<Rightarrow> log_app \<Rightarrow> bool" where
  "app_initial e p \<longleftrightarrow> lw_async (la_world p) \<noteq> None \<and> al_initial e kLargeBuffer (al_of [] p) \<and> la_texts p = []"

abbreviation app_reach :: "stdio_env \<Rightarrow> (int \<Rightarrow> tm) \<Rightarrow> log_app \<Rightarrow> bool" where
  "app_reach e localtime \<equiv> reachable (app_initial e) (app_step e localtime)"

section \<open>Records\<close>

text \<open>What the output function gets for a line: 4000 bytes that begin with it.\<close>

definition record_of :: "bytes \<Rightarrow> bytes \<Rightarrow> bool" where
  "record_of t r \<longleftrightarrow> length r = 4000 \<and> take (length t) r = t"

lemma record_chunk:
  assumes "\<forall>r \<in> set rs. length r = n" "i < length rs"
  shows "take n (drop (n * i) (concat rs)) = rs ! i"
  using assms
proof (induction rs arbitrary: i)
  case (Cons r rs)
  then show ?case by (cases i) simp_all
qed simp

lemma length_concat_records: "\<forall>r \<in> set rs. length r = n \<Longrightarrow> length (concat rs) = n * length rs"
  by (induction rs) simp_all

lemma record_in_array:
  assumes "list_all2 record_of ts rs" "i < length ts"
  shows "take (length (ts ! i)) (drop (4000 * i) (concat rs @ rest)) = ts ! i"
proof -
  have len: "\<forall>r \<in> set rs. length r = 4000" "i < length rs"
    using assms by (auto simp: list_all2_conv_all_nth in_set_conv_nth record_of_def)
  have r: "record_of (ts ! i) (rs ! i)" using assms by (rule list_all2_nthD)
  then have le: "length (ts ! i) \<le> 4000" by (metis record_of_def length_take min.cobounded1)
  have "4000 * i + 4000 \<le> length (concat rs)" using length_concat_records [OF len(1)] len(2) by linarith
  then have "take (length (ts ! i)) (drop (4000 * i) (concat rs @ rest)) = take (length (ts ! i)) (take 4000 (drop (4000 * i) (concat rs)))"
    using le by (simp add: min_def)
  then show ?thesis using record_chunk [OF len] r by (simp add: record_of_def)
qed

text \<open>Texts split as their records are grouped.\<close>

lemma split_groups:
  "list_all2 P ts (concat gs @ rest) \<Longrightarrow>
    \<exists>tg trest. ts = concat tg @ trest \<and> list_all2 (list_all2 P) tg gs \<and> list_all2 P trest rest"
proof (induction gs arbitrary: ts)
  case (Cons g gs)
  then obtain t1 t2 where t: "ts = t1 @ t2" "list_all2 P t1 g" "list_all2 P t2 (concat gs @ rest)"
    by (auto simp: list_all2_append2)
  from Cons.IH [OF t(3)] obtain tg trest where "t2 = concat tg @ trest" "list_all2 (list_all2 P) tg gs" "list_all2 P trest rest"
    by blast
  then show ?case using t by (intro exI [of _ "t1 # tg"] exI [of _ trest]) simp
qed simp

section \<open>Refinement of the logger\<close>

text \<open>A statement appends one record of its line.\<close>

lemma log_stmt_appends:
  assumes fits: "line_fits localtime arr now site body msg" and en: "log_enabled (g_logLevel g) level"
    and stmt: "log_stmt localtime arr now level site body (setOutput (asyncOutput junk) g) w = Inr (w', False)"
    and a: "lw_async w = Some a"
  shows "\<exists>r a'. record_of (site_text localtime now level site msg) r \<and> al_append junk r a = Inr a' \<and> w' = w\<lparr>lw_async := Some a'\<rparr>"
proof -
  let ?g = "setOutput (asyncOutput junk) g"
  have "log_enabled (g_logLevel ?g) level" using en by (simp add: setOutput_def)
  with fits obtain r where r: "length r = 4000" "take (length (site_text localtime now level site msg)) r = site_text localtime now level site msg"
    "log_stmt localtime arr now level site body ?g w = bindR (g_output ?g r w)
        (\<lambda>w1. if level = FATAL then bindR (g_flush ?g w1) (\<lambda>w2. Inr (w2, True)) else Inr (w1, False))"
    using log_line_output [where localtime = localtime and g = ?g and w = w and t = "site_text localtime now level site msg"]
    unfolding line_fits_def site_text_def by blast
  then show ?thesis using stmt a by (auto simp: record_of_def setOutput_def asyncOutput_def bindR_Inr_iff split: if_splits)
qed

lemma al_step_lines:
  assumes "al_step e sz s s'" "ls_lines s' = ls_lines s"
  shows "al_step e sz (s\<lparr>ls_lines := ls\<rparr>) (s'\<lparr>ls_lines := ls\<rparr>)"
  using assms(1)
proof cases
  case (step_append junk line a)
  then show ?thesis using assms(2) by simp
next
  case step_stop
  then show ?thesis using al_step.step_stop [of e sz "s\<lparr>ls_lines := ls\<rparr>"] by (cases s) simp
next
  case step_again
  then show ?thesis using al_step.step_again [of "s\<lparr>ls_lines := ls\<rparr>" e sz] by (cases s) simp
next
  case (step_leave w)
  then show ?thesis using al_step.step_leave [of "s\<lparr>ls_lines := ls\<rparr>" w e sz] by (cases s) simp
next
  case (step_swap a wr)
  then show ?thesis using al_step.step_swap [of "s\<lparr>ls_lines := ls\<rparr>" a wr e sz] by (cases s) simp
next
  case (step_write wr)
  then show ?thesis using al_step.step_write [of "s\<lparr>ls_lines := ls\<rparr>" e wr sz] by (cases s) simp
qed

definition app_inv :: "stdio_env \<Rightarrow> log_app \<Rightarrow> bool" where
  "app_inv e p \<longleftrightarrow> lw_async (la_world p) \<noteq> None
     \<and> (\<exists>rs. list_all2 record_of (la_texts p) rs \<and> al_reach e kLargeBuffer (al_of rs p))"

lemma app_inv_step:
  assumes "app_step e localtime p p'" "app_inv e p"
  shows "app_inv e p'"
proof -
  from assms(2) obtain a rs where a: "lw_async (la_world p) = Some a" and rs: "list_all2 record_of (la_texts p) rs"
    and reach: "al_reach e kLargeBuffer (al_of rs p)" by (auto simp: app_inv_def)
  from assms(1) show ?thesis
  proof cases
    case (app_log arr now level site body junk g w msg)
    from log_stmt_appends [OF app_log(4,3,2) a] obtain r a' where
      r: "record_of (site_text localtime now level site msg) r" "al_append junk r a = Inr a'"
        "w = (la_world p)\<lparr>lw_async := Some a'\<rparr>" by blast
    then have "al_step e kLargeBuffer (al_of rs p) (al_of (rs @ [r]) p')"
      using al_step.step_append [of junk r "al_of rs p" a' kLargeBuffer e] app_log(1,5) a by (simp add: al_of_def)
    with reach have "al_reach e kLargeBuffer (al_of (rs @ [r]) p')" by (rule reachable_step)
    moreover have "list_all2 record_of (la_texts p') (rs @ [r])" using app_log(1) rs r(1) by (simp add: list_all2_appendI)
    ultimately show ?thesis using app_log(1) r(3) by (auto simp: app_inv_def)
  next
    case (app_back s)
    then have "ls_lines s = ls_lines (al_of [] p)" by (simp add: al_of_def)
    from al_step_lines [OF app_back(2) this, of rs]
    have "al_step e kLargeBuffer (al_of rs p) (al_of rs p')" using app_back(1) by (cases s) (simp add: al_of_def)
    with reach have "al_reach e kLargeBuffer (al_of rs p')" by (rule reachable_step)
    then show ?thesis using app_back(1) rs by (auto simp: app_inv_def)
  qed
qed

interpretation log_app: transition_invariant "app_initial e" "app_step e localtime" "app_inv e"
proof
  show "app_inv e p" if "app_initial e p" for p
    using that by (auto simp: app_initial_def app_inv_def intro: reachable_start)
qed (rule app_inv_step)

text \<open>The lines of a group stand in the array of their buffer, 4000 bytes apart.\<close>

definition lines_at :: "bytes list \<Rightarrow> fixed_buffer \<Rightarrow> bool" where
  "lines_at g b \<longleftrightarrow> length (fb_data b) = 4000000
     \<and> (\<forall>i < length g. take (length (g ! i)) (drop (4000 * i) (fb_data b)) = g ! i)"

lemma lines_at_group:
  assumes "list_all2 record_of g rs" "fb_text b = concat rs" "length (fb_data b) = 4000000"
  shows "lines_at g b"
proof -
  have "fb_data b = concat rs @ drop (fb_cur b) (fb_data b)"
    using assms(2) by (metis append_take_drop_id fb_text_def)
  then show ?thesis using record_in_array [OF assms(1)] assms(3) unfolding lines_at_def by metis
qed

lemma app_reach_logger:
  assumes "stdio e" "app_reach e localtime p"
  obtains a rs where "lw_async (la_world p) = Some a" "list_all2 record_of (la_texts p) rs"
    "al_reach e kLargeBuffer (al_of rs p)" "al_inv kLargeBuffer (al_of rs p)" "in_order (al_of rs p)"
proof -
  from log_app.reachable_inv [OF assms(2)] obtain a rs where a: "lw_async (la_world p) = Some a"
    and rs: "list_all2 record_of (la_texts p) rs" "al_reach e kLargeBuffer (al_of rs p)" by (auto simp: app_inv_def)
  have sz: "kLargeBuffer < 2 ^ 31" by (simp add: kLargeBuffer_def)
  have "\<forall>l \<in> set (ls_lines (al_of rs p)). length l < kLargeBuffer"
    using rs(1) by (auto simp: al_of_def list_all2_conv_all_nth in_set_conv_nth record_of_def kLargeBuffer_def)
  then have "al_inv kLargeBuffer (al_of rs p)" "in_order (al_of rs p)" using reach_inv [OF assms(1) sz rs(2)] by auto
  with a rs that show thesis by blast
qed

lemma groups_on_disk:
  assumes "list_all2 record_of (la_texts p) rs" "al_inv kLargeBuffer (al_of rs p)" "held (al_of rs p) gw gt gb gc"
  shows "\<exists>gs rest. la_texts p = concat gs @ rest \<and> list_all2 lines_at gs (la_written p)
    \<and> disk_content (wr_output (la_writer p)) = concat (map fb_data (la_written p))
    \<and> list_all2 record_of rest (concat gt @ concat gb @ gc)"
proof -
  have rs: "rs = concat gw @ (concat gt @ concat gb @ gc)" and gw: "map fb_text (la_written p) = map concat gw"
    using assms(3) by (simp_all add: held_def al_of_def)
  from split_groups [OF assms(1) [unfolded rs]] obtain gs rest where
    gs: "la_texts p = concat gs @ rest" "list_all2 (list_all2 record_of) gs gw" "list_all2 record_of rest (concat gt @ concat gb @ gc)"
    by blast
  have n: "length gw = length gs" "length (la_written p) = length gs"
    using gs(2) gw by (auto simp: list_all2_lengthD dest: map_eq_imp_length_eq)
  have "list_all2 lines_at gs (la_written p)"
  proof (rule list_all2_all_nthI)
    fix k
    assume k: "k < length gs"
    have "length (fb_data (la_written p ! k)) = 4000000"
      using assms(2) k n by (simp add: al_inv_def al_of_def kLargeBuffer_def)
    moreover have "fb_text (la_written p ! k) = concat (gw ! k)" using gw k n by (metis nth_map)
    moreover have "list_all2 record_of (gs ! k) (gw ! k)" using gs(2) k by (rule list_all2_nthD)
    ultimately show "lines_at (gs ! k) (la_written p ! k)" by (metis lines_at_group)
  qed (use n in simp)
  moreover have "disk_content (wr_output (la_writer p)) = concat (map fb_data (la_written p))"
    using assms(2) by (simp add: al_inv_def al_of_def)
  ultimately show ?thesis using gs(1,3) by blast
qed

text \<open>A back-end step of the logger is a step of the program.\<close>

lemma app_back_step:
  assumes "al_step e kLargeBuffer (al_of rs p) s" "ls_lines s = rs" "lw_async (la_world p) \<noteq> None"
  shows "\<exists>p'. app_step e localtime p p' \<and> al_of rs p' = s \<and> la_texts p' = la_texts p \<and> lw_async (la_world p') \<noteq> None"
proof -
  have "ls_lines s = ls_lines (al_of rs p)" using assms(2) by (simp add: al_of_def)
  from al_step_lines [OF assms(1) this, of "[]"] have "al_step e kLargeBuffer (al_of [] p) (s\<lparr>ls_lines := []\<rparr>)"
    by (simp add: al_of_def)
  from app_back [OF this, of localtime] assms(2) show ?thesis by (auto simp: al_of_def)
qed

text \<open>With empty buffers everything is on the disk.\<close>

lemma nothing_in_memory:
  assumes "stdio e" "app_reach e localtime p" "wr_toWrite (la_writer p) = []" "al_buffers (the (lw_async (la_world p))) = []"
    "fb_text (the (al_current (the (lw_async (la_world p))))) = []"
  shows "\<exists>gs. la_texts p = concat gs \<and> list_all2 lines_at gs (la_written p)
    \<and> disk_content (wr_output (la_writer p)) = concat (map fb_data (la_written p))"
proof -
  from app_reach_logger [OF assms(1,2)] obtain rs where rs: "list_all2 record_of (la_texts p) rs"
    "al_inv kLargeBuffer (al_of rs p)" "in_order (al_of rs p)" .
  from rs(3) obtain gw gt gb gc where h: "held (al_of rs p) gw gt gb gc" by (auto simp: in_order_def)
  then have g: "gt = []" "gb = []" "concat gc = []" using assms(3-5) by (simp_all add: held_def al_of_def)
  from groups_on_disk [OF rs(1,2) h] obtain gs rest where
    gs: "la_texts p = concat gs @ rest" "list_all2 lines_at gs (la_written p)" "list_all2 record_of rest gc"
      "disk_content (wr_output (la_writer p)) = concat (map fb_data (la_written p))" using g by auto
  have "rest = []"
  proof (cases rest)
    case (Cons t ts)
    then obtain r rs' where "gc = r # rs'" "record_of t r" using gs(3) by (auto simp: list_all2_Cons1)
    then show ?thesis using g(3) by (simp add: record_of_def)
  qed
  with gs show ?thesis by auto
qed

text \<open>A statement that is not fatal always succeeds.\<close>

lemma app_log_possible:
  fixes g :: "log_world log_globals" and junk :: bytes
  assumes "stdio e" "app_reach e localtime p" "line_fits localtime arr now site body msg" "log_enabled (g_logLevel g) level"
    "level \<noteq> FATAL" "length junk = kLargeBuffer"
  shows "\<exists>p'. app_step e localtime p p' \<and> la_texts p' = la_texts p @ [site_text localtime now level site msg]
    \<and> la_pc p' = la_pc p \<and> al_running (the (lw_async (la_world p'))) = al_running (the (lw_async (la_world p)))"
proof -
  let ?g = "setOutput (asyncOutput junk) g"
  from app_reach_logger [OF assms(1,2)] obtain a rs where a: "lw_async (la_world p) = Some a" "al_inv kLargeBuffer (al_of rs p)" .
  have "log_enabled (g_logLevel ?g) level" using assms(4) by (simp add: setOutput_def)
  with assms(3,5) obtain r where r: "log_stmt localtime arr now level site body ?g (la_world p)
      = bindR (g_output ?g r (la_world p)) (\<lambda>w1. Inr (w1, False))"
    using log_line_output [where localtime = localtime and g = ?g and w = "la_world p" and t = "site_text localtime now level site msg"]
    unfolding line_fits_def site_text_def by fastforce
  have "front_ok kLargeBuffer a" "kLargeBuffer < 2 ^ 31" using a by (simp_all add: al_inv_def al_of_def kLargeBuffer_def)
  from al_append_ok [OF this assms(6), of r] obtain a' where "al_append junk r a = Inr a'" "al_running a' = al_running a" by blast
  then have "log_stmt localtime arr now level site body ?g (la_world p) = Inr ((la_world p)\<lparr>lw_async := Some a'\<rparr>, False)"
    using r a(1) by (simp add: setOutput_def asyncOutput_def)
  from app_log [OF this assms(4,3,6), of e] show ?thesis
    using a(1) \<open>al_running a' = al_running a\<close>
    by (intro exI [of _ "p\<lparr>la_world := (la_world p)\<lparr>lw_async := Some a'\<rparr>, la_texts := la_texts p @ [site_text localtime now level site msg]\<rparr>"]) simp
qed

section \<open>Properties\<close>

text \<open>Claim C22. From the macro to the disk: in every interleaving of threads that execute log statements with
  the writer, the lines of the statements, in the order of their \<open>append\<close>, are split into one group for each buffer
  written and a rest still in memory. The disk holds the arrays of those buffers one after the other, each of four million
  bytes, and the line number \<open>i\<close> of a group stands in the array at offset \<open>4000 * i\<close>, whole.\<close>

theorem log_lines_on_disk:
  assumes "stdio e" and "app_reach e localtime p"
  shows "\<exists>gs rest. la_texts p = concat gs @ rest \<and> list_all2 lines_at gs (la_written p)
    \<and> disk_content (wr_output (la_writer p)) = concat (map fb_data (la_written p))"
proof -
  from app_reach_logger [OF assms] obtain rs where rs: "list_all2 record_of (la_texts p) rs"
    "al_inv kLargeBuffer (al_of rs p)" "in_order (al_of rs p)" .
  from rs(3) obtain gw gt gb gc where "held (al_of rs p) gw gt gb gc" by (auto simp: in_order_def)
  from groups_on_disk [OF rs(1,2) this] show ?thesis by blast
qed

text \<open>Claim C34. Logging makes progress: from every state in which the writer is at the test of its loop and the
  logger runs, three steps of the writer put every line logged so far on the disk, flushed.\<close>

theorem writer_round_saves_all:
  assumes "stdio e" and "app_reach e localtime p" and "la_pc p = Test" and "al_running (the (lw_async (la_world p)))"
  shows "\<exists>p1 p2 p3. app_step e localtime p p1 \<and> app_step e localtime p1 p2 \<and> app_step e localtime p2 p3
    \<and> la_texts p3 = la_texts p \<and> la_pc p3 = Test \<and> all_flushed (snd (wr_output (la_writer p3)))
    \<and> disk_content (wr_output (la_writer p3)) = concat (map fb_data (la_written p3))
    \<and> (\<exists>gs. la_texts p = concat gs \<and> list_all2 lines_at gs (la_written p3))"
proof -
  from app_reach_logger [OF assms(1,2)] obtain a rs where a: "lw_async (la_world p) = Some a"
    and rs: "list_all2 record_of (la_texts p) rs" and inv: "al_inv kLargeBuffer (al_of rs p)" .
  have "ls_pc (al_of rs p) = Test" "al_running (ls_front (al_of rs p))" using assms(3,4) by (simp_all add: al_of_def)
  from writer_round [OF assms(1) inv this] obtain s1 s2 s3 where
    steps: "al_step e kLargeBuffer (al_of rs p) s1" "al_step e kLargeBuffer s1 s2" "al_step e kLargeBuffer s2 s3"
    and s3: "ls_pc s3 = Test" "ls_lines s1 = rs" "ls_lines s2 = rs" "ls_lines s3 = rs" "wr_toWrite (ls_writer s3) = []"
      "al_buffers (ls_front s3) = []" "fb_text (the (al_current (ls_front s3))) = []"
      "all_flushed (snd (wr_output (ls_writer s3)))" by (auto simp: al_of_def)
  obtain p1 where p1: "app_step e localtime p p1" "al_of rs p1 = s1" "la_texts p1 = la_texts p" "lw_async (la_world p1) \<noteq> None"
    using app_back_step [OF steps(1) s3(2), of localtime] a by auto
  obtain p2 where p2: "app_step e localtime p1 p2" "al_of rs p2 = s2" "la_texts p2 = la_texts p1" "lw_async (la_world p2) \<noteq> None"
    using app_back_step [OF steps(2) [folded p1(2)] s3(3) p1(4), of localtime] by auto
  obtain p3 where p3: "app_step e localtime p2 p3" "al_of rs p3 = s3" "la_texts p3 = la_texts p2"
    using app_back_step [OF steps(3) [folded p2(2)] s3(4) p2(4), of localtime] by auto
  have "app_reach e localtime p3" using assms(2) p1(1) p2(1) p3(1) by (meson reachable_step)
  from nothing_in_memory [OF assms(1) this] s3(5-7) obtain gs where "la_texts p3 = concat gs" "list_all2 lines_at gs (la_written p3)"
    "disk_content (wr_output (la_writer p3)) = concat (map fb_data (la_written p3))"
    by (auto simp: al_of_def simp flip: p3(2))
  moreover have "la_pc p3 = Test" "all_flushed (snd (wr_output (la_writer p3)))"
    using s3(1,8) by (simp_all add: al_of_def flip: p3(2))
  ultimately show ?thesis using p1 p2 p3 by metis
qed

text \<open>A program with the log running, and a statement in it.\<close>

lemma sample_app:
  "\<exists>p. app_initial steady_io p \<and> la_pc p = Test \<and> al_running (the (lw_async (la_world p)))"
proof -
  let ?j = "replicate kLargeBuffer (CHR ''?'')" and ?w = "\<lparr>w_writes = 0, w_times = 0, w_disk = []\<rparr>"
  let ?a = "al_start (AsyncLogging_new ?j ?j ''log'' 100 3)"
  obtain f where "LogFile_new steady_io ''log'' 100 0 1024 ?w = Inr f" using steady.LogFile_new_ok by blast
  then obtain wr where wr: "writer_start steady_io ?j ?j ?a ?w = Inr wr"
    by (simp add: writer_start_def al_start_def AsyncLogging_new_def)
  let ?p = "\<lparr>la_world = \<lparr>so_text = [], so_flushed = 0, lw_async = Some ?a\<rparr>, la_writer = wr, la_pc = Test, la_texts = [], la_written = []\<rparr>"
  have "al_initial steady_io kLargeBuffer (al_of [] ?p)" unfolding al_initial_def
    using wr by (intro exI [of _ ?j] exI [of _ "''log''"] exI [of _ "100 :: int"] exI [of _ "3 :: int"] exI [of _ wr]) (simp add: al_of_def)
  then have "app_initial steady_io ?p" by (simp add: app_initial_def)
  moreover have "la_pc ?p = Test" "al_running (the (lw_async (la_world ?p)))" by (simp_all add: al_start_def)
  ultimately show ?thesis by blast
qed

definition sample_site :: log_site where
  "sample_site = \<lparr>at_file = ''src/echo.cc'', at_line = 7, at_func = ''main''\<rparr>"

lemma sample_logging:
  "\<exists>p. app_reach steady_io sample_tm p \<and> la_texts p = [site_text sample_tm 0 INFO sample_site ''hello'']
    \<and> la_pc p = Test \<and> al_running (the (lw_async (la_world p)))"
proof -
  from sample_app obtain p where p: "app_initial steady_io p" "la_pc p = Test" "al_running (the (lw_async (la_world p)))" by blast
  then have reach: "app_reach steady_io sample_tm p" by (auto intro: reachable_start)
  have "prints (stream_cstr (Some ''hello'')) ''hello''" by (rule prints_cstr) simp
  then have "line_fits sample_tm (replicate kSmallBuffer (CHR ''?'')) 0 sample_site (stream_cstr (Some ''hello'')) ''hello''"
    unfolding line_fits_def length_replicate by (simp add: sample_site_def sample_tm_def valid_tm_def kSmallBuffer_def)
  from app_log_possible [OF steady.stdio_axioms reach this, of "log_start (\<lambda>_. 0)" INFO "replicate kLargeBuffer (CHR ''?'')"]
  obtain p' where "app_step steady_io sample_tm p p'" "la_texts p' = la_texts p @ [site_text sample_tm 0 INFO sample_site ''hello'']"
    "la_pc p' = la_pc p" "al_running (the (lw_async (la_world p')))"
    using p(3) by (auto simp: log_start_def initLogLevel_def log_enabled_def)
  then show ?thesis using p reach by (metis app_initial_def append_Nil reachable_step)
qed

theorem log_lines_on_disk_witness:
  "\<exists>p gs rest. app_reach steady_io sample_tm p \<and> [site_text sample_tm 0 INFO sample_site ''hello''] = concat gs @ rest
    \<and> list_all2 lines_at gs (la_written p)"
  using sample_logging log_lines_on_disk [OF steady.stdio_axioms] by metis

theorem writer_round_saves_all_witness:
  "\<exists>p gs. app_reach steady_io sample_tm p \<and> [site_text sample_tm 0 INFO sample_site ''hello''] = concat gs
    \<and> list_all2 lines_at gs (la_written p)"
proof -
  from sample_logging obtain p where p: "app_reach steady_io sample_tm p" "la_texts p = [site_text sample_tm 0 INFO sample_site ''hello'']"
    "la_pc p = Test" "al_running (the (lw_async (la_world p)))" by blast
  from writer_round_saves_all [OF steady.stdio_axioms p(1,3,4)] obtain p1 p2 p3 gs where
    "app_step steady_io sample_tm p p1" "app_step steady_io sample_tm p1 p2" "app_step steady_io sample_tm p2 p3"
    "la_texts p = concat gs" "list_all2 lines_at gs (la_written p3)" by blast
  with p(1,2) show ?thesis by (metis reachable_step)
qed

section \<open>Set-up\<close>

lemma after_last_slash: "CHR ''/'' \<notin> set name \<Longrightarrow> rev (takeWhile (\<lambda>c. c \<noteq> CHR ''/'') (rev (dir @ ''/'' @ name))) = name"
proof -
  assume "CHR ''/'' \<notin> set name"
  then have "takeWhile (\<lambda>c. c \<noteq> CHR ''/'') (rev name @ CHR ''/'' # rev dir) = rev name @ takeWhile (\<lambda>c. c \<noteq> CHR ''/'') (CHR ''/'' # rev dir)"
    by (intro takeWhile_append2) auto
  then show ?thesis by simp
qed

text \<open>The log is named after the last part of the program's path, and the logger runs before the first statement.\<close>

lemma setLogging_names_log:
  assumes "CHR 0x00 \<notin> set name" "CHR ''/'' \<notin> set name" "CHR 0x00 \<notin> set dir" "length dir + length name < 255"
  shows "setLogging junk j1 j2 (dir @ ''/'' @ name) (g, w) =
    Inr (setOutput (asyncOutput junk) g, w\<lparr>lw_async := Some (al_start (AsyncLogging_new j1 j2 name kRollSize 3))\<rparr>)"
proof -
  let ?s = "dir @ ''/'' @ name"
  have nul: "CHR 0x00 \<notin> set ?s" using assms(1,3) by auto
  obtain n where "256 - length ?s = Suc n" using assms(4) by (cases "256 - length ?s") auto
  then have arr: "strncpy 256 ?s = ?s @ CHR 0x00 # replicate n (CHR 0x00)"
    using assms(4) c_str_id [OF nul] by (simp add: strncpy_def Let_def)
  have "gnu_basename (strncpy 256 ?s) = Inr name"
    using c_str_prefix [OF nul] after_last_slash [OF assms(2), of dir] unfolding gnu_basename_def arr by simp
  then show ?thesis by (simp add: setLogging_def)
qed

text \<open>A path of 256 bytes or more is copied without a terminator, and \<open>basename\<close> reads on behind the array.\<close>

lemma long_path_overruns:
  assumes "256 \<le> length (c_str argv0)"
  shows "setLogging junk j1 j2 argv0 gw = Inl OutOfBounds"
proof -
  have "strncpy 256 argv0 = take 256 (c_str argv0)" using assms by (simp add: strncpy_def Let_def)
  then have "CHR 0x00 \<notin> set (strncpy 256 argv0)" using c_str_no_nul by (metis in_set_takeD)
  then show ?thesis by (simp add: setLogging_def gnu_basename_def Let_def)
qed

end
