(* ===== verification/ThreadPool.thy ===== *)
theory ThreadPool
  imports Prelude Transitions "HOL-Library.Multiset"
begin

text \<open>
  Threads and the pool of workers (\<open>src/src/base/CurrentThread.h\<close>, \<open>CurrentThread.cc\<close>, \<open>Thread.h\<close>,
  \<open>Thread.cc\<close>, \<open>ThreadPool.h\<close>, \<open>ThreadPool.cc\<close>). The workers and the threads that add tasks interleave
  at the mutex of the pool. A task is \<open>None\<close> for an empty \<open>std::function\<close>; which tasks throw is a
  parameter.
\<close>

section \<open>Threads\<close>

text \<open>\<open>CurrentThread\<close>: the cached id of a thread, 0 before the first call; \<open>gettid\<close> is the system call.\<close>

definition cacheTid :: "int \<Rightarrow> int \<Rightarrow> int" where
  "cacheTid gettid t_cachedTid = (if t_cachedTid = 0 then gettid else t_cachedTid)"

definition current_tid :: "int \<Rightarrow> int \<Rightarrow> int" where
  "current_tid gettid t_cachedTid = (if t_cachedTid = 0 then cacheTid gettid t_cachedTid else t_cachedTid)"

record thread_obj =
  th_started :: bool
  th_joined :: bool
  th_joinable :: "bool option"
  th_tid :: int
  th_name :: bytes

definition setDefaultName :: "int \<Rightarrow> thread_obj \<Rightarrow> int \<times> thread_obj" where
  "setDefaultName numCreated t =
     (let num = numCreated + 1
      in (num, if th_name t = [] then t\<lparr>th_name := snprintf_buf 32 (''Thread'' @ fmt_int num)\<rparr> else t))"

definition Thread_new :: "bytes \<Rightarrow> int \<Rightarrow> int \<times> thread_obj" where
  "Thread_new name numCreated =
     setDefaultName numCreated \<lparr>th_started = False, th_joined = False, th_joinable = None, th_tid = 0, th_name = name\<rparr>"

text \<open>\<open>start\<close> waits until the new thread has stored its id. Replacing a \<open>std::thread\<close> that is still
  joinable terminates the program.\<close>

definition Thread_start :: "int \<Rightarrow> thread_obj \<Rightarrow> thread_obj res" where
  "Thread_start gettid t =
     (if th_joinable t = Some True then Inl Abort
      else Inr (t\<lparr>th_started := True, th_joinable := Some True, th_tid := current_tid gettid 0\<rparr>))"

text \<open>\<open>std::thread::join\<close> of a thread that is not joinable throws.\<close>

definition Thread_join :: "thread_obj \<Rightarrow> thread_obj res" where
  "Thread_join t =
     (case th_joinable t of
        None \<Rightarrow> Inl NullDeref
      | Some False \<Rightarrow> Inl Abort
      | Some True \<Rightarrow> Inr (t\<lparr>th_joined := True, th_joinable := Some False\<rparr>))"

definition Thread_destroy :: "thread_obj \<Rightarrow> thread_obj res" where
  "Thread_destroy t =
     (if th_started t \<and> \<not> th_joined t
      then case th_joinable t of
             None \<Rightarrow> Inl NullDeref
           | Some False \<Rightarrow> Inl Abort
           | Some True \<Rightarrow> Inr (t\<lparr>th_joinable := Some False\<rparr>)
      else Inr t)"

section \<open>The pool\<close>

text \<open>A worker is before the initial callback, about to take the mutex, blocked in \<open>cond_.wait\<close>, running
  a task, or gone: it returned, or an exception ended it.\<close>

datatype 'f worker = Fresh | Locking | Waiting | Running "'f option" | Returned | Thrown

record 'f thread_pool =
  tp_name :: bytes
  tp_running :: bool
  tp_threadSize :: nat
  tp_initCallback :: "'f option"
  tp_threads :: "bytes list"
  tp_workers :: "'f worker list"
  tp_queue :: "'f option list"

definition ThreadPool_new :: "bytes \<Rightarrow> nat \<Rightarrow> 'f thread_pool" where
  "ThreadPool_new name threadSize = \<lparr>tp_name = name, tp_running = False, tp_threadSize = threadSize,
     tp_initCallback = None, tp_threads = [], tp_workers = [], tp_queue = []\<rparr>"

definition setThreadInitCallback :: "'f \<Rightarrow> 'f thread_pool \<Rightarrow> 'f thread_pool" where
  "setThreadInitCallback cb p = p\<lparr>tp_initCallback := Some cb\<rparr>"

definition setThreadSize :: "nat \<Rightarrow> 'f thread_pool \<Rightarrow> 'f thread_pool" where
  "setThreadSize num p = p\<lparr>tp_threadSize := num\<rparr>"

text \<open>\<open>start\<close>: the flag is set without the mutex, then the workers are created one by one, each running at
  once. \<open>threads_[i]\<close> is the thread just added only while there are \<open>i\<close> of them; in a pool that has
  threads already it is an old one, whose \<open>std::thread\<close> is joinable. Without threads the caller runs the
  callback itself.\<close>

definition start_begin :: "'f thread_pool \<Rightarrow> 'f thread_pool" where
  "start_begin p = p\<lparr>tp_running := True\<rparr>"

definition spawn_worker :: "nat \<Rightarrow> 'f thread_pool \<Rightarrow> 'f thread_pool res" where
  "spawn_worker i p =
     (if i < length (tp_workers p) then Inl Abort
      else Inr (p\<lparr>tp_threads := tp_threads p @ [tp_name p @ snprintf_buf 32 (fmt_nat (i + 1))],
                  tp_workers := tp_workers p @ [Fresh]\<rparr>))"

definition start_callback :: "'f thread_pool \<Rightarrow> 'f option" where
  "start_callback p = (if tp_threadSize p = 0 then tp_initCallback p else None)"

primrec spawn_workers :: "nat list \<Rightarrow> 'f thread_pool \<Rightarrow> 'f thread_pool res" where
  "spawn_workers [] p = Inr p"
| "spawn_workers (i # is) p = (case spawn_worker i p of Inl e \<Rightarrow> Inl e | Inr p' \<Rightarrow> spawn_workers is p')"

definition tp_start :: "'f thread_pool \<Rightarrow> ('f thread_pool \<times> 'f option) res" where
  "tp_start p =
     (case spawn_workers [0..<tp_threadSize p] (start_begin p) of
        Inl e \<Rightarrow> Inl e
      | Inr p' \<Rightarrow> Inr (p', start_callback p'))"

text \<open>\<open>notify_all\<close> and \<open>notify_one\<close>; which blocked worker wakes up is chosen by \<open>i\<close>.\<close>

definition notify_all :: "'f thread_pool \<Rightarrow> 'f thread_pool" where
  "notify_all p = p\<lparr>tp_workers := map (\<lambda>w. if w = Waiting then Locking else w) (tp_workers p)\<rparr>"

definition notify_one :: "nat \<Rightarrow> 'f thread_pool \<Rightarrow> 'f thread_pool" where
  "notify_one i p =
     (if i < length (tp_workers p) \<and> tp_workers p ! i = Waiting
      then p\<lparr>tp_workers := (tp_workers p)[i := Locking]\<rparr> else p)"

definition tp_stop :: "'f thread_pool \<Rightarrow> 'f thread_pool" where
  "tp_stop p = notify_all (p\<lparr>tp_running := False\<rparr>)"

definition queueSize :: "'f thread_pool \<Rightarrow> nat" where
  "queueSize p = length (tp_queue p)"

definition tp_add :: "nat \<Rightarrow> 'f option \<Rightarrow> 'f thread_pool \<Rightarrow> 'f thread_pool" where
  "tp_add i task p = notify_one i (p\<lparr>tp_queue := tp_queue p @ [task]\<rparr>)"

text \<open>\<open>runInThread\<close>, one step per critical section or call, with the calls the step makes. \<open>throws\<close> tells
  which functions throw.\<close>

definition worker_step :: "('f \<Rightarrow> bool) \<Rightarrow> 'f thread_pool \<Rightarrow> 'f worker \<Rightarrow> ('f worker \<times> 'f option list \<times> 'f list) option" where
  "worker_step throws p w =
     (case w of
        Fresh \<Rightarrow> Some (case tp_initCallback p of
                   Some cb \<Rightarrow> (if throws cb then Thrown else Locking, tp_queue p, [cb])
                 | None \<Rightarrow> (Locking, tp_queue p, []))
      | Locking \<Rightarrow> Some (case tp_queue p of
                   [] \<Rightarrow> (if tp_running p then Waiting else Returned, [], [])
                 | task # rest \<Rightarrow> (Running task, rest, []))
      | Running task \<Rightarrow> Some (case task of
                   Some f \<Rightarrow> (if throws f then Thrown else Locking, tp_queue p, [f])
                 | None \<Rightarrow> (Locking, tp_queue p, []))
      | _ \<Rightarrow> None)"

definition run_worker :: "('f \<Rightarrow> bool) \<Rightarrow> nat \<Rightarrow> 'f thread_pool \<Rightarrow> ('f thread_pool \<times> 'f list) option" where
  "run_worker throws i p =
     (if i < length (tp_workers p)
      then case worker_step throws p (tp_workers p ! i) of
             None \<Rightarrow> None
           | Some (w, q, calls) \<Rightarrow> Some (p\<lparr>tp_workers := (tp_workers p)[i := w], tp_queue := q\<rparr>, calls)
      else None)"

text \<open>A run, with the tasks added, the tasks taken and the tasks called so far. A task is taken by the worker
  that is about to run it, whatever happened to the queue, and called by the worker that calls it (the
  initial callback is not a task). \<open>ps_next\<close> is the place of a thread inside \<open>start\<close>: the index of the next
  worker. \<open>add\<close> wakes a blocked worker if there is one; a blocked worker may also wake up by itself. Tasks
  may be added, and the pool stopped, before and while it is started.\<close>

record 'f pool_sys =
  ps_pool :: "'f thread_pool"
  ps_next :: "nat option"
  ps_added :: "'f option list"
  ps_taken :: "'f option list"
  ps_called :: "'f list"

fun running_task :: "'f worker \<Rightarrow> 'f option list" where
  "running_task (Running t) = [t]"
| "running_task _ = []"

definition task_calls :: "'f worker \<Rightarrow> 'f list \<Rightarrow> 'f list" where
  "task_calls w calls = (if w = Fresh then [] else calls)"

inductive worker_moves :: "('f \<Rightarrow> bool) \<Rightarrow> 'f pool_sys \<Rightarrow> 'f pool_sys \<Rightarrow> bool" for throws where
  worker: "run_worker throws i (ps_pool s) = Some (p, calls) \<Longrightarrow>
    worker_moves throws s (s\<lparr>ps_pool := p, ps_taken := ps_taken s @ running_task (tp_workers p ! i),
      ps_called := ps_called s @ task_calls (tp_workers (ps_pool s) ! i) calls\<rparr>)"

inductive pool_step :: "('f \<Rightarrow> bool) \<Rightarrow> 'f pool_sys \<Rightarrow> 'f pool_sys \<Rightarrow> bool" for throws where
  move: "worker_moves throws s s' \<Longrightarrow> pool_step throws s s'"
| add: "Waiting \<in> set (tp_workers (ps_pool s)) \<longrightarrow> i < length (tp_workers (ps_pool s)) \<and> tp_workers (ps_pool s) ! i = Waiting \<Longrightarrow>
    pool_step throws s (s\<lparr>ps_pool := tp_add i task (ps_pool s), ps_added := ps_added s @ [task]\<rparr>)"
| wakeup: "pool_step throws s (s\<lparr>ps_pool := notify_one i (ps_pool s)\<rparr>)"
| start: "ps_next s = None \<Longrightarrow> tp_workers (ps_pool s) = [] \<Longrightarrow>
    pool_step throws s (s\<lparr>ps_pool := start_begin (ps_pool s), ps_next := Some 0\<rparr>)"
| spawn: "ps_next s = Some i \<Longrightarrow> i < tp_threadSize (ps_pool s) \<Longrightarrow> spawn_worker i (ps_pool s) = Inr p \<Longrightarrow>
    pool_step throws s (s\<lparr>ps_pool := p, ps_next := Some (Suc i)\<rparr>)"
| started: "ps_next s = Some i \<Longrightarrow> \<not> i < tp_threadSize (ps_pool s) \<Longrightarrow> pool_step throws s (s\<lparr>ps_next := None\<rparr>)"
| stop: "pool_step throws s (s\<lparr>ps_pool := tp_stop (ps_pool s)\<rparr>)"

inductive_cases pool_stepE: "pool_step throws s s'"
inductive_cases worker_movesE: "worker_moves throws s s'"

definition pool_initial :: "'f pool_sys \<Rightarrow> bool" where
  "pool_initial s \<longleftrightarrow> (\<exists>name n cb. s =
     \<lparr>ps_pool = (ThreadPool_new name n)\<lparr>tp_initCallback := cb\<rparr>, ps_next = None, ps_added = [], ps_taken = [], ps_called = []\<rparr>)"

abbreviation pool_reach :: "('f \<Rightarrow> bool) \<Rightarrow> 'f pool_sys \<Rightarrow> bool" where
  "pool_reach throws \<equiv> reachable pool_initial (pool_step throws)"

text \<open>The functions among tasks (an empty task is skipped), and the tasks the workers hold.\<close>

definition callables :: "'f option list \<Rightarrow> 'f list" where
  "callables ts = concat (map (\<lambda>t. case t of None \<Rightarrow> [] | Some f \<Rightarrow> [f]) ts)"

definition held_tasks :: "'f worker list \<Rightarrow> 'f option list" where
  "held_tasks ws = concat (map running_task ws)"

section \<open>Invariants\<close>

text \<open>As long as a worker is blocked, there is a worker on its way to the mutex for every queued task;
  once the pool is stopped nobody is blocked. A worker returns only when the pool is stopped and the queue
  was empty.\<close>

definition locking :: "'f worker list \<Rightarrow> nat" where
  "locking ws = sum_list (map (\<lambda>w. if w = Locking then 1 else 0) ws)"

definition tpool_inv :: "'f pool_sys \<Rightarrow> bool" where
  "tpool_inv s \<longleftrightarrow> ps_added s = ps_taken s @ tp_queue (ps_pool s)
     \<and> (Waiting \<in> set (tp_workers (ps_pool s)) \<longrightarrow> tp_running (ps_pool s)
          \<and> length (tp_queue (ps_pool s)) \<le> locking (tp_workers (ps_pool s)))
     \<and> (Returned \<in> set (tp_workers (ps_pool s)) \<longrightarrow> \<not> tp_running (ps_pool s))
     \<and> mset (callables (ps_taken s)) = mset (ps_called s) + mset (callables (held_tasks (tp_workers (ps_pool s))))
     \<and> (\<forall>i. ps_next s = Some i \<longrightarrow> length (tp_workers (ps_pool s)) = i)"

lemma callables_simps [simp]:
  "callables [] = []" "callables (None # ts) = callables ts" "callables (Some f # ts) = f # callables ts"
  "callables (ts @ us) = callables ts @ callables us"
  by (simp_all add: callables_def)

lemma held_simps [simp]:
  "held_tasks [] = []" "held_tasks (w # ws) = running_task w @ held_tasks ws"
  "held_tasks (ws @ vs) = held_tasks ws @ held_tasks vs"
  by (simp_all add: held_tasks_def)

lemma held_update:
  "i < length ws \<Longrightarrow> mset (callables (held_tasks (ws[i := w]))) + mset (callables (running_task (ws ! i)))
     = mset (callables (held_tasks ws)) + mset (callables (running_task w))"
proof -
  assume i: "i < length ws"
  have "held_tasks (ws[i := w]) = held_tasks (take i ws) @ running_task w @ held_tasks (drop (Suc i) ws)"
    using i by (simp add: upd_conv_take_nth_drop)
  moreover have "held_tasks ws = held_tasks (take i ws) @ running_task (ws ! i) @ held_tasks (drop (Suc i) ws)"
    using i by (metis append_Cons append_Nil held_simps id_take_nth_drop)
  ultimately show ?thesis by simp
qed

lemma held_none: "(\<And>w. w \<in> set ws \<Longrightarrow> running_task w = []) \<Longrightarrow> held_tasks ws = []"
  by (simp add: held_tasks_def)

lemma locking_update:
  "i < length ws \<Longrightarrow> locking (ws[i := w]) + (if ws ! i = Locking then 1 else 0) = locking ws + (if w = Locking then 1 else 0)"
proof -
  assume i: "i < length ws"
  let ?g = "\<lambda>w. if w = Locking then 1 else (0::nat)"
  have "?g (ws ! i) \<le> sum_list (map ?g ws)" using i elem_le_sum_list [of i "map ?g ws"] by simp
  then show ?thesis using i by (simp add: locking_def map_update sum_list_update)
qed

lemma locking_pos: "0 < locking ws \<Longrightarrow> \<exists>i < length ws. ws ! i = Locking"
proof -
  assume "0 < locking ws"
  then have "Locking \<in> set ws" by (induction ws) (auto simp: locking_def split: if_splits)
  then show ?thesis by (auto simp: in_set_conv_nth)
qed

lemma run_workerE:
  assumes "run_worker throws i p = Some (p', calls)"
  obtains w q where "i < length (tp_workers p)" "worker_step throws p (tp_workers p ! i) = Some (w, q, calls)"
    "p' = p\<lparr>tp_workers := (tp_workers p)[i := w], tp_queue := q\<rparr>" "tp_workers p' ! i = w"
  using assms by (auto simp: run_worker_def split: if_splits option.splits)

text \<open>What a step of a worker does to the queue and to the tasks it holds.\<close>

lemma worker_step_tasks:
  assumes "worker_step throws p w = Some (w', q, calls)"
  shows "tp_queue p = running_task w' @ q"
    "task_calls w calls = callables (running_task w)"
  using assms by (auto simp: worker_step_def task_calls_def split: worker.splits option.splits if_splits list.splits)

lemma run_worker_inv:
  assumes "tpool_inv s" "run_worker throws i (ps_pool s) = Some (p, calls)"
  shows "tpool_inv (s\<lparr>ps_pool := p, ps_taken := ps_taken s @ running_task (tp_workers p ! i),
    ps_called := ps_called s @ task_calls (tp_workers (ps_pool s) ! i) calls\<rparr>)"
proof -
  let ?p = "ps_pool s" and ?ws = "tp_workers (ps_pool s)"
  from assms(2) obtain w q where i: "i < length ?ws" and w: "worker_step throws ?p (?ws ! i) = Some (w, q, calls)"
    and p: "p = ?p\<lparr>tp_workers := ?ws[i := w], tp_queue := q\<rparr>" "tp_workers p ! i = w" by (elim run_workerE)
  note up = locking_update [OF i, of w] and held = held_update [OF i, of w] and tasks = worker_step_tasks [OF w]
  have mem: "x \<in> set (?ws[i := w]) \<Longrightarrow> x = w \<or> x \<in> set ?ws" for x using set_update_subset_insert by fast
  have taken: "ps_added s = (ps_taken s @ running_task w) @ q" using assms(1) tasks(1) by (simp add: tpool_inv_def)
  have ghost: "mset (callables (ps_taken s @ running_task w))
      = mset (ps_called s @ task_calls (?ws ! i) calls) + mset (callables (held_tasks (?ws[i := w])))"
    using assms(1) held tasks(2) by (simp add: tpool_inv_def add.assoc add.left_commute add.commute)
  show ?thesis
  proof (cases "?ws ! i = Locking \<and> tp_queue ?p \<noteq> []")
    case True
    then obtain t rest where q: "tp_queue ?p = t # rest" by (cases "tp_queue ?p") auto
    then have "w = Running t" "q = rest" using w True by (auto simp: worker_step_def)
    then show ?thesis using assms(1) up mem q True taken ghost i by (auto simp: tpool_inv_def p(1))
  next
    case False
    then have "q = tp_queue ?p" "w = Waiting \<Longrightarrow> tp_running ?p \<and> tp_queue ?p = []" "w = Returned \<Longrightarrow> \<not> tp_running ?p"
      "?ws ! i = Locking \<Longrightarrow> tp_queue ?p = []"
      using w by (auto simp: worker_step_def split: worker.splits option.splits if_splits list.splits)
    then show ?thesis using assms(1) up mem [of Waiting] mem [of Returned] taken ghost i
      by (auto simp: tpool_inv_def p(1) split: if_splits)
  qed
qed

lemma notify_one_inv: "tpool_inv s \<Longrightarrow> tpool_inv (s\<lparr>ps_pool := notify_one i (ps_pool s)\<rparr>)"
proof (cases "i < length (tp_workers (ps_pool s)) \<and> tp_workers (ps_pool s) ! i = Waiting")
  case True
  assume inv: "tpool_inv s"
  have mem: "x \<in> set ((tp_workers (ps_pool s))[i := Locking]) \<Longrightarrow> x = Locking \<or> x \<in> set (tp_workers (ps_pool s))" for x
    using set_update_subset_insert by fast
  show ?thesis using True inv locking_update [of i "tp_workers (ps_pool s)" Locking] mem
      held_update [of i "tp_workers (ps_pool s)" Locking]
    by (auto simp: tpool_inv_def notify_one_def)
qed (auto simp: notify_one_def)

lemma held_notify_all: "held_tasks (map (\<lambda>w. if w = Waiting then Locking else w) ws) = held_tasks ws"
  by (induction ws) auto

lemma tp_stop_inv: "tpool_inv s \<Longrightarrow> tpool_inv (s\<lparr>ps_pool := tp_stop (ps_pool s)\<rparr>)"
  by (auto simp: tpool_inv_def tp_stop_def notify_all_def held_notify_all split: if_splits)

lemma tp_add_inv:
  assumes inv: "tpool_inv s"
    and i: "Waiting \<in> set (tp_workers (ps_pool s)) \<longrightarrow> i < length (tp_workers (ps_pool s)) \<and> tp_workers (ps_pool s) ! i = Waiting"
  shows "tpool_inv (s\<lparr>ps_pool := tp_add i task (ps_pool s), ps_added := ps_added s @ [task]\<rparr>)"
proof (cases "Waiting \<in> set (tp_workers (ps_pool s))")
  case True
  have mem: "x \<in> set ((tp_workers (ps_pool s))[i := Locking]) \<Longrightarrow> x = Locking \<or> x \<in> set (tp_workers (ps_pool s))" for x
    using set_update_subset_insert by fast
  show ?thesis using True i inv locking_update [of i "tp_workers (ps_pool s)" Locking] mem
      held_update [of i "tp_workers (ps_pool s)" Locking]
    by (auto simp: tpool_inv_def tp_add_def notify_one_def)
next
  case False
  then have "notify_one i q = q" if "tp_workers q = tp_workers (ps_pool s)" for q
    using that by (metis (no_types, lifting) notify_one_def nth_mem)
  then show ?thesis using False inv by (auto simp: tpool_inv_def tp_add_def)
qed

lemma pool_initial_inv: "pool_initial s \<Longrightarrow> tpool_inv s"
  by (auto simp: pool_initial_def tpool_inv_def ThreadPool_new_def)

lemma start_begin_inv:
  "tpool_inv s \<Longrightarrow> tp_workers (ps_pool s) = [] \<Longrightarrow>
   tpool_inv (s\<lparr>ps_pool := start_begin (ps_pool s), ps_next := Some 0\<rparr>)"
  by (auto simp: tpool_inv_def start_begin_def)

lemma spawn_worker_inv:
  "tpool_inv s \<Longrightarrow> ps_next s = Some i \<Longrightarrow> spawn_worker i (ps_pool s) = Inr p \<Longrightarrow>
   tpool_inv (s\<lparr>ps_pool := p, ps_next := Some (Suc i)\<rparr>)"
  by (auto simp: tpool_inv_def spawn_worker_def locking_def split: if_splits)

lemma started_inv: "tpool_inv s \<Longrightarrow> tpool_inv (s\<lparr>ps_next := None\<rparr>)"
  by (simp add: tpool_inv_def)

lemma pool_step_inv: "pool_step throws s s' \<Longrightarrow> tpool_inv s \<Longrightarrow> tpool_inv s'"
  by (erule pool_stepE)
     (auto elim!: worker_movesE simp: run_worker_inv notify_one_inv tp_stop_inv start_begin_inv spawn_worker_inv
       started_inv tp_add_inv)

text \<open>The pool implements the same abstract executor as an event loop.\<close>

definition pool_executor :: "'f pool_sys \<Rightarrow> 'f option executor" where
  "pool_executor s = \<lparr>ex_submitted = ps_added s, ex_waiting = tp_queue (ps_pool s), ex_started = ps_taken s\<rparr>"

lemma running_task_cases: "running_task w = [] \<or> (\<exists>t. running_task w = [t])"
  by (cases w) simp_all

lemma pool_executor_move:
  assumes "worker_moves throws s s'"
  shows "pool_executor s' = pool_executor s \<or> executor_step (pool_executor s) (pool_executor s')"
  using assms
proof cases
  case (worker i p calls)
  from worker(2) obtain w q where w: "worker_step throws (ps_pool s) (tp_workers (ps_pool s) ! i) = Some (w, q, calls)"
    and p: "tp_queue p = q" "tp_workers p ! i = w" by (elim run_workerE) auto
  note q = worker_step_tasks(1) [OF w]
  show ?thesis
  proof (cases "running_task w = []")
    case True
    then show ?thesis using q by (simp add: worker p pool_executor_def)
  next
    case False
    then obtain t where t: "running_task w = [t]" using running_task_cases [of w] by blast
    then show ?thesis using executor_step.begin_task [of "pool_executor s" t q] q
      by (simp add: worker p pool_executor_def)
  qed
qed

lemma notify_one_queue [simp]: "tp_queue (notify_one i p) = tp_queue p"
  by (simp add: notify_one_def)

lemma pool_executor_step:
  assumes "pool_step throws s s'"
  shows "pool_executor s' = pool_executor s \<or> executor_step (pool_executor s) (pool_executor s')"
  using assms
proof cases
  case move
  then show ?thesis by (rule pool_executor_move)
next
  case (add i task)
  then show ?thesis using executor_step.submit [of "pool_executor s" task]
    by (simp add: pool_executor_def tp_add_def)
next
  case (spawn i p)
  then show ?thesis by (auto simp: pool_executor_def spawn_worker_def split: if_splits)
qed (simp_all add: pool_executor_def tp_stop_def start_begin_def notify_all_def)

lemma pool_executor_initial: "pool_initial s \<Longrightarrow> executor_start (pool_executor s)"
  by (auto simp: pool_initial_def pool_executor_def executor_start_def ThreadPool_new_def)

interpretation worker_pool: refinement pool_initial "pool_step throws" tpool_inv
    executor_start executor_step pool_executor for throws
  by unfold_locales
     (erule pool_executor_step | blast intro: pool_initial_inv pool_step_inv pool_executor_initial)+

lemmas pool_reach_inv = worker_pool.reachable_inv

section \<open>Draining\<close>

text \<open>After \<open>stop\<close> every move of a worker decreases a bound.\<close>

fun weight :: "'f worker \<Rightarrow> nat" where
  "weight Fresh = 2" | "weight Locking = 1" | "weight Waiting = 1" | "weight (Running t) = 2"
| "weight Returned = 0" | "weight Thrown = 0"

definition drain :: "'f thread_pool \<Rightarrow> nat" where
  "drain p = 2 * length (tp_queue p) + sum_list (map weight (tp_workers p))"

definition alive :: "'f worker \<Rightarrow> bool" where
  "alive w \<longleftrightarrow> w \<noteq> Returned \<and> w \<noteq> Thrown"

lemma weight_update:
  "i < length ws \<Longrightarrow> sum_list (map weight (ws[i := w])) + weight (ws ! i) = sum_list (map weight ws) + weight w"
proof -
  assume i: "i < length ws"
  then have "weight (ws ! i) \<le> sum_list (map weight ws)" using elem_le_sum_list [of i "map weight ws"] by simp
  then show ?thesis using i by (simp add: map_update sum_list_update)
qed

lemma drain_le: "drain p \<le> 2 * length (tp_queue p) + 2 * length (tp_workers p)"
proof -
  have "weight w \<le> 2" for w :: "'a worker" by (cases w) simp_all
  then have "sum_list (map weight ws) \<le> 2 * length ws" for ws :: "'a worker list"
    by (induction ws) (auto intro: add_mono order_trans)
  then show ?thesis by (simp add: drain_def)
qed

lemma run_worker_drains:
  assumes "\<not> tp_running p" "run_worker throws i p = Some (p', calls)"
  shows "drain p' < drain p" "\<not> tp_running p'"
proof -
  from assms(2) obtain w q where i: "i < length (tp_workers p)"
    and w: "worker_step throws p (tp_workers p ! i) = Some (w, q, calls)"
    and p: "p' = p\<lparr>tp_workers := (tp_workers p)[i := w], tp_queue := q\<rparr>" by (elim run_workerE)
  have "2 * length q + weight w < 2 * length (tp_queue p) + weight (tp_workers p ! i)"
    using w assms(1)
    by (auto simp: worker_step_def split: worker.splits option.splits if_splits list.splits)
  then show "drain p' < drain p" using weight_update [OF i, of w] by (simp add: p drain_def)
  show "\<not> tp_running p'" using assms(1) by (simp add: p)
qed

lemma run_worker_alive:
  assumes "\<And>f. \<not> throws f" "run_worker throws i p = Some (p', calls)" "(\<exists>w \<in> set (tp_workers p). alive w) \<or> tp_queue p = []"
  shows "(\<exists>w \<in> set (tp_workers p'). alive w) \<or> tp_queue p' = []"
    "Thrown \<notin> set (tp_workers p) \<Longrightarrow> Thrown \<notin> set (tp_workers p')"
proof -
  from assms(2) obtain w q where i: "i < length (tp_workers p)"
    and w: "worker_step throws p (tp_workers p ! i) = Some (w, q, calls)"
    and p: "p' = p\<lparr>tp_workers := (tp_workers p)[i := w], tp_queue := q\<rparr>" by (elim run_workerE)
  have "w \<in> set (tp_workers p')" using i by (simp add: p set_update_memI)
  moreover have *: "alive w \<or> q = []" "w \<noteq> Thrown"
    using w assms(1) by (auto simp: worker_step_def alive_def split: worker.splits option.splits list.splits if_splits)
  ultimately show "(\<exists>w \<in> set (tp_workers p'). alive w) \<or> tp_queue p' = []" by (auto simp: p)
  show "Thrown \<notin> set (tp_workers p) \<Longrightarrow> Thrown \<notin> set (tp_workers p')"
    using *(2) set_update_subset_insert [of "tp_workers p" i w] by (auto simp: p)
qed

lemma worker_can_move:
  assumes "w \<in> set (tp_workers p)" "alive w" "w \<noteq> Waiting"
  shows "\<exists>i p' calls. run_worker throws i p = Some (p', calls)"
proof -
  from assms(1) obtain i where i: "i < length (tp_workers p)" "tp_workers p ! i = w" by (auto simp: in_set_conv_nth)
  have "worker_step throws p w \<noteq> None" using assms(2,3) by (cases w) (auto simp: worker_step_def alive_def)
  then show ?thesis using i by (intro exI [of _ i]) (auto simp: run_worker_def)
qed

lemma moves_drain:
  assumes "(worker_moves throws ^^ n) s s'" "tpool_inv s" "\<not> tp_running (ps_pool s)" "\<And>f. \<not> throws f"
    "(\<exists>w \<in> set (tp_workers (ps_pool s)). alive w) \<or> tp_queue (ps_pool s) = []" "Thrown \<notin> set (tp_workers (ps_pool s))"
  shows "n + drain (ps_pool s') \<le> drain (ps_pool s) \<and> tpool_inv s' \<and> \<not> tp_running (ps_pool s') \<and> ps_added s' = ps_added s
    \<and> ((\<exists>w \<in> set (tp_workers (ps_pool s')). alive w) \<or> tp_queue (ps_pool s') = []) \<and> Thrown \<notin> set (tp_workers (ps_pool s'))"
  using assms(1)
proof (induction n arbitrary: s')
  case 0
  then show ?case using assms by auto
next
  case (Suc n)
  from Suc.prems obtain s1 where s1: "(worker_moves throws ^^ n) s s1" "worker_moves throws s1 s'" by auto
  note IH = Suc.IH [OF s1(1)]
  from s1(2) obtain i p calls where p: "run_worker throws i (ps_pool s1) = Some (p, calls)"
    "s' = s1\<lparr>ps_pool := p, ps_taken := ps_taken s1 @ running_task (tp_workers p ! i),
      ps_called := ps_called s1 @ task_calls (tp_workers (ps_pool s1) ! i) calls\<rparr>" by (auto elim!: worker_movesE)
  have "tpool_inv s'" unfolding p(2) by (rule run_worker_inv) (use IH p(1) in simp_all)
  moreover have "drain p < drain (ps_pool s1)" "\<not> tp_running p" using run_worker_drains [OF _ p(1)] IH by auto
  moreover have "(\<exists>w \<in> set (tp_workers p). alive w) \<or> tp_queue p = []" "Thrown \<notin> set (tp_workers p)"
    using run_worker_alive [OF assms(4) p(1)] IH by auto
  ultimately show ?case using IH by (simp add: p(2))
qed

lemma stopped_pool_drains:
  assumes "pool_reach throws s" and "\<not> tp_running (ps_pool s)" and "\<And>f. \<not> throws f"
    and "Thrown \<notin> set (tp_workers (ps_pool s))"
    and "w \<in> set (tp_workers (ps_pool s))" and "alive w" and "(worker_moves throws ^^ n) s s'"
  shows "n \<le> 2 * length (tp_queue (ps_pool s)) + 2 * length (tp_workers (ps_pool s))
    \<and> (worker_moves throws s' = (\<lambda>_. False) \<longrightarrow>
        ps_taken s' = ps_added s \<and> mset (ps_called s') = mset (callables (ps_added s))
          \<and> set (tp_workers (ps_pool s')) \<subseteq> {Returned})"
proof -
  have "(\<exists>w \<in> set (tp_workers (ps_pool s)). alive w) \<or> tp_queue (ps_pool s) = []" using assms(5,6) by blast
  note m = moves_drain [OF assms(7) pool_reach_inv [OF assms(1)] assms(2,3) this assms(4)]
  have n: "n \<le> 2 * length (tp_queue (ps_pool s)) + 2 * length (tp_workers (ps_pool s))"
    using m drain_le [of "ps_pool s"] by linarith
  moreover have "ps_taken s' = ps_added s \<and> mset (ps_called s') = mset (callables (ps_added s))
      \<and> set (tp_workers (ps_pool s')) \<subseteq> {Returned}"
    if "worker_moves throws s' = (\<lambda>_. False)"
  proof -
    have stuck: "run_worker throws i (ps_pool s') = None" for i
      using that worker_moves.worker [of throws i s'] by (cases "run_worker throws i (ps_pool s')") auto
    have gone: "\<not> alive w" if "w \<in> set (tp_workers (ps_pool s'))" for w
      using worker_can_move [OF that, of throws] stuck m that by (fastforce simp: tpool_inv_def)
    then have ret: "set (tp_workers (ps_pool s')) \<subseteq> {Returned}" using m by (auto simp: alive_def)
    then have "held_tasks (tp_workers (ps_pool s')) = []" by (intro held_none) auto
    moreover have "tp_queue (ps_pool s') = []" using m gone by blast
    ultimately show ?thesis using m ret by (auto simp: tpool_inv_def)
  qed
  ultimately show ?thesis by blast
qed

section \<open>Properties\<close>

definition sample_sys :: "nat thread_pool \<Rightarrow> nat option \<Rightarrow> nat option list \<Rightarrow> nat option list \<Rightarrow> nat list \<Rightarrow> nat pool_sys" where
  "sample_sys p next added taken called =
     \<lparr>ps_pool = p, ps_next = next, ps_added = added, ps_taken = taken, ps_called = called\<rparr>"

definition sample_pool :: "bool \<Rightarrow> nat worker list \<Rightarrow> nat option list \<Rightarrow> nat thread_pool" where
  "sample_pool running ws q = \<lparr>tp_name = ''pool'', tp_running = running, tp_threadSize = 1, tp_initCallback = None,
       tp_threads = map (\<lambda>_. ''pool1'') ws, tp_workers = ws, tp_queue = q\<rparr>"

lemmas sample_defs = sample_sys_def sample_pool_def

definition sample_loaded :: "nat pool_sys" where
  "sample_loaded = sample_sys (sample_pool True [Fresh] [Some 7]) (Some 1) [Some 7] [] []"

definition sample_stopped :: "nat pool_sys" where
  "sample_stopped = sample_sys (sample_pool False [Fresh] [Some 7]) (Some 1) [Some 7] [] []"

lemma sample_loaded_reach: "pool_reach (\<lambda>_. False) sample_loaded"
proof -
  let ?s = "\<lambda>r ws q n. sample_sys (sample_pool r ws q) n q [] []"
  have "pool_initial (?s False [] [] None)" unfolding pool_initial_def
    by (rule exI [of _ "''pool''"], rule exI [of _ 1], rule exI [of _ None]) (simp add: sample_defs ThreadPool_new_def)
  then have "pool_reach (\<lambda>_. False) (?s False [] [] None)" by (rule reachable_start)
  moreover have "pool_step (\<lambda>_. False) (?s False [] [] None) (?s True [] [] (Some 0))"
    using pool_step.start [of "?s False [] [] None"] by (simp add: sample_defs start_begin_def)
  moreover have "pool_step (\<lambda>_. False) (?s True [] [] (Some 0)) (?s True [Fresh] [] (Some 1))"
    using pool_step.spawn [of "?s True [] [] (Some 0)" 0 "sample_pool True [Fresh] []"]
    by (simp add: sample_defs spawn_worker_def snprintf_buf_def fmt_nat.simps [of "Suc 0"])
  moreover have "pool_step (\<lambda>_. False) (?s True [Fresh] [] (Some 1)) (?s True [Fresh] [Some 7] (Some 1))"
    using pool_step.add [of "?s True [Fresh] [] (Some 1)" 0 _ "Some 7"] by (simp add: sample_defs tp_add_def notify_one_def)
  ultimately show ?thesis unfolding sample_loaded_def by (blast intro: reachable_step)
qed

lemma sample_stopped_reach: "pool_reach (\<lambda>_. False) sample_stopped"
proof (rule reachable_step [OF sample_loaded_reach])
  have "sample_stopped = sample_loaded\<lparr>ps_pool := tp_stop (ps_pool sample_loaded)\<rparr>"
    by (simp add: sample_stopped_def sample_loaded_def sample_defs tp_stop_def notify_all_def)
  then show "pool_step (\<lambda>_. False) sample_loaded sample_stopped" using pool_step.stop by metis
qed

text \<open>Claim C31. A pool with any number of workers refines the abstract executor of the event loop: the tasks
  the workers take are those added, in the order of adding and each once, whatever the interleaving of
  adding, starting and stopping; and each task taken is called once by the worker that took it: the calls
  made so far and the tasks the workers still hold are together the tasks taken.\<close>

theorem pool_refines_executor:
  assumes "pool_reach throws s"
  shows "reachable executor_start executor_step (pool_executor s) \<and> ps_added s = ps_taken s @ tp_queue (ps_pool s)
    \<and> mset (callables (ps_taken s)) = mset (ps_called s) + mset (callables (held_tasks (tp_workers (ps_pool s))))"
  using worker_pool.reachable_abs [OF assms] pool_reach_inv [OF assms] by (simp_all add: tpool_inv_def)

theorem pool_refines_executor_witness:
  "reachable executor_start executor_step (pool_executor sample_loaded) \<and> ps_added sample_loaded = [Some 7]"
  using pool_refines_executor [OF sample_loaded_reach] by (simp add: sample_loaded_def sample_defs)

text \<open>A call of \<open>start\<close> in a pool without threads never reaches a joinable thread.\<close>

lemma start_never_aborts:
  assumes "pool_reach throws s" and "ps_next s = Some i"
  shows "\<exists>p. spawn_worker i (ps_pool s) = Inr p"
  using pool_reach_inv [OF assms(1)] assms(2) by (simp add: tpool_inv_def spawn_worker_def)

text \<open>No wake-up is lost: while a task is queued and some worker is alive, some worker can
  move; they are never all blocked in \<open>wait\<close>.\<close>

lemma pool_never_stalls:
  assumes "pool_reach throws s" and "tp_queue (ps_pool s) \<noteq> []" and "w \<in> set (tp_workers (ps_pool s))" and "alive w"
  shows "\<exists>i p calls. run_worker throws i (ps_pool s) = Some (p, calls)"
proof (cases "w = Waiting")
  case True
  then have "0 < locking (tp_workers (ps_pool s))"
    using pool_reach_inv [OF assms(1)] assms(2,3) length_greater_0_conv [of "tp_queue (ps_pool s)"]
    unfolding tpool_inv_def by (metis order_less_le_trans)
  then have "Locking \<in> set (tp_workers (ps_pool s))" using locking_pos nth_mem by metis
  then show ?thesis by (rule worker_can_move) (simp_all add: alive_def)
next
  case False
  then show ?thesis using worker_can_move assms(3,4) by blast
qed

text \<open>Claim C32. Stopping a pool drains it when no task throws and some worker is alive: the workers make at most
  two moves for each queued task and each worker, and when none can move any more all of them have
  returned, every task added was taken in the order of adding, and each was called exactly once.\<close>

theorem stop_drains_queue:
  assumes "pool_reach throws s" and "\<not> tp_running (ps_pool s)" and "\<And>f. \<not> throws f"
    and "Thrown \<notin> set (tp_workers (ps_pool s))"
    and "w \<in> set (tp_workers (ps_pool s))" and "alive w" and "(worker_moves throws ^^ n) s s'"
  shows "n \<le> 2 * length (tp_queue (ps_pool s)) + 2 * length (tp_workers (ps_pool s))
    \<and> (worker_moves throws s' = (\<lambda>_. False) \<longrightarrow>
        ps_taken s' = ps_added s \<and> mset (ps_called s') = mset (callables (ps_added s))
          \<and> set (tp_workers (ps_pool s')) \<subseteq> {Returned})"
  using stopped_pool_drains [OF assms] .

definition sample_at :: "nat worker \<Rightarrow> nat option list \<Rightarrow> nat option list \<Rightarrow> nat list \<Rightarrow> nat pool_sys" where
  "sample_at w q taken called = sample_sys (sample_pool False [w] q) (Some 1) [Some 7] taken called"

lemma sample_move:
  "worker_step (\<lambda>_. False) (sample_pool False [w] q) w = Some (w', q', calls) \<Longrightarrow>
   worker_moves (\<lambda>_. False) (sample_at w q taken called)
     (sample_at w' q' (taken @ running_task w') (called @ task_calls w calls))"
  using worker_moves.worker [of "\<lambda>_. False" 0 "sample_at w q taken called"]
  by (simp add: sample_at_def sample_defs run_worker_def)

lemma sample_run: "(worker_moves (\<lambda>_. False) ^^ 4) sample_stopped (sample_at Returned [] [Some 7] [7])"
proof -
  have "worker_moves (\<lambda>_. False) (sample_at Fresh [Some 7] [] []) (sample_at Locking [Some 7] [] [])"
    "worker_moves (\<lambda>_. False) (sample_at Locking [Some 7] [] []) (sample_at (Running (Some 7)) [] [Some 7] [])"
    "worker_moves (\<lambda>_. False) (sample_at (Running (Some 7)) [] [Some 7] []) (sample_at Locking [] [Some 7] [7])"
    "worker_moves (\<lambda>_. False) (sample_at Locking [] [Some 7] [7]) (sample_at Returned [] [Some 7] [7])"
    using sample_move [of Fresh "[Some 7]" Locking "[Some 7]" "[]" "[]" "[]"]
      sample_move [of Locking "[Some 7]" "Running (Some 7)" "[]" "[]" "[]" "[]"]
      sample_move [of "Running (Some 7)" "[]" Locking "[]" "[7]" "[Some 7]" "[]"]
      sample_move [of Locking "[]" Returned "[]" "[]" "[Some 7]" "[7]"]
    by (simp_all add: worker_step_def task_calls_def sample_pool_def)
  moreover have "sample_stopped = sample_at Fresh [Some 7] [] []" by (simp add: sample_stopped_def sample_at_def)
  ultimately show ?thesis by (auto simp: numeral_eq_Suc relcompp.simps)
qed

theorem stop_drains_queue_witness:
  "4 \<le> 2 * length (tp_queue (ps_pool sample_stopped)) + 2 * length (tp_workers (ps_pool sample_stopped))
    \<and> ps_taken (sample_at Returned [] [Some 7] [7]) = ps_added sample_stopped"
proof -
  have "worker_moves (\<lambda>_. False) (sample_at Returned [] [Some 7] [7]) = (\<lambda>_. False)"
    by (intro ext) (auto elim!: worker_movesE simp: run_worker_def worker_step_def sample_at_def sample_defs split: if_splits)
  then show ?thesis using stop_drains_queue [OF sample_stopped_reach _ _ _ _ _ sample_run, of Fresh]
    by (simp add: sample_stopped_def sample_defs alive_def)
qed

section \<open>The destructor and the test of the pool\<close>

text \<open>The destructor stops the pool and joins every thread; the joins return when all workers are gone.\<close>

definition joins_return :: "'f thread_pool \<Rightarrow> bool" where
  "joins_return p \<longleftrightarrow> (\<forall>w \<in> set (tp_workers p). w = Returned \<or> w = Thrown)"

text \<open>\<open>test1\<close> of \<open>src/src/base/test/ThreadPool.cc\<close>: five thousand tasks and one more are added to a pool of four threads,
  which is then started; the pool is destroyed at the end of the function.\<close>

definition test_tasks :: "'f \<Rightarrow> 'f \<Rightarrow> 'f option list" where
  "test_tasks showInfo sleep5 = replicate 5000 (Some showInfo) @ [Some sleep5]"

definition test_pool :: "nat \<Rightarrow> 'f option list \<Rightarrow> 'f thread_pool res" where
  "test_pool junk tasks =
     (case tp_start (fold (tp_add 0) tasks (setThreadSize 4 (ThreadPool_new ''ThreadPool'' junk))) of
        Inl e \<Rightarrow> Inl e
      | Inr (p, _) \<Rightarrow> Inr p)"

lemma added_before_start:
  "tp_workers p = [] \<Longrightarrow> fold (tp_add 0) tasks p = p\<lparr>tp_queue := tp_queue p @ tasks\<rparr>"
  by (induction tasks arbitrary: p) (simp_all add: tp_add_def notify_one_def)

lemma spawn_workers_spec:
  assumes "length (tp_workers p) = i"
  shows "\<exists>p'. spawn_workers [i..<n] p = Inr p' \<and> tp_queue p' = tp_queue p \<and> tp_running p' = tp_running p
    \<and> tp_workers p' = tp_workers p @ replicate (n - i) Fresh"
  using assms
proof (induction "n - i" arbitrary: i p)
  case 0
  then show ?case by simp
next
  case (Suc m)
  then have up: "[i..<n] = i # [Suc i..<n]" "n - i = Suc (n - Suc i)" by (simp_all add: upt_conv_Cons)
  let ?p = "p\<lparr>tp_threads := tp_threads p @ [tp_name p @ snprintf_buf 32 (fmt_nat (i + 1))],
    tp_workers := tp_workers p @ [Fresh]\<rparr>"
  have "spawn_worker i p = Inr ?p" using Suc.prems by (simp add: spawn_worker_def)
  then show ?case using Suc.hyps(1) [of "Suc i" ?p] Suc.prems Suc.hyps(2) up by simp
qed

text \<open>The steps of \<open>start\<close> in a run are those of \<open>tp_start\<close>.\<close>

lemma spawn_workers_reach:
  assumes "pool_reach throws s" "ps_next s = Some i" "n \<le> tp_threadSize (ps_pool s)" "i \<le> n"
    "spawn_workers [i..<n] (ps_pool s) = Inr p"
  shows "pool_reach throws (s\<lparr>ps_pool := p, ps_next := Some n\<rparr>)"
  using assms
proof (induction "n - i" arbitrary: i s)
  case 0
  then have n: "n = i" and p: "p = ps_pool s" by simp_all
  have "s\<lparr>ps_pool := p, ps_next := Some n\<rparr> = s" unfolding n p using "0.prems"(2) by (cases s) simp
  then show ?case using "0.prems"(1) by simp
next
  case (Suc m)
  then have up: "[i..<n] = i # [Suc i..<n]" by (simp add: upt_conv_Cons)
  from Suc.prems(5) up obtain p1 where p1: "spawn_worker i (ps_pool s) = Inr p1" "spawn_workers [Suc i..<n] p1 = Inr p"
    by (auto split: sum.splits)
  let ?s = "s\<lparr>ps_pool := p1, ps_next := Some (Suc i)\<rparr>"
  have "pool_reach throws ?s"
    by (rule reachable_step [OF Suc.prems(1)]) (rule pool_step.spawn; use Suc p1 in simp)
  moreover have "tp_threadSize p1 = tp_threadSize (ps_pool s)" using p1(1) by (auto simp: spawn_worker_def split: if_splits)
  ultimately show ?case using Suc.hyps(1) [of "Suc i" ?s] Suc.hyps(2) Suc.prems p1 by simp
qed

lemma test_pool_started:
  "\<exists>p. test_pool junk tasks = Inr p \<and> tp_queue p = tasks \<and> tp_workers p = replicate 4 Fresh \<and> tp_running p
    \<and> pool_reach throws \<lparr>ps_pool = p, ps_next = Some 4, ps_added = tasks, ps_taken = [], ps_called = []\<rparr>"
proof -
  let ?p = "setThreadSize 4 (ThreadPool_new ''ThreadPool'' junk)"
  let ?s = "\<lambda>ts. \<lparr>ps_pool = ?p\<lparr>tp_queue := ts\<rparr>, ps_next = None, ps_added = ts, ps_taken = [], ps_called = []\<rparr>"
  have init: "pool_initial (?s [])" unfolding pool_initial_def
    by (intro exI [of _ "''ThreadPool''"] exI [of _ 4] exI [of _ None]) (simp add: setThreadSize_def ThreadPool_new_def)
  have "pool_reach throws (?s ts)" for ts
  proof (induction ts rule: rev_induct)
    case Nil
    show ?case by (rule reachable_start) (rule init)
  next
    case (snoc t ts)
    have "pool_step throws (?s ts) (?s (ts @ [t]))"
      using pool_step.add [of "?s ts" 0 throws t] by (simp add: tp_add_def notify_one_def setThreadSize_def ThreadPool_new_def)
    then show ?case using snoc by (blast intro: reachable_step)
  qed
  then have r: "pool_reach throws (?s tasks)" .
  let ?b = "start_begin (?p\<lparr>tp_queue := tasks\<rparr>)"
  have t: "\<lparr>ps_pool = ?b, ps_next = Some 0, ps_added = tasks, ps_taken = [], ps_called = []\<rparr>
      = (?s tasks)\<lparr>ps_pool := start_begin (ps_pool (?s tasks)), ps_next := Some 0\<rparr>" by simp
  have "pool_step throws (?s tasks) \<lparr>ps_pool = ?b, ps_next = Some 0, ps_added = tasks, ps_taken = [], ps_called = []\<rparr>"
    unfolding t by (rule pool_step.start) (simp_all add: setThreadSize_def ThreadPool_new_def)
  with r have b: "pool_reach throws \<lparr>ps_pool = ?b, ps_next = Some 0, ps_added = tasks, ps_taken = [], ps_called = []\<rparr>"
    by (rule reachable_step)
  have w: "length (tp_workers ?b) = 0" "tp_threadSize ?b = 4" "tp_queue ?b = tasks" "tp_running ?b"
    by (simp_all add: start_begin_def setThreadSize_def ThreadPool_new_def)
  from spawn_workers_spec [OF w(1), of 4] obtain p where p: "spawn_workers [0..<4] ?b = Inr p" "tp_queue p = tasks"
    "tp_running p" "tp_workers p = replicate 4 Fresh" using w by auto
  have "test_pool junk tasks = Inr p"
    using p(1) by (simp add: test_pool_def tp_start_def added_before_start setThreadSize_def ThreadPool_new_def start_begin_def)
  moreover have "pool_reach throws \<lparr>ps_pool = p, ps_next = Some 4, ps_added = tasks, ps_taken = [], ps_called = []\<rparr>"
    using spawn_workers_reach [OF b, of 0 4 p] p(1) w by simp
  ultimately show ?thesis using p by blast
qed

text \<open>The destructor at the end of the test returns after a bounded number of moves, and only when every task was
  taken, in the order of adding, and called.\<close>

lemma test_runs_every_task:
  assumes "\<And>f. \<not> throws f" and "test_pool junk (test_tasks showInfo sleep5) = Inr p"
    and "(worker_moves throws ^^ n) \<lparr>ps_pool = tp_stop p, ps_next = Some 4,
        ps_added = test_tasks showInfo sleep5, ps_taken = [], ps_called = []\<rparr> s"
  shows "n \<le> 10010 \<and> (worker_moves throws s = (\<lambda>_. False) \<longrightarrow> joins_return (ps_pool s)
    \<and> ps_taken s = test_tasks showInfo sleep5 \<and> mset (ps_called s) = mset (callables (test_tasks showInfo sleep5)))"
proof -
  let ?ts = "test_tasks showInfo sleep5"
  let ?s = "\<lparr>ps_pool = p, ps_next = Some 4, ps_added = ?ts, ps_taken = [], ps_called = []\<rparr>"
  have p: "tp_queue p = ?ts" "tp_workers p = replicate 4 Fresh" and r: "pool_reach throws ?s"
    using test_pool_started [of junk ?ts throws] assms(2) by auto
  have "pool_reach throws (?s\<lparr>ps_pool := tp_stop (ps_pool ?s)\<rparr>)" by (rule reachable_step [OF r]) (rule pool_step.stop)
  then have r: "pool_reach throws \<lparr>ps_pool = tp_stop p, ps_next = Some 4, ps_added = ?ts, ps_taken = [], ps_called = []\<rparr>"
    by simp
  have q: "tp_queue (tp_stop p) = ?ts" "tp_workers (tp_stop p) = replicate 4 Fresh" "\<not> tp_running (tp_stop p)"
    using p by (simp_all add: tp_stop_def notify_all_def)
  have "length ?ts = 5001" by (simp add: test_tasks_def)
  then show ?thesis using stopped_pool_drains [OF r _ assms(1) _ _ _ assms(3), of Fresh] q
    by (auto simp: alive_def joins_return_def)
qed

end
