(* ===== verification/MysqlConn.thy ===== *)
theory MysqlConn
  imports Prelude "HOL-Library.Signed_Division"
begin

text \<open>
  A database connection (\<open>src/src/mysql/MysqlConn.h\<close>, \<open>MysqlConn.cc\<close>) and the loop with which its
  clients read a result set (\<open>src/src/mysql/test/MysqlPoolTest.cc\<close>). The client library of MySQL is a
  record of functions; the locale \<open>mysql_client\<close> states what its documentation promises of
  stored result sets, and is interpreted on tables kept in memory.
\<close>

section \<open>The client library\<close>

text \<open>\<open>'d\<close> is the state of a \<open>MYSQL\<close> handle, \<open>'r\<close> a result set with its cursor, \<open>'w\<close> a row. The functions
  that return an error code return \<open>True\<close> for an error. A field is the memory its pointer leads
  to, which may go on after the value; it is missing for an SQL \<open>NULL\<close>. The lengths are missing when there is no
  current row.\<close>

record ('d, 'r, 'w) mysql_api =
  my_init :: "'d option"
  my_set_character_set :: "bytes \<Rightarrow> 'd \<Rightarrow> 'd"
  my_real_connect :: "bytes \<Rightarrow> bytes \<Rightarrow> bytes \<Rightarrow> bytes \<Rightarrow> nat \<Rightarrow> 'd \<Rightarrow> bool \<times> 'd"
  my_query :: "bytes \<Rightarrow> 'd \<Rightarrow> bool \<times> 'd"
  my_store_result :: "'d \<Rightarrow> 'r option \<times> 'd"
  my_fetch_row :: "'r \<Rightarrow> 'w option \<times> 'r"
  my_num_fields :: "'r \<Rightarrow> int"
  my_field :: "'w \<Rightarrow> nat \<Rightarrow> bytes option"
  my_fetch_lengths :: "'r \<Rightarrow> (nat \<Rightarrow> nat) option"
  my_autocommit :: "bool \<Rightarrow> 'd \<Rightarrow> bool \<times> 'd"
  my_commit :: "'d \<Rightarrow> bool \<times> 'd"
  my_rollback :: "'d \<Rightarrow> bool \<times> 'd"

section \<open>The connection\<close>

text \<open>A row belongs to its result set; \<open>mc_row_freed\<close> records that the set of the row \<open>row_\<close> points to is gone.\<close>

record ('d, 'r, 'w) mysql_conn =
  mc_conn :: "'d option"
  mc_result :: "'r option"
  mc_row :: "'w option"
  mc_row_freed :: bool
  mc_alivetime :: int

definition on_handle :: "('d \<Rightarrow> 'x \<times> 'd) \<Rightarrow> ('d, 'r, 'w) mysql_conn \<Rightarrow> ('x \<times> ('d, 'r, 'w) mysql_conn) res" where
  "on_handle f c =
     (case mc_conn c of
        None \<Rightarrow> Inl NullDeref
      | Some d \<Rightarrow> (let (x, d') = f d in Inr (x, c\<lparr>mc_conn := Some d'\<rparr>)))"

definition MysqlConn_new :: "('d, 'r, 'w) mysql_api \<Rightarrow> ('d, 'r, 'w) mysql_conn res" where
  "MysqlConn_new my =
     bindR (on_handle (\<lambda>d. ((), my_set_character_set my ''utf8'' d))
              \<lparr>mc_conn = my_init my, mc_result = None, mc_row = None, mc_row_freed = False, mc_alivetime = 0\<rparr>)
       (\<lambda>(_, c). Inr c)"

definition freeResult :: "('d, 'r, 'w) mysql_conn \<Rightarrow> ('d, 'r, 'w) mysql_conn" where
  "freeResult c = (if mc_result c \<noteq> None then c\<lparr>mc_result := None, mc_row_freed := True\<rparr> else c)"

text \<open>The destructor leaves neither a handle nor a result set allocated.\<close>

definition MysqlConn_destroy :: "('d, 'r, 'w) mysql_conn \<Rightarrow> ('d, 'r, 'w) mysql_conn" where
  "MysqlConn_destroy c = freeResult (if mc_conn c \<noteq> None then c\<lparr>mc_conn := None\<rparr> else c)"

definition my_connect ::
  "('d, 'r, 'w) mysql_api \<Rightarrow> bytes \<Rightarrow> bytes \<Rightarrow> bytes \<Rightarrow> bytes \<Rightarrow> nat
    \<Rightarrow> ('d, 'r, 'w) mysql_conn \<Rightarrow> (bool \<times> ('d, 'r, 'w) mysql_conn) res"
where
  "my_connect my user passwd dbName ip port =
     on_handle (my_real_connect my (c_str ip) (c_str user) (c_str passwd) (c_str dbName) port)"

definition my_update :: "('d, 'r, 'w) mysql_api \<Rightarrow> bytes \<Rightarrow> ('d, 'r, 'w) mysql_conn \<Rightarrow> (bool \<times> ('d, 'r, 'w) mysql_conn) res" where
  "my_update my sql c = bindR (on_handle (my_query my (c_str sql)) c) (\<lambda>(err, c1). Inr (\<not> err, c1))"

definition my_select :: "('d, 'r, 'w) mysql_api \<Rightarrow> bytes \<Rightarrow> ('d, 'r, 'w) mysql_conn \<Rightarrow> (bool \<times> ('d, 'r, 'w) mysql_conn) res" where
  "my_select my sql c =
     bindR (on_handle (my_query my (c_str sql)) (freeResult c)) (\<lambda>(err, c1).
       if err then Inr (False, c1)
       else bindR (on_handle (my_store_result my) c1) (\<lambda>(r, c2). Inr (True, c2\<lparr>mc_result := r\<rparr>)))"

definition my_next :: "('d, 'r, 'w) mysql_api \<Rightarrow> ('d, 'r, 'w) mysql_conn \<Rightarrow> bool \<times> ('d, 'r, 'w) mysql_conn" where
  "my_next my c =
     (case mc_result c of
        None \<Rightarrow> (False, c)
      | Some r \<Rightarrow> (let (row, r') = my_fetch_row my r
                   in (row \<noteq> None, c\<lparr>mc_result := Some r', mc_row := row, mc_row_freed := False\<rparr>)))"

text \<open>\<open>std::string(val, length)\<close> with a null \<open>val\<close> is the empty string when \<open>length\<close> is 0.\<close>

definition my_value :: "('d, 'r, 'w) mysql_api \<Rightarrow> int \<Rightarrow> ('d, 'r, 'w) mysql_conn \<Rightarrow> bytes res" where
  "my_value my index c =
     (case mc_result c of
        None \<Rightarrow> Inl NullDeref
      | Some r \<Rightarrow>
          (if index \<ge> my_num_fields my r \<or> index < 0 then Inr []
           else case mc_row c of
                  None \<Rightarrow> Inl NullDeref
                | Some w \<Rightarrow>
                    (if mc_row_freed c then Inl UseAfterFree
                     else case my_fetch_lengths my r of
                            None \<Rightarrow> Inl NullDeref
                          | Some lengths \<Rightarrow>
                              (case my_field my w (nat index) of
                                 None \<Rightarrow> (if lengths (nat index) = 0 then Inr [] else Inl NullDeref)
                               | Some val \<Rightarrow> (if lengths (nat index) \<le> length val
                                               then Inr (take (lengths (nat index)) val) else Inl OutOfBounds)))))"

definition my_transaction :: "('d, 'r, 'w) mysql_api \<Rightarrow> ('d, 'r, 'w) mysql_conn \<Rightarrow> (bool \<times> ('d, 'r, 'w) mysql_conn) res" where
  "my_transaction my = on_handle (my_autocommit my False)"

definition my_do_commit :: "('d, 'r, 'w) mysql_api \<Rightarrow> ('d, 'r, 'w) mysql_conn \<Rightarrow> (bool \<times> ('d, 'r, 'w) mysql_conn) res" where
  "my_do_commit my = on_handle (my_commit my)"

definition rollbock :: "('d, 'r, 'w) mysql_api \<Rightarrow> ('d, 'r, 'w) mysql_conn \<Rightarrow> (bool \<times> ('d, 'r, 'w) mysql_conn) res" where
  "rollbock my = on_handle (my_rollback my)"

definition refreshAliveTime :: "int \<Rightarrow> ('d, 'r, 'w) mysql_conn \<Rightarrow> ('d, 'r, 'w) mysql_conn" where
  "refreshAliveTime now c = c\<lparr>mc_alivetime := now\<rparr>"

text \<open>Nanoseconds to milliseconds, truncating.\<close>

definition getAliveTime :: "int \<Rightarrow> ('d, 'r, 'w) mysql_conn \<Rightarrow> int" where
  "getAliveTime now c = (now - mc_alivetime c) sdiv 1000000"

text \<open>The loop of a client over a result set, as \<open>query\<close> of the pool's test program has it: while
  \<open>next\<close> finds a row, it prints the values of four columns.\<close>

primrec print_values :: "('d, 'r, 'w) mysql_api \<Rightarrow> int list \<Rightarrow> ('d, 'r, 'w) mysql_conn \<Rightarrow> bytes res" where
  "print_values my [] c = Inr []"
| "print_values my (i # is) c =
     bindR (my_value my i c) (\<lambda>v.
       bindR (print_values my is c) (\<lambda>rest. Inr (v @ (if is = [] then [CHR 0x0A] else '', '' @ rest))))"

partial_function (option) print_rows ::
  "('d, 'r, 'w) mysql_api \<Rightarrow> bytes \<Rightarrow> ('d, 'r, 'w) mysql_conn \<Rightarrow> (bytes \<times> ('d, 'r, 'w) mysql_conn) res option"
where
  "print_rows my printed c =
     (let (more, c1) = my_next my c
      in if more
         then (case print_values my [0, 1, 2, 3] c1 of
                 Inl e \<Rightarrow> Some (Inl e)
               | Inr line \<Rightarrow> print_rows my (printed @ line) c1)
         else Some (Inr (printed, c1)))"

text \<open>The whole of that \<open>query\<close>: what it prints, and the connection after its destructor.\<close>

definition query_user :: "('d, 'r, 'w) mysql_api \<Rightarrow> (bytes \<times> ('d, 'r, 'w) mysql_conn) res option" where
  "query_user my =
     (case bindR (MysqlConn_new my) (\<lambda>c.
             bindR (my_connect my ''root'' ''123456'' ''test'' ''127.0.0.1'' 3306 c) (\<lambda>(_, c1).
               bindR (my_update my ''insert into user values(1, 'zhang san', '221B')'' c1) (\<lambda>(flag, c2).
                 bindR (my_select my ''select * from user'' c2) (\<lambda>(_, c3). Inr (flag, c3))))) of
        Inl e \<Rightarrow> Some (Inl e)
      | Inr (flag, c) \<Rightarrow>
          map_option (map_sum id (map_prod id MysqlConn_destroy))
            (print_rows my (''flag value:  '' @ [if flag then CHR ''1'' else CHR ''0'', CHR 0x0A]) c))"

section \<open>Result sets\<close>

text \<open>A row as SQL has it, its values as \<open>value\<close> is to return them, and the line printed for it.\<close>

type_synonym cells = "bytes option list"

definition cell_text :: "cells \<Rightarrow> int \<Rightarrow> bytes" where
  "cell_text row i = (if 0 \<le> i \<and> i < int (length row) then case row ! nat i of None \<Rightarrow> [] | Some v \<Rightarrow> v else [])"

definition row_line :: "cells \<Rightarrow> bytes" where
  "row_line row = cell_text row 0 @ '', '' @ cell_text row 1 @ '', '' @ cell_text row 2 @ '', '' @ cell_text row 3 @ [CHR 0x0A]"

text \<open>The row just fetched: a pointer for each value and its length; the memory may hold more, and a value
  may contain zero bytes.\<close>

definition holds_row :: "('d, 'r, 'w) mysql_api \<Rightarrow> 'r \<Rightarrow> 'w \<Rightarrow> cells \<Rightarrow> bool" where
  "holds_row my r w row \<longleftrightarrow>
     (\<exists>lengths. my_fetch_lengths my r = Some lengths
        \<and> (\<forall>i < length row. case row ! i of
              None \<Rightarrow> my_field my w i = None \<and> lengths i = 0
            | Some v \<Rightarrow> (\<exists>rest. my_field my w i = Some (v @ rest)) \<and> lengths i = length v))"

locale mysql_client =
  fixes my :: "('d, 'r, 'w) mysql_api" and rows :: "'r \<Rightarrow> cells list"
  assumes fetch_end: "rows r = [] \<Longrightarrow> fst (my_fetch_row my r) = None \<and> rows (snd (my_fetch_row my r)) = []"
    and fetch_next: "rows r = row # rest \<Longrightarrow>
      \<exists>w r'. my_fetch_row my r = (Some w, r') \<and> rows r' = rest \<and> my_num_fields my r' = my_num_fields my r
        \<and> holds_row my r' w row"
    and widths: "row \<in> set (rows r) \<Longrightarrow> my_num_fields my r = int (length row)"
begin

lemma value_of_row:
  assumes "mc_result c = Some r" "mc_row c = Some w" "\<not> mc_row_freed c" "holds_row my r w row"
    "my_num_fields my r = int (length row)"
  shows "my_value my i c = Inr (cell_text row i)"
proof (cases "0 \<le> i \<and> i < int (length row)")
  case True
  then have "nat i < length row" by linarith
  then show ?thesis using True assms
    by (cases "row ! nat i") (fastforce simp: my_value_def cell_text_def holds_row_def)+
qed (use assms in \<open>auto simp: my_value_def cell_text_def\<close>)

lemma next_row:
  assumes "mc_result c = Some r" "rows r = row # rest"
  shows "\<exists>c' r'. my_next my c = (True, c') \<and> mc_result c' = Some r' \<and> rows r' = rest
    \<and> (\<forall>i. my_value my i c' = Inr (cell_text row i))"
proof -
  obtain w r' where f: "my_fetch_row my r = (Some w, r')" "rows r' = rest" "my_num_fields my r' = my_num_fields my r"
    "holds_row my r' w row"
    using fetch_next [OF assms(2)] by blast
  let ?c = "c\<lparr>mc_result := Some r', mc_row := Some w, mc_row_freed := False\<rparr>"
  have "my_num_fields my r' = int (length row)" using widths [of row r] assms(2) f(3) by simp
  then have "my_value my i ?c = Inr (cell_text row i)" for i
    using f(4) by (intro value_of_row) auto
  moreover have "my_next my c = (True, ?c)" using assms(1) f(1) by (simp add: my_next_def)
  ultimately show ?thesis using f(2) by fastforce
qed

lemma next_end:
  assumes "mc_result c = Some r" "rows r = []"
  shows "\<exists>c' r'. my_next my c = (False, c') \<and> mc_result c' = Some r' \<and> rows r' = [] \<and> mc_row c' = None"
  using fetch_end [OF assms(2)] assms(1) by (auto simp: my_next_def split: prod.splits)

lemma print_rows_all:
  assumes "mc_result c = Some r" "rows r = rs"
  shows "\<exists>c' r'. print_rows my printed c = Some (Inr (printed @ concat (map row_line rs), c'))
    \<and> mc_result c' = Some r' \<and> rows r' = [] \<and> mc_row c' = None"
  using assms
proof (induction rs arbitrary: c r printed)
  case Nil
  then show ?case using next_end by (subst print_rows.simps) fastforce
next
  case (Cons row rs)
  obtain c1 r1 where n: "my_next my c = (True, c1)" "mc_result c1 = Some r1" "rows r1 = rs"
    "\<forall>i. my_value my i c1 = Inr (cell_text row i)"
    using next_row [OF Cons.prems] by blast
  then have "print_values my [0, 1, 2, 3] c1 = Inr (row_line row)" by (simp add: row_line_def)
  with n(1) have "print_rows my printed c = print_rows my (printed @ row_line row) c1"
    by (subst print_rows.simps) simp
  then show ?case using Cons.IH [OF n(2,3), where printed = "printed @ row_line row"] by simp
qed

end

text \<open>What \<open>query\<close> stores is there to be read; what was read before is not: until \<open>next\<close> is called, \<open>row_\<close>
  still points into the freed set.\<close>

lemma query_stores:
  assumes "mc_conn c = Some d" "my_query my (c_str sql) d = (False, d1)" "my_store_result my d1 = (r, d2)"
  shows "\<exists>c'. my_select my sql c = Inr (True, c') \<and> mc_result c' = r \<and> mc_row c' = mc_row c
    \<and> (mc_row_freed c' \<longleftrightarrow> mc_row_freed c \<or> mc_result c \<noteq> None)"
  using assms by (auto simp: my_select_def on_handle_def freeResult_def)

lemma stale_row_read:
  assumes "mc_result c \<noteq> None" "mc_row c \<noteq> None" "my_select my sql c = Inr (True, c')"
    "mc_result c' = Some r" "0 \<le> i" "i < my_num_fields my r"
  shows "my_value my i c' = Inl UseAfterFree"
  using assms
  by (auto simp: my_select_def on_handle_def freeResult_def my_value_def bindR_Inr_iff
      split: option.splits if_splits prod.splits)

section \<open>Tables in memory\<close>

text \<open>A client library over one table of three columns: \<open>insert\<close> adds the row of the test program, \<open>select\<close>
  makes the whole table the next result. Values are followed by a zero byte, as in the rows of MySQL.\<close>

type_synonym user_row = "bytes option \<times> bytes option \<times> bytes option"

definition row_cells :: "user_row \<Rightarrow> cells" where
  "row_cells w = [fst w, fst (snd w), snd (snd w)]"

definition mem_query :: "bytes \<Rightarrow> user_row list \<times> bool \<Rightarrow> bool \<times> user_row list \<times> bool" where
  "mem_query sql d =
     (if take 6 sql = ''insert''
      then (False, fst d @ [(Some ''1'', Some ''zhang san'', Some ''221B'')], False)
      else if take 6 sql = ''select'' then (False, fst d, True) else (True, d))"

definition mem_fetch :: "user_row list \<times> user_row option \<Rightarrow> user_row option \<times> user_row list \<times> user_row option" where
  "mem_fetch r = (case fst r of [] \<Rightarrow> (None, [], None) | w # ws \<Rightarrow> (Some w, ws, Some w))"

definition mem_api :: "user_row list \<Rightarrow> (user_row list \<times> bool, user_row list \<times> user_row option, user_row) mysql_api" where
  "mem_api table =
     \<lparr>my_init = Some (table, False), my_set_character_set = (\<lambda>cs d. d),
      my_real_connect = (\<lambda>ip user passwd db port d. (True, d)), my_query = mem_query,
      my_store_result = (\<lambda>d. (if snd d then Some (fst d, None) else None, (fst d, False))),
      my_fetch_row = mem_fetch, my_num_fields = (\<lambda>r. 3),
      my_field = (\<lambda>w i. map_option (\<lambda>v. v @ [CHR 0x00]) (row_cells w ! i)),
      my_fetch_lengths = (\<lambda>r. map_option (\<lambda>w i. case row_cells w ! i of None \<Rightarrow> 0 | Some v \<Rightarrow> length v) (snd r)),
      my_autocommit = (\<lambda>b d. (False, d)), my_commit = (\<lambda>d. (False, d)), my_rollback = (\<lambda>d. (False, d))\<rparr>"

interpretation mem: mysql_client "mem_api table" "\<lambda>r. map row_cells (fst r)" for table
proof
  fix r :: "user_row list \<times> user_row option" and row rest
  show "map row_cells (fst r) = [] \<Longrightarrow> fst (my_fetch_row (mem_api table) r) = None
      \<and> map row_cells (fst (snd (my_fetch_row (mem_api table) r))) = []"
    by (simp add: mem_api_def mem_fetch_def)
  show "row \<in> set (map row_cells (fst r)) \<Longrightarrow> my_num_fields (mem_api table) r = int (length row)"
    by (auto simp: mem_api_def row_cells_def)
  assume "map row_cells (fst r) = row # rest"
  then obtain w ws where w: "fst r = w # ws" "row = row_cells w" "rest = map row_cells ws" by auto
  have "holds_row (mem_api table) (ws, Some w) w (row_cells w)"
    by (auto simp: holds_row_def mem_api_def split: option.split)
  then show "\<exists>w r'. my_fetch_row (mem_api table) r = (Some w, r') \<and> map row_cells (fst r') = rest
      \<and> my_num_fields (mem_api table) r' = my_num_fields (mem_api table) r \<and> holds_row (mem_api table) r' w row"
    using w by (auto simp: mem_api_def mem_fetch_def)
qed

text \<open>The test program's \<open>query\<close> on such a table prints the rows that were there and the one it inserts.\<close>

lemma query_user_prints:
  "\<exists>c. query_user (mem_api table)
     = Some (Inr (''flag value:  1'' @ [CHR 0x0A] @ concat (map (row_line \<circ> row_cells) table)
         @ ''1, zhang san, 221B, '' @ [CHR 0x0A], c))
     \<and> mc_conn c = None \<and> mc_result c = None"
proof -
  let ?rows = "table @ [(Some ''1'', Some ''zhang san'', Some ''221B'')]"
  let ?c = "\<lparr>mc_conn = Some (?rows, False), mc_result = Some (?rows, None), mc_row = None, mc_row_freed = False, mc_alivetime = 0\<rparr>"
  have q: "query_user (mem_api table)
    = map_option (map_sum id (map_prod id MysqlConn_destroy)) (print_rows (mem_api table) (''flag value:  1'' @ [CHR 0x0A]) ?c)"
    by (simp add: query_user_def MysqlConn_new_def my_connect_def my_update_def my_select_def on_handle_def
        freeResult_def mem_api_def mem_query_def c_str_def)
  have "mc_result ?c = Some (?rows, None)" "map row_cells (fst (?rows, None :: user_row option)) = map row_cells ?rows" by simp_all
  then obtain c where "print_rows (mem_api table) (''flag value:  1'' @ [CHR 0x0A]) ?c
      = Some (Inr ((''flag value:  1'' @ [CHR 0x0A]) @ concat (map row_line (map row_cells ?rows)), c))"
    using mem.print_rows_all by blast
  moreover have "row_line (row_cells (Some ''1'', Some ''zhang san'', Some ''221B'')) = ''1, zhang san, 221B, '' @ [CHR 0x0A]"
    by (simp add: row_line_def row_cells_def cell_text_def)
  moreover have "mc_conn (MysqlConn_destroy c) = None \<and> mc_result (MysqlConn_destroy c) = None"
    by (cases "mc_conn c"; cases "mc_result c") (simp_all add: MysqlConn_destroy_def freeResult_def)
  ultimately show ?thesis unfolding q by (simp add: comp_def)
qed

section \<open>Properties\<close>

text \<open>Claim C37. When the server accepts a query and its result is stored, the loop \<open>while (conn.next())\<close>
  with \<open>value\<close> returns: it delivers every row of the result once and in order, each value with all its bytes,
  zero bytes included, \<open>NULL\<close> and columns out of range as empty strings; after it \<open>next\<close> stays false.\<close>

theorem rows_read_in_order:
  assumes "mysql_client my rows" and "mc_conn c = Some d" and "my_query my (c_str sql) d = (False, d1)"
    and "my_store_result my d1 = (Some r, d2)"
  shows "\<exists>c1 c2. my_select my sql c = Inr (True, c1)
    \<and> print_rows my printed c1 = Some (Inr (printed @ concat (map row_line (rows r)), c2))
    \<and> fst (my_next my c2) = False"
proof -
  obtain c1 where c1: "my_select my sql c = Inr (True, c1)" "mc_result c1 = Some r"
    using query_stores [OF assms(2-4)] by blast
  obtain c2 r2 where c2: "print_rows my printed c1 = Some (Inr (printed @ concat (map row_line (rows r)), c2))"
    "mc_result c2 = Some r2" "rows r2 = []"
    using mysql_client.print_rows_all [OF assms(1) c1(2) refl] by blast
  have "fst (my_next my c2) = False" using mysql_client.next_end [OF assms(1) c2(2,3)] by auto
  then show ?thesis using c1 c2 by blast
qed

definition sample_table :: "user_row list" where
  "sample_table = [(Some ''7'', None, Some (''a'' @ [CHR 0x00] @ ''b'')), (Some ''8'', Some ''li'', None)]"

definition sample_mysql :: "(user_row list \<times> bool, user_row list \<times> user_row option, user_row) mysql_conn" where
  "sample_mysql = \<lparr>mc_conn = Some (sample_table, False), mc_result = None, mc_row = None, mc_row_freed = False, mc_alivetime = 0\<rparr>"

theorem rows_read_in_order_witness:
  "\<exists>c1 c2. my_select (mem_api []) ''select * from user'' sample_mysql = Inr (True, c1)
    \<and> print_rows (mem_api []) [] c1 =
        Some (Inr (''7, , a'' @ [CHR 0x00] @ ''b, '' @ [CHR 0x0A] @ ''8, li, , '' @ [CHR 0x0A], c2))
    \<and> fst (my_next (mem_api []) c2) = False"
  using rows_read_in_order [OF mem.mysql_client_axioms, of sample_mysql "(sample_table, False)" "[]" "''select * from user''"
      "(sample_table, True)" "(sample_table, None)" "(sample_table, False)" "[]"]
  by (simp add: sample_mysql_def mem_api_def mem_query_def c_str_def sample_table_def row_line_def row_cells_def cell_text_def)

end
