(* ===== verification/ConnectionPool.thy ===== *)
theory ConnectionPool
  imports MysqlConn Transitions "HOL-Library.Multiset"
begin

text \<open>
  The pool of database connections (\<open>src/src/mysql/ConnectionPool.h\<close>, \<open>ConnectionPool.cc\<close>). Its producer
  and recycler threads and the users of its connections interleave at the mutex. The connections are
  the objects of \<open>MysqlConn\<close> in a store, so that an access to a deleted one is an error of the model; the
  parsed configuration file is an argument, clock readings are nanoseconds of the steady clock.
\<close>

section \<open>The pool\<close>

text \<open>Connections are addresses in \<open>cp_heap\<close>, which holds nothing for a deleted one. The pool is a static
  object, so \<open>currentSize_\<close> starts at 0. \<open>cp_lent\<close> are the connections that users have.\<close>

record ('d, 'r, 'w) conn_pool =
  cp_ip :: bytes
  cp_user :: bytes
  cp_passwd :: bytes
  cp_dbName :: bytes
  cp_port :: nat
  cp_minSize :: int
  cp_maxSize :: int
  cp_currentSize :: int
  cp_timeout :: int
  cp_maxIdleTime :: int
  cp_queue :: "nat list"
  cp_lent :: "nat list"
  cp_heap :: "('d, 'r, 'w) mysql_conn option list"

record pool_conf =
  conf_ip :: bytes
  conf_userName :: bytes
  conf_password :: bytes
  conf_dbName :: bytes
  conf_port :: nat
  conf_minSize :: int
  conf_maxSize :: int
  conf_timeout :: int
  conf_maxIdleTime :: int

definition parseJsonFile :: "pool_conf \<Rightarrow> ('d, 'r, 'w) conn_pool \<Rightarrow> ('d, 'r, 'w) conn_pool" where
  "parseJsonFile conf p =
     p\<lparr>cp_ip := conf_ip conf, cp_user := conf_userName conf, cp_passwd := conf_password conf,
       cp_dbName := conf_dbName conf, cp_port := conf_port conf, cp_minSize := conf_minSize conf,
       cp_maxSize := conf_maxSize conf, cp_timeout := conf_timeout conf, cp_maxIdleTime := conf_maxIdleTime conf\<rparr>"

text \<open>The result of \<open>connect\<close> is not looked at.\<close>

definition addConnection ::
  "('d, 'r, 'w) mysql_api \<Rightarrow> int \<Rightarrow> ('d, 'r, 'w) conn_pool \<Rightarrow> ('d, 'r, 'w) conn_pool res"
where
  "addConnection my now p =
     bindR (MysqlConn_new my) (\<lambda>c.
       bindR (my_connect my (cp_user p) (cp_passwd p) (cp_dbName p) (cp_ip p) (cp_port p) c) (\<lambda>(_, c1).
         Inr (p\<lparr>cp_heap := cp_heap p @ [Some (refreshAliveTime now c1)], cp_queue := cp_queue p @ [length (cp_heap p)],
                cp_currentSize := cp_currentSize p + 1\<rparr>)))"

text \<open>The constructor and \<open>produceConnection\<close> count a connection that \<open>addConnection\<close> has counted.\<close>

definition add_and_count ::
  "('d, 'r, 'w) mysql_api \<Rightarrow> int \<Rightarrow> ('d, 'r, 'w) conn_pool \<Rightarrow> ('d, 'r, 'w) conn_pool res"
where
  "add_and_count my now p = bindR (addConnection my now p) (\<lambda>p1. Inr (p1\<lparr>cp_currentSize := cp_currentSize p1 + 1\<rparr>))"

text \<open>The loop of the constructor, with the clock reading for each of the \<open>minSize_\<close> connections.\<close>

primrec add_many ::
  "('d, 'r, 'w) mysql_api \<Rightarrow> int list \<Rightarrow> ('d, 'r, 'w) conn_pool \<Rightarrow> ('d, 'r, 'w) conn_pool res"
where
  "add_many my [] p = Inr p"
| "add_many my (now # stamps) p = bindR (add_and_count my now p) (add_many my stamps)"

definition ConnectionPool_new ::
  "('d, 'r, 'w) mysql_api \<Rightarrow> pool_conf \<Rightarrow> (nat \<Rightarrow> int) \<Rightarrow> ('d, 'r, 'w) conn_pool res"
where
  "ConnectionPool_new my conf clock =
     (let p = parseJsonFile conf
                \<lparr>cp_ip = [], cp_user = [], cp_passwd = [], cp_dbName = [], cp_port = 0, cp_minSize = 0, cp_maxSize = 0,
                 cp_currentSize = 0, cp_timeout = 0, cp_maxIdleTime = 0, cp_queue = [], cp_lent = [], cp_heap = []\<rparr>
      in add_many my (map clock [0..<nat (cp_minSize p)]) p)"

definition deref_conn :: "nat \<Rightarrow> ('d, 'r, 'w) conn_pool \<Rightarrow> ('d, 'r, 'w) mysql_conn res" where
  "deref_conn c p =
     (if c < length (cp_heap p) then (case cp_heap p ! c of None \<Rightarrow> Inl UseAfterFree | Some x \<Rightarrow> Inr x)
      else Inl OutOfBounds)"

text \<open>Taking the front connection and deleting it.\<close>

definition delete_front :: "('d, 'r, 'w) conn_pool \<Rightarrow> ('d, 'r, 'w) conn_pool" where
  "delete_front p = p\<lparr>cp_queue := tl (cp_queue p), cp_heap := (cp_heap p)[hd (cp_queue p) := None],
     cp_currentSize := cp_currentSize p - 1\<rparr>"

function ConnectionPool_destroy :: "('d, 'r, 'w) conn_pool \<Rightarrow> ('d, 'r, 'w) conn_pool res" where
  "ConnectionPool_destroy p =
     (if cp_queue p = [] then Inr p
      else bindR (deref_conn (hd (cp_queue p)) p) (\<lambda>_. ConnectionPool_destroy (delete_front p)))"
  by pat_completeness auto
termination by (relation "measure (\<lambda>p. length (cp_queue p))") (auto simp: delete_front_def)

text \<open>One round of the loop of \<open>produceConnection\<close>; it waits while connections are available.\<close>

definition produceConnection ::
  "('d, 'r, 'w) mysql_api \<Rightarrow> int \<Rightarrow> ('d, 'r, 'w) conn_pool \<Rightarrow> ('d, 'r, 'w) conn_pool res"
where
  "produceConnection my now p =
     (if cp_queue p \<noteq> [] then Inr p
      else if cp_currentSize p < cp_maxSize p then add_and_count my now p else Inr p)"

text \<open>The inner loop of \<open>recycleConnection\<close>; the size is unsigned, so \<open>minSize_\<close> is converted.
  \<open>clock n\<close> is the time read when \<open>n\<close> connections are in the queue.\<close>

function recycleConnection :: "(nat \<Rightarrow> int) \<Rightarrow> ('d, 'r, 'w) conn_pool \<Rightarrow> ('d, 'r, 'w) conn_pool res" where
  "recycleConnection clock p =
     (if size_of_int (cp_minSize p) < length (cp_queue p)
      then bindR (deref_conn (hd (cp_queue p)) p) (\<lambda>conn.
             if getAliveTime (clock (length (cp_queue p))) conn \<ge> cp_maxIdleTime p
             then recycleConnection clock (delete_front p)
             else Inr p)
      else Inr p)"
  by pat_completeness auto
termination by (relation "measure (\<lambda>(_, p). length (cp_queue p))") (auto simp: delete_front_def)

declare recycleConnection.simps [simp del] ConnectionPool_destroy.simps [simp del]

text \<open>\<open>getConnection\<close> blocks while the queue is empty; the deleter of the shared pointer gives the
  connection back.\<close>

definition getConnection :: "('d, 'r, 'w) conn_pool \<Rightarrow> (nat \<times> ('d, 'r, 'w) conn_pool) option" where
  "getConnection p =
     (case cp_queue p of
        [] \<Rightarrow> None
      | c # rest \<Rightarrow> Some (c, p\<lparr>cp_queue := rest, cp_lent := cp_lent p @ [c]\<rparr>))"

definition giveBack :: "nat \<Rightarrow> int \<Rightarrow> ('d, 'r, 'w) conn_pool \<Rightarrow> ('d, 'r, 'w) conn_pool res" where
  "giveBack c now p =
     bindR (deref_conn c p) (\<lambda>conn.
       Inr (p\<lparr>cp_lent := remove1 c (cp_lent p), cp_heap := (cp_heap p)[c := Some (refreshAliveTime now conn)],
              cp_queue := cp_queue p @ [c]\<rparr>))"

section \<open>Users and threads\<close>

text \<open>What a user does with a connection it has.\<close>

datatype user_call = Update bytes | Select bytes | Next | Transaction | Commit | Rollback

fun call_conn :: "('d, 'r, 'w) mysql_api \<Rightarrow> user_call \<Rightarrow> ('d, 'r, 'w) mysql_conn \<Rightarrow> (bool \<times> ('d, 'r, 'w) mysql_conn) res" where
  "call_conn my (Update sql) c = my_update my sql c"
| "call_conn my (Select sql) c = my_select my sql c"
| "call_conn my Next c = Inr (my_next my c)"
| "call_conn my Transaction c = my_transaction my c"
| "call_conn my Commit c = my_do_commit my c"
| "call_conn my Rollback c = rollbock my c"

definition use_conn ::
  "('d, 'r, 'w) mysql_api \<Rightarrow> nat \<Rightarrow> user_call \<Rightarrow> ('d, 'r, 'w) conn_pool \<Rightarrow> ('d, 'r, 'w) conn_pool res"
where
  "use_conn my c call p =
     bindR (deref_conn c p) (\<lambda>conn. bindR (call_conn my call conn) (\<lambda>(_, conn').
       Inr (p\<lparr>cp_heap := (cp_heap p)[c := Some conn']\<rparr>)))"

text \<open>The steps between the times \<open>t\<close> and \<open>t'\<close>. The state is the time and the pool, or the error that
  stopped the program.\<close>

inductive cp_step ::
  "('d, 'r, 'w) mysql_api \<Rightarrow> int \<times> ('d, 'r, 'w) conn_pool res \<Rightarrow> int \<times> ('d, 'r, 'w) conn_pool res \<Rightarrow> bool" for my
where
  produce: "t \<le> now \<Longrightarrow> now \<le> t' \<Longrightarrow> cp_step my (t, Inr p) (t', produceConnection my now p)"
| recycle: "(\<And>n. t \<le> clock n \<and> clock n \<le> t') \<Longrightarrow> cp_step my (t, Inr p) (t', recycleConnection clock p)"
| get: "t \<le> t' \<Longrightarrow> getConnection p = Some (c, p') \<Longrightarrow> cp_step my (t, Inr p) (t', Inr p')"
| call: "t \<le> t' \<Longrightarrow> c \<in> set (cp_lent p) \<Longrightarrow> cp_step my (t, Inr p) (t', use_conn my c call p)"
| give: "t \<le> now \<Longrightarrow> now \<le> t' \<Longrightarrow> c \<in> set (cp_lent p) \<Longrightarrow> cp_step my (t, Inr p) (t', giveBack c now p)"

inductive_cases cp_stepE: "cp_step my s s'"

definition cp_initial :: "('d, 'r, 'w) mysql_api \<Rightarrow> pool_conf \<Rightarrow> int \<times> ('d, 'r, 'w) conn_pool res \<Rightarrow> bool" where
  "cp_initial my conf s \<longleftrightarrow>
     (\<exists>clock. mono clock \<and> (\<forall>n. clock n \<le> fst s) \<and> snd s = ConnectionPool_new my conf clock)"

abbreviation cp_reach :: "('d, 'r, 'w) mysql_api \<Rightarrow> pool_conf \<Rightarrow> int \<times> ('d, 'r, 'w) conn_pool res \<Rightarrow> bool" where
  "cp_reach my conf \<equiv> reachable (cp_initial my conf) (cp_step my)"

lemma cp_init: "cp_reach my conf (t, ConnectionPool_new my conf (\<lambda>_. t))"
  by (rule reachable_start) (auto simp: cp_initial_def mono_def intro!: exI [of _ "\<lambda>_. t"])

section \<open>Invariant\<close>

definition cp_live :: "('d, 'r, 'w) conn_pool \<Rightarrow> nat list" where
  "cp_live p = cp_queue p @ cp_lent p"

definition idle_since :: "('d, 'r, 'w) conn_pool \<Rightarrow> nat \<Rightarrow> int" where
  "idle_since p c = mc_alivetime (the (cp_heap p ! c))"

text \<open>The connections in the queue and with users are exactly the objects that exist, each in one place and
  with a handle.\<close>

definition cp_places :: "('d, 'r, 'w) conn_pool \<Rightarrow> bool" where
  "cp_places p \<longleftrightarrow> distinct (cp_live p) \<and> set (cp_live p) = {c. c < length (cp_heap p) \<and> cp_heap p ! c \<noteq> None}
     \<and> (\<forall>c. c < length (cp_heap p) \<longrightarrow> (case cp_heap p ! c of None \<Rightarrow> True | Some x \<Rightarrow> mc_conn x \<noteq> None))"

text \<open>\<open>currentSize_\<close> counts the live connections plus all that were ever created.\<close>

definition cp_count :: "pool_conf \<Rightarrow> ('d, 'r, 'w) conn_pool \<Rightarrow> bool" where
  "cp_count conf p \<longleftrightarrow> cp_currentSize p = int (length (cp_live p)) + int (length (cp_heap p))
     \<and> cp_currentSize p \<le> max (2 * int (nat (conf_minSize conf))) (conf_maxSize conf + 1)
     \<and> cp_minSize p = conf_minSize conf \<and> cp_maxSize p = conf_maxSize conf \<and> cp_maxIdleTime p = conf_maxIdleTime conf"

text \<open>The queue is ordered by the time since which its connections are idle.\<close>

definition cp_idle :: "int \<Rightarrow> ('d, 'r, 'w) conn_pool \<Rightarrow> bool" where
  "cp_idle t p \<longleftrightarrow> sorted (map (idle_since p) (cp_queue p)) \<and> (\<forall>c \<in> set (cp_queue p). idle_since p c \<le> t)"

definition cp_inv :: "pool_conf \<Rightarrow> int \<Rightarrow> ('d, 'r, 'w) conn_pool \<Rightarrow> bool" where
  "cp_inv conf t p \<longleftrightarrow> cp_places p \<and> cp_count conf p \<and> cp_idle t p"

text \<open>The program stops only when \<open>mysql_init\<close> has no memory.\<close>

fun cp_ok :: "('d, 'r, 'w) mysql_api \<Rightarrow> pool_conf \<Rightarrow> int \<times> ('d, 'r, 'w) conn_pool res \<Rightarrow> bool" where
  "cp_ok my conf (t, Inl e) = (my_init my = None)"
| "cp_ok my conf (t, Inr p) = cp_inv conf t p"

lemmas cp_inv_defs = cp_inv_def cp_places_def cp_count_def cp_idle_def cp_live_def idle_since_def

lemma cp_inv_later: "cp_inv conf t p \<Longrightarrow> t \<le> t' \<Longrightarrow> cp_inv conf t' p"
  by (auto simp: cp_inv_def cp_idle_def)

lemma live_deref:
  "cp_places p \<Longrightarrow> c \<in> set (cp_live p) \<Longrightarrow> \<exists>x. deref_conn c p = Inr x \<and> cp_heap p ! c = Some x \<and> c < length (cp_heap p) \<and> mc_conn x \<noteq> None"
  by (fastforce simp: cp_places_def deref_conn_def)

text \<open>Adding a connection.\<close>

lemma new_conn_handle:
  assumes "my_init my \<noteq> None"
  shows "\<exists>x. MysqlConn_new my = Inr x \<and> mc_conn x \<noteq> None"
  using assms by (auto simp: MysqlConn_new_def on_handle_def)

lemma connect_handle:
  assumes "mc_conn x \<noteq> None"
  shows "\<exists>b y. my_connect my user passwd db ip port x = Inr (b, y) \<and> mc_conn y \<noteq> None"
  using assms by (auto simp: my_connect_def on_handle_def split: prod.split)

lemma add_shape:
  assumes "my_init my \<noteq> None"
  shows "\<exists>x. add_and_count my now p = Inr (p\<lparr>cp_heap := cp_heap p @ [Some x], cp_queue := cp_queue p @ [length (cp_heap p)],
      cp_currentSize := cp_currentSize p + 2\<rparr>) \<and> mc_conn x \<noteq> None \<and> mc_alivetime x = now"
proof -
  obtain x where x: "MysqlConn_new my = Inr x" "mc_conn x \<noteq> None" using new_conn_handle [OF assms] by blast
  obtain b y where "my_connect my (cp_user p) (cp_passwd p) (cp_dbName p) (cp_ip p) (cp_port p) x = Inr (b, y)"
    "mc_conn y \<noteq> None" using connect_handle [OF x(2)] by blast
  then show ?thesis using x(1)
    by (intro exI [of _ "refreshAliveTime now y"]) (simp add: add_and_count_def addConnection_def refreshAliveTime_def)
qed

lemma add_fails: "my_init my = None \<Longrightarrow> add_and_count my now p = Inl NullDeref"
  by (simp add: add_and_count_def addConnection_def MysqlConn_new_def on_handle_def)

lemma add_inv:
  assumes "cp_inv conf t p" "t \<le> now" "mc_conn x \<noteq> None" "mc_alivetime x = now"
    and "cp_currentSize p + 2 \<le> max (2 * int (nat (conf_minSize conf))) (conf_maxSize conf + 1)"
  shows "cp_inv conf now (p\<lparr>cp_heap := cp_heap p @ [Some x], cp_queue := cp_queue p @ [length (cp_heap p)],
      cp_currentSize := cp_currentSize p + 2\<rparr>)" (is "cp_inv _ _ ?p")
proof -
  have pl: "cp_places p" and ct: "cp_count conf p" and ti: "cp_idle t p" using assms(1) by (auto simp: cp_inv_def)
  have low: "c < length (cp_heap p)" if "c \<in> set (cp_live p)" for c using pl that by (auto simp: cp_places_def)
  have "cp_places ?p"
    using pl assms(3) low by (auto simp: cp_places_def cp_live_def nth_append less_Suc_eq split: option.splits)
  moreover have "cp_count conf ?p" using ct assms(5) by (simp add: cp_count_def cp_live_def)
  moreover have same: "idle_since ?p c = idle_since p c" if "c \<in> set (cp_queue p)" for c
    using low [of c] that by (simp add: idle_since_def nth_append cp_live_def)
  have "idle_since ?p (length (cp_heap p)) = now" using assms(4) by (simp add: idle_since_def nth_append)
  then have "cp_idle now ?p"
    using ti assms(2) same by (fastforce simp: cp_idle_def sorted_append cong: map_cong)
  ultimately show ?thesis by (simp add: cp_inv_def)
qed

text \<open>Deleting the connection at the front of the queue.\<close>

lemma delete_inv:
  assumes "cp_inv conf t p" "cp_queue p \<noteq> []"
  shows "cp_inv conf t (delete_front p)"
proof -
  obtain c cs where q: "cp_queue p = c # cs" using assms(2) by (cases "cp_queue p") auto
  have pl: "cp_places p" and ct: "cp_count conf p" and ti: "cp_idle t p" using assms(1) by (auto simp: cp_inv_def)
  have live: "cp_live p = c # cp_live (delete_front p)" using q by (simp add: cp_live_def delete_front_def)
  have heap: "cp_heap (delete_front p) = (cp_heap p)[c := None]" using q by (simp add: delete_front_def)
  have "c < length (cp_heap p)" using pl live by (auto simp: cp_places_def)
  then have "{d. d < length (cp_heap (delete_front p)) \<and> cp_heap (delete_front p) ! d \<noteq> None}
      = {d. d < length (cp_heap p) \<and> cp_heap p ! d \<noteq> None} - {c}"
    by (auto simp: heap nth_list_update)
  moreover have "case cp_heap (delete_front p) ! d of None \<Rightarrow> True | Some x \<Rightarrow> mc_conn x \<noteq> None"
    if "d < length (cp_heap p)" for d
    using pl that \<open>c < length (cp_heap p)\<close> by (simp add: heap nth_list_update cp_places_def)
  ultimately have "cp_places (delete_front p)"
    using pl live by (simp add: cp_places_def) (auto simp: heap)
  moreover have "cp_count conf (delete_front p)" using ct q by (simp add: cp_count_def cp_live_def delete_front_def)
  moreover have "c \<notin> set cs" using pl q by (auto simp: cp_places_def cp_live_def)
  then have "idle_since (delete_front p) d = idle_since p d" if "d \<in> set cs" for d
    using that by (cases "c = d") (auto simp: idle_since_def heap)
  then have "cp_idle t (delete_front p)"
    using ti q by (simp add: cp_idle_def delete_front_def cong: map_cong)
  ultimately show ?thesis by (simp add: cp_inv_def)
qed

text \<open>Changing one object, which keeps its handle.\<close>

lemma places_update:
  assumes "cp_places p" "c \<in> set (cp_live p)" "mc_conn x \<noteq> None" "cp_heap p' = (cp_heap p)[c := Some x]"
    "mset (cp_live p') = mset (cp_live p)"
  shows "cp_places p'"
proof -
  have "set (cp_live p') = set (cp_live p)" "distinct (cp_live p') = distinct (cp_live p)"
    using assms(5) mset_eq_setD mset_eq_imp_distinct_iff by blast+
  moreover obtain y where "cp_heap p ! c = Some y" "c < length (cp_heap p)" using live_deref [OF assms(1,2)] by blast
  ultimately show ?thesis using assms(1,3,4) by (auto simp: cp_places_def nth_list_update split: option.splits)
qed

lemma count_update:
  assumes "cp_count conf p" "length (cp_heap p') = length (cp_heap p)" "length (cp_live p') = length (cp_live p)"
    "cp_currentSize p' = cp_currentSize p" "cp_minSize p' = cp_minSize p" "cp_maxSize p' = cp_maxSize p"
    "cp_maxIdleTime p' = cp_maxIdleTime p"
  shows "cp_count conf p'"
  using assms by (simp add: cp_count_def)

lemma lent_not_queued: "cp_places p \<Longrightarrow> c \<in> set (cp_lent p) \<Longrightarrow> c \<in> set (cp_live p) \<and> c \<notin> set (cp_queue p)"
  by (auto simp: cp_places_def cp_live_def)

lemma call_handle:
  assumes "mc_conn x \<noteq> None"
  shows "\<exists>b y. call_conn my call x = Inr (b, y) \<and> mc_conn y \<noteq> None \<and> mc_alivetime y = mc_alivetime x"
  using assms
  by (cases call) (auto simp: my_update_def my_select_def my_transaction_def my_do_commit_def rollbock_def on_handle_def
      freeResult_def my_next_def split: prod.splits option.splits)

lemma use_inv:
  assumes "cp_inv conf t p" "c \<in> set (cp_lent p)"
  shows "\<exists>p'. use_conn my c call p = Inr p' \<and> cp_inv conf t p'"
proof -
  have inv: "cp_places p" "cp_count conf p" "cp_idle t p" using assms(1) by (auto simp: cp_inv_def)
  note c = lent_not_queued [OF inv(1) assms(2)]
  obtain x where x: "deref_conn c p = Inr x" "mc_conn x \<noteq> None" using live_deref [OF inv(1)] c by blast
  obtain b y where y: "call_conn my call x = Inr (b, y)" "mc_conn y \<noteq> None" using call_handle [OF x(2)] by blast
  let ?p = "p\<lparr>cp_heap := (cp_heap p)[c := Some y]\<rparr>"
  have "cp_places ?p" by (rule places_update [OF inv(1) conjunct1 [OF c] y(2)]) (simp_all add: cp_live_def)
  moreover have "cp_count conf ?p" by (rule count_update [OF inv(2)]) (simp_all add: cp_live_def)
  moreover have "idle_since ?p d = idle_since p d" if "d \<in> set (cp_queue p)" for d
    using c that by (cases "c = d") (auto simp: idle_since_def)
  then have "cp_idle t ?p" using inv(3) by (simp add: cp_idle_def cong: map_cong)
  ultimately show ?thesis using x(1) y(1) by (simp add: use_conn_def cp_inv_def)
qed

lemma give_inv:
  assumes "cp_inv conf t p" "c \<in> set (cp_lent p)" "t \<le> now"
  shows "\<exists>p'. giveBack c now p = Inr p' \<and> cp_inv conf now p'"
proof -
  have inv: "cp_places p" "cp_count conf p" "cp_idle t p" using assms(1) by (auto simp: cp_inv_def)
  note c = lent_not_queued [OF inv(1) assms(2)]
  obtain x where x: "deref_conn c p = Inr x" "mc_conn x \<noteq> None" "c < length (cp_heap p)"
    using live_deref [OF inv(1)] c by blast
  let ?x = "refreshAliveTime now x"
  let ?p = "p\<lparr>cp_lent := remove1 c (cp_lent p), cp_heap := (cp_heap p)[c := Some ?x], cp_queue := cp_queue p @ [c]\<rparr>"
  have live: "mset (cp_live ?p) = mset (cp_live p)" using assms(2) by (simp add: cp_live_def)
  have "mc_conn ?x \<noteq> None" using x(2) by (simp add: refreshAliveTime_def)
  then have "cp_places ?p" using c live by (intro places_update [OF inv(1), of c ?x]) simp_all
  moreover have "cp_count conf ?p" using mset_eq_length [OF live] by (intro count_update [OF inv(2)]) simp_all
  moreover have same: "idle_since ?p d = idle_since p d" if "d \<in> set (cp_queue p)" for d
    using c that by (cases "c = d") (auto simp: idle_since_def)
  have "idle_since ?p c = now" using x(3) by (simp add: idle_since_def refreshAliveTime_def)
  then have "cp_idle now ?p"
    using inv(3) assms(3) same by (fastforce simp: cp_idle_def sorted_append cong: map_cong)
  ultimately show ?thesis using x(1) by (simp add: giveBack_def cp_inv_def)
qed

lemma get_inv:
  assumes "cp_inv conf t p" "getConnection p = Some (c, p')"
  shows "cp_inv conf t p'"
proof -
  obtain rest where q: "cp_queue p = c # rest" "p' = p\<lparr>cp_queue := rest, cp_lent := cp_lent p @ [c]\<rparr>"
    using assms(2) by (auto simp: getConnection_def split: list.splits)
  then have "mset (cp_live p') = mset (cp_live p)" by (simp add: cp_live_def)
  then have "set (cp_live p') = set (cp_live p)" "distinct (cp_live p') = distinct (cp_live p)"
    "length (cp_live p') = length (cp_live p)"
    using mset_eq_setD mset_eq_imp_distinct_iff mset_eq_length by blast+
  moreover have "idle_since p' = idle_since p" using q by (simp add: idle_since_def fun_eq_iff)
  ultimately show ?thesis using assms(1) q
    by (simp add: cp_inv_def cp_places_def cp_count_def cp_idle_def)
qed

lemma produce_inv:
  assumes "cp_inv conf t p" "t \<le> now"
  shows "cp_ok my conf (now, produceConnection my now p)"
proof (cases "cp_queue p = [] \<and> cp_currentSize p < cp_maxSize p \<and> my_init my \<noteq> None")
  case True
  then have "produceConnection my now p = add_and_count my now p" by (simp add: produceConnection_def)
  then obtain x where x: "produceConnection my now p = Inr (p\<lparr>cp_heap := cp_heap p @ [Some x],
      cp_queue := cp_queue p @ [length (cp_heap p)], cp_currentSize := cp_currentSize p + 2\<rparr>)"
    "mc_conn x \<noteq> None" "mc_alivetime x = now"
    using add_shape [of my now p] True by auto
  have "cp_currentSize p + 2 \<le> max (2 * int (nat (conf_minSize conf))) (conf_maxSize conf + 1)"
    using True assms(1) by (auto simp: cp_inv_def cp_count_def)
  then show ?thesis using x add_inv [OF assms x(2,3)] by simp
next
  case False
  then show ?thesis using cp_inv_later [OF assms] by (auto simp: produceConnection_def add_fails)
qed

lemma recycle_inv:
  assumes "cp_inv conf t p"
  shows "\<exists>p'. recycleConnection clock p = Inr p' \<and> cp_inv conf t p' \<and> cp_lent p' = cp_lent p"
  using assms
proof (induction clock p rule: recycleConnection.induct)
  case (1 clock p)
  show ?case
  proof (cases "size_of_int (cp_minSize p) < length (cp_queue p)")
    case True
    then have q: "cp_queue p \<noteq> []" by auto
    then have "hd (cp_queue p) \<in> set (cp_live p)" by (simp add: cp_live_def)
    then obtain x where x: "deref_conn (hd (cp_queue p)) p = Inr x"
      using live_deref "1.prems" by (auto simp: cp_inv_def)
    have "cp_lent (delete_front p) = cp_lent p" by (simp add: delete_front_def)
    then show ?thesis using "1.IH" [OF True] "1.prems" delete_inv [OF "1.prems" q] True x
      by (subst recycleConnection.simps) auto
  next
    case False
    then show ?thesis using "1.prems" by (subst recycleConnection.simps) simp
  qed
qed

lemma add_many_inv:
  assumes "cp_inv conf t p" "sorted (t # stamps)" "my_init my \<noteq> None"
    and "cp_currentSize p + 2 * int (length stamps) \<le> max (2 * int (nat (conf_minSize conf))) (conf_maxSize conf + 1)"
  shows "\<exists>p'. add_many my stamps p = Inr p' \<and> cp_inv conf (last (t # stamps)) p'"
  using assms
proof (induction stamps arbitrary: t p)
  case Nil
  then show ?case by simp
next
  case (Cons now stamps)
  obtain x where x: "add_and_count my now p = Inr (p\<lparr>cp_heap := cp_heap p @ [Some x],
      cp_queue := cp_queue p @ [length (cp_heap p)], cp_currentSize := cp_currentSize p + 2\<rparr>)"
    "mc_conn x \<noteq> None" "mc_alivetime x = now"
    using add_shape [OF Cons.prems(3)] by blast
  have "cp_inv conf now (p\<lparr>cp_heap := cp_heap p @ [Some x],
      cp_queue := cp_queue p @ [length (cp_heap p)], cp_currentSize := cp_currentSize p + 2\<rparr>)"
    using Cons.prems by (intro add_inv [OF Cons.prems(1) _ x(2,3)]) auto
  then show ?case using Cons.IH Cons.prems x(1) by (auto split: if_splits)
qed

lemma new_inv:
  assumes "mono clock" "\<And>n. clock n \<le> t"
  shows "cp_ok my conf (t, ConnectionPool_new my conf clock)"
proof -
  define p where "p = parseJsonFile conf
    (\<lparr>cp_ip = [], cp_user = [], cp_passwd = [], cp_dbName = [], cp_port = 0, cp_minSize = 0, cp_maxSize = 0,
      cp_currentSize = 0, cp_timeout = 0, cp_maxIdleTime = 0, cp_queue = [], cp_lent = [], cp_heap = []\<rparr> :: ('a, 'b, 'c) conn_pool)"
  define stamps where "stamps = map clock [0..<nat (conf_minSize conf)]"
  have new: "ConnectionPool_new my conf clock = add_many my stamps p"
    by (simp add: ConnectionPool_new_def p_def stamps_def parseJsonFile_def)
  have inv: "cp_inv conf (clock 0) p"
    by (auto simp: cp_inv_defs p_def parseJsonFile_def)
  show ?thesis
  proof (cases "my_init my = None")
    case True
    then have "add_many my stamps p = (if stamps = [] then Inr p else Inl NullDeref)"
      by (cases stamps) (simp_all add: add_fails)
    then show ?thesis using new True cp_inv_later [OF inv assms(2)] by simp
  next
    case False
    have "sorted stamps" using assms(1) by (simp add: stamps_def sorted_iff_nth_mono monoD)
    moreover have "\<forall>s \<in> set stamps. clock 0 \<le> s" using assms(1) by (auto simp: stamps_def monoD)
    moreover have "cp_currentSize p + 2 * int (length stamps) \<le> max (2 * int (nat (conf_minSize conf))) (conf_maxSize conf + 1)"
      by (simp add: p_def parseJsonFile_def stamps_def)
    ultimately obtain p' where "add_many my stamps p = Inr p'" "cp_inv conf (last (clock 0 # stamps)) p'"
      using add_many_inv [OF inv _ False] by auto
    moreover have "last (clock 0 # stamps) \<le> t"
      using assms(2) last_in_set [of "clock 0 # stamps"] by (auto simp: stamps_def split: if_splits)
    ultimately show ?thesis using new cp_inv_later by fastforce
  qed
qed

lemma cp_step_ok:
  assumes "cp_step my s s'" and "cp_ok my conf s"
  shows "cp_ok my conf s'"
  using assms(1)
proof cases
  case (produce t now t' p)
  then have "cp_ok my conf (now, produceConnection my now p)" using assms(2) produce_inv by auto
  then show ?thesis using produce(2,4) cp_inv_later by (cases "produceConnection my now p") auto
next
  case (recycle t clock t' p)
  have "t \<le> t'" using recycle(3) [of 0] by linarith
  moreover obtain p' where "recycleConnection clock p = Inr p'" "cp_inv conf t p'"
    using recycle_inv assms(2) recycle(1) by fastforce
  ultimately show ?thesis using recycle(2) cp_inv_later by simp
next
  case (get t t' p c p')
  then have "cp_inv conf t p'" using assms(2) get_inv by auto
  then show ?thesis using get cp_inv_later by simp
next
  case (call t t' c p cl)
  then obtain p' where "use_conn my c cl p = Inr p'" "cp_inv conf t p'" using assms(2) use_inv by fastforce
  then show ?thesis using call cp_inv_later by simp
next
  case (give t now t' c p)
  then obtain p' where "giveBack c now p = Inr p'" "cp_inv conf now p'" using assms(2) give_inv by fastforce
  then show ?thesis using give cp_inv_later by simp
qed

interpretation pool: transition_invariant "cp_initial my conf" "cp_step my" "cp_ok my conf" for my conf
proof
  show "cp_ok my conf s" if "cp_initial my conf s" for s
    using that new_inv by (cases s) (auto simp: cp_initial_def)
qed (rule cp_step_ok)

lemma cp_reach_inv: "cp_reach my conf (t, Inr p) \<Longrightarrow> cp_inv conf t p"
  using pool.reachable_inv by fastforce

section \<open>Properties\<close>

text \<open>Claim C35. Under any interleaving of the producer, the recycler and users, no deleted connection is
  touched: unless \<open>mysql_init\<close> fails, the program goes on. Every connection that exists is either idle or
  lent to exactly one user, the recycler never deletes one in use, and the number of connections is
  bounded: by \<open>minSize_\<close> or by half of \<open>maxSize_ + 1\<close>, since each new connection is counted twice.\<close>

theorem connections_exclusive:
  assumes "cp_reach my conf (t, s)" and "my_init my \<noteq> None"
  shows "\<exists>p. s = Inr p \<and> distinct (cp_queue p @ cp_lent p)
    \<and> set (cp_queue p @ cp_lent p) = {c. c < length (cp_heap p) \<and> cp_heap p ! c \<noteq> None}
    \<and> 2 * length (cp_queue p @ cp_lent p) \<le> max (2 * nat (conf_minSize conf)) (nat (conf_maxSize conf + 1))
    \<and> (\<exists>p'. recycleConnection clock p = Inr p' \<and> cp_lent p' = cp_lent p)"
proof -
  obtain p where p: "s = Inr p" "cp_inv conf t p"
    using pool.reachable_inv [OF assms(1)] assms(2) by (cases s) auto
  then have inv: "distinct (cp_live p)" "set (cp_live p) = {c. c < length (cp_heap p) \<and> cp_heap p ! c \<noteq> None}"
    "int (length (cp_live p)) + int (length (cp_heap p)) \<le> max (2 * int (nat (conf_minSize conf))) (conf_maxSize conf + 1)"
    by (auto simp: cp_inv_def cp_places_def cp_count_def)
  have "card (set (cp_live p)) \<le> card {..<length (cp_heap p)}" using inv(2) by (intro card_mono) auto
  then have "length (cp_live p) \<le> length (cp_heap p)" using distinct_card [OF inv(1)] by simp
  then have "2 * length (cp_live p) \<le> max (2 * nat (conf_minSize conf)) (nat (conf_maxSize conf + 1))"
    using inv(3) by linarith
  moreover obtain p' where "recycleConnection clock p = Inr p' \<and> cp_lent p' = cp_lent p"
    using recycle_inv [OF p(2)] by blast
  ultimately show ?thesis using p(1) inv(1,2) by (simp only: cp_live_def) blast
qed

definition sample_conf :: pool_conf where
  "sample_conf = \<lparr>conf_ip = ''127.0.0.1'', conf_userName = ''root'', conf_password = ''123456'', conf_dbName = ''test'',
     conf_port = 3306, conf_minSize = 2, conf_maxSize = 4, conf_timeout = 1000, conf_maxIdleTime = 5000\<rparr>"


lemma sample_pool:
  "ConnectionPool_new (mem_api []) sample_conf (\<lambda>_. 0) =
     Inr \<lparr>cp_ip = ''127.0.0.1'', cp_user = ''root'', cp_passwd = ''123456'', cp_dbName = ''test'', cp_port = 3306,
       cp_minSize = 2, cp_maxSize = 4, cp_currentSize = 4, cp_timeout = 1000, cp_maxIdleTime = 5000,
       cp_queue = [0, 1], cp_lent = [],
       cp_heap = [Some \<lparr>mc_conn = Some ([], False), mc_result = None, mc_row = None, mc_row_freed = False, mc_alivetime = 0\<rparr>,
         Some \<lparr>mc_conn = Some ([], False), mc_result = None, mc_row = None, mc_row_freed = False, mc_alivetime = 0\<rparr>]\<rparr>"
  by (simp add: sample_conf_def ConnectionPool_new_def parseJsonFile_def add_and_count_def addConnection_def Let_def
      upt_rec MysqlConn_new_def my_connect_def on_handle_def refreshAliveTime_def mem_api_def)

theorem connections_exclusive_witness:
  "\<exists>p. ConnectionPool_new (mem_api []) sample_conf (\<lambda>_. 0) = Inr p \<and> cp_queue p = [0, 1] \<and> distinct (cp_queue p @ cp_lent p)"
proof -
  have "my_init (mem_api []) \<noteq> None" by (simp add: mem_api_def)
  from connections_exclusive [OF cp_init this, where t = 0 and conf = sample_conf] show ?thesis by (auto simp: sample_pool)
qed

text \<open>The double count never goes away: closing a connection takes back only one of its two
  counts, so once \<open>maxSize_\<close> connections have been created over the life of the pool, the producer creates
  no further one, even if none is left and users are waiting.\<close>

lemma producer_exhausted:
  assumes "cp_reach my conf (t, Inr p)" and "conf_maxSize conf \<le> int (length (cp_heap p))"
  shows "produceConnection my now p = Inr p"
  using cp_reach_inv [OF assms(1)] assms(2) by (auto simp: cp_inv_def cp_count_def produceConnection_def)

text \<open>Stopping the recycler at the first connection that is not idle for long enough is right.\<close>

lemma getAliveTime_mono: "mc_alivetime x \<le> mc_alivetime y \<Longrightarrow> getAliveTime now y \<le> getAliveTime now x"
proof -
  assume "mc_alivetime x \<le> mc_alivetime y"
  then have le: "now - mc_alivetime y \<le> now - mc_alivetime x" by simp
  have sdiv: "(a::int) sdiv 1000000 = (if 0 \<le> a then a div 1000000 else - ((- a) div 1000000))" for a
    by (simp add: signed_divide_int_def sgn_if)
  show ?thesis
  proof (cases "0 \<le> now - mc_alivetime y")
    case True
    then show ?thesis using le zdiv_mono1 [OF le, of 1000000] by (simp add: getAliveTime_def sdiv)
  next
    case False
    then have "0 \<le> (- (now - mc_alivetime y)) div 1000000" by (simp add: pos_imp_zdiv_nonneg_iff)
    moreover have "0 \<le> now - mc_alivetime x \<Longrightarrow> 0 \<le> (now - mc_alivetime x) div 1000000"
      by (simp add: pos_imp_zdiv_nonneg_iff)
    moreover have "(- (now - mc_alivetime x)) div 1000000 \<le> (- (now - mc_alivetime y)) div 1000000"
      using le by (intro zdiv_mono1) auto
    ultimately show ?thesis using False by (auto simp: getAliveTime_def sdiv)
  qed
qed

text \<open>All idle connections are as young as the clock wants when the first one is: the queue is in the order of the last use.\<close>

lemma young_queue:
  assumes inv: "cp_inv conf t p" and q: "cp_queue p = c # cs" and x: "deref_conn c p = Inr x" "getAliveTime now x < cp_maxIdleTime p"
    and d: "d \<in> set (cp_queue p)"
  shows "\<exists>y. deref_conn d p = Inr y \<and> getAliveTime now y < cp_maxIdleTime p"
proof -
  have live: "\<exists>y. deref_conn e p = Inr y \<and> cp_heap p ! e = Some y" if "e \<in> set (cp_queue p)" for e
    using live_deref [of p e] inv that by (auto simp: cp_inv_def cp_live_def)
  obtain y where y: "deref_conn d p = Inr y" "cp_heap p ! d = Some y" using live [OF d] by blast
  have "cp_heap p ! c = Some x" using live [of c] q x(1) by auto
  then have "mc_alivetime x \<le> mc_alivetime y" using inv q d y(2) by (auto simp: cp_inv_def cp_idle_def idle_since_def)
  from getAliveTime_mono [OF this] show ?thesis using y(1) x(2) by (meson order_le_less_trans)
qed

lemma recycle_first:
  assumes inv: "cp_inv conf t p" and more: "size_of_int (cp_minSize p) < length (cp_queue p)"
  shows "\<exists>c cs x. cp_queue p = c # cs \<and> deref_conn c p = Inr x \<and> recycleConnection clock p =
    (if cp_maxIdleTime p \<le> getAliveTime (clock (length (cp_queue p))) x then recycleConnection clock (delete_front p) else Inr p)"
proof -
  from more obtain c cs where q: "cp_queue p = c # cs" by (cases "cp_queue p") auto
  obtain x where x: "deref_conn c p = Inr x" using live_deref [of p c] inv q by (auto simp: cp_inv_def cp_live_def)
  then show ?thesis using q more by (subst recycleConnection.simps) simp
qed

text \<open>Claim C36. A round of the recycler ends and leaves nothing to recycle: afterwards at most \<open>minSize_\<close>
  connections are idle, or every idle one was used more recently than \<open>maxIdleTime_\<close> milliseconds before the last look
  at the clock. The loop stops at the first connection that is not old enough, which is right because the queue is ordered by
  the time of the last use, whatever the users do.\<close>

theorem recycler_complete:
  assumes "cp_reach my conf (t, Inr p)"
  shows "\<exists>p'. recycleConnection clock p = Inr p'
    \<and> (length (cp_queue p') \<le> size_of_int (cp_minSize p')
       \<or> (\<forall>c \<in> set (cp_queue p'). \<exists>conn. deref_conn c p' = Inr conn
            \<and> getAliveTime (clock (length (cp_queue p'))) conn < cp_maxIdleTime p'))"
  using cp_reach_inv [OF assms]
proof (induction clock p rule: recycleConnection.induct)
  case (1 clock p)
  show ?case
  proof (cases "size_of_int (cp_minSize p) < length (cp_queue p)")
    case True
    obtain c cs x where x: "cp_queue p = c # cs" "deref_conn c p = Inr x" "recycleConnection clock p =
        (if cp_maxIdleTime p \<le> getAliveTime (clock (length (cp_queue p))) x then recycleConnection clock (delete_front p) else Inr p)"
      using recycle_first [OF "1.prems" True] by blast
    show ?thesis
    proof (cases "cp_maxIdleTime p \<le> getAliveTime (clock (length (cp_queue p))) x")
      case old: True
      have "cp_inv conf t (delete_front p)" using delete_inv [OF "1.prems"] x(1) by simp
      moreover have "deref_conn (hd (cp_queue p)) p = Inr x" using x(1,2) by simp
      ultimately show ?thesis using "1.IH" [OF True, of x] old x(3) by simp
    next
      case False
      then show ?thesis using x(3) young_queue [OF "1.prems" x(1,2), of "clock (length (cp_queue p))"] by simp
    qed
  next
    case False
    then have "recycleConnection clock p = Inr p" by (subst recycleConnection.simps) simp
    with False show ?thesis by simp
  qed
qed

definition one_idle :: "(user_row list \<times> bool, user_row list \<times> user_row option, user_row) conn_pool" where
  "one_idle =
     \<lparr>cp_ip = ''127.0.0.1'', cp_user = ''root'', cp_passwd = ''123456'', cp_dbName = ''test'', cp_port = 3306,
      cp_minSize = 0, cp_maxSize = 4, cp_currentSize = 2, cp_timeout = 1000, cp_maxIdleTime = 5000,
      cp_queue = [0], cp_lent = [],
      cp_heap = [Some \<lparr>mc_conn = Some ([], False), mc_result = None, mc_row = None, mc_row_freed = False, mc_alivetime = 7\<rparr>]\<rparr>"

lemma one_idle_reach: "cp_reach (mem_api []) (sample_conf\<lparr>conf_minSize := 0\<rparr>) (7, Inr one_idle)"
proof -
  let ?conf = "sample_conf\<lparr>conf_minSize := 0\<rparr>"
  obtain p where p: "ConnectionPool_new (mem_api []) ?conf (\<lambda>_. 0) = Inr p" "produceConnection (mem_api []) 7 p = Inr one_idle"
    by (simp add: sample_conf_def ConnectionPool_new_def parseJsonFile_def produceConnection_def add_and_count_def
      addConnection_def MysqlConn_new_def my_connect_def on_handle_def refreshAliveTime_def mem_api_def one_idle_def)
  have "cp_step (mem_api []) (0, Inr p) (7, produceConnection (mem_api []) 7 p)" by (rule produce) simp_all
  then show ?thesis using reachable_step [OF cp_init [of "mem_api []" ?conf 0]] p by simp
qed

theorem recycler_complete_witness:
  "\<exists>p. recycleConnection (\<lambda>_. 9000000000) one_idle = Inr p \<and> length (cp_queue p) \<le> size_of_int (cp_minSize p)
    \<and> cp_heap p = [None]"
proof -
  have "recycleConnection (\<lambda>_. 9000000000) (delete_front one_idle) = Inr (delete_front one_idle)"
    by (subst recycleConnection.simps) (simp add: one_idle_def delete_front_def)
  then have "recycleConnection (\<lambda>_. 9000000000) one_idle = Inr (delete_front one_idle)"
    by (subst recycleConnection.simps)
       (simp add: one_idle_def deref_conn_def getAliveTime_def size_of_int_def signed_divide_int_def)
  with recycler_complete [OF one_idle_reach, of "\<lambda>_. 9000000000"] show ?thesis
    by (simp add: one_idle_def delete_front_def)
qed

end
