(* ===== verification/Stopwatch.thy ===== *)
theory Stopwatch
  imports Complex_Main "HOL-Library.Log_Nat"
begin

text \<open>
  The stopwatch of \<open>src/include/tiny_network/base/chrono/Timer.h\<close> (\<open>cxxtimer::Timer\<close>). The steady clock
  counts nanoseconds; the accumulated time is a \<open>long double\<close> number of seconds, here a rational number
  and a rounding \<open>rnd\<close> applied to the result of every floating-point operation. \<open>ld_round\<close> is the rounding of the
  x87 format; the theorems are about any rounding whose relative error is bounded.
\<close>

section \<open>Operations\<close>

record stopwatch =
  sw_started :: bool
  sw_paused :: bool
  sw_reference :: int
  sw_accumulated :: rat

definition sw_start :: "int \<Rightarrow> stopwatch \<Rightarrow> stopwatch" where
  "sw_start now t =
     (if \<not> sw_started t
      then t\<lparr>sw_started := True, sw_paused := False, sw_accumulated := 0, sw_reference := now\<rparr>
      else if sw_paused t then t\<lparr>sw_reference := now, sw_paused := False\<rparr>
      else t)"

text \<open>The constructor reads the clock, and \<open>start\<close> reads it again.\<close>

definition Stopwatch_new :: "bool \<Rightarrow> int \<Rightarrow> int \<Rightarrow> stopwatch" where
  "Stopwatch_new start now now2 =
     (let t = \<lparr>sw_started = False, sw_paused = False, sw_reference = now, sw_accumulated = 0\<rparr>
      in if start then sw_start now2 t else t)"

text \<open>\<open>stop\<close> casts the nanoseconds since the reference to seconds and adds them.\<close>

definition sw_stop :: "(rat \<Rightarrow> rat) \<Rightarrow> int \<Rightarrow> stopwatch \<Rightarrow> stopwatch" where
  "sw_stop rnd now t =
     (if sw_started t \<and> \<not> sw_paused t
      then t\<lparr>sw_accumulated := rnd (sw_accumulated t + rnd (rnd (of_int (now - sw_reference t)) / 1000000000)),
             sw_paused := True\<rparr>
      else t)"

definition sw_reset :: "int \<Rightarrow> stopwatch \<Rightarrow> stopwatch" where
  "sw_reset now t =
     (if sw_started t
      then t\<lparr>sw_started := False, sw_paused := False, sw_reference := now, sw_accumulated := 0\<rparr>
      else t)"

text \<open>The conversion to an integer drops the fraction.\<close>

definition trunc :: "rat \<Rightarrow> int" where
  "trunc x = (if 0 \<le> x then \<lfloor>x\<rfloor> else \<lceil>x\<rceil>)"

text \<open>\<open>count\<close> in milliseconds; a running watch adds in nanoseconds.\<close>

definition sw_count :: "(rat \<Rightarrow> rat) \<Rightarrow> int \<Rightarrow> stopwatch \<Rightarrow> int" where
  "sw_count rnd now t =
     (if sw_started t
      then if sw_paused t then trunc (rnd (sw_accumulated t * 1000))
           else trunc (rnd (rnd (rnd (sw_accumulated t * 1000000000) + rnd (of_int (now - sw_reference t))) / 1000000))
      else 0)"

section \<open>Histories\<close>

datatype sw_event = Start | Stop | Reset

fun sw_run :: "(rat \<Rightarrow> rat) \<Rightarrow> (sw_event \<times> int) list \<Rightarrow> stopwatch \<Rightarrow> stopwatch" where
  "sw_run rnd [] t = t"
| "sw_run rnd ((Start, now) # es) t = sw_run rnd es (sw_start now t)"
| "sw_run rnd ((Stop, now) # es) t = sw_run rnd es (sw_stop rnd now t)"
| "sw_run rnd ((Reset, now) # es) t = sw_run rnd es (sw_reset now t)"

text \<open>The reference: the time between two events counts when the watch runs.\<close>

datatype sw_mode = Off | On | Pause

fun next_mode :: "sw_event \<Rightarrow> sw_mode \<Rightarrow> sw_mode" where
  "next_mode Start m = On"
| "next_mode Stop m = (if m = On then Pause else m)"
| "next_mode Reset m = Off"

fun run_time :: "sw_mode \<Rightarrow> int \<Rightarrow> int \<Rightarrow> (sw_event \<times> int) list \<Rightarrow> int \<Rightarrow> int" where
  "run_time m elapsed since [] now = (if m = On then elapsed + (now - since) else elapsed)"
| "run_time m elapsed since ((e, t) # es) now =
     run_time (next_mode e m) (if next_mode e m = Off then 0 else if m = On then elapsed + (t - since) else elapsed) t es now"

fun in_time :: "int \<Rightarrow> (sw_event \<times> int) list \<Rightarrow> int \<Rightarrow> bool" where
  "in_time t [] now = (t \<le> now)"
| "in_time t ((e, t') # es) now = (t \<le> t' \<and> in_time t' es now)"

section \<open>Rounding\<close>

text \<open>The rounding of a \<open>long double\<close> with a significand of 64 bits: to nearest, ties to even; the range of the exponent
  is ignored. \<open>ld_exp\<close> is the scaling that brings a nonzero number between \<open>2 ^ 63\<close> and \<open>2 ^ 64\<close>.\<close>

definition round_even :: "rat \<Rightarrow> int" where
  "round_even y = (let f = \<lfloor>y\<rfloor>; d = y - of_int f in if d < 1 / 2 \<or> d = 1 / 2 \<and> even f then f else f + 1)"

definition ld_exp :: "rat \<Rightarrow> int" where
  "ld_exp x =
     (case quotient_of \<bar>x\<bar> of (p, q) \<Rightarrow>
        let n = 64 - (bitlen p - bitlen q) in if \<bar>x\<bar> * power_int 2 n < 2 ^ 64 then n else n - 1)"

definition ld_round :: "rat \<Rightarrow> rat" where
  "ld_round x =
     (if x = 0 then 0
      else sgn x * of_int (round_even (\<bar>x\<bar> * power_int 2 (ld_exp x))) / power_int 2 (ld_exp x))"

lemma round_even_error: "\<bar>of_int (round_even y) - y\<bar> \<le> 1 / 2"
  using floor_correct [of y] by (simp add: round_even_def Let_def abs_le_iff)

lemma ld_exp_bound:
  assumes "x \<noteq> 0"
  shows "2 ^ 63 \<le> \<bar>x\<bar> * power_int 2 (ld_exp x)"
proof -
  obtain p q where pq: "quotient_of \<bar>x\<bar> = (p, q)" by fastforce
  then have q: "0 < q" and x: "\<bar>x\<bar> = of_int p / of_int q" by (auto simp: quotient_of_denom_pos quotient_of_div)
  have "0 < of_int p / (of_int q :: rat)" unfolding x [symmetric] using assms by simp
  then have p: "0 < p" using q by (simp add: zero_less_divide_iff)
  have "2 ^ nat (bitlen p - 1) \<le> p" "q < 2 ^ nat (bitlen q)" using bitlen_bounds p q by blast+
  then have "(2 :: rat) ^ nat (bitlen p - 1) \<le> of_int p" "of_int q \<le> (2 :: rat) ^ nat (bitlen q)"
    by (metis of_int_le_iff of_int_numeral of_int_power) (metis \<open>q < 2 ^ nat (bitlen q)\<close> less_imp_le of_int_le_iff of_int_numeral of_int_power)
  moreover have "0 \<le> bitlen p - 1" "0 \<le> bitlen q" using p bitlen_eq_zero_iff [of p] bitlen_nonneg [of p] bitlen_nonneg [of q] by linarith+
  ultimately have b: "power_int 2 (bitlen p - 1) \<le> (of_int p :: rat)" "of_int q \<le> (power_int 2 (bitlen q) :: rat)"
    by (simp_all add: power_int_def)
  define n where "n = 64 - (bitlen p - bitlen q)"
  have "power_int 2 (bitlen p - 1) / power_int 2 (bitlen q) \<le> \<bar>x\<bar>"
    unfolding x using b q p by (intro frac_le) simp_all
  then have "power_int 2 (bitlen p - 1) / power_int 2 (bitlen q) * power_int 2 n \<le> \<bar>x\<bar> * power_int 2 n"
    by (intro mult_right_mono) simp_all
  moreover have "power_int 2 (bitlen p - 1) / power_int 2 (bitlen q) * power_int 2 n = (power_int 2 63 :: rat)"
    by (simp add: n_def flip: power_int_diff power_int_add)
  ultimately have le: "2 ^ 63 \<le> \<bar>x\<bar> * power_int 2 n" by simp
  have half: "\<bar>x\<bar> * power_int 2 (n - 1) = \<bar>x\<bar> * power_int 2 n / 2" using power_int_diff [of "2 :: rat" n 1] by simp
  have e: "ld_exp x = (if \<bar>x\<bar> * power_int 2 n < 2 ^ 64 then n else n - 1)"
    by (simp add: ld_exp_def pq Let_def n_def)
  show ?thesis
  proof (cases "\<bar>x\<bar> * power_int 2 n < 2 ^ 64")
    case False
    then have "2 ^ 63 \<le> \<bar>x\<bar> * power_int 2 (n - 1)" unfolding half by simp
    then show ?thesis unfolding e using False by presburger
  qed (use e le in simp)
qed

lemma ld_round_error: "\<bar>ld_round x - x\<bar> \<le> 1 / 2 ^ 64 * \<bar>x\<bar>"
proof (cases "x = 0")
  case False
  define s where "s = (power_int 2 (ld_exp x) :: rat)"
  have s: "0 < s" by (simp add: s_def)
  have "ld_round x - x = sgn x * ((of_int (round_even (\<bar>x\<bar> * s)) - \<bar>x\<bar> * s) / s)"
    using False s by (simp add: ld_round_def s_def [symmetric] diff_divide_distrib right_diff_distrib sgn_mult_abs)
  then have "\<bar>ld_round x - x\<bar> = \<bar>of_int (round_even (\<bar>x\<bar> * s)) - \<bar>x\<bar> * s\<bar> / s"
    using False s by (simp add: abs_mult abs_sgn_eq)
  also have "\<dots> \<le> (1 / 2) / s" using round_even_error s by (intro divide_right_mono) simp_all
  also have "\<dots> \<le> 1 / 2 ^ 64 * \<bar>x\<bar>" using ld_exp_bound [OF False] s by (simp add: s_def [symmetric] field_simps)
  finally show ?thesis .
qed (simp add: ld_round_def)

text \<open>What is assumed of a rounding, and \<open>k\<close> roundings away from \<open>x\<close>.\<close>

definition rounding :: "rat \<Rightarrow> (rat \<Rightarrow> rat) \<Rightarrow> bool" where
  "rounding u rnd \<longleftrightarrow> 0 \<le> u \<and> (\<forall>x. \<bar>rnd x - x\<bar> \<le> u * \<bar>x\<bar>)"

lemma ld_round_rounding: "rounding (1 / 2 ^ 64) ld_round"
  unfolding rounding_def by (intro conjI allI ld_round_error) simp

definition near :: "rat \<Rightarrow> nat \<Rightarrow> rat \<Rightarrow> rat \<Rightarrow> bool" where
  "near u k v x \<longleftrightarrow> 0 \<le> x \<and> \<bar>v - x\<bar> \<le> ((1 + u) ^ k - 1) * x"

lemma near_refl: "0 \<le> x \<Longrightarrow> near u 0 x x"
  by (simp add: near_def)

lemma near_round:
  assumes "rounding u rnd" and "near u k v x"
  shows "near u (Suc k) (rnd v) x"
proof -
  have u: "0 \<le> u" "\<bar>rnd v - v\<bar> \<le> u * \<bar>v\<bar>" and x: "0 \<le> x" and v: "\<bar>v - x\<bar> \<le> ((1 + u) ^ k - 1) * x"
    using assms by (simp_all add: rounding_def near_def)
  have "\<bar>v - x\<bar> \<le> (1 + u) ^ k * x - x" using v by (simp add: left_diff_distrib)
  then have "\<bar>v\<bar> \<le> (1 + u) ^ k * x" using x by linarith
  then have "\<bar>rnd v - v\<bar> \<le> u * ((1 + u) ^ k * x)" using u by (meson mult_left_mono order_trans)
  then have "\<bar>rnd v - x\<bar> \<le> u * ((1 + u) ^ k * x) + ((1 + u) ^ k - 1) * x"
    using v abs_triangle_ineq [of "rnd v - v" "v - x"] by simp
  also have "\<dots> = ((1 + u) ^ Suc k - 1) * x" by (simp add: algebra_simps)
  finally show ?thesis using x by (simp add: near_def)
qed

lemma near_mono: "0 \<le> u \<Longrightarrow> near u j v x \<Longrightarrow> j \<le> k \<Longrightarrow> near u k v x"
proof -
  assume u: "0 \<le> u" and n: "near u j v x" and jk: "j \<le> k"
  have "(1 + u) ^ j \<le> (1 + u) ^ k" using u jk by (intro power_increasing) simp_all
  then have "((1 + u) ^ j - 1) * x \<le> ((1 + u) ^ k - 1) * x" using n by (intro mult_right_mono) (simp_all add: near_def)
  then show ?thesis using n by (simp add: near_def)
qed

lemma near_add: "near u k v x \<Longrightarrow> near u k w y \<Longrightarrow> near u k (v + w) (x + y)"
  using abs_triangle_ineq [of "v - x" "w - y"] by (simp add: near_def algebra_simps)

lemma near_mult: "near u k v x \<Longrightarrow> 0 \<le> c \<Longrightarrow> near u k (v * c) (x * c)"
proof -
  assume n: "near u k v x" and c: "0 \<le> c"
  have "\<bar>v * c - x * c\<bar> = \<bar>v - x\<bar> * c" using c by (simp add: abs_mult flip: left_diff_distrib)
  also have "\<dots> \<le> ((1 + u) ^ k - 1) * x * c" using n c by (intro mult_right_mono) (simp_all add: near_def)
  finally show ?thesis using n c by (simp add: near_def mult.assoc)
qed

lemma near_div: "near u k v x \<Longrightarrow> 0 < c \<Longrightarrow> near u k (v / c) (x / c)"
  using near_mult [of u k v x "1 / c"] by simp

section \<open>Simulation\<close>

text \<open>How the object stands for the reference: \<open>elapsed\<close> nanoseconds have run up to \<open>since\<close>, and the accumulated
  seconds are at most \<open>k\<close> roundings away.\<close>

definition sw_rel :: "rat \<Rightarrow> nat \<Rightarrow> sw_mode \<Rightarrow> int \<Rightarrow> int \<Rightarrow> stopwatch \<Rightarrow> bool" where
  "sw_rel u k m elapsed since t \<longleftrightarrow> 0 \<le> elapsed \<and>
     (case m of
        Off \<Rightarrow> \<not> sw_started t \<and> elapsed = 0
      | Pause \<Rightarrow> sw_started t \<and> sw_paused t \<and> near u k (sw_accumulated t) (of_int elapsed / 1000000000)
      | On \<Rightarrow> sw_started t \<and> \<not> sw_paused t \<and> sw_reference t \<le> since
             \<and> near u k (sw_accumulated t) (of_int (elapsed - (since - sw_reference t)) / 1000000000))"

lemma sw_rel_count:
  assumes rnd: "rounding u rnd" and rel: "sw_rel u (Suc k) m elapsed since t" and now: "since \<le> now"
  shows "\<exists>v. sw_count rnd now t = trunc v \<and> near u (k + 4) v (of_int (run_time m elapsed since [] now) / 1000000)"
proof (cases m)
  case Off
  then have "sw_count rnd now t = trunc 0" using rel by (simp add: sw_rel_def sw_count_def trunc_def)
  moreover have "near u (k + 4) 0 (of_int (run_time m elapsed since [] now) / 1000000)"
    using Off rel by (simp add: sw_rel_def near_def)
  ultimately show ?thesis by blast
next
  case Pause
  with rel have a: "near u (Suc k) (sw_accumulated t) (of_int elapsed / 1000000000)" "sw_started t" "sw_paused t"
    by (simp_all add: sw_rel_def)
  have "near u (Suc (Suc k)) (rnd (sw_accumulated t * 1000)) (of_int elapsed / 1000000000 * 1000)"
    by (rule near_round [OF rnd near_mult [OF a(1)]]) simp
  then have "near u (k + 4) (rnd (sw_accumulated t * 1000)) (of_int elapsed / 1000000)"
    using rnd near_mono [of u "Suc (Suc k)" _ _ "k + 4"] by (simp add: rounding_def)
  then show ?thesis using a(2,3) Pause by (auto simp: sw_count_def)
next
  case On
  let ?e = "elapsed - (since - sw_reference t)"
  from On rel have a: "near u (Suc k) (sw_accumulated t) (of_int ?e / 1000000000)" "sw_started t" "\<not> sw_paused t"
    "sw_reference t \<le> since" by (simp_all add: sw_rel_def)
  have u: "0 \<le> u" using rnd by (simp add: rounding_def)
  have "near u (Suc (Suc k)) (rnd (sw_accumulated t * 1000000000)) (of_int ?e / 1000000000 * 1000000000)"
    by (rule near_round [OF rnd near_mult [OF a(1)]]) simp
  moreover have "y / 1000000000 * 1000000000 = y" for y :: rat by simp
  ultimately have acc: "near u (Suc (Suc k)) (rnd (sw_accumulated t * 1000000000)) (of_int ?e)" by metis
  have "near u 0 (of_int (now - sw_reference t)) (of_int (now - sw_reference t) :: rat)"
    using a(4) now by (intro near_refl) simp
  from near_round [OF rnd this] have "near u (Suc (Suc k)) (rnd (of_int (now - sw_reference t))) (of_int (now - sw_reference t))"
    by (rule near_mono [OF u]) simp
  note sum = near_round [OF rnd near_div [OF near_round [OF rnd near_add [OF acc this]], of 1000000]]
  have eq: "of_int ?e + of_int (now - sw_reference t) = (of_int (elapsed + (now - since)) :: rat)"
    "Suc (Suc (Suc (Suc k))) = k + 4" by simp_all
  have "near u (k + 4) (rnd (rnd (rnd (sw_accumulated t * 1000000000) + rnd (of_int (now - sw_reference t))) / 1000000))
      (of_int (elapsed + (now - since)) / 1000000)"
    unfolding eq [symmetric] by (rule sum) simp
  then show ?thesis using a(2,3) On by (auto simp: sw_count_def)
qed

lemma sw_rel_event:
  assumes rnd: "rounding u rnd" and rel: "sw_rel u (k + 2) m elapsed since t" and now: "since \<le> now"
  shows "sw_rel u (k + 3) (next_mode e m) (if next_mode e m = Off then 0 else if m = On then elapsed + (now - since) else elapsed) now
    (sw_run rnd [(e, now)] t)"
proof -
  have u: "0 \<le> u" using rnd by (simp add: rounding_def)
  have up: "near u (k + 2) v x \<Longrightarrow> near u (k + 3) v x" for v x by (erule near_mono [OF u]) linarith
  show ?thesis
  proof (cases "e = Stop \<and> m = On")
    case True
    let ?e = "elapsed - (since - sw_reference t)"
    from True rel have a: "near u (k + 2) (sw_accumulated t) (of_int ?e / 1000000000)" "sw_started t" "\<not> sw_paused t"
      "sw_reference t \<le> since" "0 \<le> elapsed" by (simp_all add: sw_rel_def)
    have "near u 0 (of_int (now - sw_reference t)) (of_int (now - sw_reference t) :: rat)"
      using a(4) now by (intro near_refl) simp
    then have "near u (Suc (Suc 0)) (rnd (rnd (of_int (now - sw_reference t)) / 1000000000)) (of_int (now - sw_reference t) / 1000000000)"
      by (intro near_round [OF rnd] near_div) simp_all
    then have "near u (k + 2) (rnd (rnd (of_int (now - sw_reference t)) / 1000000000)) (of_int (now - sw_reference t) / 1000000000)"
      by (rule near_mono [OF u]) simp
    note sum = near_round [OF rnd near_add [OF a(1) this]]
    have eq: "of_int ?e / 1000000000 + of_int (now - sw_reference t) / 1000000000
        = (of_int (elapsed + (now - since)) / 1000000000 :: rat)" "Suc (k + 2) = k + 3" by (simp_all flip: add_divide_distrib)
    have "near u (k + 3) (rnd (sw_accumulated t + rnd (rnd (of_int (now - sw_reference t)) / 1000000000)))
        (of_int (elapsed + (now - since)) / 1000000000)"
      unfolding eq [symmetric] by (rule sum)
    then show ?thesis using True a now by (simp add: sw_rel_def sw_stop_def)
  next
    case False
    have "near u (k + 3) 0 0" by (simp add: near_def)
    then show ?thesis using False rel up now
      by (cases e; cases m) (auto simp: sw_rel_def sw_start_def sw_stop_def sw_reset_def algebra_simps)
  qed
qed

lemma sw_run_Cons: "sw_run rnd (e # es) t = sw_run rnd es (sw_run rnd [e] t)"
  by (cases e; cases "fst e") auto

lemma sw_run_count:
  "rounding u rnd \<Longrightarrow> sw_rel u (k + 2) m elapsed since t \<Longrightarrow> in_time since es now \<Longrightarrow>
    \<exists>v. sw_count rnd now (sw_run rnd es t) = trunc v
      \<and> near u (k + length es + 5) v (of_int (run_time m elapsed since es now) / 1000000)"
proof (induction es arbitrary: m elapsed since t k)
  case Nil
  have "sw_rel u (Suc (k + 1)) m elapsed since t" "since \<le> now" using Nil.prems by simp_all
  from sw_rel_count [OF Nil.prems(1) this] show ?case by (simp add: add.commute)
next
  case (Cons e es)
  obtain ev t' where e: "e = (ev, t')" by (cases e)
  then have t': "since \<le> t'" "in_time t' es now" using Cons.prems(3) by simp_all
  have "sw_rel u (Suc k + 2) (next_mode ev m)
      (if next_mode ev m = Off then 0 else if m = On then elapsed + (t' - since) else elapsed) t' (sw_run rnd [(ev, t')] t)"
    using sw_rel_event [OF Cons.prems(1,2) t'(1), of ev] by (simp add: numeral_eq_Suc)
  from Cons.IH [OF Cons.prems(1) this t'(2)]
  show ?case unfolding e sw_run_Cons [of rnd "(ev, t')" es t] by (simp del: sw_run.simps)
qed

text \<open>Less than a unit away, truncation is at most one off.\<close>

lemma trunc_near:
  assumes "\<bar>v - x\<bar> < 1" and "0 \<le> x"
  shows "\<bar>trunc v - \<lfloor>x\<rfloor>\<bar> \<le> 1"
proof (cases "0 \<le> v")
  case True
  then show ?thesis using assms by (simp add: trunc_def) linarith
next
  case False
  then have "\<lceil>v\<rceil> = 0" "\<lfloor>x\<rfloor> = 0" using assms by linarith+
  then show ?thesis using False by (simp add: trunc_def)
qed

section \<open>Properties\<close>

text \<open>Claim C39. The stopwatch counts its running time, up to the error of its arithmetic: after any history of starts,
  stops and resets, at times that do not go back, and with any rounding of relative error at most \<open>u\<close>, \<open>count\<close>
  is the truncation of a number whose relative distance from the exact running time in milliseconds (the time during
  which the watch ran since it was last reset) is at most \<open>(1 + u) ^ (n + 5) - 1\<close> for \<open>n\<close> events. So it is off by
  at most one millisecond as long as this error is below one, and with exact arithmetic it is the number of
  whole milliseconds.\<close>

theorem stopwatch_counts:
  fixes es t0 now
  defines "T \<equiv> run_time Off 0 t0 es now"
  assumes "rounding u rnd" and "in_time t0 es now"
  shows "(\<exists>v. sw_count rnd now (sw_run rnd es (Stopwatch_new False t0 t1)) = trunc v
        \<and> \<bar>v - of_int T / 1000000\<bar> \<le> ((1 + u) ^ (length es + 5) - 1) * (of_int T / 1000000))
    \<and> (((1 + u) ^ (length es + 5) - 1) * (of_int T / 1000000) < 1 \<longrightarrow>
        \<bar>sw_count rnd now (sw_run rnd es (Stopwatch_new False t0 t1)) - T div 1000000\<bar> \<le> 1)
    \<and> (u = 0 \<longrightarrow> sw_count rnd now (sw_run rnd es (Stopwatch_new False t0 t1)) = T div 1000000)"
proof -
  have "sw_rel u (0 + 2) Off 0 t0 (Stopwatch_new False t0 t1)" by (simp add: sw_rel_def Stopwatch_new_def)
  from sw_run_count [OF assms(2) this assms(3)] obtain v where
    v: "sw_count rnd now (sw_run rnd es (Stopwatch_new False t0 t1)) = trunc v"
      "0 \<le> (of_int T / 1000000 :: rat)" "\<bar>v - of_int T / 1000000\<bar> \<le> ((1 + u) ^ (length es + 5) - 1) * (of_int T / 1000000)"
    by (auto simp: near_def T_def)
  have fl: "\<lfloor>of_int T / 1000000 :: rat\<rfloor> = T div 1000000" using floor_divide_of_int_eq [of T 1000000, where 'a = rat] by simp
  have "\<bar>trunc v - T div 1000000\<bar> \<le> 1" if "((1 + u) ^ (length es + 5) - 1) * (of_int T / 1000000) < 1"
    using trunc_near [of v "of_int T / 1000000"] v(2,3) that fl by auto
  moreover have "trunc v = T div 1000000" if "u = 0"
  proof -
    have "v = of_int T / 1000000" using v(3) that by simp
    then show ?thesis using v(2) fl by (simp only: trunc_def if_True)
  qed
  ultimately show ?thesis using v by auto
qed

theorem stopwatch_counts_witness:
  "\<bar>sw_count ld_round 9000000 (sw_run ld_round [(Start, 1000000), (Stop, 3500000), (Start, 5000000), (Start, 6000000)]
     (Stopwatch_new False 0 0)) - 6\<bar> \<le> 1"
  using stopwatch_counts [OF ld_round_rounding, of 0 "[(Start, 1000000), (Stop, 3500000), (Start, 5000000), (Start, 6000000)]"
      9000000 0] by (simp add: power_divide)

text \<open>One off is possible: with the \<open>long double\<close> of the x87 format a watch stopped after exactly one millisecond counts
  zero, since a thousandth is rounded down and then multiplied by a thousand.\<close>

lemma one_millisecond_lost:
  "sw_count ld_round 5000000 (sw_run ld_round [(Start, 0), (Stop, 1000000)] (Stopwatch_new False 0 0)) = 0"
  by code_simp

text \<open>Whatever the rounding, a stopped watch stands still and a running one is not disturbed by \<open>start\<close>.\<close>

lemma stopped_stands_still:
  "sw_count rnd now (sw_stop rnd t1 (sw_start t0 t)) = sw_count rnd now' (sw_stop rnd t1 (sw_start t0 t))"
  "sw_started t \<and> \<not> sw_paused t \<Longrightarrow> sw_start now t = t"
  by (simp_all add: sw_count_def sw_stop_def sw_start_def)

end
