(* ===== verification/Spec2Isabelle.thy ===== *)
theory Spec2Isabelle
  imports AcceptLoop FunctorQueue Reactor RequestTypes PoolPrograms LogPrograms ThreadPool ConnectionPool Stopwatch
begin

text \<open>
  A verification library of the network library under \<open>src/src\<close>: a C++ reactor in the style of
  muduo, with an HTTP server, timers, an asynchronous logger, a memory pool, thread pools and a
  pool of database connections.

  \<^bold>\<open>The program.\<close> One \<open>EventLoop\<close> per thread polls an \<open>EPollPoller\<close>, dispatches the events to \<open>Channel\<close>s
  and runs functors that other threads queued. A \<open>TcpServer\<close> owns an \<open>Acceptor\<close> in the main loop and
  an \<open>EventLoopThreadPool\<close>; each accepted socket becomes a \<open>TcpConnection\<close> of one of the pool's loops,
  with an input and an output \<open>Buffer\<close>. \<open>HttpServer\<close> parses requests with \<open>HttpContext\<close> and prints
  responses with \<open>HttpResponse\<close>. A \<open>TimerQueue\<close> multiplexes timers on one descriptor of its loop.
  \<open>Logger\<close> formats a line into a \<open>LogStream\<close>; \<open>AsyncLogging\<close> moves lines to a writer thread, which
  appends them to a \<open>LogFile\<close>. \<open>MemoryPool\<close>, \<open>ThreadPool\<close>, \<open>ConnectionPool\<close> and a stopwatch stand alone.

  \<^bold>\<open>Theories, their sources and what they show.\<close>
  \<^item> \<open>Prelude\<close>: results with the ways a C++ run stops, \<open>size_t\<close> and \<open>int\<close> arithmetic with its
    wrap-around, block copies, searches, \<open>snprintf\<close> conversions. \<open>Transitions\<close>: reachable states, the
    locales \<open>transition_invariant\<close> and \<open>refinement\<close> that the step relations below instantiate, and the
    abstract executor that event loop and thread pool implement.
  \<^item> \<open>Buffer\<close> (\<open>net/Buffer.h\<close>, \<open>Buffer.cc\<close>): the vector with its two indices. The invariant \<open>buf_ok\<close>,
    \<open>append\<close> through compaction and growth, \<open>readFd\<close> with its stack block; the locale \<open>byte_queue\<close> states
    the FIFO contract and is interpreted on the buffer.
  \<^item> \<open>Timestamp\<close>, \<open>InetAddress\<close> (\<open>base/Timestamp.*\<close>, \<open>net/InetAddress.*\<close>): printing and bounds.
  \<^item> \<open>HttpContext\<close> (\<open>http/HttpRequest.h\<close>, \<open>HttpContext.*\<close>): the parser on the buffer refines an automaton
    on byte strings, and parsing inverts printing. \<open>RequestTypes\<close>: what the fields of a parsed request can
    be, on any input. \<open>HttpResponse\<close>: serialisation.
  \<^item> \<open>Poller\<close> (\<open>net/Channel.*\<close>, \<open>net/poller/*\<close>): channels, the poller's table and the kernel's interest
    list, seen through the locale \<open>epoll_kernel\<close>, agree after any history.
  \<^item> \<open>EventLoop\<close> (\<open>net/EventLoop.*\<close>): pending functors and the eventfd, as functions and as a step relation
    over threads: no wake-up is lost, and the loop refines the executor.
  \<^item> \<open>TimerQueue\<close> (\<open>timer/*\<close>): expiry, repetition and arming of the descriptor, on 64-bit time stamps that wrap. \<open>Reactor\<close> composes it with
    \<open>EventLoop\<close> and \<open>Poller\<close>, from the constructor of the loop to its destructor: the composition refines the
    threads of the loop, wake-ups reach the kernel, and timers added by any thread are owned by
    the queue or by one functor. The descriptor is armed for the earliest of them, unless it has once fired before the wall clock reached
    that time; this is not excluded, and noted in \<open>re_early\<close>.
  \<^item> \<open>TcpConnection\<close> (\<open>net/TcpConnection.*\<close>, \<open>net/Callback.h\<close>): every operation keeps \<open>conn_inv\<close>, and the bytes
    on the wire followed by the output buffer are the messages accepted; half-close after draining.
    The lemmas are proved inside \<open>epoll_kernel\<close>, for any kernel that honours its contract.
  \<^item> \<open>LoopPool\<close>, \<open>Acceptor\<close>, \<open>TcpServer\<close> (\<open>net/EventLoopThread*\<close>, \<open>net/Socket.*\<close>, \<open>net/Acceptor.*\<close>,
    \<open>net/TcpServer.*\<close>): life of a loop thread from start to destructor, rotation of loops, life of the
    listening socket, and the life of connections over several loops as a step relation.
  \<^item> \<open>ConnLife\<close> and \<open>ServerSystem\<close> compose \<open>TcpServer\<close>, \<open>TcpConnection\<close> and \<open>Poller\<close>: the functors and events of the
    server run the real operations of the connection objects on the pollers of their loops. The
    composition refines the server's step relation; callbacks come in the promised order, and
    the kernel watches exactly the established connections. \<open>ServerLoop\<close> adds the loops that drive them
    (\<open>EventLoop::loop\<close>): polls, dispatches and batches of functors of all threads refine this composition. \<open>FunctorQueue\<close> gives
    each loop the one queue of the code, in which the functors that connections queue for themselves (bound to the raw \<open>this\<close>) stand
    among those of the server: no functor finds its connection freed unless a send of another thread came late, no
    channel of a poll is handled after its connection died, and every round makes progress.
  \<^item> \<open>HttpServer\<close> (\<open>http/HttpServer.*\<close>, \<open>http/main.cc\<close>) and \<open>EchoServer\<close> (\<open>example/echoServer.cc\<close>): the
    handlers end to end, from received bytes to the outgoing stream. \<open>Programs\<close>: construction, start and
    \<open>main\<close> of both programs; how they spread connections and what they serve. \<open>HandlerLoop\<close> calls the handlers
    from the dispatch of \<open>ServerLoop\<close>: the locale \<open>message_handler\<close> says what the loops rely on, and both handlers
    meet it, so the servers with their handlers are systems of \<open>ServerLoop\<close>, and a request that a loop reads is answered. \<open>AcceptLoop\<close> adds the acceptor to the
    main loop: the locale \<open>listening_system\<close> accepts only where \<open>Channel::handleEvent\<close> calls \<open>Acceptor::handleRead\<close>. The listening
    channel stays registered whatever the connections do, and a pending connection is accepted.
  \<^item> \<open>LogStream\<close>, \<open>Logging\<close>, \<open>LogFile\<close>, \<open>AsyncLogging\<close> (\<open>logger/*\<close>): formatting, log statements and the global
    logger, files that roll, and the interleaving of loggers and writer. The locale \<open>stdio\<close> states what the C library promises; it is a sublocale of
    \<open>log_sink\<close>, the contract of a log file on which the writer's lemmas rest. \<open>LogPrograms\<close>
    (\<open>example/echoServerAsync.cc\<close>): the set-up of a log and its statements composed with the threads of the
    logger; where a logged line stands on the disk, and that a round of the writer saves all lines.
  \<^item> \<open>MemoryPool\<close> (\<open>memory/*\<close>): pages and large blocks in an explicit store of nodes; allocations are
    aligned and disjoint. \<open>LargeBlocks\<close>: large blocks are apart from each other and from the pages, and owned, freed and reset exactly.
    \<open>PoolPrograms\<close> (\<open>memory/test/MemoryPoolTest.cc\<close>): what destroying a pool does, and how the test of the pool ends.
  \<^item> \<open>ThreadPool\<close> (\<open>base/CurrentThread.*\<close>, \<open>Thread.*\<close>, \<open>ThreadPool.*\<close>): workers and tasks as a step relation in which
    the workers are created one by one and a task counts as taken when a worker runs it;
    no wake-up is lost, stopping drains the queue when no task throws, and the pool refines the executor.
  \<^item> \<open>MysqlConn\<close> (\<open>mysql/MysqlConn.*\<close>): result sets over a client library that honours the locale
    \<open>mysql_client\<close>. \<open>ConnectionPool\<close> (\<open>mysql/ConnectionPool.*\<close>) on top of it: connections are exclusive and never used
    after deletion, the recycler is complete; the count of connections drifts.
  \<^item> \<open>Stopwatch\<close> (\<open>include/tiny_network/base/chrono/Timer.h\<close>): how far counting can be from the running time of a history, for
    every rounding of bounded relative error; the rounding to a significand of 64 bits is one.

  \<^bold>\<open>How the code is represented.\<close> Objects are records, enumerations datatypes, event masks words. A
  function of the source is a function of the model with the state passed explicitly; an access
  out of bounds, a null or dangling pointer, an empty \<open>std::function\<close> or \<open>abort\<close> is a value of
  \<open>cpp_error\<close>. A loop that may not end is a \<open>partial_function\<close> whose missing result is \<open>None\<close>, so that a
  theorem about it also says that it returns. Threads interleave at their mutexes: a critical section is one
  step, and waits are steps that other steps enable. System calls, clocks, \<open>localtime\<close>, the MySQL
  client, the rounding of \<open>long double\<close> and user callbacks are arguments; what the code relies on are
  hypotheses with names (\<open>epoll_kernel\<close>, \<open>stdio\<close>, \<open>mysql_client\<close>, \<open>write_bounded\<close>, \<open>readv_bounded\<close>, \<open>lists_entries\<close>), each with
  an instance. In \<open>ServerSystem\<close> and \<open>ServerLoop\<close> the queues of the loops hold the functors of the server,
  and those that a connection queues to itself may run at any time while it lives; \<open>FunctorQueue\<close>, where they run from the queue of
  their loop, refines this. A call of a user is one step there, except for a \<open>send\<close> of another thread that checks \<open>state_\<close> before the
  connection closes and queues after it. A connection meets the events its
  environment can send (\<open>may_meet\<close>); the one report of the kernel outside, a hang-up with urgent
  data and without readability, closes a connection twice (properties C8 and C15).

  \<^bold>\<open>Bounds.\<close> Sizes are natural numbers below \<open>2 ^ 64\<close> with the wrap-around written out; theorems
  about growing buffers bound their size by \<open>2 ^ 62\<close> or so, far beyond any memory, and messages by \<open>2 ^ 31\<close>
  where the code narrows a length to \<open>int\<close>. No definition uses fuel.

  \<^bold>\<open>Not modelled.\<close> \<open>mysql/json.hpp\<close> is third-party code of which only parsed values are used. The headers
  under \<open>src/include/tiny_network\<close> are copies, except for the stopwatch. Tests (but for the query of the connection
  pool's test and the programs of the thread pool's and the memory pool's) and build files have no logic of their own.
  Log output in the network code is left out, except where \<open>LOG_FATAL\<close> aborts. The wake-up and timer channels of a
  loop are composed with its poller in \<open>Reactor\<close>, not with the connections of \<open>ServerLoop\<close>, where a poll may return at
  any time; \<open>EventLoop::quit\<close> ends the loops of \<open>EventLoop\<close> only. What follows an urgent hang-up is not modelled, nor a \<open>shutdown\<close> of
  another thread whose two accesses to \<open>state_\<close> are interleaved with the closing of the connection.
\<close>

end
